(* ===== verification/Prelude.thy ===== *)
theory Prelude
  imports Main "HOL-Library.Word"
begin

text \<open>
  Shared vocabulary of the development: the outcome of running kernel code, the machine
  types of the sources, and generic facts on outcomes, lists and words that the component
  theories use through the collections declared here.
\<close>

unbundle bit_operations_syntax

named_theorems res_simps \<open>rewriting of outcomes\<close>
named_theorems byte_simps \<open>lengths and values of encoded bytes\<close>

section \<open>Machine types\<close>

type_synonym u8 = "8 word"
type_synonym u16 = "16 word"
type_synonym u32 = "32 word"
type_synonym u64 = "64 word"
type_synonym bytes = "u8 list"

section \<open>Outcomes\<close>

text \<open>
  A call returns (\<open>Ok\<close>), stops the machine (\<open>Fault\<close>: a bug check, an access through
  a bad pointer, a failed assertion), or waits for something that never happens (\<open>Hang\<close>).
\<close>

datatype 'a res = Ok 'a | Fault | Hang

fun bindR :: "'a res \<Rightarrow> ('a \<Rightarrow> 'b res) \<Rightarrow> 'b res" where
  "bindR (Ok x) f = f x"
| "bindR Fault f = Fault"
| "bindR Hang f = Hang"

definition guardR :: "bool \<Rightarrow> unit res" where
  "guardR b = (if b then Ok () else Fault)"

fun is_Ok :: "'a res \<Rightarrow> bool" where
  "is_Ok (Ok _) = True"
| "is_Ok _ = False"

lemma bindR_cong [fundef_cong]:
  "m = m' \<Longrightarrow> (\<And>x. m' = Ok x \<Longrightarrow> f x = g x) \<Longrightarrow> bindR m f = bindR m' g"
  by (cases m') auto

lemma bindR_Ok_iff [res_simps]:
  "bindR m f = Ok y \<longleftrightarrow> (\<exists>x. m = Ok x \<and> f x = Ok y)"
  by (cases m) auto

lemma bindR_assoc: "bindR (bindR m f) g = bindR m (\<lambda>x. bindR (f x) g)"
  by (cases m) auto

lemma bindR_Ok_right: "bindR m Ok = m"
  by (cases m) auto

lemma guardR_Ok_iff [res_simps]: "guardR b = Ok u \<longleftrightarrow> b"
  by (simp add: guardR_def)

lemma guardR_True [simp]: "guardR True = Ok ()"
  by (simp add: guardR_def)

lemma guardR_False [simp]: "guardR False = Fault"
  by (simp add: guardR_def)

lemma is_Ok_iff: "is_Ok m \<longleftrightarrow> (\<exists>x. m = Ok x)"
  by (cases m) auto

fun of_opt :: "'a option \<Rightarrow> 'a res" where
  "of_opt (Some x) = Ok x"
| "of_opt None = Fault"

lemma of_opt_Ok_iff [res_simps]: "of_opt m = Ok x \<longleftrightarrow> m = Some x"
  by (cases m) auto

text \<open>Whenever the first computation returns, so does the second, with a related result.\<close>

definition relR :: "('a \<Rightarrow> 'b \<Rightarrow> bool) \<Rightarrow> 'a res \<Rightarrow> 'b res \<Rightarrow> bool" where
  "relR P a b \<longleftrightarrow> (\<forall>x. a = Ok x \<longrightarrow> (\<exists>y. b = Ok y \<and> P x y))"

lemma relR_D: "relR P a b \<Longrightarrow> a = Ok x \<Longrightarrow> \<exists>y. b = Ok y \<and> P x y"
  by (simp add: relR_def)

lemma relR_eqD: "relR (=) a b \<Longrightarrow> a = Ok x \<Longrightarrow> b = Ok x"
  by (simp add: relR_def)

lemma relR_Ok [simp]: "relR P (Ok x) (Ok y) \<longleftrightarrow> P x y"
  by (simp add: relR_def)

lemma relR_Fault [simp]: "relR P Fault b"
  by (simp add: relR_def)

lemma relR_Hang [simp]: "relR P Hang b"
  by (simp add: relR_def)

lemma relR_refl: "relR (=) a a"
  by (simp add: relR_def)

lemma relR_bind:
  "relR P a b \<Longrightarrow> (\<And>x y. a = Ok x \<Longrightarrow> b = Ok y \<Longrightarrow> P x y \<Longrightarrow> relR Q (f x) (g y))
    \<Longrightarrow> relR Q (bindR a f) (bindR b g)"
  by (fastforce simp: relR_def bindR_Ok_iff)

lemma relR_bind_same:
  "(\<And>x. a = Ok x \<Longrightarrow> relR Q (f x) (g x)) \<Longrightarrow> relR Q (bindR a f) (bindR a g)"
  by (cases a) auto

section \<open>Returning with a property\<close>

definition gives :: "('a \<Rightarrow> bool) \<Rightarrow> 'a res \<Rightarrow> bool" where
  "gives P r \<longleftrightarrow> (\<exists>x. r = Ok x \<and> P x)"

lemma gives_Ok [simp]: "gives P (Ok x) \<longleftrightarrow> P x"
  by (simp add: gives_def)

lemma gives_bind: "gives P a \<Longrightarrow> (\<And>x. P x \<Longrightarrow> gives Q (f x)) \<Longrightarrow> gives Q (bindR a f)"
  by (auto simp: gives_def)

lemma gives_bind_Ok: "a = Ok x \<Longrightarrow> gives Q (f x) \<Longrightarrow> gives Q (bindR a f)"
  by simp

lemma gives_mono: "gives P a \<Longrightarrow> (\<And>x. P x \<Longrightarrow> Q x) \<Longrightarrow> gives Q a"
  by (auto simp: gives_def)

lemma gives_if: "(b \<Longrightarrow> gives P x) \<Longrightarrow> (\<not> b \<Longrightarrow> gives P y) \<Longrightarrow> gives P (if b then x else y)"
  by simp

text \<open>What holds of a result, if there is one.\<close>

definition post :: "('a \<Rightarrow> bool) \<Rightarrow> 'a res \<Rightarrow> bool" where
  "post P r \<longleftrightarrow> (\<forall>x. r = Ok x \<longrightarrow> P x)"

lemma post_Ok [simp]: "post P (Ok x) \<longleftrightarrow> P x"
  by (simp add: post_def)

lemma post_bind: "(\<And>x. a = Ok x \<Longrightarrow> post P (f x)) \<Longrightarrow> post P (bindR a f)"
  by (auto simp: post_def bindR_Ok_iff)

lemma post_fault [simp]: "post P Fault" "post P Hang"
  by (simp_all add: post_def)

lemma post_use: "post Q a \<Longrightarrow> (\<And>x. Q x \<Longrightarrow> post P (f x)) \<Longrightarrow> post P (bindR a f)"
  by (auto simp: post_def bindR_Ok_iff)

lemma post_if: "(b \<Longrightarrow> post P x) \<Longrightarrow> (\<not> b \<Longrightarrow> post P y) \<Longrightarrow> post P (if b then x else y)"
  by simp

lemma post_option: "(x = None \<Longrightarrow> post P a) \<Longrightarrow> (\<And>y. x = Some y \<Longrightarrow> post P (f y)) \<Longrightarrow> post P (case x of None \<Rightarrow> a | Some y \<Rightarrow> f y)"
  by (cases x) auto

lemma post_prod: "(\<And>a b. x = (a, b) \<Longrightarrow> post P (f a b)) \<Longrightarrow> post P (case x of (a, b) \<Rightarrow> f a b)"
  by (cases x) auto

lemmas post_intros = post_if post_option post_prod post_bind

section \<open>Maps\<close>

text \<open>The block a map loses or gains when one key changes.\<close>

lemma dom_upd_Some: "m x = Some y \<Longrightarrow> dom (m(x \<mapsto> z)) = dom m"
  by (auto simp: dom_def)

lemma map_le_fresh: "m x = None \<Longrightarrow> m \<subseteq>\<^sub>m m(x \<mapsto> y)"
  by (auto simp: map_le_def dom_def)

lemma fresh_upd_undo: "m x = None \<Longrightarrow> (m(x \<mapsto> y))(x := None) = m"
  by auto

end
