(* ===== verification/Byteorder.thy ===== *)
theory Byteorder
  imports Prelude
begin

text \<open>
  \<^verbatim>\<open>ksocket/utils.c\<close>: the host/network byte order functions of the kernel build. They are
  the compiler's byte swaps, modelled on the words themselves.
\<close>

section \<open>The byte swaps\<close>

text \<open>\<open>byte_of w i\<close> is byte \<open>i\<close> of a word, least significant first.\<close>

definition byte_of :: "'a::len word \<Rightarrow> nat \<Rightarrow> u8" where
  "byte_of w i = ucast (drop_bit (8 * i) w)"

definition bswap16 :: "u16 \<Rightarrow> u16" where
  "bswap16 x = push_bit 8 (take_bit 8 x) OR drop_bit 8 x"

definition bswap32 :: "u32 \<Rightarrow> u32" where
  "bswap32 x = push_bit 24 (take_bit 8 x) OR push_bit 16 (take_bit 8 (drop_bit 8 x))
     OR push_bit 8 (take_bit 8 (drop_bit 16 x)) OR drop_bit 24 x"

definition bswap64 :: "u64 \<Rightarrow> u64" where
  "bswap64 x = push_bit 56 (take_bit 8 x) OR push_bit 48 (take_bit 8 (drop_bit 8 x))
     OR push_bit 40 (take_bit 8 (drop_bit 16 x)) OR push_bit 32 (take_bit 8 (drop_bit 24 x))
     OR push_bit 24 (take_bit 8 (drop_bit 32 x)) OR push_bit 16 (take_bit 8 (drop_bit 40 x))
     OR push_bit 8 (take_bit 8 (drop_bit 48 x)) OR drop_bit 56 x"

definition htonll :: "u64 \<Rightarrow> u64" where "htonll hostlonglong = bswap64 hostlonglong"
definition htonl :: "u32 \<Rightarrow> u32" where "htonl hostlong = bswap32 hostlong"
definition htons :: "u16 \<Rightarrow> u16" where "htons hostshort = bswap16 hostshort"
definition ntohll :: "u64 \<Rightarrow> u64" where "ntohll netlonglong = bswap64 netlonglong"
definition ntohl :: "u32 \<Rightarrow> u32" where "ntohl netlong = bswap32 netlong"
definition ntohs :: "u16 \<Rightarrow> u16" where "ntohs netshort = bswap16 netshort"

section \<open>Correctness\<close>

text \<open>Byte \<open>i\<close> of a swapped word is byte \<open>n - 1 - i\<close> of the word.\<close>

lemma byte_of_bswap16: "i < 2 \<Longrightarrow> byte_of (bswap16 x) i = byte_of x (1 - i)"
  unfolding bswap16_def byte_of_def
  by (rule bit_word_eqI) (auto simp: bit_simps less_2_cases_iff dest: bit_imp_le_length)

lemma byte_of_bswap32: "i < 4 \<Longrightarrow> byte_of (bswap32 x) i = byte_of x (3 - i)"
proof -
  assume "i < 4"
  then consider "i = 0" | "i = 1" | "i = 2" | "i = 3" by linarith
  then show ?thesis
    by cases (auto intro!: bit_word_eqI simp: bswap32_def byte_of_def bit_simps)
qed

lemma byte_of_bswap64: "i < 8 \<Longrightarrow> byte_of (bswap64 x) i = byte_of x (7 - i)"
proof -
  assume "i < 8"
  then consider "i = 0" | "i = 1" | "i = 2" | "i = 3" | "i = 4" | "i = 5" | "i = 6" | "i = 7"
    by linarith
  then show ?thesis
    by cases (auto intro!: bit_word_eqI simp: bswap64_def byte_of_def bit_simps)
qed

text \<open>A word is determined by its bytes.\<close>

lemma word_eq_bytesI:
  fixes x y :: "'a::len word"
  assumes "\<And>i. 8 * i < LENGTH('a) \<Longrightarrow> byte_of x i = byte_of y i"
  shows "x = y"
proof (rule bit_word_eqI)
  fix n assume n: "n < LENGTH('a)"
  have "8 * (n div 8) < LENGTH('a)" 
    using n by (rule le_less_trans [OF times_div_less_eq_dividend])
  then have "byte_of x (n div 8) = byte_of y (n div 8)" by (rule assms)
  then have "bit (byte_of x (n div 8)) (n mod 8) = bit (byte_of y (n div 8)) (n mod 8)" by simp
  then show "bit x n = bit y n" by (simp add: byte_of_def bit_simps)
qed

lemma bswap16_involutive [simp]: "bswap16 (bswap16 x) = x"
  by (rule word_eq_bytesI) (simp add: byte_of_bswap16)

lemma bswap32_involutive [simp]: "bswap32 (bswap32 x) = x"
  by (rule word_eq_bytesI) (simp add: byte_of_bswap32)

lemma bswap64_involutive [simp]: "bswap64 (bswap64 x) = x"
  by (rule word_eq_bytesI) (simp add: byte_of_bswap64)

section \<open>Properties\<close>

text \<open>C24: The host-to-network functions store a number big end first: byte \<open>i\<close> in memory (little
  endian host) of the converted number is its byte of weight \<open>n - 1 - i\<close>; and converting back
  gives the number, in both directions, for the three widths.\<close>

theorem network_byte_order:
  "(\<forall>i<2. byte_of (htons h) i = byte_of h (1 - i)) \<and> ntohs (htons h) = h \<and> htons (ntohs h) = h
   \<and> (\<forall>i<4. byte_of (htonl w) i = byte_of w (3 - i)) \<and> ntohl (htonl w) = w \<and> htonl (ntohl w) = w
   \<and> (\<forall>i<8. byte_of (htonll q) i = byte_of q (7 - i)) \<and> ntohll (htonll q) = q \<and> htonll (ntohll q) = q"
  by (simp add: htons_def ntohs_def htonl_def ntohl_def htonll_def ntohll_def
      byte_of_bswap16 byte_of_bswap32 byte_of_bswap64)

theorem network_byte_order_witness:
  "byte_of (htonl 0x01020304) 0 = 1 \<and> ntohl (htonl 0x01020304) = 0x01020304"
proof -
  have "byte_of (htonl 0x01020304) 0 = byte_of (0x01020304 :: u32) 3"
    using network_byte_order [of 0 "0x01020304" 0] by simp
  also have "\<dots> = 1" by (simp add: byte_of_def)
  finally show ?thesis using network_byte_order [of 0 "0x01020304" 0] by simp
qed

end
