(* ===== verification/Kernel.thy ===== *)
theory Kernel
  imports Prelude
begin

text \<open>
  The part of the Windows kernel and of the Winsock Kernel (WSK) provider that
  \<^verbatim>\<open>ksocket/ksocket.c\<close> and \<^verbatim>\<open>ksocket/berkeley.c\<close> call. Neither is part of the
  repository: their decisions (does an allocation succeed, what does the provider answer)
  are the functions of a parameter of type \<open>env\<close>, which sees the whole log of calls made
  so far. What the wrappers themselves rely on, the identity of blocks, IRPs, MDLs and
  events and whether they are still allocated, is explicit state (\<open>world\<close>).
  The dispatch tables are laid out as \<^verbatim>\<open>ksocket/wsk.h\<close> declares them.
\<close>

section \<open>Status codes\<close>

type_synonym ntstatus = u32

definition NT_SUCCESS :: "ntstatus \<Rightarrow> bool" where
  "NT_SUCCESS st \<longleftrightarrow> 0 \<le> sint st"

definition STATUS_SUCCESS :: ntstatus where "STATUS_SUCCESS = 0"
definition STATUS_PENDING :: ntstatus where "STATUS_PENDING = 0x103"
definition STATUS_UNSUCCESSFUL :: ntstatus where "STATUS_UNSUCCESSFUL = 0xC0000001"
definition STATUS_INSUFFICIENT_RESOURCES :: ntstatus where
  "STATUS_INSUFFICIENT_RESOURCES = 0xC000009A"

text \<open>The severity constants of \<^verbatim>\<open>ntstatus.h\<close> are the two-bit codes 0 to 3; \<^verbatim>\<open>ksocket.h\<close>
  uses the error code unshifted.\<close>

definition STATUS_SEVERITY_ERROR :: ntstatus where "STATUS_SEVERITY_ERROR = 3"

definition STATUS_UNSUPPORTED_WINDOWS_VERSION :: ntstatus where
  "STATUS_UNSUPPORTED_WINDOWS_VERSION =
     STATUS_SEVERITY_ERROR OR push_bit 29 1 OR push_bit 16 1 OR 1"

lemma NT_SUCCESS_simps [simp]:
  "NT_SUCCESS STATUS_SUCCESS" "NT_SUCCESS STATUS_PENDING"
  "\<not> NT_SUCCESS STATUS_UNSUCCESSFUL" "\<not> NT_SUCCESS STATUS_INSUFFICIENT_RESOURCES"
  by (simp_all add: NT_SUCCESS_def STATUS_SUCCESS_def STATUS_PENDING_def STATUS_UNSUCCESSFUL_def
      STATUS_INSUFFICIENT_RESOURCES_def)

lemma STATUS_distinct [simp]:
  "STATUS_PENDING \<noteq> STATUS_SUCCESS" "STATUS_SUCCESS \<noteq> STATUS_PENDING"
  "STATUS_UNSUCCESSFUL \<noteq> STATUS_PENDING" "STATUS_INSUFFICIENT_RESOURCES \<noteq> STATUS_PENDING"
  by (simp_all add: STATUS_SUCCESS_def STATUS_PENDING_def STATUS_UNSUCCESSFUL_def
      STATUS_INSUFFICIENT_RESOURCES_def)

section \<open>Dispatch tables of \<^verbatim>\<open>wsk.h\<close>\<close>

datatype wsk_fn = WskControlSocket | WskCloseSocket | WskBind | WskConnect
  | WskGetLocalAddress | WskGetRemoteAddress | WskSend | WskReceive | WskDisconnect
  | WskRelease | WskConnectEx | WskSendEx | WskReceiveEx | WskAccept | WskInspectComplete
  | WskSendTo | WskReceiveFrom | WskReleaseDatagram | WskSendMessages

datatype disp_kind = BasicDispatch | ConnectionDispatch | ListenDispatch | DatagramDispatch

definition WSK_PROVIDER_BASIC_DISPATCH :: "wsk_fn list" where
  "WSK_PROVIDER_BASIC_DISPATCH = [WskControlSocket, WskCloseSocket]"

definition WSK_PROVIDER_CONNECTION_DISPATCH :: "wsk_fn list" where
  "WSK_PROVIDER_CONNECTION_DISPATCH = WSK_PROVIDER_BASIC_DISPATCH @
     [WskBind, WskConnect, WskGetLocalAddress, WskGetRemoteAddress, WskSend, WskReceive,
      WskDisconnect, WskRelease, WskConnectEx, WskSendEx, WskReceiveEx]"

definition WSK_PROVIDER_LISTEN_DISPATCH :: "wsk_fn list" where
  "WSK_PROVIDER_LISTEN_DISPATCH = WSK_PROVIDER_BASIC_DISPATCH @
     [WskBind, WskAccept, WskInspectComplete, WskGetLocalAddress]"

definition WSK_PROVIDER_DATAGRAM_DISPATCH :: "wsk_fn list" where
  "WSK_PROVIDER_DATAGRAM_DISPATCH = WSK_PROVIDER_BASIC_DISPATCH @
     [WskBind, WskSendTo, WskReceiveFrom, WskReleaseDatagram, WskGetLocalAddress,
      WskSendMessages]"

fun dispatch_table :: "disp_kind \<Rightarrow> wsk_fn list" where
  "dispatch_table BasicDispatch = WSK_PROVIDER_BASIC_DISPATCH"
| "dispatch_table ConnectionDispatch = WSK_PROVIDER_CONNECTION_DISPATCH"
| "dispatch_table ListenDispatch = WSK_PROVIDER_LISTEN_DISPATCH"
| "dispatch_table DatagramDispatch = WSK_PROVIDER_DATAGRAM_DISPATCH"

lemmas dispatch_defs = WSK_PROVIDER_BASIC_DISPATCH_def WSK_PROVIDER_CONNECTION_DISPATCH_def
  WSK_PROVIDER_LISTEN_DISPATCH_def WSK_PROVIDER_DATAGRAM_DISPATCH_def

fun slot_of :: "wsk_fn list \<Rightarrow> wsk_fn \<Rightarrow> nat" where
  "slot_of [] f = 0"
| "slot_of (g # gs) f = (if g = f then 0 else Suc (slot_of gs f))"

text \<open>
  \<open>Socket->WskXDispatch->f\<close>: the table of the socket is read at the slot that \<open>f\<close> has in
  the table type \<open>view\<close> of the union member. A slot past the table, or one that holds a
  function of another prototype, is a fault.
\<close>

definition dispatch_call :: "disp_kind \<Rightarrow> disp_kind \<Rightarrow> wsk_fn \<Rightarrow> unit res" where
  "dispatch_call actual view f =
     (let i = slot_of (dispatch_table view) f
      in guardR (i < length (dispatch_table actual) \<and> dispatch_table actual ! i = f))"

section \<open>Objects and the environment\<close>

type_synonym ptr = nat \<comment> \<open>0 is NULL\<close>

record async_context =
  CompletionEvent :: ptr
  Irp :: ptr

record ksocket =
  WskSocket :: u64
  WskDispatch :: disp_kind
  AsyncContext :: async_context

record addrinfo =
  ai_flags :: u32
  ai_family :: u32
  ai_socktype :: u32
  ai_protocol :: u32
  ai_addrlen :: u64
  ai_canonname :: ptr
  ai_addr :: ptr
  ai_next :: ptr

text \<open>Who gave the block out: the pool with a tag, the string routines of the runtime
  library, the WSK provider, or code outside the wrappers (a driver's own memory).\<close>

datatype owner = Pool u32 | RtlString | Provider | Caller

datatype body = Raw | BSocket ksocket | BInfoA addrinfo | BInfoW addrinfo
  | BAnsi bytes | BUni "u16 list"

record cell =
  owner :: owner
  body :: body

record irp =
  IoStatus_Status :: ntstatus
  IoStatus_Information :: u64
  Completion :: "ptr option" \<comment> \<open>the event given to the completion routine\<close>

record mdl =
  mdl_buffer :: ptr
  mdl_length :: u32
  mdl_locked :: bool

record wsk_buf =
  buf_mdl :: ptr
  buf_offset :: u32
  buf_length :: u64

text \<open>The calls the wrappers make through the provider, with the arguments that vary.\<close>

datatype wsk_call =
    CallGetAddressInfo ptr ptr ptr
  | CallFreeAddressInfo ptr
  | CallSocket u32 u16 u32 u32
  | CallClose u64
  | CallBind u64 ptr
  | CallBindAny u64
  | CallAccept u64 ptr ptr
  | CallConnect u64 ptr
  | CallSend u64 wsk_buf u32
  | CallReceive u64 wsk_buf u32
  | CallSendTo u64 wsk_buf u32 ptr
  | CallReceiveFrom u64 wsk_buf u32 ptr

datatype event =
    EvAlloc ptr u32 | EvAllocFail u32 | EvFree ptr
  | EvIrpAlloc ptr | EvIrpAllocFail | EvIrpReuse ptr | EvIrpFree ptr
  | EvMdlAlloc ptr | EvMdlLock ptr | EvMdlUnlock ptr | EvMdlFree ptr
  | EvWsk wsk_call | EvWait ptr
  | EvString ptr | EvStringFail
  | EvRegister | EvCapture | EvRelease | EvDeregister

text \<open>The provider's answer: the value the call returns, how the IRP completes (\<open>None\<close>
  when it never does), and the address list a lookup hands out.\<close>

record wsk_reply =
  rp_status :: ntstatus
  rp_iosb :: "(ntstatus \<times> u64) option"
  rp_result :: ptr

record os_version =
  wProductType :: u8
  dwMajorVersion :: u32
  dwMinorVersion :: u32

record env =
  pool_ok :: "event list \<Rightarrow> bool"
  irp_ok :: "event list \<Rightarrow> bool"
  mdl_ok :: "event list \<Rightarrow> bool"
  lock_ok :: "event list \<Rightarrow> bool"
  wsk :: "event list \<Rightarrow> wsk_call \<Rightarrow> wsk_reply"
  dispatch_of :: "u64 \<Rightarrow> disp_kind"
  get_version :: "ntstatus \<times> os_version"
  wsk_register :: "event list \<Rightarrow> ntstatus"
  wsk_capture :: "event list \<Rightarrow> ntstatus"
  ansi_to_unicode :: "event list \<Rightarrow> bytes \<Rightarrow> ntstatus \<times> u16 list"
  unicode_to_ansi :: "event list \<Rightarrow> u16 list \<Rightarrow> ntstatus \<times> bytes"

record world =
  heap :: "ptr \<rightharpoonup> cell"
  irps :: "ptr \<rightharpoonup> irp"
  mdls :: "ptr \<rightharpoonup> mdl"
  events :: "ptr \<rightharpoonup> bool"
  next_addr :: ptr
  registered :: bool
  captured :: bool
  log :: "event list" \<comment> \<open>newest first\<close>

definition logged :: "event \<Rightarrow> world \<Rightarrow> world" where
  "logged ev s = s\<lparr>log := ev # log s\<rparr>"

section \<open>Pool, IRPs, MDLs, events\<close>

definition ExAllocatePoolWithTag :: "env \<Rightarrow> u32 \<Rightarrow> world \<Rightarrow> ptr \<times> world" where
  "ExAllocatePoolWithTag e tag s =
     (if pool_ok e (log s)
      then (next_addr s, logged (EvAlloc (next_addr s) tag)
              (s\<lparr>heap := (heap s)(next_addr s \<mapsto> \<lparr>owner = Pool tag, body = Raw\<rparr>),
                 next_addr := Suc (next_addr s)\<rparr>))
      else (0, logged (EvAllocFail tag) s))"

definition ExFreePoolWithTag :: "ptr \<Rightarrow> u32 \<Rightarrow> world \<Rightarrow> world res" where
  "ExFreePoolWithTag p tag s =
     (case heap s p of
        Some c \<Rightarrow> (if owner c = Pool tag
                   then Ok (logged (EvFree p) (s\<lparr>heap := (heap s)(p := None)\<rparr>)) else Fault)
      | None \<Rightarrow> Fault)"

definition store :: "ptr \<Rightarrow> body \<Rightarrow> world \<Rightarrow> world res" where
  "store p b s = (case heap s p of
      Some c \<Rightarrow> Ok (s\<lparr>heap := (heap s)(p \<mapsto> c\<lparr>body := b\<rparr>)\<rparr>) | None \<Rightarrow> Fault)"

definition load :: "ptr \<Rightarrow> world \<Rightarrow> body res" where
  "load p s = (case heap s p of Some c \<Rightarrow> Ok (body c) | None \<Rightarrow> Fault)"

fun as_socket :: "body \<Rightarrow> ksocket res" where
  "as_socket (BSocket k) = Ok k"
| "as_socket _ = Fault"

definition load_socket :: "ptr \<Rightarrow> world \<Rightarrow> ksocket res" where
  "load_socket p s = bindR (load p s) as_socket"

definition IoAllocateIrp :: "env \<Rightarrow> world \<Rightarrow> ptr \<times> world" where
  "IoAllocateIrp e s =
     (if irp_ok e (log s)
      then (next_addr s, logged (EvIrpAlloc (next_addr s))
              (s\<lparr>irps := (irps s)(next_addr s \<mapsto>
                  \<lparr>IoStatus_Status = 0, IoStatus_Information = 0, Completion = None\<rparr>),
                 next_addr := Suc (next_addr s)\<rparr>))
      else (0, logged EvIrpAllocFail s))"

definition IoFreeIrp :: "ptr \<Rightarrow> world \<Rightarrow> world res" where
  "IoFreeIrp p s = (case irps s p of
      Some _ \<Rightarrow> Ok (logged (EvIrpFree p) (s\<lparr>irps := (irps s)(p := None)\<rparr>)) | None \<Rightarrow> Fault)"

definition IoReuseIrp :: "ptr \<Rightarrow> ntstatus \<Rightarrow> world \<Rightarrow> world res" where
  "IoReuseIrp p st s = (case irps s p of
      Some i \<Rightarrow> Ok (logged (EvIrpReuse p)
        (s\<lparr>irps := (irps s)(p \<mapsto>
            \<lparr>IoStatus_Status = st, IoStatus_Information = 0, Completion = None\<rparr>)\<rparr>))
    | None \<Rightarrow> Fault)"

text \<open>\<open>IoSetCompletionRoutine\<close> with the three invoke flags TRUE.\<close>

definition IoSetCompletionRoutine :: "ptr \<Rightarrow> ptr \<Rightarrow> world \<Rightarrow> world res" where
  "IoSetCompletionRoutine p ev s = (case irps s p of
      Some i \<Rightarrow> Ok (s\<lparr>irps := (irps s)(p \<mapsto> i\<lparr>Completion := Some ev\<rparr>)\<rparr>) | None \<Rightarrow> Fault)"

definition KeInitializeEvent :: "world \<Rightarrow> ptr \<times> world" where
  "KeInitializeEvent s = (next_addr s, s\<lparr>events := (events s)(next_addr s \<mapsto> False),
     next_addr := Suc (next_addr s)\<rparr>)"

definition KeSetEvent :: "ptr \<Rightarrow> world \<Rightarrow> world res" where
  "KeSetEvent ev s = (case events s ev of
      Some _ \<Rightarrow> Ok (s\<lparr>events := (events s)(ev \<mapsto> True)\<rparr>) | None \<Rightarrow> Fault)"

definition KeResetEvent :: "ptr \<Rightarrow> world \<Rightarrow> world res" where
  "KeResetEvent ev s = (case events s ev of
      Some _ \<Rightarrow> Ok (s\<lparr>events := (events s)(ev \<mapsto> False)\<rparr>) | None \<Rightarrow> Fault)"

text \<open>A synchronization event: a wait that is satisfied resets it.\<close>

definition KeWaitForSingleObject :: "ptr \<Rightarrow> world \<Rightarrow> world res" where
  "KeWaitForSingleObject ev s = (case events s ev of
      Some True \<Rightarrow> Ok (logged (EvWait ev) (s\<lparr>events := (events s)(ev \<mapsto> False)\<rparr>))
    | Some False \<Rightarrow> Hang | None \<Rightarrow> Fault)"

definition IoAllocateMdl :: "env \<Rightarrow> ptr \<Rightarrow> u32 \<Rightarrow> world \<Rightarrow> ptr \<times> world" where
  "IoAllocateMdl e b len s =
     (if mdl_ok e (log s)
      then (next_addr s, logged (EvMdlAlloc (next_addr s))
              (s\<lparr>mdls := (mdls s)(next_addr s \<mapsto>
                  \<lparr>mdl_buffer = b, mdl_length = len, mdl_locked = False\<rparr>),
                 next_addr := Suc (next_addr s)\<rparr>))
      else (0, s))"

text \<open>A failed probe raises an exception; the handlers of the source are compiled out, so
  nothing catches it.\<close>

definition MmProbeAndLockPages :: "env \<Rightarrow> ptr \<Rightarrow> world \<Rightarrow> world res" where
  "MmProbeAndLockPages e p s = (case mdls s p of
      Some m \<Rightarrow> (if lock_ok e (log s) then Ok (logged (EvMdlLock p)
                   (s\<lparr>mdls := (mdls s)(p \<mapsto> m\<lparr>mdl_locked := True\<rparr>)\<rparr>)) else Fault)
    | None \<Rightarrow> Fault)"

definition MmUnlockPages :: "ptr \<Rightarrow> world \<Rightarrow> world res" where
  "MmUnlockPages p s = (case mdls s p of
      Some m \<Rightarrow> (if mdl_locked m then Ok (logged (EvMdlUnlock p)
                   (s\<lparr>mdls := (mdls s)(p \<mapsto> m\<lparr>mdl_locked := False\<rparr>)\<rparr>)) else Fault)
    | None \<Rightarrow> Fault)"

definition IoFreeMdl :: "ptr \<Rightarrow> world \<Rightarrow> world res" where
  "IoFreeMdl p s = (case mdls s p of
      Some m \<Rightarrow> (if mdl_locked m then Fault
                 else Ok (logged (EvMdlFree p) (s\<lparr>mdls := (mdls s)(p := None)\<rparr>)))
    | None \<Rightarrow> Fault)"

lemmas kernel_defs = ExAllocatePoolWithTag_def ExFreePoolWithTag_def store_def load_def
  load_socket_def IoAllocateIrp_def IoFreeIrp_def IoReuseIrp_def IoSetCompletionRoutine_def
  KeInitializeEvent_def KeSetEvent_def KeResetEvent_def KeWaitForSingleObject_def
  IoAllocateMdl_def MmProbeAndLockPages_def MmUnlockPages_def IoFreeMdl_def

lemma logged_simps [simp]:
  "heap (logged ev s) = heap s" "irps (logged ev s) = irps s" "mdls (logged ev s) = mdls s"
  "events (logged ev s) = events s" "next_addr (logged ev s) = next_addr s"
  "registered (logged ev s) = registered s" "captured (logged ev s) = captured s"
  "log (logged ev s) = ev # log s"
  by (simp_all add: logged_def)

lemma load_socket_Ok_iff:
  "load_socket p s = Ok k \<longleftrightarrow> (\<exists>c. heap s p = Some c \<and> body c = BSocket k)"
proof (cases "heap s p")
  case None
  then show ?thesis by (simp add: load_socket_def load_def)
next
  case (Some c)
  then show ?thesis by (cases "body c") (simp_all add: load_socket_def load_def)
qed

text \<open>Fresh blocks: everything allocated lies below \<open>next_addr\<close>, and NULL is never given out.\<close>

definition fresh_ok :: "world \<Rightarrow> bool" where
  "fresh_ok s \<longleftrightarrow> 0 < next_addr s
     \<and> (\<forall>p. heap s p \<noteq> None \<longrightarrow> 0 < p \<and> p < next_addr s)
     \<and> (\<forall>p. irps s p \<noteq> None \<longrightarrow> 0 < p \<and> p < next_addr s)
     \<and> (\<forall>p. mdls s p \<noteq> None \<longrightarrow> 0 < p \<and> p < next_addr s)
     \<and> (\<forall>p. events s p \<noteq> None \<longrightarrow> 0 < p \<and> p < next_addr s)"

lemma fresh_okD:
  assumes "fresh_ok s"
  shows "0 < next_addr s" "heap s (next_addr s) = None" "irps s (next_addr s) = None"
    "mdls s (next_addr s) = None" "events s (next_addr s) = None"
    "heap s 0 = None" "irps s 0 = None" "mdls s 0 = None" "events s 0 = None"
  using assms unfolding fresh_ok_def by blast+

end
