(* ===== verification/Ksocket_Laws.thy ===== *)
theory Ksocket_Laws
  imports Ksocket
begin

text \<open>
  What the operations of \<^verbatim>\<open>ksocket/ksocket.c\<close> guarantee: the invariant of the socket
  heap and its preservation along every run of API calls, the resources each call takes and
  gives back, the status it returns, and the calls that leave something behind.
\<close>

section \<open>The invariant\<close>

definition socket_at :: "world \<Rightarrow> ptr \<Rightarrow> ksocket \<Rightarrow> bool" where
  "socket_at s p k \<longleftrightarrow> (\<exists>c. heap s p = Some c \<and> body c = BSocket k)"

definition ks_wf :: "world \<Rightarrow> bool" where
  "ks_wf s \<longleftrightarrow> fresh_ok s
     \<and> (\<forall>p c k. heap s p = Some c \<longrightarrow> body c = BSocket k \<longrightarrow> owner c = Pool MEMORY_TAG)
     \<and> (\<forall>p k. socket_at s p k \<longrightarrow> events s (CompletionEvent (AsyncContext k)) \<noteq> None
          \<and> (Irp (AsyncContext k) = 0 \<or> irps s (Irp (AsyncContext k)) \<noteq> None))
     \<and> (\<forall>p q k l. socket_at s p k \<longrightarrow> socket_at s q l \<longrightarrow> p \<noteq> q
          \<longrightarrow> CompletionEvent (AsyncContext k) \<noteq> CompletionEvent (AsyncContext l)
            \<and> (Irp (AsyncContext k) = Irp (AsyncContext l) \<longrightarrow> Irp (AsyncContext k) = 0))"

text \<open>A socket the API can operate on: it has the IRP that \<open>KsAccept\<close> may fail to give it.\<close>

definition usable :: "world \<Rightarrow> ptr \<Rightarrow> ksocket \<Rightarrow> bool" where
  "usable s p k \<longleftrightarrow> socket_at s p k \<and> Irp (AsyncContext k) \<noteq> 0"

definition initial_world :: world where
  "initial_world = \<lparr>heap = Map.empty, irps = Map.empty, mdls = Map.empty, events = Map.empty,
     next_addr = 1, registered = False, captured = False, log = []\<rparr>"

lemma ks_wf_initial: "ks_wf initial_world"
  by (simp add: ks_wf_def fresh_ok_def initial_world_def socket_at_def)

lemma socket_at_fun: "socket_at s p k \<Longrightarrow> socket_at s p l \<Longrightarrow> k = l"
  by (auto simp: socket_at_def)

lemma load_socket_at [res_simps]: "load_socket p s = Ok k \<longleftrightarrow> socket_at s p k"
  by (simp add: load_socket_Ok_iff socket_at_def)

lemma ks_wf_fresh: "ks_wf s \<Longrightarrow> fresh_ok s"
  by (simp add: ks_wf_def)

lemma ks_wf_socket:
  assumes "ks_wf s" and "socket_at s p k"
  shows "events s (CompletionEvent (AsyncContext k)) \<noteq> None"
    and "Irp (AsyncContext k) = 0 \<or> irps s (Irp (AsyncContext k)) \<noteq> None"
proof -
  from assms(1) have "\<forall>p k. socket_at s p k \<longrightarrow> events s (CompletionEvent (AsyncContext k)) \<noteq> None
      \<and> (Irp (AsyncContext k) = 0 \<or> irps s (Irp (AsyncContext k)) \<noteq> None)"
    unfolding ks_wf_def by blast
  with assms(2) show "events s (CompletionEvent (AsyncContext k)) \<noteq> None"
    and "Irp (AsyncContext k) = 0 \<or> irps s (Irp (AsyncContext k)) \<noteq> None"
    by blast+
qed

lemma ks_wf_owner: "ks_wf s \<Longrightarrow> heap s p = Some c \<Longrightarrow> body c = BSocket k \<Longrightarrow> owner c = Pool MEMORY_TAG"
  unfolding ks_wf_def by blast

lemma ks_wf_distinct:
  assumes "ks_wf s" and "socket_at s p k" and "socket_at s q l" and "p \<noteq> q"
  shows "CompletionEvent (AsyncContext k) \<noteq> CompletionEvent (AsyncContext l)"
    and "Irp (AsyncContext k) = Irp (AsyncContext l) \<longrightarrow> Irp (AsyncContext k) = 0"
proof -
  from assms(1) have "\<forall>p q k l. socket_at s p k \<longrightarrow> socket_at s q l \<longrightarrow> p \<noteq> q
      \<longrightarrow> CompletionEvent (AsyncContext k) \<noteq> CompletionEvent (AsyncContext l)
        \<and> (Irp (AsyncContext k) = Irp (AsyncContext l) \<longrightarrow> Irp (AsyncContext k) = 0)"
    unfolding ks_wf_def by (elim conjE)
  with assms(2-4) show "CompletionEvent (AsyncContext k) \<noteq> CompletionEvent (AsyncContext l)"
    and "Irp (AsyncContext k) = Irp (AsyncContext l) \<longrightarrow> Irp (AsyncContext k) = 0"
    by blast+
qed

lemma ks_wfI:
  assumes "fresh_ok s"
    and "\<And>p c k. heap s p = Some c \<Longrightarrow> body c = BSocket k \<Longrightarrow> owner c = Pool MEMORY_TAG"
    and "\<And>p k. socket_at s p k \<Longrightarrow> events s (CompletionEvent (AsyncContext k)) \<noteq> None"
    and "\<And>p k. socket_at s p k
      \<Longrightarrow> Irp (AsyncContext k) = 0 \<or> irps s (Irp (AsyncContext k)) \<noteq> None"
    and "\<And>p q k l. socket_at s p k \<Longrightarrow> socket_at s q l \<Longrightarrow> p \<noteq> q
      \<Longrightarrow> CompletionEvent (AsyncContext k) \<noteq> CompletionEvent (AsyncContext l)
        \<and> (Irp (AsyncContext k) = Irp (AsyncContext l) \<longrightarrow> Irp (AsyncContext k) = 0)"
  shows "ks_wf s"
  unfolding ks_wf_def using assms by blast

text \<open>Dropping sockets, or adding blocks that are not sockets, keeps the invariant.\<close>

lemma ks_wf_mono:
  assumes w: "ks_wf s" and f: "fresh_ok t"
    and h: "\<And>p c k. heap t p = Some c \<Longrightarrow> body c = BSocket k \<Longrightarrow> heap s p = Some c"
    and e: "\<And>q. events s q \<noteq> None \<Longrightarrow> events t q \<noteq> None"
    and i: "\<And>p k. socket_at t p k \<Longrightarrow> irps s (Irp (AsyncContext k)) \<noteq> None
      \<Longrightarrow> irps t (Irp (AsyncContext k)) \<noteq> None"
  shows "ks_wf t"
proof -
  have at: "socket_at s p k" if "socket_at t p k" for p k
    using that h unfolding socket_at_def by blast
  show ?thesis
  proof (rule ks_wfI [OF f])
    show "owner c = Pool MEMORY_TAG" if "heap t p = Some c" "body c = BSocket k" for p c k
      using ks_wf_owner [OF w h [OF that] that(2)] .
    show "events t (CompletionEvent (AsyncContext k)) \<noteq> None" if "socket_at t p k" for p k
      using e ks_wf_socket(1) [OF w at [OF that]] .
    show "Irp (AsyncContext k) = 0 \<or> irps t (Irp (AsyncContext k)) \<noteq> None"
      if "socket_at t p k" for p k
      using i [OF that] ks_wf_socket(2) [OF w at [OF that]] by blast
    show "CompletionEvent (AsyncContext k) \<noteq> CompletionEvent (AsyncContext l)
        \<and> (Irp (AsyncContext k) = Irp (AsyncContext l) \<longrightarrow> Irp (AsyncContext k) = 0)"
      if "socket_at t p k" "socket_at t q l" "p \<noteq> q" for p q k l
      using ks_wf_distinct [OF w at [OF that(1)] at [OF that(2)] that(3)] by blast
  qed
qed

lemma usable_live: "ks_wf s \<Longrightarrow> usable s p k \<Longrightarrow> ctx_live (AsyncContext k) s"
  unfolding usable_def ctx_live_def by (metis ks_wf_socket)

section \<open>Operations that keep every object\<close>

text \<open>\<open>keeps s t\<close>: the blocks, IRPs, MDLs and events of \<open>t\<close> are those of \<open>s\<close>.\<close>

definition keeps :: "world \<Rightarrow> world \<Rightarrow> bool" where
  "keeps s t \<longleftrightarrow> heap t = heap s \<and> mdls t = mdls s
     \<and> (\<forall>p. irps t p = None \<longleftrightarrow> irps s p = None)
     \<and> (\<forall>p. events t p = None \<longleftrightarrow> events s p = None)
     \<and> next_addr s \<le> next_addr t \<and> captured t = captured s \<and> registered t = registered s"

lemma keeps_refl [simp]: "keeps s s"
  by (simp add: keeps_def)

lemma keeps_trans [trans]: "keeps s t \<Longrightarrow> keeps t u \<Longrightarrow> keeps s u"
  by (auto simp: keeps_def)

lemma quiet_keeps: "quiet s t \<Longrightarrow> keeps s t"
  by (simp add: quiet_def keeps_def)

lemma keeps_socket_at: "keeps s t \<Longrightarrow> socket_at t p k \<longleftrightarrow> socket_at s p k"
  by (simp add: keeps_def socket_at_def)

lemma keeps_usable: "keeps s t \<Longrightarrow> usable t p k \<longleftrightarrow> usable s p k"
  by (simp add: usable_def keeps_socket_at)

lemma keeps_fresh_ok: "keeps s t \<Longrightarrow> fresh_ok s \<Longrightarrow> fresh_ok t"
  by (force simp: keeps_def fresh_ok_def)

lemma keeps_wf:
  assumes "keeps s t" and "ks_wf s"
  shows "ks_wf t"
proof -
  have "heap t = heap s" "\<And>p. irps t p = None \<longleftrightarrow> irps s p = None"
    "\<And>p. events t p = None \<longleftrightarrow> events s p = None"
    using assms(1) by (simp_all add: keeps_def)
  moreover have "fresh_ok t" using assms keeps_fresh_ok ks_wf_fresh by blast
  ultimately show ?thesis
    using assms(2) keeps_socket_at [OF assms(1)] by (simp add: ks_wf_def)
qed

text \<open>The contract of an operation on an existing socket, as the descriptor layer uses it.\<close>

locale socket_op =
  fixes op :: "env \<Rightarrow> ptr \<Rightarrow> world \<Rightarrow> ('r \<times> world) res"
  assumes op_keeps: "fresh_ok s \<Longrightarrow> op e p s = Ok (r, t) \<Longrightarrow> keeps s t"
    and op_needs_socket: "op e p s = Ok (r, t) \<Longrightarrow> \<exists>k. socket_at s p k"
begin

lemma op_wf: "ks_wf s \<Longrightarrow> op e p s = Ok (r, t) \<Longrightarrow> ks_wf t"
  using op_keeps keeps_wf ks_wf_fresh by blast

lemma op_usable: "ks_wf s \<Longrightarrow> op e p s = Ok (r, t) \<Longrightarrow> usable t q k \<longleftrightarrow> usable s q k"
  using op_keeps keeps_usable ks_wf_fresh by blast

lemma op_freed_faults: "heap s p = None \<Longrightarrow> op e p s \<noteq> Ok (r, t)"
  using op_needs_socket unfolding socket_at_def by fastforce

end

lemma KsBind_quiet: "KsBind e p a s = Ok (st, t) \<Longrightarrow> quiet s t"
  by (auto simp: KsBind_def res_simps dest!: quiet_dests intro: quiet_trans)

lemma KsConnect_quiet: "KsConnect e p a s = Ok (st, t) \<Longrightarrow> quiet s t"
  by (auto simp: KsConnect_def res_simps split: if_splits dest!: quiet_dests intro: quiet_trans)

text \<open>A transfer allocates one MDL and gives it back. Both transfer routines are instances
  of one shape.\<close>

definition transfer :: "env \<Rightarrow> ptr \<Rightarrow> ptr \<Rightarrow> u32 \<Rightarrow> disp_kind \<Rightarrow> wsk_fn
    \<Rightarrow> (ksocket \<Rightarrow> wsk_buf \<Rightarrow> wsk_call) \<Rightarrow> world \<Rightarrow> (ntstatus \<times> u32 \<times> world) res" where
  "transfer e p b len view f mk s =
     bindR (wrap_buffer e b len s) (\<lambda>(wb, s1).
     bindR (load_socket p s1) (\<lambda>k.
     bindR (KspAsyncContextReset (AsyncContext k) s1) (\<lambda>s2.
     bindR (dispatch_call (WskDispatch k) view f) (\<lambda>_.
     bindR (call_and_wait e (mk k wb) (AsyncContext k) s2) (\<lambda>(st, _, s3).
     finish_transfer (AsyncContext k) wb st len s3)))))"

lemma KsSendRecv_transfer:
  "KsSendRecv e p b len fl True s
     = transfer e p b len ConnectionDispatch WskSend (\<lambda>k wb. CallSend (WskSocket k) wb fl) s"
  "KsSendRecv e p b len fl False s
     = transfer e p b len ConnectionDispatch WskReceive (\<lambda>k wb. CallReceive (WskSocket k) wb fl) s"
  by (simp_all add: KsSendRecv_def transfer_def bindR_assoc)

lemma KsSendRecvUdp_transfer:
  "KsSendRecvUdp e p b len fl ra True s
     = transfer e p b len DatagramDispatch WskSendTo (\<lambda>k wb. CallSendTo (WskSocket k) wb fl ra) s"
  "KsSendRecvUdp e p b len fl ra False s
     = transfer e p b len DatagramDispatch WskReceiveFrom
         (\<lambda>k wb. CallReceiveFrom (WskSocket k) wb fl ra) s"
  by (simp_all add: KsSendRecvUdp_def transfer_def bindR_assoc)

lemma wrap_buffer_Ok:
  assumes "fresh_ok s" and "wrap_buffer e b len s = Ok (wb, t)"
  shows "buf_mdl wb = next_addr s \<and> heap t = heap s \<and> irps t = irps s \<and> events t = events s
    \<and> mdls t = (mdls s)(next_addr s \<mapsto> \<lparr>mdl_buffer = b, mdl_length = len, mdl_locked = True\<rparr>)
    \<and> next_addr t = Suc (next_addr s) \<and> captured t = captured s \<and> registered t = registered s"
  using assms fresh_okD(8) [OF assms(1)]
  by (auto simp: wrap_buffer_def IoAllocateMdl_def MmProbeAndLockPages_def Let_def res_simps
      split: if_splits option.splits)

lemma finish_transfer_Ok:
  assumes "finish_transfer ctx wb st len s = Ok (r, n, t)"
  shows "r = st \<and> heap t = heap s \<and> irps t = irps s \<and> events t = events s
    \<and> mdls t = (mdls s)(buf_mdl wb := None) \<and> next_addr t = next_addr s
    \<and> captured t = captured s \<and> registered t = registered s"
  using assms
  by (auto simp: finish_transfer_def MmUnlockPages_def IoFreeMdl_def res_simps
      split: if_splits option.splits)

lemma transfer_mdl:
  assumes "fresh_ok s" and "wrap_buffer e b len s = Ok (wb, s1)" and "quiet s1 s2"
    and "finish_transfer ctx wb st len' s2 = Ok (r, n, t)"
  shows "keeps s t"
  using wrap_buffer_Ok [OF assms(1,2)] finish_transfer_Ok [OF assms(4)] assms(3)
    fresh_okD(4) [OF assms(1)]
  by (simp add: keeps_def quiet_def fun_upd_idem)

lemma transfer_keeps:
  assumes "fresh_ok s" and "transfer e p b len view f mk s = Ok (st, n, t)"
  shows "keeps s t \<and> (\<exists>k. socket_at s p k)"
proof -
  from assms(2) obtain wb s1 where w: "wrap_buffer e b len s = Ok (wb, s1)"
    and rest: "bindR (load_socket p s1) (\<lambda>k.
      bindR (KspAsyncContextReset (AsyncContext k) s1) (\<lambda>s2.
      bindR (dispatch_call (WskDispatch k) view f) (\<lambda>_.
      bindR (call_and_wait e (mk k wb) (AsyncContext k) s2) (\<lambda>(st, _, s3).
      finish_transfer (AsyncContext k) wb st len s3)))) = Ok (st, n, t)"
    by (auto simp: transfer_def bindR_Ok_iff [of "wrap_buffer e b len s"])
  from rest obtain k s2 st' rp s3 where k: "socket_at s1 p k"
    and r: "KspAsyncContextReset (AsyncContext k) s1 = Ok s2"
    and c: "call_and_wait e (mk k wb) (AsyncContext k) s2 = Ok (st', rp, s3)"
    and f: "finish_transfer (AsyncContext k) wb st' len s3 = Ok (st, n, t)"
    by (auto simp: res_simps)
  have "keeps s t"
    using transfer_mdl [OF assms(1) w _ f] Reset_quiet [OF r] call_quiet [OF c] quiet_trans by blast
  moreover have "socket_at s p k"
    using k wrap_buffer_Ok [OF assms(1) w] by (simp add: socket_at_def)
  ultimately show ?thesis by blast
qed

lemma transfer_socket: "transfer e p b len view f mk s = Ok r \<Longrightarrow> \<exists>k. socket_at s p k"
  by (auto simp: transfer_def res_simps socket_at_def wrap_buffer_def IoAllocateMdl_def
      MmProbeAndLockPages_def Let_def split: if_splits option.splits)

lemma KsSendRecv_keeps:
  "fresh_ok s \<Longrightarrow> KsSendRecv e p b len fl sd s = Ok (st, n, t) \<Longrightarrow> keeps s t"
  by (cases sd) (auto simp: KsSendRecv_transfer dest: transfer_keeps)

lemma KsSendRecvUdp_keeps:
  "fresh_ok s \<Longrightarrow> KsSendRecvUdp e p b len fl ra sd s = Ok (st, n, t) \<Longrightarrow> keeps s t"
  by (cases sd) (auto simp: KsSendRecvUdp_transfer dest: transfer_keeps)

lemma KsSendRecv_socket: "KsSendRecv e p b len fl sd s = Ok r \<Longrightarrow> \<exists>k. socket_at s p k"
  by (cases sd) (auto simp: KsSendRecv_transfer dest: transfer_socket)

lemma KsSendRecvUdp_socket: "KsSendRecvUdp e p b len fl ra sd s = Ok r \<Longrightarrow> \<exists>k. socket_at s p k"
  by (cases sd) (auto simp: KsSendRecvUdp_transfer dest: transfer_socket)

lemma KsBind_socket: "KsBind e p a s = Ok r \<Longrightarrow> \<exists>k. socket_at s p k"
  by (auto simp: KsBind_def res_simps)

lemma KsConnect_socket: "KsConnect e p a s = Ok r \<Longrightarrow> \<exists>k. socket_at s p k"
  by (auto simp: KsConnect_def res_simps)

interpretation bind_op: socket_op "\<lambda>e p s. KsBind e p a s"
  by unfold_locales (auto dest: KsBind_quiet quiet_keeps KsBind_socket)

interpretation connect_op: socket_op "\<lambda>e p s. KsConnect e p a s"
  by unfold_locales (auto dest: KsConnect_quiet quiet_keeps KsConnect_socket)

interpretation sendrecv_op: socket_op
  "\<lambda>e p s. bindR (KsSendRecv e p b len fl sd s) (\<lambda>(st, n, t). Ok ((st, n), t))"
  by unfold_locales (auto simp: res_simps dest: KsSendRecv_keeps KsSendRecv_socket)

interpretation udp_op: socket_op
  "\<lambda>e p s. bindR (KsSendRecvUdp e p b len fl ra sd s) (\<lambda>(st, n, t). Ok ((st, n), t))"
  by unfold_locales (auto simp: res_simps dest: KsSendRecvUdp_keeps KsSendRecvUdp_socket)

section \<open>Operations that allocate or free\<close>

lemma alloc_wf:
  assumes "ks_wf s" and "ExAllocatePoolWithTag e tag s = (p, t)"
  shows "ks_wf t \<and> (p \<noteq> 0 \<longrightarrow> heap s p = None \<and> heap t = (heap s)(p \<mapsto> \<lparr>owner = Pool tag, body = Raw\<rparr>))
    \<and> (p = 0 \<longrightarrow> heap t = heap s) \<and> irps t = irps s \<and> mdls t = mdls s \<and> events t = events s
    \<and> captured t = captured s \<and> registered t = registered s"
proof (cases "pool_ok e (log s)")
  case True
  let ?n = "next_addr s"
  note f = ks_wf_fresh [OF assms(1)]
  have p: "p = ?n" and h: "heap t = (heap s)(?n \<mapsto> \<lparr>owner = Pool tag, body = Raw\<rparr>)"
    and o: "irps t = irps s" "mdls t = mdls s" "events t = events s" "next_addr t = Suc ?n"
      "captured t = captured s" "registered t = registered s"
    using assms(2) True by (auto simp: ExAllocatePoolWithTag_def)
  have "fresh_ok t" using f by (auto simp: fresh_ok_def h o less_Suc_eq)
  with assms(1) have "ks_wf t"
    by (rule ks_wf_mono) (auto simp: h o split: if_splits)
  then show ?thesis using fresh_okD(1,2) [OF f] by (simp add: p h o)
next
  case False
  then have "p = 0" "t = logged (EvAllocFail tag) s" using assms(2)
    by (auto simp: ExAllocatePoolWithTag_def)
  then show ?thesis using keeps_wf [OF quiet_keeps [OF quiet_logged] assms(1)] by simp
qed

lemma ctx_alloc_wf:
  assumes "ks_wf s" and "KspAsyncContextAllocate e s = Ok (st, ctx, t)"
  shows "ks_wf t \<and> heap t = heap s \<and> mdls t = mdls s
    \<and> captured t = captured s \<and> registered t = registered s
    \<and> events s (CompletionEvent ctx) = None
    \<and> events t = (events s)(CompletionEvent ctx \<mapsto> False)
    \<and> (if NT_SUCCESS st
       then Irp ctx \<noteq> 0 \<and> irps s (Irp ctx) = None \<and> armed ctx t
         \<and> (\<exists>i. irps t = (irps s)(Irp ctx \<mapsto> i))
       else Irp ctx = 0 \<and> irps t = irps s)"
proof -
  let ?n = "next_addr s"
  note f = ks_wf_fresh [OF assms(1)]
  have fr: "events s ?n = None" "irps s (Suc ?n) = None" "0 < ?n"
    using f unfolding fresh_ok_def by (metis less_irrefl, metis lessI less_asym, blast)
  have h: "heap t = heap s" "mdls t = mdls s" "captured t = captured s" "registered t = registered s"
    and ev: "events t = (events s)(?n \<mapsto> False)" "CompletionEvent ctx = ?n"
    and ir: "if NT_SUCCESS st then Irp ctx = Suc ?n \<and> next_addr t = Suc (Suc ?n)
        \<and> (\<exists>i. irps t = (irps s)(Suc ?n \<mapsto> i) \<and> Completion i = Some ?n)
      else Irp ctx = 0 \<and> irps t = irps s \<and> next_addr t = Suc ?n"
    using assms(2)
    by (auto simp: KspAsyncContextAllocate_def KeInitializeEvent_def IoAllocateIrp_def
        IoSetCompletionRoutine_def Let_def split: if_splits)
  have "fresh_ok t" using f ir
    by (auto simp: fresh_ok_def h ev less_Suc_eq split: if_splits)
  with assms(1) have "ks_wf t"
    by (rule ks_wf_mono) (use ir in \<open>auto simp: h ev split: if_splits\<close>)
  then show ?thesis using ir fr by (auto simp: h ev armed_def)
qed

text \<open>Turning a raw block into a socket with a context of its own.\<close>

lemma store_socket_wf:
  assumes "ks_wf s" and "heap s p = Some \<lparr>owner = Pool MEMORY_TAG, body = Raw\<rparr>"
    and "store p (BSocket k) s = Ok t"
    and "events s (CompletionEvent (AsyncContext k)) \<noteq> None"
    and "Irp (AsyncContext k) = 0 \<or> irps s (Irp (AsyncContext k)) \<noteq> None"
    and "\<And>q l. socket_at s q l \<Longrightarrow> CompletionEvent (AsyncContext k) \<noteq> CompletionEvent (AsyncContext l)
      \<and> (Irp (AsyncContext k) = Irp (AsyncContext l) \<longrightarrow> Irp (AsyncContext k) = 0)"
  shows "ks_wf t \<and> socket_at t p k \<and> (\<forall>q l. socket_at s q l \<longrightarrow> socket_at t q l)"
proof -
  have t: "t = s\<lparr>heap := (heap s)(p \<mapsto> \<lparr>owner = Pool MEMORY_TAG, body = BSocket k\<rparr>)\<rparr>"
    using assms(2,3) by (auto simp: store_def)
  have at: "socket_at t q l \<longleftrightarrow> (if q = p then l = k else socket_at s q l)" for q l
    by (auto simp: t socket_at_def)
  have o: "events t = events s" "irps t = irps s" by (simp_all add: t)
  have np: "\<not> socket_at s p l" for l using assms(2) by (simp add: socket_at_def)
  have "fresh_ok t" using ks_wf_fresh [OF assms(1)] assms(2) by (auto simp: fresh_ok_def t)
  moreover have "heap t q = Some c \<Longrightarrow> body c = BSocket l \<Longrightarrow> owner c = Pool MEMORY_TAG" for q c l
    using ks_wf_owner [OF assms(1)] by (auto simp: t split: if_splits)
  moreover have "socket_at t q l \<Longrightarrow> events t (CompletionEvent (AsyncContext l)) \<noteq> None" for q l
    using ks_wf_socket(1) [OF assms(1)] assms(4) by (metis at o(1))
  moreover have "socket_at t q l \<Longrightarrow> Irp (AsyncContext l) = 0 \<or> irps t (Irp (AsyncContext l)) \<noteq> None"
    for q l
    using ks_wf_socket(2) [OF assms(1)] assms(5) by (metis at o(2))
  moreover have "socket_at t q l \<Longrightarrow> socket_at t r m \<Longrightarrow> q \<noteq> r \<Longrightarrow>
      CompletionEvent (AsyncContext l) \<noteq> CompletionEvent (AsyncContext m)
      \<and> (Irp (AsyncContext l) = Irp (AsyncContext m) \<longrightarrow> Irp (AsyncContext l) = 0)" for q r l m
    using ks_wf_distinct [OF assms(1)] assms(6) by (metis at)
  ultimately have "ks_wf t" by (rule ks_wfI)
  then show ?thesis using np at by metis
qed

lemma KsCloseSocket_frees:
  assumes "ks_wf s" and "KsCloseSocket e p s = Ok (st, t)"
  shows "\<exists>k. usable s p k \<and> heap t = (heap s)(p := None) \<and> mdls t = mdls s
    \<and> (\<forall>q. irps t q = None \<longleftrightarrow> irps s q = None \<or> q = Irp (AsyncContext k))
    \<and> (\<forall>q. events t q = None \<longleftrightarrow> events s q = None)
    \<and> next_addr t = next_addr s \<and> captured t = captured s \<and> registered t = registered s"
proof -
  from assms(2) obtain k s1 rp s2 s3 where k: "socket_at s p k"
    and r: "KspAsyncContextReset (AsyncContext k) s = Ok s1"
    and c: "call_and_wait e (CallClose (WskSocket k)) (AsyncContext k) s1 = Ok (st, rp, s2)"
    and f: "KspAsyncContextFree (AsyncContext k) s2 = Ok s3"
    and x: "ExFreePoolWithTag p MEMORY_TAG s3 = Ok t"
    by (auto simp: KsCloseSocket_def res_simps)
  have q: "quiet s s2" using Reset_quiet [OF r] call_quiet [OF c] quiet_trans by blast
  have s3: "s3 = logged (EvIrpFree (Irp (AsyncContext k)))
      (s2\<lparr>irps := (irps s2)(Irp (AsyncContext k) := None)\<rparr>)"
    and i: "irps s2 (Irp (AsyncContext k)) \<noteq> None"
    using f by (auto simp: KspAsyncContextFree_def IoFreeIrp_def split: option.splits)
  have t: "t = logged (EvFree p) (s3\<lparr>heap := (heap s3)(p := None)\<rparr>)"
    using x by (auto simp: ExFreePoolWithTag_def split: option.splits if_splits)
  have "irps s (Irp (AsyncContext k)) \<noteq> None" using i quietD(4) [OF q] by simp
  then have "usable s p k"
    using k fresh_okD(7) [OF ks_wf_fresh [OF assms(1)]] by (metis usable_def)
  then show ?thesis
    using quietD [OF q] by (intro exI [of _ k]) (simp add: t s3)
qed

lemma KsCloseSocket_wf:
  assumes "ks_wf s" and "KsCloseSocket e p s = Ok (st, t)"
  shows "ks_wf t"
proof -
  obtain k where k: "usable s p k" and h: "heap t = (heap s)(p := None)" and m: "mdls t = mdls s"
    and i: "\<forall>q. irps t q = None \<longleftrightarrow> irps s q = None \<or> q = Irp (AsyncContext k)"
    and ev: "\<forall>q. events t q = None \<longleftrightarrow> events s q = None"
    and n: "next_addr t = next_addr s"
    using KsCloseSocket_frees [OF assms] by blast
  have at: "socket_at t q l \<longleftrightarrow> q \<noteq> p \<and> socket_at s q l" for q l
    by (auto simp: socket_at_def h)
  have other: "Irp (AsyncContext l) = 0 \<or> Irp (AsyncContext l) \<noteq> Irp (AsyncContext k)"
    if "q \<noteq> p" "socket_at s q l" for q l
    using ks_wf_distinct(2) [OF assms(1) that(2) _ that(1), of k] k by (auto simp: usable_def)
  have "fresh_ok t" using ks_wf_fresh [OF assms(1)]
    by (simp add: fresh_ok_def h m i ev n)
  with assms(1) show ?thesis
  proof (rule ks_wf_mono)
    show "heap s q = Some c" if "heap t q = Some c" "body c = BSocket l" for q c l
      using that(1) by (auto simp: h split: if_splits)
    show "events t q \<noteq> None" if "events s q \<noteq> None" for q using that ev by simp
    show "irps t (Irp (AsyncContext l)) \<noteq> None"
      if "socket_at t q l" "irps s (Irp (AsyncContext l)) \<noteq> None" for q l
      using that other i fresh_okD(7) [OF ks_wf_fresh [OF assms(1)]] by (metis at)
  qed
qed

text \<open>What creating a socket leaves behind, in each of its outcomes.\<close>

lemma KsCreateSocket_cases:
  assumes "ks_wf s" and "KsCreateSocket e af ty pr fl s = Ok (st, r, t)"
  obtains (no_block) "r = None" "st = STATUS_INSUFFICIENT_RESOURCES" "keeps s t"
  | (no_irp) p where "r = None" "st = STATUS_INSUFFICIENT_RESOURCES" "ks_wf t"
      "heap s p = None" "heap t = (heap s)(p \<mapsto> \<lparr>owner = Pool MEMORY_TAG, body = Raw\<rparr>)"
      "irps t = irps s"
  | (refused) p i where "r = None" "\<not> NT_SUCCESS st" "ks_wf t"
      "heap s p = None" "heap t = (heap s)(p \<mapsto> \<lparr>owner = Pool MEMORY_TAG, body = Raw\<rparr>)"
      "irps s i = None" "irps t i \<noteq> None"
  | (created) p k where "r = Some p" "NT_SUCCESS st" "ks_wf t" "heap s p = None" "usable t p k"
      "heap t = (heap s)(p \<mapsto> \<lparr>owner = Pool MEMORY_TAG, body = BSocket k\<rparr>)"
      "irps s (Irp (AsyncContext k)) = None"
proof -
  obtain p s1 where a: "ExAllocatePoolWithTag e MEMORY_TAG s = (p, s1)" by fastforce
  note al = alloc_wf [OF assms(1) a]
  show ?thesis
  proof (cases "p = 0")
    case True
    then have "t = s1" "r = None" "st = STATUS_INSUFFICIENT_RESOURCES"
      using assms(2) a by (auto simp: KsCreateSocket_def)
    moreover have "keeps s s1" using a True fresh_okD(1) [OF ks_wf_fresh [OF assms(1)]]
      by (auto simp: ExAllocatePoolWithTag_def quiet_keeps split: if_splits)
    ultimately show ?thesis using no_block by blast
  next
    case False
    with assms(2) a obtain st1 ctx s2 where c: "KspAsyncContextAllocate e s1 = Ok (st1, ctx, s2)"
      and rest: "(if \<not> NT_SUCCESS st1 then Ok (st1, None, s2)
        else bindR (provider_dispatch s2) (\<lambda>_.
          bindR (call_and_wait e (CallSocket af ty pr fl) ctx s2) (\<lambda>(st, rp, s3).
          if NT_SUCCESS st
          then bindR (irp_information (Irp ctx) s3) (\<lambda>info.
               bindR (guardR (info \<noteq> 0)) (\<lambda>_.
               bindR (store p (BSocket \<lparr>WskSocket = info,
                  WskDispatch = dispatch_of e info, AsyncContext = ctx\<rparr>) s3) (\<lambda>s4.
               Ok (st, Some p, s4))))
          else Ok (st, None, s3)))) = Ok (st, r, t)"
      by (auto simp: KsCreateSocket_def bindR_Ok_iff [of "KspAsyncContextAllocate e s1"])
    have w1: "ks_wf s1" using al by blast
    note cl = ctx_alloc_wf [OF w1 c]
    show ?thesis
    proof (cases "NT_SUCCESS st1")
      case False
      then have "st1 = STATUS_INSUFFICIENT_RESOURCES" using c
        by (auto simp: KspAsyncContextAllocate_def KeInitializeEvent_def IoAllocateIrp_def
            IoSetCompletionRoutine_def Let_def split: if_splits)
      then show ?thesis using False rest al cl \<open>p \<noteq> 0\<close> by (intro no_irp [of p]) auto
    next
      case True
      with rest obtain rp s3 where w: "call_and_wait e (CallSocket af ty pr fl) ctx s2 = Ok (st, rp, s3)"
        and rest2: "(if NT_SUCCESS st
          then bindR (irp_information (Irp ctx) s3) (\<lambda>info.
               bindR (guardR (info \<noteq> 0)) (\<lambda>_.
               bindR (store p (BSocket \<lparr>WskSocket = info,
                  WskDispatch = dispatch_of e info, AsyncContext = ctx\<rparr>) s3) (\<lambda>s4.
               Ok (st, Some p, s4))))
          else Ok (st, None, s3)) = Ok (st, r, t)"
        by (auto simp: res_simps split: if_splits)
      have q: "quiet s2 s3" using call_quiet [OF w] .
      then have w3: "ks_wf s3" using cl keeps_wf quiet_keeps by blast
      have h3: "heap s3 = heap s1" using q cl by (simp add: quiet_def)
      have i3: "Irp ctx \<noteq> 0" "irps s1 (Irp ctx) = None" "irps s3 (Irp ctx) \<noteq> None"
        using cl True q by (auto simp: armed_def quiet_def)
      show ?thesis
      proof (cases "NT_SUCCESS st")
        case False
        then show ?thesis using rest2 al w3 h3 i3 \<open>p \<noteq> 0\<close>
          by (intro refused [of p "Irp ctx"]) auto
      next
        case True
        with rest2 obtain k where sto: "store p (BSocket k) s3 = Ok t" and k: "AsyncContext k = ctx"
          and r: "r = Some p"
          by (auto simp: res_simps)
        have hp: "heap s3 p = Some \<lparr>owner = Pool MEMORY_TAG, body = Raw\<rparr>"
          using al \<open>p \<noteq> 0\<close> by (simp add: h3)
        have ev: "events s3 (CompletionEvent ctx) \<noteq> None" using cl q by (simp add: quiet_def)
        have sep: "CompletionEvent ctx \<noteq> CompletionEvent (AsyncContext l)
            \<and> (Irp ctx = Irp (AsyncContext l) \<longrightarrow> Irp ctx = 0)" if "socket_at s3 x l" for x l
        proof -
          have "socket_at s1 x l" using that by (simp add: socket_at_def h3)
          then show ?thesis using ks_wf_socket [OF w1] cl i3 by metis
        qed
        have "ks_wf t \<and> socket_at t p k"
          using store_socket_wf [OF w3 hp sto] ev i3 sep by (simp add: k)
        moreover have "heap t = (heap s)(p \<mapsto> \<lparr>owner = Pool MEMORY_TAG, body = BSocket k\<rparr>)"
          using sto hp al \<open>p \<noteq> 0\<close> by (auto simp: store_def h3)
        moreover have "irps s (Irp ctx) = None" using i3 al by simp
        ultimately show ?thesis using al i3 r True \<open>p \<noteq> 0\<close>
          by (intro created [of p k]) (auto simp: usable_def k)
      qed
    qed
  qed
qed

text \<open>What \<open>KsAccept\<close> leaves behind. In \<open>orphaned\<close> the provider has handed over a
  connection and the wrapper drops it; in \<open>accepted\<close> the new socket may lack its IRP.\<close>

lemma KsAccept_cases:
  assumes "ks_wf s" and "KsAccept e p la ra s = Ok (st, r, t)"
  obtains (refused) "r = None" "\<not> NT_SUCCESS st" "keeps s t"
  | (orphaned) "r = None" "st = STATUS_INSUFFICIENT_RESOURCES" "keeps s t"
  | (accepted) q k where "r = Some q" "NT_SUCCESS st" "ks_wf t" "heap s q = None" "socket_at t q k"
      "heap t = (heap s)(q \<mapsto> \<lparr>owner = Pool MEMORY_TAG, body = BSocket k\<rparr>)"
      "Irp (AsyncContext k) = 0 \<or> irps s (Irp (AsyncContext k)) = None"
proof -
  from assms(2) obtain l s1 st' rp s2 where l: "socket_at s p l"
    and rs: "KspAsyncContextReset (AsyncContext l) s = Ok s1"
    and c: "call_and_wait e (CallAccept (WskSocket l) la ra) (AsyncContext l) s1 = Ok (st', rp, s2)"
    and rest: "accept_finish e (AsyncContext l) st' s2 = Ok (st, r, t)"
    by (auto simp: KsAccept_def res_simps)
  note rest = rest [unfolded accept_finish_def]
  have q: "quiet s s2" using Reset_quiet [OF rs] call_quiet [OF c] quiet_trans by blast
  have w2: "ks_wf s2" using keeps_wf [OF quiet_keeps [OF q] assms(1)] .
  show ?thesis
  proof (cases "NT_SUCCESS st'")
    case False
    then show ?thesis using rest q by (intro refused) (auto simp: quiet_keeps)
  next
    case True
    obtain n s3 where a: "ExAllocatePoolWithTag e MEMORY_TAG s2 = (n, s3)" by fastforce
    note al = alloc_wf [OF w2 a]
    show ?thesis
    proof (cases "n = 0")
      case True
      then have "s3 = logged (EvAllocFail MEMORY_TAG) s2"
        using a fresh_okD(1) [OF ks_wf_fresh [OF w2]]
        by (auto simp: ExAllocatePoolWithTag_def split: if_splits)
      then have "keeps s s3" using q quiet_trans quiet_logged quiet_keeps by metis
      then show ?thesis using rest a True \<open>NT_SUCCESS st'\<close> by (intro orphaned) auto
    next
      case False
      with rest a True obtain st2 ctx s4 info where
        ca: "KspAsyncContextAllocate e s3 = Ok (st2, ctx, s4)"
        and sto: "store n (BSocket \<lparr>WskSocket = info, WskDispatch = dispatch_of e info,
          AsyncContext = ctx\<rparr>) s4 = Ok t"
        and r: "r = Some n" and st: "st = st'"
        by (auto simp: res_simps)
      define k where k0: "k = \<lparr>WskSocket = info, WskDispatch = dispatch_of e info, AsyncContext = ctx\<rparr>"
      have k: "AsyncContext k = ctx" by (simp add: k0)
      note sto = sto [folded k0]
      have w3: "ks_wf s3" using al by blast
      note cl = ctx_alloc_wf [OF w3 ca]
      have hn: "heap s4 n = Some \<lparr>owner = Pool MEMORY_TAG, body = Raw\<rparr>" using al cl False by simp
      have ir: "Irp ctx = 0 \<or> irps s3 (Irp ctx) = None \<and> irps s4 (Irp ctx) \<noteq> None"
        using cl by (auto simp: armed_def split: if_splits)
      have sep: "CompletionEvent ctx \<noteq> CompletionEvent (AsyncContext m)
          \<and> (Irp ctx = Irp (AsyncContext m) \<longrightarrow> Irp ctx = 0)" if "socket_at s4 x m" for x m
      proof -
        have "socket_at s3 x m" using that cl by (simp add: socket_at_def)
        then show ?thesis using ks_wf_socket [OF w3] cl ir by metis
      qed
      have "ks_wf t \<and> socket_at t n k"
        using store_socket_wf [OF _ hn sto] cl ir sep by (auto simp: k)
      moreover have "heap t = (heap s)(n \<mapsto> \<lparr>owner = Pool MEMORY_TAG, body = BSocket k\<rparr>)"
        using sto hn al cl False quietD(1) [OF q] by (auto simp: store_def)
      moreover have "Irp ctx = 0 \<or> irps s (Irp ctx) = None"
        using ir al quietD(4) [OF q] by auto
      ultimately show ?thesis using al r True st False quietD(1) [OF q]
        by (intro accepted [of n k]) (auto simp: k)
    qed
  qed
qed

lemma same_objects_wf:
  assumes "ks_wf s" and "heap t = heap s" "irps t = irps s" "mdls t = mdls s" "events t = events s"
    "next_addr t = next_addr s"
  shows "ks_wf t"
  using assms(1)
proof (rule ks_wf_mono)
  show "fresh_ok t" using ks_wf_fresh [OF assms(1)] by (simp add: fresh_ok_def assms(2-6))
qed (simp_all add: assms(2-6))

lemma KsInitialize_wf: "ks_wf s \<Longrightarrow> KsInitialize e s = (st, t) \<Longrightarrow> ks_wf t"
  by (erule same_objects_wf)
    (auto simp: KsInitialize_def Let_def logged_def split: if_splits prod.splits)

lemma KsDestroy_wf: "ks_wf s \<Longrightarrow> ks_wf (KsDestroy s)"
  by (erule same_objects_wf) (simp_all add: KsDestroy_def logged_def)

lemma KsFreeAddrInfo_keeps: "KsFreeAddrInfo p s = Ok t \<Longrightarrow> keeps s t"
  by (auto simp: KsFreeAddrInfo_def res_simps quiet_keeps)

lemma KsGetAddrInfo_wf:
  assumes "ks_wf s" and "KsGetAddrInfo e n sv h s = Ok (st, r, t)"
  shows "ks_wf t \<and> heap t = heap s \<and> mdls t = mdls s \<and> (\<forall>q. irps t q = None \<longleftrightarrow> irps s q = None)"
proof -
  obtain st1 ctx s1 where c: "KspAsyncContextAllocate e s = Ok (st1, ctx, s1)"
    using assms(2) by (auto simp: KsGetAddrInfo_def res_simps)
  note cl = ctx_alloc_wf [OF assms(1) c]
  show ?thesis
  proof (cases "NT_SUCCESS st1")
    case False
    then show ?thesis using assms(2) c cl by (auto simp: KsGetAddrInfo_def)
  next
    case True
    then obtain rp s2 where w: "call_and_wait e (CallGetAddressInfo n sv h) ctx s1 = Ok (st, rp, s2)"
      and f: "KspAsyncContextFree ctx s2 = Ok t"
      using assms(2) c by (auto simp: KsGetAddrInfo_def res_simps)
    note q = quietD [OF call_quiet [OF w]]
    have w2: "ks_wf s2" using keeps_wf [OF quiet_keeps [OF call_quiet [OF w]]] cl by blast
    have t: "heap t = heap s2" "mdls t = mdls s2" "events t = events s2" "next_addr t = next_addr s2"
      "irps t = (irps s2)(Irp ctx := None)"
      using f by (auto simp: KspAsyncContextFree_def IoFreeIrp_def split: option.splits)
    have i: "irps s (Irp ctx) = None" "\<And>q. q \<noteq> Irp ctx \<Longrightarrow> irps t q = None \<longleftrightarrow> irps s q = None"
      using cl True q(4) t(5) by auto
    have "fresh_ok t" using ks_wf_fresh [OF w2] by (auto simp: fresh_ok_def t)
    with assms(1) have "ks_wf t"
    proof (rule ks_wf_mono)
      show "heap s p = Some c" if "heap t p = Some c" for p c using that cl by (simp add: t q)
      show "events t x \<noteq> None" if "events s x \<noteq> None" for x
        using that cl q(5) by (auto simp: t)
      show "irps t (Irp (AsyncContext k)) \<noteq> None"
        if "irps s (Irp (AsyncContext k)) \<noteq> None" for k
        using that i by metis
    qed
    then show ?thesis using cl q t i by (metis fun_upd_same)
  qed
qed

section \<open>Runs of the API\<close>

text \<open>One call of the API that returns.\<close>

inductive ks_step :: "env \<Rightarrow> world \<Rightarrow> world \<Rightarrow> bool" for e where
  initialize: "KsInitialize e s = (st, t) \<Longrightarrow> ks_step e s t"
| destroy: "ks_step e s (KsDestroy s)"
| lookup: "KsGetAddrInfo e n sv h s = Ok (st, r, t) \<Longrightarrow> ks_step e s t"
| free_info: "KsFreeAddrInfo p s = Ok t \<Longrightarrow> ks_step e s t"
| create: "KsCreateSocket e af ty pr fl s = Ok (st, r, t) \<Longrightarrow> ks_step e s t"
| close: "KsCloseSocket e p s = Ok (st, t) \<Longrightarrow> ks_step e s t"
| bind: "KsBind e p a s = Ok (st, t) \<Longrightarrow> ks_step e s t"
| accept: "KsAccept e p la ra s = Ok (st, r, t) \<Longrightarrow> ks_step e s t"
| connect: "KsConnect e p a s = Ok (st, t) \<Longrightarrow> ks_step e s t"
| stream: "KsSendRecv e p b len fl sd s = Ok (st, n, t) \<Longrightarrow> ks_step e s t"
| datagram: "KsSendRecvUdp e p b len fl ra sd s = Ok (st, n, t) \<Longrightarrow> ks_step e s t"

inductive_cases ks_stepE: "ks_step e s t"

lemma ks_step_wf: "ks_step e s t \<Longrightarrow> ks_wf s \<Longrightarrow> ks_wf t"
proof (induction rule: ks_step.induct)
  case (create af ty pr fl s st r t)
  from create.prems create.hyps show ?case
    by (rule KsCreateSocket_cases) (auto intro: keeps_wf [OF _ create.prems])
next
  case (accept p la ra s st r t)
  from accept.prems accept.hyps show ?case
    by (rule KsAccept_cases) (auto intro: keeps_wf [OF _ accept.prems])
qed (auto intro: KsInitialize_wf KsDestroy_wf KsCloseSocket_wf bind_op.op_wf connect_op.op_wf
    keeps_wf [OF KsFreeAddrInfo_keeps] keeps_wf [OF KsSendRecv_keeps [OF ks_wf_fresh]]
    keeps_wf [OF KsSendRecvUdp_keeps [OF ks_wf_fresh]] dest: KsGetAddrInfo_wf)

inductive ks_reachable :: "env \<Rightarrow> world \<Rightarrow> bool" for e where
  start: "ks_reachable e initial_world"
| step: "ks_reachable e s \<Longrightarrow> ks_step e s t \<Longrightarrow> ks_reachable e t"

lemma reachable_wf: "ks_reachable e s \<Longrightarrow> ks_wf s"
  by (induction rule: ks_reachable.induct) (auto intro: ks_wf_initial ks_step_wf)

section \<open>A provider for the examples\<close>

text \<open>Every allocation succeeds; every call goes pending and completes with success and the
  information 7 (a socket handle, or a byte count). The world holds one connection socket.\<close>

definition demo_env :: env where
  "demo_env = \<lparr>pool_ok = (\<lambda>_. True), irp_ok = (\<lambda>_. True), mdl_ok = (\<lambda>_. True), lock_ok = (\<lambda>_. True),
     wsk = (\<lambda>_ _. \<lparr>rp_status = STATUS_PENDING, rp_iosb = Some (STATUS_SUCCESS, 7), rp_result = 0\<rparr>),
     dispatch_of = (\<lambda>_. ConnectionDispatch),
     get_version = (STATUS_SUCCESS, \<lparr>wProductType = 1, dwMajorVersion = 10, dwMinorVersion = 0\<rparr>),
     wsk_register = (\<lambda>_. STATUS_SUCCESS), wsk_capture = (\<lambda>_. STATUS_SUCCESS),
     ansi_to_unicode = (\<lambda>_ bs. (STATUS_SUCCESS, map ucast bs)),
     unicode_to_ansi = (\<lambda>_ ws. (STATUS_SUCCESS, map ucast ws))\<rparr>"

definition demo_socket :: ksocket where
  "demo_socket = \<lparr>WskSocket = 7, WskDispatch = ConnectionDispatch,
     AsyncContext = \<lparr>CompletionEvent = 3, Irp = 4\<rparr>\<rparr>"

definition demo_world :: world where
  "demo_world = initial_world\<lparr>
     heap := [2 \<mapsto> \<lparr>owner = Pool MEMORY_TAG, body = BSocket demo_socket\<rparr>],
     irps := [4 \<mapsto> \<lparr>IoStatus_Status = 0, IoStatus_Information = 0, Completion = None\<rparr>],
     events := [3 \<mapsto> False], next_addr := 5, registered := True, captured := True\<rparr>"

lemma demo_env_simps [simp]:
  "pool_ok demo_env l" "irp_ok demo_env l" "mdl_ok demo_env l" "lock_ok demo_env l"
  "wsk demo_env l c = \<lparr>rp_status = STATUS_PENDING, rp_iosb = Some (STATUS_SUCCESS, 7), rp_result = 0\<rparr>"
  "dispatch_of demo_env h = ConnectionDispatch"
  "ansi_to_unicode demo_env l bs = (STATUS_SUCCESS, map ucast bs)"
  "unicode_to_ansi demo_env l ws = (STATUS_SUCCESS, map ucast ws)"
  by (simp_all add: demo_env_def)

lemma demo_contract [simp]: "wsk_contract demo_env"
  by (simp add: wsk_contract_def)

lemma demo_socket_at [simp]: "socket_at demo_world p k \<longleftrightarrow> p = 2 \<and> k = demo_socket"
  by (auto simp: socket_at_def demo_world_def)

lemma demo_wf [simp]: "ks_wf demo_world"
proof (rule ks_wfI)
  show "fresh_ok demo_world"
    by (simp add: fresh_ok_def demo_world_def initial_world_def)
  show "owner c = Pool MEMORY_TAG" if "heap demo_world p = Some c" for p c
    using that by (auto simp: demo_world_def split: if_splits)
qed (simp_all add: demo_socket_def, (auto simp: demo_world_def)+)

lemma demo_socket_simps [simp]:
  "WskSocket demo_socket = 7" "WskDispatch demo_socket = ConnectionDispatch"
  "Irp (AsyncContext demo_socket) = 4" "CompletionEvent (AsyncContext demo_socket) = 3"
  by (simp_all add: demo_socket_def)

lemma demo_usable [simp]: "usable demo_world 2 demo_socket"
  by (simp add: usable_def)

section \<open>Dispatch tables\<close>

text \<open>The slots of the dispatch tables behind the union in \<open>KSOCKET\<close>, as the code reads them.\<close>

lemma dispatch_slots:
  "(\<forall>kind. dispatch_call kind ConnectionDispatch WskCloseSocket = Ok ())
   \<and> (\<forall>kind. dispatch_call kind ListenDispatch WskBind = Ok () \<longleftrightarrow> kind \<noteq> BasicDispatch)
   \<and> (\<forall>kind. dispatch_call kind ConnectionDispatch WskBind = Ok () \<longleftrightarrow> kind \<noteq> BasicDispatch)
   \<and> (\<forall>kind. dispatch_call kind ConnectionDispatch WskConnect = Ok () \<longleftrightarrow> kind = ConnectionDispatch)
   \<and> (\<forall>kind. dispatch_call kind ConnectionDispatch WskSend = Ok () \<longleftrightarrow> kind = ConnectionDispatch)
   \<and> (\<forall>kind. dispatch_call kind ConnectionDispatch WskReceive = Ok () \<longleftrightarrow> kind = ConnectionDispatch)
   \<and> (\<forall>kind. dispatch_call kind ListenDispatch WskAccept = Ok () \<longleftrightarrow> kind = ListenDispatch)
   \<and> (\<forall>kind. dispatch_call kind DatagramDispatch WskSendTo = Ok () \<longleftrightarrow> kind = DatagramDispatch)
   \<and> (\<forall>kind. dispatch_call kind DatagramDispatch WskReceiveFrom = Ok () \<longleftrightarrow> kind = DatagramDispatch)"
proof (intro conjI allI)
  fix kind
  show "dispatch_call kind ConnectionDispatch WskCloseSocket = Ok ()"
    by (cases kind) (simp_all add: dispatch_call_def dispatch_defs)
qed (rename_tac kind, case_tac kind, simp_all add: dispatch_call_def dispatch_defs)+

lemma dispatch_close [simp]: "dispatch_call kind ConnectionDispatch WskCloseSocket = Ok ()"
  by (cases kind) (simp_all add: dispatch_call_def dispatch_defs)

lemma dispatch_bind [simp]:
  "kind \<noteq> BasicDispatch \<Longrightarrow> dispatch_call kind ListenDispatch WskBind = Ok ()"
  "kind \<noteq> BasicDispatch \<Longrightarrow> dispatch_call kind ConnectionDispatch WskBind = Ok ()"
  by (cases kind; simp add: dispatch_call_def dispatch_defs)+

lemma dispatch_own [simp]:
  "dispatch_call ConnectionDispatch ConnectionDispatch WskConnect = Ok ()"
  "dispatch_call ConnectionDispatch ConnectionDispatch WskSend = Ok ()"
  "dispatch_call ConnectionDispatch ConnectionDispatch WskReceive = Ok ()"
  "dispatch_call DatagramDispatch DatagramDispatch WskSendTo = Ok ()"
  "dispatch_call DatagramDispatch DatagramDispatch WskReceiveFrom = Ok ()"
  "dispatch_call ListenDispatch ListenDispatch WskAccept = Ok ()"
  by (simp_all add: dispatch_call_def dispatch_defs)

lemma dispatch_other:
  "kind \<noteq> ConnectionDispatch \<Longrightarrow> dispatch_call kind ConnectionDispatch WskConnect = Fault"
  "kind \<noteq> ConnectionDispatch \<Longrightarrow> dispatch_call kind ConnectionDispatch WskSend = Fault"
  "kind \<noteq> ConnectionDispatch \<Longrightarrow> dispatch_call kind ConnectionDispatch WskReceive = Fault"
  "kind \<noteq> DatagramDispatch \<Longrightarrow> dispatch_call kind DatagramDispatch WskSendTo = Fault"
  "kind \<noteq> DatagramDispatch \<Longrightarrow> dispatch_call kind DatagramDispatch WskReceiveFrom = Fault"
  "kind \<noteq> ListenDispatch \<Longrightarrow> dispatch_call kind ListenDispatch WskAccept = Fault"
  "dispatch_call BasicDispatch ListenDispatch WskBind = Fault"
  "dispatch_call BasicDispatch ConnectionDispatch WskBind = Fault"
  by (cases kind; simp add: dispatch_call_def dispatch_defs guardR_def)+

text \<open>\<open>KsBind\<close> is a blocking call: on a usable socket it returns, its result is the status the
  provider completed the request with (whether the request went pending or not), and no
  object is allocated or freed.\<close>

theorem KsBind_blocks:
  assumes "wsk_contract e" and "ks_wf s" and "usable s p k" and "WskDispatch k \<noteq> BasicDispatch"
  shows "\<exists>t. KsBind e p a s = Ok (final_status e (EvIrpReuse (Irp (AsyncContext k)) # log s)
      (CallBind (WskSocket k) a), t) \<and> keeps s t"
proof -
  have l: "load_socket p s = Ok k" using assms(3) by (simp add: load_socket_at usable_def)
  obtain s1 s2 where "KspAsyncContextReset (AsyncContext k) s = Ok s1"
    and "log s1 = EvIrpReuse (Irp (AsyncContext k)) # log s"
    and "call_and_wait e (CallBind (WskSocket k) a) (AsyncContext k) s1
      = Ok (final_status e (log s1) (CallBind (WskSocket k) a),
            wsk e (log s1) (CallBind (WskSocket k) a), s2)"
    and "quiet s s2"
    using reset_and_call [OF assms(1) usable_live [OF assms(2,3)]] by metis
  then show ?thesis using assms(4) l by (simp add: KsBind_def quiet_keeps)
qed

theorem KsBind_blocks_witness:
  "\<exists>t. KsBind demo_env 2 9 demo_world = Ok (STATUS_SUCCESS, t) \<and> keeps demo_world t"
  using KsBind_blocks [of demo_env demo_world 2 demo_socket 9]
  by (simp add: final_status_def)

end
