(* ===== verification/Ksocket_Props.thy ===== *)
theory Ksocket_Props
  imports Ksocket_Laws
begin

text \<open>
  The contracts of the individual operations of \<^verbatim>\<open>ksocket/ksocket.c\<close>: what each returns
  under the provider's contract, what it takes and gives back, and the paths that leave an
  object behind or a socket unusable.
\<close>

section \<open>Operations that succeed\<close>

text \<open>C9: \<open>KsConnect\<close> binds to the wildcard address first. If that fails its status is the result
  and no connect request reaches the provider; otherwise the result is the status of the
  connect request. Either way nothing is allocated or freed.\<close>

theorem KsConnect_sequence:
  assumes "wsk_contract e" and "ks_wf s" and "usable s p k" and "WskDispatch k = ConnectionDispatch"
  shows "\<exists>st t w. KsConnect e p a s = Ok (st, t) \<and> keeps s t \<and> log t = w @ log s
    \<and> (let bst = final_status e (EvIrpReuse (Irp (AsyncContext k)) # log s)
                   (CallBindAny (WskSocket k))
       in if NT_SUCCESS bst
          then \<exists>l. st = final_status e l (CallConnect (WskSocket k) a)
             \<and> EvWsk (CallBindAny (WskSocket k)) \<in> set l
             \<and> EvWsk (CallConnect (WskSocket k) a) \<in> set w
          else st = bst \<and> (\<forall>h b. EvWsk (CallConnect h b) \<notin> set w))"
proof -
  let ?c = "AsyncContext k" and ?b = "CallBindAny (WskSocket k)"
    and ?n = "CallConnect (WskSocket k) a"
  have l: "load_socket p s = Ok k" using assms(3) by (simp add: load_socket_at usable_def)
  obtain s1 s2 w1 where r1: "KspAsyncContextReset ?c s = Ok s1"
    and l1: "log s1 = EvIrpReuse (Irp ?c) # log s"
    and c1: "call_and_wait e ?b ?c s1 = Ok (final_status e (log s1) ?b, wsk e (log s1) ?b, s2)"
    and q1: "quiet s s2" and l2: "log s2 = w1 @ EvWsk ?b # log s1"
    and w1: "\<forall>ev \<in> set w1. ev = EvWait (CompletionEvent ?c)"
    using reset_and_call [OF assms(1) usable_live [OF assms(2,3)]] by metis
  show ?thesis
  proof (cases "NT_SUCCESS (final_status e (log s1) ?b)")
    case False
    then have "KsConnect e p a s = Ok (final_status e (log s1) ?b, s2)"
      using l r1 c1 assms(4) by (simp add: KsConnect_def)
    moreover have "log s2 = (w1 @ [EvWsk ?b, EvIrpReuse (Irp ?c)]) @ log s" by (simp add: l1 l2)
    moreover have "EvWsk (CallConnect h b) \<notin> set (w1 @ [EvWsk ?b, EvIrpReuse (Irp ?c)])" for h b
      using w1 by auto
    ultimately show ?thesis using False q1 quiet_keeps by (fastforce simp: l1 Let_def)
  next
    case True
    have live2: "ctx_live ?c s2" using ctx_live_quiet [OF q1 usable_live [OF assms(2,3)]] .
    obtain s3 s4 w2 where r2: "KspAsyncContextReset ?c s2 = Ok s3"
      and l3: "log s3 = EvIrpReuse (Irp ?c) # log s2"
      and c2: "call_and_wait e ?n ?c s3 = Ok (final_status e (log s3) ?n, wsk e (log s3) ?n, s4)"
      and q2: "quiet s2 s4" and l4: "log s4 = w2 @ EvWsk ?n # log s3"
      using reset_and_call [OF assms(1) live2] by metis
    have "KsConnect e p a s = Ok (final_status e (log s3) ?n, s4)"
      using l r1 c1 r2 c2 True assms(4) by (simp add: KsConnect_def)
    moreover have "log s4 = (w2 @ EvWsk ?n # EvIrpReuse (Irp ?c) # w1
        @ [EvWsk ?b, EvIrpReuse (Irp ?c)]) @ log s" by (simp add: l1 l2 l3 l4)
    moreover have "keeps s s4" using quiet_keeps [OF quiet_trans [OF q1 q2]] .
    moreover have "EvWsk ?b \<in> set (log s3)" by (simp add: l2 l3)
    ultimately show ?thesis using True by (fastforce simp: l1 Let_def)
  qed
qed

theorem KsConnect_sequence_witness:
  "\<exists>st t w. KsConnect demo_env 2 9 demo_world = Ok (st, t) \<and> keeps demo_world t
    \<and> log t = w @ log demo_world \<and> EvWsk (CallConnect 7 9) \<in> set w"
  using KsConnect_sequence [of demo_env demo_world 2 demo_socket 9]
  by (auto simp: final_status_def Let_def)

text \<open>The requests made of the provider, in a part of the log.\<close>

primrec requests_of :: "event list \<Rightarrow> wsk_call list" where
  "requests_of [] = []"
| "requests_of (ev # l) = (case ev of EvWsk c \<Rightarrow> c # requests_of l | _ \<Rightarrow> requests_of l)"

lemma requests_of_append [simp]: "requests_of (l @ l') = requests_of l @ requests_of l'"
  by (induction l) (simp_all split: event.split)

lemma requests_of_waits: "\<forall>ev \<in> set l. ev = EvWait x \<Longrightarrow> requests_of l = []"
  by (induction l) simp_all

lemma transfer_completes:
  assumes "wsk_contract e" and "ks_wf s" and "usable s p k"
    and "dispatch_call (WskDispatch k) view f = Ok ()"
    and "\<forall>l. mdl_ok e l" and "\<forall>l. lock_ok e l"
  shows "\<exists>t l wb. transfer e p b len view f mk s = Ok (final_status e l (mk k wb),
        if NT_SUCCESS (final_status e l (mk k wb)) then ucast (final_info e l (mk k wb)) else len, t)
      \<and> buf_length wb = ucast len \<and> buf_offset wb = 0 \<and> keeps s t
      \<and> (\<exists>w. log t = w @ log s \<and> (\<forall>c. EvWsk c \<in> set w \<longleftrightarrow> c = mk k wb) \<and> requests_of w = [mk k wb])"
proof -
  let ?c = "AsyncContext k"
  note f = ks_wf_fresh [OF assms(2)]
  define wb where "wb = \<lparr>buf_mdl = next_addr s, buf_offset = 0, buf_length = ucast len\<rparr>"
  have b: "buf_mdl wb = next_addr s" "buf_length wb = ucast len" "buf_offset wb = 0"
    by (simp_all add: wb_def)
  obtain s1 where w: "wrap_buffer e b len s = Ok (wb, s1)"
    and l1: "log s1 = [EvMdlLock (next_addr s), EvMdlAlloc (next_addr s)] @ log s"
    using assms(5,6)
    by (simp add: wrap_buffer_def IoAllocateMdl_def MmProbeAndLockPages_def wb_def)
  note wo = wrap_buffer_Ok [OF f w]
  have k1: "load_socket p s1 = Ok k"
    using assms(3) wo by (simp add: load_socket_at usable_def socket_at_def)
  have "ctx_live ?c s1" using usable_live [OF assms(2,3)] wo by (simp add: ctx_live_def)
  then obtain s2 s3 w' where r: "KspAsyncContextReset ?c s1 = Ok s2"
    and c: "call_and_wait e (mk k wb) ?c s2
      = Ok (final_status e (log s2) (mk k wb), wsk e (log s2) (mk k wb), s3)"
    and q: "quiet s1 s3" and i: "irp_information (Irp ?c) s3 = Ok (final_info e (log s2) (mk k wb))"
    and l2: "log s2 = EvIrpReuse (Irp ?c) # log s1" and l3: "log s3 = w' @ EvWsk (mk k wb) # log s2"
    and w': "\<forall>ev \<in> set w'. ev = EvWait (CompletionEvent ?c)"
    using reset_and_call [OF assms(1)] by metis
  have m: "mdls s3 (buf_mdl wb) = Some \<lparr>mdl_buffer = b, mdl_length = len, mdl_locked = True\<rparr>"
    using wo quietD(2) [OF q] by simp
  obtain t where fin: "finish_transfer ?c wb (final_status e (log s2) (mk k wb)) len s3
    = Ok (final_status e (log s2) (mk k wb), if NT_SUCCESS (final_status e (log s2) (mk k wb))
        then ucast (final_info e (log s2) (mk k wb)) else len, t)"
    and lt: "log t = [EvMdlFree (buf_mdl wb), EvMdlUnlock (buf_mdl wb)] @ log s3"
    using m i by (simp add: finish_transfer_def MmUnlockPages_def IoFreeMdl_def)
  have "keeps s t" by (rule transfer_mdl [OF f w q fin])
  moreover have "transfer e p b len view f mk s = Ok (final_status e (log s2) (mk k wb),
      if NT_SUCCESS (final_status e (log s2) (mk k wb))
        then ucast (final_info e (log s2) (mk k wb)) else len, t)"
    using w k1 r c fin assms(4) by (simp add: transfer_def)
  moreover have "log t = ([EvMdlFree (buf_mdl wb), EvMdlUnlock (buf_mdl wb)] @ w'
      @ [EvWsk (mk k wb), EvIrpReuse (Irp ?c), EvMdlLock (next_addr s), EvMdlAlloc (next_addr s)])
      @ log s" (is "_ = ?w @ _")
    by (simp add: l1 l2 l3 lt)
  moreover have "\<forall>c. EvWsk c \<in> set ?w \<longleftrightarrow> c = mk k wb" using w' by auto
  moreover have "requests_of ?w = [mk k wb]" using requests_of_waits [OF w'] by simp
  ultimately show ?thesis using b by blast
qed

text \<open>Exactly one request.\<close>

lemma transfer_one_request:
  assumes "wsk_contract e" and "ks_wf s" and "usable s p k"
    and "dispatch_call (WskDispatch k) view f = Ok ()"
    and "\<forall>l. mdl_ok e l" and "\<forall>l. lock_ok e l"
  shows "\<exists>t l wb. transfer e p b len view f mk s = Ok (final_status e l (mk k wb),
        if NT_SUCCESS (final_status e l (mk k wb)) then ucast (final_info e l (mk k wb)) else len, t)
      \<and> buf_length wb = ucast len \<and> buf_offset wb = 0 \<and> keeps s t
      \<and> (\<exists>w. log t = w @ log s \<and> requests_of w = [mk k wb])"
  using transfer_completes [OF assms, of b len mk] by (elim exE conjE) (intro exI conjI, assumption+)

text \<open>C8: \<open>KsSend\<close> and \<open>KsRecv\<close> on a usable stream socket return the provider's final status; the
  length comes back as the byte count of the completed request on success and untouched on
  failure; exactly one request is made of the provider, the send or the receive, and the MDL that wraps the buffer covers exactly the requested length from offset 0 and
  is unlocked and freed on every path.\<close>

theorem KsSendRecv_completes:
  assumes "wsk_contract e" and "ks_wf s" and "usable s p k" and "WskDispatch k = ConnectionDispatch"
    and "\<forall>l. mdl_ok e l" and "\<forall>l. lock_ok e l"
  shows "\<exists>t l wb. let c = (if sd then CallSend (WskSocket k) wb fl else CallReceive (WskSocket k) wb fl);
          st = final_status e l c
      in KsSendRecv e p b len fl sd s
           = Ok (st, if NT_SUCCESS st then ucast (final_info e l c) else len, t)
       \<and> buf_length wb = ucast len \<and> buf_offset wb = 0 \<and> keeps s t
       \<and> (\<exists>w. log t = w @ log s \<and> requests_of w = [c])"
proof (cases sd)
  case True
  then show ?thesis
    using transfer_one_request [OF assms(1-3) _ assms(5,6), of ConnectionDispatch WskSend b len
        "\<lambda>k wb. CallSend (WskSocket k) wb fl"] assms(4)
    by (simp add: KsSendRecv_transfer Let_def)
next
  case False
  then show ?thesis
    using transfer_one_request [OF assms(1-3) _ assms(5,6), of ConnectionDispatch WskReceive b len
        "\<lambda>k wb. CallReceive (WskSocket k) wb fl"] assms(4)
    by (simp add: KsSendRecv_transfer Let_def)
qed

theorem KsSendRecv_completes_witness:
  "\<exists>t. KsSendRecv demo_env 2 9 100 0 True demo_world = Ok (STATUS_SUCCESS, 7, t) \<and> keeps demo_world t"
  using KsSendRecv_completes [of demo_env demo_world 2 demo_socket True 0 9 100]
  by (auto simp: final_status_def final_info_def Let_def)

text \<open>A freed socket is a fault in every operation.\<close>

lemma load_socket_freed: "heap s p = None \<Longrightarrow> load_socket p s = Fault"
  by (simp add: load_socket_def load_def)

lemma transfer_freed: "heap s p = None \<Longrightarrow> transfer e p b len view f mk s = Fault"
  by (simp add: transfer_def wrap_buffer_def IoAllocateMdl_def MmProbeAndLockPages_def Let_def load_socket_freed
      split: option.splits if_splits)

lemma freed_faults:
  assumes "heap t p = None"
  shows "KsCloseSocket e p t = Fault \<and> KsBind e p a t = Fault \<and> KsConnect e p a t = Fault
    \<and> KsAccept e p la ra t = Fault \<and> KsSendRecv e p b len fl sd t = Fault \<and> KsSendRecvUdp e p b len fl ra sd t = Fault"
  using load_socket_freed [OF assms] transfer_freed [OF assms]
  by (cases sd) (simp_all add: KsCloseSocket_def KsBind_def KsConnect_def KsAccept_def KsSendRecv_transfer KsSendRecvUdp_transfer)

text \<open>C10: \<open>KsCloseSocket\<close> on a usable socket of any kind returns the provider's final status,
  whatever it is, and gives back exactly the socket block and its IRP; the other sockets stay
  usable, and closing, binding, connecting, accepting on, sending to or receiving from the closed socket is a fault.\<close>

theorem KsCloseSocket_releases:
  assumes "wsk_contract e" and "ks_wf s" and "usable s p k"
  shows "\<exists>t. KsCloseSocket e p s
      = Ok (final_status e (EvIrpReuse (Irp (AsyncContext k)) # log s) (CallClose (WskSocket k)), t)
    \<and> heap t = (heap s)(p := None)
    \<and> (\<forall>q. irps t q = None \<longleftrightarrow> irps s q = None \<or> q = Irp (AsyncContext k)) \<and> mdls t = mdls s
    \<and> (\<forall>q l. q \<noteq> p \<longrightarrow> (usable t q l \<longleftrightarrow> usable s q l))
    \<and> KsCloseSocket e p t = Fault \<and> KsBind e p a t = Fault \<and> KsConnect e p a t = Fault
    \<and> (\<forall>la ra. KsAccept e p la ra t = Fault)
    \<and> (\<forall>b len fl ra sd. KsSendRecv e p b len fl sd t = Fault \<and> KsSendRecvUdp e p b len fl ra sd t = Fault)"
proof -
  let ?c = "AsyncContext k" and ?x = "CallClose (WskSocket k)"
  have l: "load_socket p s = Ok k" using assms(3) by (simp add: load_socket_at usable_def)
  obtain s1 s2 where r: "KspAsyncContextReset ?c s = Ok s1"
    and l1: "log s1 = EvIrpReuse (Irp ?c) # log s"
    and c: "call_and_wait e ?x ?c s1 = Ok (final_status e (log s1) ?x, wsk e (log s1) ?x, s2)"
    and q: "quiet s s2"
    using reset_and_call [OF assms(1) usable_live [OF assms(2,3)]] by metis
  have "irps s2 (Irp ?c) \<noteq> None"
    using usable_live [OF assms(2,3)] quietD(4) [OF q, of "Irp ?c"] by (simp add: ctx_live_def)
  then obtain i where i: "irps s2 (Irp ?c) = Some i" by blast
  obtain cl where cl: "heap s2 p = Some cl" "owner cl = Pool MEMORY_TAG"
    using assms(3) ks_wf_owner [OF assms(2)] quietD(1) [OF q]
    by (auto simp: usable_def socket_at_def)
  obtain t where t: "KsCloseSocket e p s = Ok (final_status e (log s1) ?x, t)"
    using l r c i cl
    by (simp add: KsCloseSocket_def KspAsyncContextFree_def IoFreeIrp_def ExFreePoolWithTag_def)
  obtain k' where "usable s p k'" and h: "heap t = (heap s)(p := None)" and m: "mdls t = mdls s"
    and ir: "\<forall>q. irps t q = None \<longleftrightarrow> irps s q = None \<or> q = Irp (AsyncContext k')"
    using KsCloseSocket_frees [OF assms(2) t] by blast
  then have "k' = k" using assms(3) socket_at_fun by (auto simp: usable_def)
  moreover have "heap t p = None" by (simp add: h)
  ultimately show ?thesis using t ir
    by (simp add: l1 h m usable_def socket_at_def freed_faults)
qed

theorem KsCloseSocket_releases_witness:
  "\<exists>t. KsCloseSocket demo_env 2 demo_world = Ok (STATUS_SUCCESS, t) \<and> heap t 2 = None
    \<and> irps t 4 = None \<and> KsCloseSocket demo_env 2 t = Fault"
  using KsCloseSocket_releases [of demo_env demo_world 2 demo_socket 9]
  by (auto simp: final_status_def)

text \<open>On a socket of another kind a call goes through the wrong slot.\<close>

lemma transfer_other:
  assumes "ks_wf s" and "usable s p k" and "dispatch_call (WskDispatch k) view f = Fault"
  shows "transfer e p b len view f mk s = Fault"
proof (cases "wrap_buffer e b len s")
  case (Ok r)
  obtain wb u where r: "r = (wb, u)" by fastforce
  note wo = wrap_buffer_Ok [OF ks_wf_fresh [OF assms(1)] Ok [unfolded r]]
  have "load_socket p u = Ok k" using assms(2) wo by (simp add: load_socket_at usable_def socket_at_def)
  moreover have "ctx_live (AsyncContext k) u" using usable_live [OF assms(1,2)] wo by (simp add: ctx_live_def)
  ultimately show ?thesis using Reset_armed Ok r assms(3) by (fastforce simp: transfer_def)
next
  case Hang
  then show ?thesis by (simp add: wrap_buffer_def IoAllocateMdl_def MmProbeAndLockPages_def Let_def split: option.splits if_splits)
qed (simp add: transfer_def)

lemma accept_finish_returns:
  assumes "fresh_ok s" and "irp_information (Irp ctx) s = Ok info" and "info \<noteq> 0"
  shows "is_Ok (accept_finish e ctx st s)"
proof -
  obtain n s1 where a: "ExAllocatePoolWithTag e MEMORY_TAG s = (n, s1)" by fastforce
  then have i: "irp_information (Irp ctx) s1 = Ok info" using assms(2)
    by (auto simp: ExAllocatePoolWithTag_def irp_information_def split: if_splits)
  have h: "n \<noteq> 0 \<Longrightarrow> heap s1 n \<noteq> None" using a by (auto simp: ExAllocatePoolWithTag_def split: if_splits)
  obtain st2 ctx2 s2 where "KspAsyncContextAllocate e s1 = Ok (st2, ctx2, s2)" "heap s2 = heap s1"
    by (cases "irp_ok e (log s1)") (simp_all add: KspAsyncContextAllocate_def KeInitializeEvent_def IoAllocateIrp_def
        IoSetCompletionRoutine_def Let_def)
  then show ?thesis using a i h assms(3) by (auto simp: accept_finish_def store_def)
qed

text \<open>C23: The union of dispatch tables in \<open>KSOCKET\<close>, as the operations use it on a socket of each kind: closing
  returns on every kind; binding, whichever member it goes through, on every kind but the basic one, which has no such slot;
  sending and receiving on a stream only for a connection socket, by datagrams only for a datagram
  socket, accepting only for a listening one. On a socket of another kind these reach a slot past the table or a function
  of another prototype, a fault. \<open>KsConnect\<close> on another kind is found out only by its second call, when its bind has
  succeeded.\<close>

theorem union_dispatch:
  assumes "wsk_contract e" and "ks_wf s" and "usable s p k"
    and "\<forall>l. mdl_ok e l" and "\<forall>l. lock_ok e l"
    and "\<forall>l. final_info e l (CallAccept (WskSocket k) la ra) \<noteq> 0"
  shows "is_Ok (KsCloseSocket e p s)
    \<and> (if WskDispatch k \<noteq> BasicDispatch then is_Ok (KsBind e p a s) else KsBind e p a s = Fault)
    \<and> (if WskDispatch k = ConnectionDispatch \<or> WskDispatch k \<noteq> BasicDispatch
            \<and> \<not> NT_SUCCESS (final_status e (EvIrpReuse (Irp (AsyncContext k)) # log s) (CallBindAny (WskSocket k)))
       then is_Ok (KsConnect e p a s) else KsConnect e p a s = Fault)
    \<and> (if WskDispatch k = ConnectionDispatch then is_Ok (KsSendRecv e p b len fl sd s) else KsSendRecv e p b len fl sd s = Fault)
    \<and> (if WskDispatch k = DatagramDispatch then is_Ok (KsSendRecvUdp e p b len fl ra sd s) else KsSendRecvUdp e p b len fl ra sd s = Fault)
    \<and> (if WskDispatch k = ListenDispatch then is_Ok (KsAccept e p la ra s) else KsAccept e p la ra s = Fault)"
proof (intro conjI)
  let ?c = "AsyncContext k"
  have l: "load_socket p s = Ok k" using assms(3) by (simp add: load_socket_at usable_def)
  obtain s1 where r: "KspAsyncContextReset ?c s = Ok s1" "armed ?c s1" "quiet s s1" "log s1 = EvIrpReuse (Irp ?c) # log s"
    using Reset_armed [OF usable_live [OF assms(2,3)]] by blast
  have call: "\<exists>s2. call_and_wait e x ?c s1 = Ok (final_status e (log s1) x, wsk e (log s1) x, s2) \<and> quiet s s2
      \<and> irp_information (Irp ?c) s2 = Ok (final_info e (log s1) x)" for x
    using call_completes [OF assms(1) r(2), of x] quiet_trans [OF r(3)] by blast
  have move: "is_Ok (transfer e p b len view f mk s)" if "dispatch_call (WskDispatch k) view f = Ok ()" for view f mk
    using transfer_completes [OF assms(1-3) that assms(4,5), of b len mk] by auto
  show "is_Ok (KsCloseSocket e p s)"
  proof -
    obtain s2 i where s2: "call_and_wait e (CallClose (WskSocket k)) ?c s1
        = Ok (final_status e (log s1) (CallClose (WskSocket k)), wsk e (log s1) (CallClose (WskSocket k)), s2)"
      "quiet s s2" "irps s2 (Irp ?c) = Some i"
      using call [of "CallClose (WskSocket k)"] by (auto simp: irp_information_def split: option.splits)
    obtain cl where "heap s2 p = Some cl" "owner cl = Pool MEMORY_TAG"
      using assms(3) ks_wf_owner [OF assms(2)] quietD(1) [OF s2(2)] by (auto simp: usable_def socket_at_def)
    then show ?thesis using l r(1) s2
      by (simp add: KsCloseSocket_def KspAsyncContextFree_def IoFreeIrp_def ExFreePoolWithTag_def)
  qed
  show "if WskDispatch k \<noteq> BasicDispatch then is_Ok (KsBind e p a s) else KsBind e p a s = Fault"
    using call [of "CallBind (WskSocket k) a"] l r(1) by (auto simp: KsBind_def dispatch_other)
  show "if WskDispatch k = ConnectionDispatch then is_Ok (KsSendRecv e p b len fl sd s) else KsSendRecv e p b len fl sd s = Fault"
    by (cases sd) (simp_all add: KsSendRecv_transfer move transfer_other [OF assms(2,3)] dispatch_other)
  show "if WskDispatch k = DatagramDispatch then is_Ok (KsSendRecvUdp e p b len fl ra sd s) else KsSendRecvUdp e p b len fl ra sd s = Fault"
    by (cases sd) (simp_all add: KsSendRecvUdp_transfer move transfer_other [OF assms(2,3)] dispatch_other)
  show "if WskDispatch k = ListenDispatch then is_Ok (KsAccept e p la ra s) else KsAccept e p la ra s = Fault"
  proof -
    let ?x = "CallAccept (WskSocket k) la ra"
    obtain s2 where s2: "call_and_wait e ?x ?c s1 = Ok (final_status e (log s1) ?x, wsk e (log s1) ?x, s2)" "quiet s s2"
      "irp_information (Irp ?c) s2 = Ok (final_info e (log s1) ?x)" using call by blast
    have "fresh_ok s2" using keeps_fresh_ok [OF quiet_keeps [OF s2(2)] ks_wf_fresh [OF assms(2)]] .
    from accept_finish_returns [OF this s2(3)] show ?thesis
      using assms(6) l r(1) s2(1) by (simp add: KsAccept_def dispatch_other)
  qed
  show "if WskDispatch k = ConnectionDispatch \<or> WskDispatch k \<noteq> BasicDispatch
            \<and> \<not> NT_SUCCESS (final_status e (EvIrpReuse (Irp (AsyncContext k)) # log s) (CallBindAny (WskSocket k)))
       then is_Ok (KsConnect e p a s) else KsConnect e p a s = Fault"
  proof (cases "WskDispatch k = ConnectionDispatch")
    case True
    then show ?thesis using KsConnect_sequence [OF assms(1-3), of a] by auto
  next
    case False
    let ?b = "CallBindAny (WskSocket k)"
    obtain s2 where s2: "call_and_wait e ?b ?c s1 = Ok (final_status e (log s1) ?b, wsk e (log s1) ?b, s2)" "quiet s s2"
      using call by blast
    obtain s3 where "KspAsyncContextReset ?c s2 = Ok s3"
      using Reset_armed [OF ctx_live_quiet [OF s2(2) usable_live [OF assms(2,3)]]] by blast
    then show ?thesis using False l r(1,4) s2(1)
      by (cases "WskDispatch k = BasicDispatch") (auto simp: KsConnect_def dispatch_other)
  qed
qed

theorem union_dispatch_witness:
  "is_Ok (KsSendRecv demo_env 2 9 100 0 True demo_world) \<and> KsSendRecvUdp demo_env 2 9 100 0 8 True demo_world = Fault
    \<and> KsAccept demo_env 2 0 8 demo_world = Fault \<and> is_Ok (KsConnect demo_env 2 9 demo_world)"
  using union_dispatch [of demo_env demo_world 2 demo_socket 0 8 9 9 100 0 True]
  by (simp add: final_info_def)

text \<open>C1: Along every sequence of API calls that return, started from the world before
  initialisation, the socket heap stays well formed: no block below or above the allocated
  range, every socket in a block of the wrapper's own tag with an event that exists and an IRP
  that exists (or none), and no two sockets sharing an event or an IRP.\<close>

theorem ks_reachable_wf: "ks_reachable e s \<Longrightarrow> ks_wf s"
  by (rule reachable_wf)

theorem ks_reachable_wf_witness:
  "ks_wf (snd (KsInitialize demo_env initial_world))"
  by (rule ks_reachable_wf [of demo_env])
    (rule ks_reachable.step [OF ks_reachable.start ks_step.initialize], rule prod.collapse [symmetric])

section \<open>Creating and accepting\<close>

lemma ctx_alloc_ok:
  assumes "ks_wf s" and "\<forall>l. irp_ok e l"
  obtains ctx t where "KspAsyncContextAllocate e s = Ok (STATUS_SUCCESS, ctx, t)"
    and "armed ctx t" and "captured t = captured s" and "heap t = heap s" and "ks_wf t"
    and "irps s (Irp ctx) = None"
proof -
  obtain st ctx t where c: "KspAsyncContextAllocate e s = Ok (st, ctx, t)" and st: "st = STATUS_SUCCESS"
    using assms(2)
    by (auto simp: KspAsyncContextAllocate_def KeInitializeEvent_def IoAllocateIrp_def
        IoSetCompletionRoutine_def Let_def)
  have "ks_wf t" "heap t = heap s" "captured t = captured s" "armed ctx t" "irps s (Irp ctx) = None"
    using ctx_alloc_wf [OF assms(1) c] st by auto
  with c st that show ?thesis by blast
qed

text \<open>C11: With memory available and the provider captured, \<open>KsCreateSocket\<close> returns the provider's
  final status. On success it writes a new usable socket that carries the provider's handle and
  its dispatch table; on refusal it writes nothing, but the socket block and the IRP it
  allocated stay allocated with no pointer to them: both are leaked.\<close>

theorem KsCreateSocket_outcome:
  assumes "wsk_contract e" and "ks_wf s" and "captured s"
    and "\<forall>l. pool_ok e l" and "\<forall>l. irp_ok e l"
    and "\<forall>l. NT_SUCCESS (final_status e l (CallSocket af ty pr fl))
      \<longrightarrow> final_info e l (CallSocket af ty pr fl) \<noteq> 0"
  shows "\<exists>l r t. KsCreateSocket e af ty pr fl s
        = Ok (final_status e l (CallSocket af ty pr fl), r, t) \<and> ks_wf t
    \<and> (if NT_SUCCESS (final_status e l (CallSocket af ty pr fl))
       then \<exists>p k. r = Some p \<and> usable t p k \<and> heap s p = None
          \<and> WskSocket k = final_info e l (CallSocket af ty pr fl)
          \<and> WskDispatch k = dispatch_of e (WskSocket k)
       else r = None \<and> (\<exists>p i. heap s p = None \<and> heap t p \<noteq> None \<and> irps s i = None \<and> irps t i \<noteq> None))"
proof -
  let ?x = "CallSocket af ty pr fl"
  obtain p s1 where a: "ExAllocatePoolWithTag e MEMORY_TAG s = (p, s1)" by fastforce
  have p0: "p \<noteq> 0" using a assms(4) fresh_okD(1) [OF ks_wf_fresh [OF assms(2)]]
    by (auto simp: ExAllocatePoolWithTag_def)
  note al = alloc_wf [OF assms(2) a]
  have w1: "ks_wf s1" using al by blast
  obtain ctx s2 where c: "KspAsyncContextAllocate e s1 = Ok (STATUS_SUCCESS, ctx, s2)"
    and ar: "armed ctx s2" and cap: "captured s2 = captured s1"
    using ctx_alloc_ok [OF w1 assms(5)] by blast
  obtain s3 where w: "call_and_wait e ?x ctx s2
      = Ok (final_status e (log s2) ?x, wsk e (log s2) ?x, s3)"
    and q: "quiet s2 s3" and i: "irp_information (Irp ctx) s3 = Ok (final_info e (log s2) ?x)"
    using call_completes [OF assms(1) ar] by blast
  have pd: "provider_dispatch s2 = Ok ()" using al cap assms(3) by (simp add: provider_dispatch_def)
  let ?k = "\<lparr>WskSocket = final_info e (log s2) ?x,
    WskDispatch = dispatch_of e (final_info e (log s2) ?x), AsyncContext = ctx\<rparr>"
  have hp: "heap s3 p \<noteq> None"
    using al p0 ctx_alloc_wf [OF w1 c] quietD(1) [OF q] by simp
  show ?thesis
  proof (cases "NT_SUCCESS (final_status e (log s2) ?x)")
    case True
    obtain t where sto: "store p (BSocket ?k) s3 = Ok t" using hp by (auto simp: store_def)
    have run: "KsCreateSocket e af ty pr fl s = Ok (final_status e (log s2) ?x, Some p, t)"
      using a p0 c pd w i True sto assms(6) by (simp add: KsCreateSocket_def)
    have at: "socket_at t p ?k" using sto hp by (auto simp: socket_at_def store_def)
    from assms(2) run show ?thesis
    proof (rule KsCreateSocket_cases)
      fix p' k assume r: "Some p = Some p'" and "ks_wf t" "heap s p' = None" "usable t p' k"
      then have "k = ?k" using at socket_at_fun by (auto simp: usable_def)
      with r \<open>ks_wf t\<close> \<open>heap s p' = None\<close> \<open>usable t p' k\<close> run True show ?thesis
        by (intro exI [of _ "log s2"] exI [of _ "Some p"] exI [of _ t]) auto
    qed (use True in simp_all)
  next
    case False
    have run: "KsCreateSocket e af ty pr fl s = Ok (final_status e (log s2) ?x, None, s3)"
      using a p0 c pd w False by (simp add: KsCreateSocket_def)
    note cl = ctx_alloc_wf [OF w1 c]
    have "heap s p = None" "irps s (Irp ctx) = None" using al cl p0 by simp_all
    moreover have "irps s3 (Irp ctx) \<noteq> None"
      using cl quietD(4) [OF q, of "Irp ctx"] by (auto simp: armed_def)
    moreover have "ks_wf s3" using cl keeps_wf [OF quiet_keeps [OF q]] by blast
    ultimately show ?thesis using run False hp
      by (intro exI [of _ "log s2"] exI [of _ None] exI [of _ s3]) auto
  qed
qed

theorem KsCreateSocket_outcome_witness:
  "\<exists>p k t. KsCreateSocket demo_env 2 1 6 2 demo_world = Ok (STATUS_SUCCESS, Some p, t)
    \<and> usable t p k \<and> WskSocket k = 7"
proof -
  have "captured demo_world" by (simp add: demo_world_def)
  then show ?thesis
    using KsCreateSocket_outcome [of demo_env demo_world 2 1 6 2]
    by (auto simp: final_status_def final_info_def)
qed

text \<open>A socket without an IRP: its reset is a fault, so nothing can be done with it.\<close>

lemma Reset_no_irp:
  assumes "fresh_ok t" and "events t (CompletionEvent ctx) \<noteq> None" and "Irp ctx = 0"
  shows "KspAsyncContextReset ctx t = Fault"
  using assms(2,3) fresh_okD(7) [OF assms(1)]
  by (auto simp: KspAsyncContextReset_def KeResetEvent_def IoReuseIrp_def)

lemma transfer_no_irp:
  assumes "ks_wf t" and "socket_at t q k" and "Irp (AsyncContext k) = 0"
  shows "\<not> is_Ok (transfer e q b len view f mk t)"
proof (cases "wrap_buffer e b len t")
  case (Ok r)
  obtain wb u where r: "r = (wb, u)" by fastforce
  note wo = wrap_buffer_Ok [OF ks_wf_fresh [OF assms(1)] Ok [unfolded r]]
  have "load_socket q u = Ok k" using assms(2) wo by (simp add: load_socket_at socket_at_def)
  moreover have "fresh_ok u" using ks_wf_fresh [OF assms(1)] wo by (auto simp: fresh_ok_def less_Suc_eq)
  moreover have "events u (CompletionEvent (AsyncContext k)) \<noteq> None"
    using ks_wf_socket(1) [OF assms(1,2)] wo by simp
  ultimately show ?thesis using Reset_no_irp assms(3) by (simp add: transfer_def Ok r)
qed (simp_all add: transfer_def)

lemma no_irp_faults:
  assumes "ks_wf t" and "socket_at t q k" and "Irp (AsyncContext k) = 0"
  shows "KsCloseSocket e q t = Fault \<and> KsBind e q a t = Fault \<and> KsConnect e q a t = Fault
    \<and> (\<forall>b len fl sd. \<not> is_Ok (KsSendRecv e q b len fl sd t))"
proof -
  have "load_socket q t = Ok k" using assms(2) by (simp add: load_socket_at)
  moreover have "KspAsyncContextReset (AsyncContext k) t = Fault"
    using Reset_no_irp [OF ks_wf_fresh [OF assms(1)] ks_wf_socket(1) [OF assms(1,2)] assms(3)] .
  moreover have "\<not> is_Ok (KsSendRecv e q b len fl sd t)" for b len fl sd
    using transfer_no_irp [OF assms] by (cases sd) (simp_all add: KsSendRecv_transfer)
  ultimately show ?thesis by (simp add: KsCloseSocket_def KsBind_def KsConnect_def)
qed

text \<open>C20: If the pool gives \<open>KsAccept\<close> a block but the IRP allocation fails, \<open>KsAccept\<close> still reports
  the provider's success and hands out a socket, and every operation on that socket, closing
  included, is a fault on its NULL IRP.\<close>

theorem KsAccept_without_irp:
  assumes "wsk_contract e" and "ks_wf s" and "usable s p k" and "WskDispatch k = ListenDispatch"
    and "\<forall>l. pool_ok e l" and "\<forall>l. \<not> irp_ok e l"
    and "\<forall>l. NT_SUCCESS (final_status e l (CallAccept (WskSocket k) la ra))
      \<and> final_info e l (CallAccept (WskSocket k) la ra) \<noteq> 0"
  shows "\<exists>st q t. KsAccept e p la ra s = Ok (st, Some q, t) \<and> NT_SUCCESS st
    \<and> KsCloseSocket e q t = Fault \<and> KsBind e q a t = Fault \<and> KsConnect e q a t = Fault
    \<and> (\<forall>b len fl sd. \<not> is_Ok (KsSendRecv e q b len fl sd t))"
proof -
  let ?c = "AsyncContext k" and ?x = "CallAccept (WskSocket k) la ra"
  have l: "load_socket p s = Ok k" using assms(3) by (simp add: load_socket_at usable_def)
  obtain s1 s2 where r: "KspAsyncContextReset ?c s = Ok s1"
    and c: "call_and_wait e ?x ?c s1 = Ok (final_status e (log s1) ?x, wsk e (log s1) ?x, s2)"
    and q: "quiet s s2" and i: "irp_information (Irp ?c) s2 = Ok (final_info e (log s1) ?x)"
    using reset_and_call [OF assms(1) usable_live [OF assms(2,3)]] by metis
  have w2: "ks_wf s2" using keeps_wf [OF quiet_keeps [OF q] assms(2)] .
  obtain n s3 where a: "ExAllocatePoolWithTag e MEMORY_TAG s2 = (n, s3)" by fastforce
  note al = alloc_wf [OF w2 a]
  have n0: "n \<noteq> 0" using a assms(5) fresh_okD(1) [OF ks_wf_fresh [OF w2]]
    by (auto simp: ExAllocatePoolWithTag_def)
  have w3: "ks_wf s3" using al by blast
  have i3: "irp_information (Irp ?c) s3 = Ok (final_info e (log s1) ?x)"
    using i al by (simp add: irp_information_def)
  obtain ctx s4 where ca: "KspAsyncContextAllocate e s3 = Ok (STATUS_INSUFFICIENT_RESOURCES, ctx, s4)"
    using assms(6) by (auto simp: KspAsyncContextAllocate_def KeInitializeEvent_def IoAllocateIrp_def
        Let_def)
  note cl = ctx_alloc_wf [OF w3 ca]
  let ?k = "\<lparr>WskSocket = final_info e (log s1) ?x,
    WskDispatch = dispatch_of e (final_info e (log s1) ?x), AsyncContext = ctx\<rparr>"
  have "heap s4 n = Some \<lparr>owner = Pool MEMORY_TAG, body = Raw\<rparr>" using cl al n0 by simp
  then obtain t where sto: "store n (BSocket ?k) s4 = Ok t"
    and t: "t = s4\<lparr>heap := (heap s4)(n \<mapsto> \<lparr>owner = Pool MEMORY_TAG, body = BSocket ?k\<rparr>)\<rparr>"
    by (auto simp: store_def)
  have run: "KsAccept e p la ra s = Ok (final_status e (log s1) ?x, Some n, t)"
    using l r c a n0 i3 ca sto assms(4,7) by (simp add: KsAccept_def accept_finish_def)
  have wt: "ks_wf t"
    using assms(2) run
  proof (rule KsAccept_cases)
    assume "keeps s t" then show ?thesis using assms(2) by (rule keeps_wf)
  qed simp_all
  have "socket_at t n ?k" by (simp add: socket_at_def t)
  then have "KsCloseSocket e n t = Fault \<and> KsBind e n a t = Fault \<and> KsConnect e n a t = Fault
      \<and> (\<forall>b len fl sd. \<not> is_Ok (KsSendRecv e n b len fl sd t))"
    using no_irp_faults [OF wt] cl by simp
  then show ?thesis using run assms(7)
    by (intro exI [of _ "final_status e (log s1) ?x"] exI [of _ n] exI [of _ t]) simp
qed

definition listen_world :: world where
  "listen_world = demo_world\<lparr>heap := [2 \<mapsto> \<lparr>owner = Pool MEMORY_TAG,
     body = BSocket (demo_socket\<lparr>WskDispatch := ListenDispatch\<rparr>)\<rparr>]\<rparr>"

lemma listen_socket_at [simp]:
  "socket_at listen_world p k \<longleftrightarrow> p = 2 \<and> k = demo_socket\<lparr>WskDispatch := ListenDispatch\<rparr>"
  by (auto simp: socket_at_def listen_world_def)

lemma listen_wf [simp]: "ks_wf listen_world"
proof (rule ks_wfI)
  show "fresh_ok listen_world"
    using ks_wf_fresh [OF demo_wf] by (simp add: fresh_ok_def listen_world_def demo_world_def)
  show "owner c = Pool MEMORY_TAG" if "heap listen_world p = Some c" for p c
    using that by (auto simp: listen_world_def split: if_splits)
qed (simp_all add: demo_socket_def, (auto simp: listen_world_def demo_world_def)+)

theorem KsAccept_without_irp_witness:
  "\<exists>st q t. KsAccept (demo_env\<lparr>irp_ok := \<lambda>_. False\<rparr>) 2 0 9 listen_world = Ok (st, Some q, t)
    \<and> NT_SUCCESS st \<and> KsCloseSocket (demo_env\<lparr>irp_ok := \<lambda>_. False\<rparr>) q t = Fault"
proof -
  have "usable listen_world 2 (demo_socket\<lparr>WskDispatch := ListenDispatch\<rparr>)" by (simp add: usable_def)
  moreover have "wsk_contract (demo_env\<lparr>irp_ok := \<lambda>_. False\<rparr>)" by (simp add: wsk_contract_def)
  ultimately show ?thesis
    using KsAccept_without_irp [of "demo_env\<lparr>irp_ok := \<lambda>_. False\<rparr>" listen_world 2
        "demo_socket\<lparr>WskDispatch := ListenDispatch\<rparr>" 0 9 5]
    by (auto simp: final_status_def final_info_def)
qed

section \<open>Initialisation\<close>

text \<open>C21: On a Windows version the wrapper does not support, \<open>KsInitialize\<close> returns a status that
  passes \<open>NT_SUCCESS\<close> although nothing was registered or captured, because the severity in
  \<open>STATUS_UNSUPPORTED_WINDOWS_VERSION\<close> is not shifted to the top bits; a driver that trusts it
  faults in its first \<open>KsCreateSocket\<close>.\<close>

theorem KsInitialize_unsupported:
  assumes "get_version e = (vst, v)" and "NT_SUCCESS vst"
    and "wProductType v \<noteq> 1 \<or> dwMajorVersion v \<noteq> 10 \<or> dwMinorVersion v \<noteq> 0"
    and "ks_wf s" and "\<not> captured s" and "\<forall>l. pool_ok e l" and "\<forall>l. irp_ok e l"
  shows "KsInitialize e s = (STATUS_UNSUPPORTED_WINDOWS_VERSION, s)
    \<and> NT_SUCCESS STATUS_UNSUPPORTED_WINDOWS_VERSION
    \<and> KsCreateSocket e af ty pr fl s = Fault"
proof -
  have "NT_SUCCESS STATUS_UNSUPPORTED_WINDOWS_VERSION"
    by (simp add: NT_SUCCESS_def STATUS_UNSUPPORTED_WINDOWS_VERSION_def STATUS_SEVERITY_ERROR_def)
  moreover have "KsInitialize e s = (STATUS_UNSUPPORTED_WINDOWS_VERSION, s)"
    using assms(1-3) by (simp add: KsInitialize_def VER_NT_WORKSTATION_def)
  moreover have "KsCreateSocket e af ty pr fl s = Fault"
  proof -
    obtain p s1 where a: "ExAllocatePoolWithTag e MEMORY_TAG s = (p, s1)" by fastforce
    note al = alloc_wf [OF assms(4) a]
    obtain ctx s2 where "KspAsyncContextAllocate e s1 = Ok (STATUS_SUCCESS, ctx, s2)"
      "captured s2 = captured s1"
      using ctx_alloc_ok [OF _ assms(7)] al by blast
    moreover have "p \<noteq> 0" using a assms(6) fresh_okD(1) [OF ks_wf_fresh [OF assms(4)]]
      by (auto simp: ExAllocatePoolWithTag_def)
    ultimately show ?thesis using a al assms(5)
      by (simp add: KsCreateSocket_def provider_dispatch_def)
  qed
  ultimately show ?thesis by blast
qed

theorem KsInitialize_unsupported_witness:
  "let e = demo_env\<lparr>get_version := (STATUS_SUCCESS,
        \<lparr>wProductType = 3, dwMajorVersion = 10, dwMinorVersion = 0\<rparr>)\<rparr>
   in NT_SUCCESS (fst (KsInitialize e initial_world))
      \<and> KsCreateSocket e 2 1 6 2 initial_world = Fault"
proof -
  let ?e = "demo_env\<lparr>get_version := (STATUS_SUCCESS,
        \<lparr>wProductType = 3, dwMajorVersion = 10, dwMinorVersion = 0\<rparr>)\<rparr>"
  have "\<not> captured initial_world" by (simp add: initial_world_def)
  then show ?thesis
    using KsInitialize_unsupported [of ?e STATUS_SUCCESS _ initial_world 2 1 6 2] ks_wf_initial
    by (simp add: Let_def)
qed

text \<open>C22: On a supported version \<open>KsInitialize\<close> registers and then captures the provider; when the
  capture fails it returns that failure with the client still registered, until
  \<open>KsDestroy\<close> undoes the registration.\<close>

theorem KsInitialize_registration:
  assumes "get_version e = (vst, v)" and "NT_SUCCESS vst"
    and "wProductType v = 1 \<and> dwMajorVersion v = 10 \<and> dwMinorVersion v = 0"
    and "\<not> registered s" and "\<not> captured s"
  shows "\<exists>st t. KsInitialize e s = (st, t)
    \<and> (if \<not> NT_SUCCESS (wsk_register e (log s)) then \<not> NT_SUCCESS st \<and> \<not> registered t \<and> \<not> captured t
       else st = wsk_capture e (EvRegister # log s) \<and> registered t
          \<and> captured t = NT_SUCCESS st)
    \<and> \<not> registered (KsDestroy t) \<and> \<not> captured (KsDestroy t)"
  using assms by (simp add: KsInitialize_def VER_NT_WORKSTATION_def KsDestroy_def Let_def logged_def)

theorem KsInitialize_registration_witness:
  "\<exists>st t. KsInitialize (demo_env\<lparr>wsk_capture := \<lambda>_. STATUS_UNSUCCESSFUL\<rparr>) initial_world = (st, t)
    \<and> \<not> NT_SUCCESS st \<and> registered t \<and> \<not> captured t"
  using KsInitialize_registration [of "demo_env\<lparr>wsk_capture := \<lambda>_. STATUS_UNSUCCESSFUL\<rparr>"
      STATUS_SUCCESS "\<lparr>wProductType = 1, dwMajorVersion = 10, dwMinorVersion = 0\<rparr>" initial_world]
  by (auto simp: demo_env_def initial_world_def)

end
