(* ===== verification/Berkeley.thy ===== *)
theory Berkeley
  imports Ksocket_Laws
begin

text \<open>
  The socket calls of \<^verbatim>\<open>ksocket/berkeley.c\<close>: a table of 128 socket pointers and a counter
  turn the wrapper's sockets into small integers with the BSD calling convention. The table
  and the counter are the globals \<open>KsArray\<close> and \<open>KsIndex\<close>; C's \<open>int\<close> arguments are HOL
  integers, converted to words where the source casts them.
\<close>

section \<open>The descriptor table\<close>

definition SOCKETFD_MAX :: nat where "SOCKETFD_MAX = 128"

record fdtab =
  KsArray :: "ptr list"
  KsIndex :: u32

definition TO_SOCKETFD :: "u32 \<Rightarrow> int" where
  "TO_SOCKETFD index = int (unat index mod SOCKETFD_MAX) + 0"

definition FROM_SOCKETFD :: "int \<Rightarrow> int" where
  "FROM_SOCKETFD sockfd = sockfd - 0"

text \<open>\<open>KsArray[...]\<close>: an index outside the array is an access out of bounds.\<close>

definition array_read :: "fdtab \<Rightarrow> int \<Rightarrow> ptr res" where
  "array_read tab i =
     (if 0 \<le> i \<and> nat i < length (KsArray tab) then Ok (KsArray tab ! nat i) else Fault)"

definition array_write :: "fdtab \<Rightarrow> int \<Rightarrow> ptr \<Rightarrow> fdtab res" where
  "array_write tab i p =
     (if 0 \<le> i \<and> nat i < length (KsArray tab)
      then Ok (tab\<lparr>KsArray := (KsArray tab)[nat i := p]\<rparr>) else Fault)"

definition initial_table :: fdtab where
  "initial_table = \<lparr>KsArray = replicate SOCKETFD_MAX 0, KsIndex = 0\<rparr>"

section \<open>The calls\<close>

definition IPPROTO_TCP :: u32 where "IPPROTO_TCP = 6"

text \<open>\<open>sizeof(SOCKADDR)\<close>: a 4-byte enum and 14 bytes of data, padded to 4.\<close>

definition sizeof_SOCKADDR :: int where "sizeof_SOCKADDR = 20"

text \<open>The end of the three socket calls and of \<open>accept\<close>: take the next number, store the
  pointer. A success without a socket pointer would store an uninitialised variable.\<close>

definition install :: "ntstatus \<Rightarrow> ptr option \<Rightarrow> fdtab \<Rightarrow> world \<Rightarrow> (int \<times> fdtab \<times> world) res" where
  "install Status Socket tab s =
     (if NT_SUCCESS Status then
        bindR (of_opt Socket) (\<lambda>p.
        let sockfd = TO_SOCKETFD (KsIndex tab); tab1 = tab\<lparr>KsIndex := KsIndex tab + 1\<rparr>
        in bindR (array_write tab1 (FROM_SOCKETFD sockfd) p) (\<lambda>tab2. Ok (sockfd, tab2, s)))
      else Ok (-1, tab, s))"

definition socket_connection ::
  "env \<Rightarrow> int \<Rightarrow> int \<Rightarrow> int \<Rightarrow> fdtab \<Rightarrow> world \<Rightarrow> (int \<times> fdtab \<times> world) res" where
  "socket_connection e domain type protocol tab s =
     bindR (KsCreateConnectionSocket e (word_of_int domain) (word_of_int type)
              (word_of_int protocol) s) (\<lambda>(Status, Socket, t). install Status Socket tab t)"

definition socket_listen ::
  "env \<Rightarrow> int \<Rightarrow> int \<Rightarrow> int \<Rightarrow> fdtab \<Rightarrow> world \<Rightarrow> (int \<times> fdtab \<times> world) res" where
  "socket_listen e domain type protocol tab s =
     bindR (KsCreateListenSocket e (word_of_int domain) (word_of_int type)
              (if protocol \<noteq> 0 then word_of_int protocol else IPPROTO_TCP) s)
       (\<lambda>(Status, Socket, t). install Status Socket tab t)"

definition socket_datagram ::
  "env \<Rightarrow> int \<Rightarrow> int \<Rightarrow> int \<Rightarrow> fdtab \<Rightarrow> world \<Rightarrow> (int \<times> fdtab \<times> world) res" where
  "socket_datagram e domain type protocol tab s =
     bindR (KsCreateDatagramSocket e (word_of_int domain) (word_of_int type)
              (word_of_int protocol) s) (\<lambda>(Status, Socket, t). install Status Socket tab t)"

definition connect :: "env \<Rightarrow> int \<Rightarrow> ptr \<Rightarrow> fdtab \<Rightarrow> world \<Rightarrow> (int \<times> fdtab \<times> world) res" where
  "connect e sockfd addr tab s =
     bindR (array_read tab (FROM_SOCKETFD sockfd)) (\<lambda>Socket.
     bindR (KsConnect e Socket addr s) (\<lambda>(Status, t).
     Ok (if NT_SUCCESS Status then 0 else -1, tab, t)))"

definition listen :: "int \<Rightarrow> int \<Rightarrow> int" where
  "listen sockfd backlog = 0"

definition bind :: "env \<Rightarrow> int \<Rightarrow> ptr \<Rightarrow> fdtab \<Rightarrow> world \<Rightarrow> (int \<times> fdtab \<times> world) res" where
  "bind e sockfd addr tab s =
     bindR (array_read tab (FROM_SOCKETFD sockfd)) (\<lambda>Socket.
     bindR (KsBind e Socket addr s) (\<lambda>(Status, t).
     Ok (if NT_SUCCESS Status then 0 else -1, tab, t)))"

text \<open>\<open>*addrlen\<close> is written without a check; the value is part of the result.\<close>

definition write_addrlen :: "ptr \<Rightarrow> int res" where
  "write_addrlen addrlen = (if addrlen = 0 then Fault else Ok sizeof_SOCKADDR)"

definition accept ::
  "env \<Rightarrow> int \<Rightarrow> ptr \<Rightarrow> ptr \<Rightarrow> fdtab \<Rightarrow> world \<Rightarrow> ((int \<times> int) \<times> fdtab \<times> world) res" where
  "accept e sockfd addr addrlen tab s =
     bindR (array_read tab (FROM_SOCKETFD sockfd)) (\<lambda>Socket.
     bindR (KsAccept e Socket 0 addr s) (\<lambda>(Status, NewSocket, t).
     bindR (write_addrlen addrlen) (\<lambda>len.
     bindR (install Status NewSocket tab t) (\<lambda>(newsockfd, tab', u).
     Ok ((newsockfd, len), tab', u)))))"

text \<open>The byte count of the transfer calls goes through a 32-bit length and back to \<open>int\<close>.\<close>

definition count_result :: "ntstatus \<Rightarrow> u32 \<Rightarrow> int" where
  "count_result Status Length = (if NT_SUCCESS Status then sint Length else -1)"

definition send ::
  "env \<Rightarrow> int \<Rightarrow> ptr \<Rightarrow> u64 \<Rightarrow> int \<Rightarrow> fdtab \<Rightarrow> world \<Rightarrow> (int \<times> fdtab \<times> world) res" where
  "send e sockfd buf len flags tab s =
     bindR (array_read tab (FROM_SOCKETFD sockfd)) (\<lambda>Socket.
     bindR (KsSend e Socket buf (ucast len) (word_of_int flags) s) (\<lambda>(Status, Length, t).
     Ok (count_result Status Length, tab, t)))"

definition sendto ::
  "env \<Rightarrow> int \<Rightarrow> ptr \<Rightarrow> u64 \<Rightarrow> int \<Rightarrow> ptr \<Rightarrow> fdtab \<Rightarrow> world \<Rightarrow> (int \<times> fdtab \<times> world) res" where
  "sendto e sockfd buf len flags dest_addr tab s =
     bindR (array_read tab (FROM_SOCKETFD sockfd)) (\<lambda>Socket.
     bindR (KsSendTo e Socket buf (ucast len) (word_of_int flags) dest_addr s)
       (\<lambda>(Status, Length, t). Ok (count_result Status Length, tab, t)))"

definition recv ::
  "env \<Rightarrow> int \<Rightarrow> ptr \<Rightarrow> u64 \<Rightarrow> int \<Rightarrow> fdtab \<Rightarrow> world \<Rightarrow> (int \<times> fdtab \<times> world) res" where
  "recv e sockfd buf len flags tab s =
     bindR (array_read tab (FROM_SOCKETFD sockfd)) (\<lambda>Socket.
     bindR (KsRecv e Socket buf (ucast len) (word_of_int flags) s) (\<lambda>(Status, Length, t).
     Ok (count_result Status Length, tab, t)))"

text \<open>The body calls \<open>KsSendTo\<close>, as the source does.\<close>

definition recvfrom ::
  "env \<Rightarrow> int \<Rightarrow> ptr \<Rightarrow> u64 \<Rightarrow> int \<Rightarrow> ptr \<Rightarrow> ptr \<Rightarrow> fdtab \<Rightarrow> world
    \<Rightarrow> ((int \<times> int) \<times> fdtab \<times> world) res" where
  "recvfrom e sockfd buf len flags src_addr addrlen tab s =
     bindR (array_read tab (FROM_SOCKETFD sockfd)) (\<lambda>Socket.
     bindR (KsSendTo e Socket buf (ucast len) (word_of_int flags) src_addr s)
       (\<lambda>(Status, Length, t).
     bindR (write_addrlen addrlen) (\<lambda>alen.
     Ok ((count_result Status Length, alen), tab, t))))"

definition closesocket :: "env \<Rightarrow> int \<Rightarrow> fdtab \<Rightarrow> world \<Rightarrow> (int \<times> fdtab \<times> world) res" where
  "closesocket e sockfd tab s =
     bindR (array_read tab (FROM_SOCKETFD sockfd)) (\<lambda>Socket.
     bindR (KsCloseSocket e Socket s) (\<lambda>(Status, t).
     bindR (array_write tab (FROM_SOCKETFD sockfd) 0) (\<lambda>tab'.
     Ok (if NT_SUCCESS Status then 0 else -1, tab', t))))"

section \<open>The table as a map\<close>

text \<open>What the table promises: a partial map from descriptors to sockets.\<close>

definition fd_map :: "fdtab \<Rightarrow> int \<rightharpoonup> ptr" where
  "fd_map tab fd = (case array_read tab fd of
      Ok p \<Rightarrow> (if p = 0 then None else Some p) | _ \<Rightarrow> None)"

definition next_fd :: "fdtab \<Rightarrow> int" where
  "next_fd tab = TO_SOCKETFD (KsIndex tab)"

definition tab_wf :: "fdtab \<Rightarrow> world \<Rightarrow> bool" where
  "tab_wf tab s \<longleftrightarrow> ks_wf s \<and> length (KsArray tab) = SOCKETFD_MAX
     \<and> (\<forall>fd p. fd_map tab fd = Some p \<longrightarrow> (\<exists>k. socket_at s p k))
     \<and> (\<forall>fd fd' p. fd_map tab fd = Some p \<longrightarrow> fd_map tab fd' = Some p \<longrightarrow> fd = fd')"

lemma next_fd_range: "0 \<le> next_fd tab \<and> next_fd tab < 128"
  by (simp add: next_fd_def TO_SOCKETFD_def SOCKETFD_MAX_def)

lemma array_read_map:
  "length (KsArray tab) = SOCKETFD_MAX \<Longrightarrow> fd_map tab fd = Some p \<Longrightarrow> array_read tab fd = Ok p"
  by (auto simp: fd_map_def array_read_def split: if_splits)

lemma array_write_map:
  "array_write tab fd p = Ok tab' \<Longrightarrow> fd_map tab' = (fd_map tab)(fd := if p = 0 then None else Some p)
    \<and> length (KsArray tab') = length (KsArray tab) \<and> KsIndex tab' = KsIndex tab"
  by (auto simp: array_write_def fd_map_def array_read_def fun_eq_iff nth_list_update
      split: if_splits)

lemma fd_map_index [simp]: "fd_map (tab\<lparr>KsIndex := i\<rparr>) = fd_map tab"
  by (simp add: fd_map_def array_read_def fun_eq_iff)

lemma fd_map_range: "fd_map tab fd = Some p \<Longrightarrow> 0 \<le> fd \<and> nat fd < length (KsArray tab) \<and> p \<noteq> 0"
  by (auto simp: fd_map_def array_read_def split: if_splits)

lemma tab_wf_initial: "ks_wf s \<Longrightarrow> tab_wf initial_table s"
  by (auto simp: tab_wf_def initial_table_def fd_map_def array_read_def SOCKETFD_MAX_def
      split: if_splits)

lemma tab_wf_keeps: "tab_wf tab s \<Longrightarrow> keeps s t \<Longrightarrow> tab_wf tab t"
  using keeps_wf keeps_socket_at unfolding tab_wf_def by metis

lemma socket_nonnull: "ks_wf s \<Longrightarrow> socket_at s p k \<Longrightarrow> p \<noteq> 0"
  using fresh_okD(6) [OF ks_wf_fresh, of s] by (cases "p = 0") (auto simp: socket_at_def)

text \<open>A descriptor call that keeps the objects: what the interface \<open>socket_op\<close> gives the table.\<close>

context socket_op begin

lemma fd_call_wf:
  assumes "tab_wf tab s" and "bindR (array_read tab fd) (\<lambda>p. op e p s) = Ok (r, t)"
  shows "tab_wf tab t \<and> (\<exists>p. fd_map tab fd = Some p)"
proof -
  from assms(2) obtain p where p: "array_read tab fd = Ok p" "op e p s = Ok (r, t)"
    by (auto simp: res_simps)
  have w: "ks_wf s" using assms(1) by (simp add: tab_wf_def)
  have "tab_wf tab t" using tab_wf_keeps [OF assms(1) op_keeps [OF ks_wf_fresh [OF w] p(2)]] .
  moreover have "p \<noteq> 0" using op_needs_socket [OF p(2)] socket_nonnull [OF w] by blast
  ultimately show ?thesis using p(1) by (simp add: fd_map_def)
qed

end

section \<open>Every call keeps the table well formed\<close>

lemma tab_wf_grow:
  assumes "tab_wf tab s" and "ks_wf t" and "heap t = (heap s)(p \<mapsto> c)" and "heap s p = None"
  shows "tab_wf tab t"
proof -
  have "socket_at s q k \<Longrightarrow> socket_at t q k" for q k
    using assms(3,4) by (auto simp: socket_at_def)
  then show ?thesis using assms(1,2) unfolding tab_wf_def by metis
qed

lemma tab_wf_mem: "tab_wf tab s \<Longrightarrow> fd_map tab fd = Some p \<Longrightarrow> heap s p \<noteq> None"
  unfolding tab_wf_def socket_at_def by (metis option.distinct(1))

lemma install_map:
  assumes "tab_wf tab t" and "socket_at t p k" and "\<forall>fd. fd_map tab fd \<noteq> Some p" and "NT_SUCCESS st"
  shows "\<exists>tab'. install st (Some p) tab t = Ok (next_fd tab, tab', t) \<and> tab_wf tab' t
    \<and> fd_map tab' = (fd_map tab)(next_fd tab \<mapsto> p) \<and> KsIndex tab' = KsIndex tab + 1"
proof -
  have p0: "p \<noteq> 0" using assms(1,2) socket_nonnull by (auto simp: tab_wf_def)
  let ?t1 = "tab\<lparr>KsIndex := KsIndex tab + 1\<rparr>"
  obtain tab' where w: "array_write ?t1 (next_fd tab) p = Ok tab'"
    using assms(1) next_fd_range [of tab]
    by (auto simp: array_write_def tab_wf_def SOCKETFD_MAX_def nat_less_iff)
  have m: "fd_map tab' = (fd_map tab)(next_fd tab \<mapsto> p)" "length (KsArray tab') = SOCKETFD_MAX"
    "KsIndex tab' = KsIndex tab + 1"
    using array_write_map [OF w] p0 assms(1) by (simp_all add: tab_wf_def)
  have "tab_wf tab' t" using assms(1-3) m unfolding tab_wf_def by (auto split: if_splits)
  moreover have "install st (Some p) tab t = Ok (next_fd tab, tab', t)"
    using w assms(4) by (simp add: install_def next_fd_def FROM_SOCKETFD_def Let_def)
  ultimately show ?thesis using m by blast
qed

text \<open>The three socket calls as operations on the map.\<close>

lemma create_install:
  assumes "tab_wf tab s" and "KsCreateSocket e af ty pr fl s = Ok (st, r, t)"
    and "install st r tab t = Ok (fd, tab', u)"
  shows "tab_wf tab' u \<and> (fd = -1 \<and> tab' = tab
    \<or> (\<exists>p k. fd = next_fd tab \<and> fd_map tab' = (fd_map tab)(fd \<mapsto> p) \<and> heap s p = None
          \<and> usable u p k \<and> KsIndex tab' = KsIndex tab + 1))"
proof -
  have w: "ks_wf s" using assms(1) by (simp add: tab_wf_def)
  from w assms(2) show ?thesis
  proof (rule KsCreateSocket_cases)
    assume "st = STATUS_INSUFFICIENT_RESOURCES" "keeps s t"
    then show ?thesis using assms(1,3) tab_wf_keeps by (auto simp: install_def)
  next
    fix p assume "st = STATUS_INSUFFICIENT_RESOURCES" "ks_wf t" "heap s p = None"
      "heap t = (heap s)(p \<mapsto> \<lparr>owner = Pool MEMORY_TAG, body = Raw\<rparr>)"
    then show ?thesis using assms(1,3) tab_wf_grow by (auto simp: install_def)
  next
    fix p i assume "\<not> NT_SUCCESS st" "ks_wf t" "heap s p = None"
      "heap t = (heap s)(p \<mapsto> \<lparr>owner = Pool MEMORY_TAG, body = Raw\<rparr>)"
    then show ?thesis using assms(1,3) tab_wf_grow by (auto simp: install_def)
  next
    fix p k assume r: "r = Some p" and st: "NT_SUCCESS st" and wt: "ks_wf t" and f: "heap s p = None"
      and us: "usable t p k"
      and h: "heap t = (heap s)(p \<mapsto> \<lparr>owner = Pool MEMORY_TAG, body = BSocket k\<rparr>)"
    have "tab_wf tab t" using tab_wf_grow [OF assms(1) wt h f] .
    moreover have "\<forall>fd. fd_map tab fd \<noteq> Some p" using tab_wf_mem [OF assms(1)] f by blast
    ultimately obtain tab'' where "install st (Some p) tab t = Ok (next_fd tab, tab'', t)"
      "tab_wf tab'' t" "fd_map tab'' = (fd_map tab)(next_fd tab \<mapsto> p)"
      "KsIndex tab'' = KsIndex tab + 1"
      using install_map us st by (metis usable_def)
    then show ?thesis using assms(3) r f us by auto
  qed
qed

lemma accept_wf:
  assumes "tab_wf tab s" and "accept e fd a al tab s = Ok (r, tab', u)"
  shows "tab_wf tab' u"
proof -
  from assms(2) obtain q st n t len fd' where "array_read tab (FROM_SOCKETFD fd) = Ok q"
    and a: "KsAccept e q 0 a s = Ok (st, n, t)" and i: "install st n tab t = Ok (fd', tab', u)"
    by (auto simp: accept_def res_simps)
  have w: "ks_wf s" using assms(1) by (simp add: tab_wf_def)
  from w a show ?thesis
  proof (rule KsAccept_cases)
    assume "\<not> NT_SUCCESS st" "keeps s t"
    then show ?thesis using i assms(1) tab_wf_keeps by (auto simp: install_def)
  next
    assume "st = STATUS_INSUFFICIENT_RESOURCES" "keeps s t"
    then show ?thesis using i assms(1) tab_wf_keeps by (auto simp: install_def)
  next
    fix p k assume r: "n = Some p" and st: "NT_SUCCESS st" and wt: "ks_wf t" and f: "heap s p = None"
      and sa: "socket_at t p k"
      and h: "heap t = (heap s)(p \<mapsto> \<lparr>owner = Pool MEMORY_TAG, body = BSocket k\<rparr>)"
    have "tab_wf tab t" using tab_wf_grow [OF assms(1) wt h f] .
    moreover have "\<forall>fd. fd_map tab fd \<noteq> Some p" using tab_wf_mem [OF assms(1)] f by blast
    ultimately obtain tab'' where "install st (Some p) tab t = Ok (next_fd tab, tab'', t)"
      "tab_wf tab'' t"
      using install_map sa st by metis
    then show ?thesis using i r by simp
  qed
qed

lemma closesocket_map:
  assumes "tab_wf tab s" and "closesocket e fd tab s = Ok (r, tab', t)"
  shows "\<exists>p k. fd_map tab fd = Some p \<and> usable s p k \<and> fd_map tab' = (fd_map tab)(fd := None)
    \<and> heap t = (heap s)(p := None) \<and> tab_wf tab' t \<and> KsIndex tab' = KsIndex tab"
proof -
  from assms(2) obtain p st where rd: "array_read tab fd = Ok p"
    and c: "KsCloseSocket e p s = Ok (st, t)" and wr: "array_write tab fd 0 = Ok tab'"
    by (auto simp: closesocket_def FROM_SOCKETFD_def res_simps)
  have w: "ks_wf s" using assms(1) by (simp add: tab_wf_def)
  obtain k where k: "usable s p k" and h: "heap t = (heap s)(p := None)"
    using KsCloseSocket_frees [OF w c] by blast
  have p0: "p \<noteq> 0" using k socket_nonnull [OF w] by (auto simp: usable_def)
  then have fd: "fd_map tab fd = Some p" using rd by (simp add: fd_map_def)
  note m = array_write_map [OF wr]
  have "q \<noteq> p \<Longrightarrow> socket_at s q l \<Longrightarrow> socket_at t q l" for q l
    by (simp add: socket_at_def h)
  moreover have "fd_map tab fd' = Some q \<Longrightarrow> fd' \<noteq> fd \<Longrightarrow> q \<noteq> p" for fd' q
    using fd assms(1) unfolding tab_wf_def by blast
  ultimately have "tab_wf tab' t"
    using assms(1) m KsCloseSocket_wf [OF w c] unfolding tab_wf_def by (auto split: if_splits) metis+
  then show ?thesis using fd k h m by auto
qed

end
