(* ===== verification/Berkeley_Props.thy ===== *)
theory Berkeley_Props
  imports Berkeley Ksocket_Props
begin

text \<open>
  What the descriptor layer of \<^verbatim>\<open>ksocket/berkeley.c\<close> promises: the table is a partial map
  from small numbers to distinct live sockets along every run, each call is an update of
  that map, and the two places where the layer does not keep what its interface suggests
  (the counter that comes round, and \<open>recvfrom\<close>).
\<close>

section \<open>Runs of the descriptor calls\<close>

type_synonym fd_state = "fdtab \<times> world"

inductive fd_step :: "env \<Rightarrow> fd_state \<Rightarrow> fd_state \<Rightarrow> bool" for e where
  initialize: "KsInitialize e s = (st, t) \<Longrightarrow> fd_step e (tab, s) (tab, t)"
| socket_connection: "socket_connection e d ty pr tab s = Ok (fd, tab', t)
    \<Longrightarrow> fd_step e (tab, s) (tab', t)"
| socket_listen: "socket_listen e d ty pr tab s = Ok (fd, tab', t) \<Longrightarrow> fd_step e (tab, s) (tab', t)"
| socket_datagram: "socket_datagram e d ty pr tab s = Ok (fd, tab', t)
    \<Longrightarrow> fd_step e (tab, s) (tab', t)"
| connect: "connect e fd a tab s = Ok (r, tab', t) \<Longrightarrow> fd_step e (tab, s) (tab', t)"
| bind: "bind e fd a tab s = Ok (r, tab', t) \<Longrightarrow> fd_step e (tab, s) (tab', t)"
| accept: "accept e fd a al tab s = Ok (r, tab', t) \<Longrightarrow> fd_step e (tab, s) (tab', t)"
| send: "send e fd b len fl tab s = Ok (r, tab', t) \<Longrightarrow> fd_step e (tab, s) (tab', t)"
| sendto: "sendto e fd b len fl a tab s = Ok (r, tab', t) \<Longrightarrow> fd_step e (tab, s) (tab', t)"
| recv: "recv e fd b len fl tab s = Ok (r, tab', t) \<Longrightarrow> fd_step e (tab, s) (tab', t)"
| recvfrom: "recvfrom e fd b len fl a al tab s = Ok (r, tab', t) \<Longrightarrow> fd_step e (tab, s) (tab', t)"
| closesocket: "closesocket e fd tab s = Ok (r, tab', t) \<Longrightarrow> fd_step e (tab, s) (tab', t)"

inductive fd_reachable :: "env \<Rightarrow> fd_state \<Rightarrow> bool" for e where
  start: "fd_reachable e (initial_table, initial_world)"
| step: "fd_reachable e x \<Longrightarrow> fd_step e x y \<Longrightarrow> fd_reachable e y"

text \<open>The calls on an existing descriptor do not touch the table and keep every object.\<close>

lemma socket_calls_install:
  "socket_connection e d ty pr tab s = Ok (fd, tab', t) \<Longrightarrow>
     \<exists>st r u. KsCreateSocket e (word_of_int d) (word_of_int ty) (word_of_int pr)
         WSK_FLAG_CONNECTION_SOCKET s = Ok (st, r, u) \<and> install st r tab u = Ok (fd, tab', t)"
  "socket_listen e d ty pr tab s = Ok (fd, tab', t) \<Longrightarrow>
     \<exists>st r u. KsCreateSocket e (word_of_int d) (word_of_int ty)
         (if pr \<noteq> 0 then word_of_int pr else IPPROTO_TCP)
         WSK_FLAG_LISTEN_SOCKET s = Ok (st, r, u) \<and> install st r tab u = Ok (fd, tab', t)"
  "socket_datagram e d ty pr tab s = Ok (fd, tab', t) \<Longrightarrow>
     \<exists>st r u. KsCreateSocket e (word_of_int d) (word_of_int ty) (word_of_int pr)
         WSK_FLAG_DATAGRAM_SOCKET s = Ok (st, r, u) \<and> install st r tab u = Ok (fd, tab', t)"
  by (auto simp: socket_connection_def socket_listen_def socket_datagram_def res_simps
      KsCreateConnectionSocket_def KsCreateListenSocket_def KsCreateDatagramSocket_def)

text \<open>What each socket call does to the map of descriptors.\<close>

definition installs :: "fdtab \<Rightarrow> world \<Rightarrow> int \<Rightarrow> fdtab \<Rightarrow> world \<Rightarrow> bool" where
  "installs tab s fd tab' t \<longleftrightarrow> tab_wf tab' t \<and> (fd = -1 \<and> tab' = tab
    \<or> (\<exists>p k. fd = next_fd tab \<and> fd_map tab' = (fd_map tab)(fd \<mapsto> p) \<and> heap s p = None
          \<and> usable t p k \<and> KsIndex tab' = KsIndex tab + 1))"

lemma socket_calls_map:
  assumes "tab_wf tab s"
  shows "socket_connection e d ty pr tab s = Ok (fd, tab', t) \<Longrightarrow> installs tab s fd tab' t"
    and "socket_listen e d ty pr tab s = Ok (fd, tab', t) \<Longrightarrow> installs tab s fd tab' t"
    and "socket_datagram e d ty pr tab s = Ok (fd, tab', t) \<Longrightarrow> installs tab s fd tab' t"
  unfolding installs_def
  by (meson socket_calls_install create_install [OF assms])+

lemma fd_op_wf:
  assumes "socket_op op" and "tab_wf tab s"
    and "bindR (array_read tab fd) (\<lambda>p. op e p s) = Ok (r, t)"
  shows "tab_wf tab t"
  using socket_op.fd_call_wf [OF assms] by blast

lemma transfer_call_wf:
  assumes "tab_wf tab s"
  shows "send e fd b len fl tab s = Ok (r, tab', t) \<Longrightarrow> tab' = tab \<and> tab_wf tab t"
    and "recv e fd b len fl tab s = Ok (r, tab', t) \<Longrightarrow> tab' = tab \<and> tab_wf tab t"
    and "sendto e fd b len fl a tab s = Ok (r, tab', t) \<Longrightarrow> tab' = tab \<and> tab_wf tab t"
    and "recvfrom e fd b len fl a al tab s = Ok (rr, tab', t) \<Longrightarrow> tab' = tab \<and> tab_wf tab t"
  using tab_wf_keeps [OF assms] ks_wf_fresh assms
  by (auto simp: send_def recv_def sendto_def recvfrom_def KsSend_def KsRecv_def KsSendTo_def
      res_simps tab_wf_def [of tab s] dest!: KsSendRecv_keeps [rotated] KsSendRecvUdp_keeps [rotated])

lemma name_call_wf:
  assumes "tab_wf tab s"
  shows "connect e fd a tab s = Ok (r, tab', t) \<Longrightarrow> tab' = tab \<and> tab_wf tab t"
    and "bind e fd a tab s = Ok (r, tab', t) \<Longrightarrow> tab' = tab \<and> tab_wf tab t"
  using tab_wf_keeps [OF assms quiet_keeps]
  by (auto simp: connect_def bind_def res_simps dest: KsConnect_quiet KsBind_quiet)

lemma tab_wf_same_objects:
  assumes "tab_wf tab s" and "ks_wf t" and "heap t = heap s"
  shows "tab_wf tab t"
  using assms unfolding tab_wf_def socket_at_def by simp

lemma installs_wf: "installs tab s fd tab' t \<Longrightarrow> tab_wf tab' t"
  by (simp add: installs_def)

lemma fd_step_wf:
  assumes "fd_step e x y" and "tab_wf (fst x) (snd x)"
  shows "tab_wf (fst y) (snd y)"
  using assms
proof (cases rule: fd_step.cases)
  case (initialize s st t tab)
  then have w: "tab_wf tab s" using assms(2) by simp
  have "ks_wf t" using initialize w KsInitialize_wf by (auto simp: tab_wf_def)
  moreover have "heap t = heap s" using initialize
    by (auto simp: KsInitialize_def Let_def logged_def split: if_splits prod.splits)
  ultimately show ?thesis using initialize w tab_wf_same_objects by simp
next
  case (closesocket fd tab s r tab' t)
  then show ?thesis using closesocket_map [of tab s e fd r tab' t] assms(2) by auto
next
  case socket_connection
  then show ?thesis using installs_wf [OF socket_calls_map(1)] assms(2) by simp
next
  case socket_listen
  then show ?thesis using installs_wf [OF socket_calls_map(2)] assms(2) by simp
next
  case socket_datagram
  then show ?thesis using installs_wf [OF socket_calls_map(3)] assms(2) by simp
next
  case connect
  then show ?thesis using assms(2) by (auto dest: name_call_wf(1) [rotated])
next
  case bind
  then show ?thesis using assms(2) by (auto dest: name_call_wf(2) [rotated])
next
  case accept
  then show ?thesis using assms(2) by (auto dest: accept_wf [rotated])
next
  case send
  then show ?thesis using assms(2) by (auto dest: transfer_call_wf(1) [rotated])
next
  case sendto
  then show ?thesis using assms(2) by (auto dest: transfer_call_wf(3) [rotated])
next
  case recv
  then show ?thesis using assms(2) by (auto dest: transfer_call_wf(2) [rotated])
next
  case recvfrom
  then show ?thesis using assms(2) by (auto dest: transfer_call_wf(4) [rotated])
qed

lemma fd_reachable_tab_wf: "fd_reachable e x \<Longrightarrow> tab_wf (fst x) (snd x)"
  by (induction rule: fd_reachable.induct) (auto intro: tab_wf_initial ks_wf_initial fd_step_wf)

section \<open>Properties\<close>

text \<open>C2: Along every run of descriptor calls from the zeroed globals, the table is a partial map from
  numbers in 0 to 127 to distinct live sockets of a well-formed socket heap: no entry points to a
  freed block, and no two descriptors name the same socket.\<close>

theorem fd_table_invariant:
  assumes "fd_reachable e (tab, s)"
  shows "ks_wf s \<and> (\<forall>fd p. fd_map tab fd = Some p \<longrightarrow> 0 \<le> fd \<and> fd < 128 \<and> (\<exists>k. socket_at s p k))
    \<and> (\<forall>fd fd' p. fd_map tab fd = Some p \<longrightarrow> fd_map tab fd' = Some p \<longrightarrow> fd = fd')"
proof -
  have w: "tab_wf tab s" using fd_reachable_tab_wf [OF assms] by simp
  have "0 \<le> fd \<and> fd < 128" if "fd_map tab fd = Some p" for fd p
    using fd_map_range [OF that] w by (auto simp: tab_wf_def SOCKETFD_MAX_def nat_less_iff)
  then show ?thesis using w unfolding tab_wf_def by blast
qed

text \<open>The table and world of the examples: descriptor 0 is the demo socket.\<close>

definition demo_table :: fdtab where
  "demo_table = \<lparr>KsArray = (replicate SOCKETFD_MAX 0)[0 := 2], KsIndex = 1\<rparr>"

lemma demo_map: "fd_map demo_table fd = (if fd = 0 then Some 2 else None)"
  by (auto simp: fd_map_def array_read_def demo_table_def SOCKETFD_MAX_def nth_list_update)

lemma demo_tab_wf [simp]: "tab_wf demo_table demo_world"
  by (simp add: tab_wf_def demo_map) (simp add: demo_table_def)

theorem fd_table_invariant_witness:
  "\<exists>t. fd_reachable demo_env (initial_table, t) \<and> ks_wf t \<and> registered t"
proof -
  let ?t = "snd (KsInitialize demo_env initial_world)"
  have r: "fd_reachable demo_env (initial_table, ?t)"
    by (rule fd_reachable.step [OF fd_reachable.start fd_step.initialize])
      (rule prod.collapse [symmetric])
  moreover have "ks_wf ?t" using fd_table_invariant [OF r] by blast
  moreover have "registered ?t"
    by (simp add: KsInitialize_def demo_env_def Let_def VER_NT_WORKSTATION_def)
  ultimately show ?thesis by blast
qed

text \<open>C17: Each of the three socket calls either returns -1 and leaves the table alone, or returns the
  counter's number and enters there a fresh usable socket, changing no other descriptor;
  the listening call never passes protocol 0 to the provider.\<close>

theorem socket_calls_refine:
  assumes "tab_wf tab s"
    and "socket_connection e d ty pr tab s = Ok (fd, tab', t)
      \<or> socket_listen e d ty pr tab s = Ok (fd, tab', t)
      \<or> socket_datagram e d ty pr tab s = Ok (fd, tab', t)"
  shows "tab_wf tab' t \<and> (fd = -1 \<and> tab' = tab
      \<or> (\<exists>p k. fd = next_fd tab \<and> fd_map tab' = (fd_map tab)(fd \<mapsto> p) \<and> heap s p = None
            \<and> usable t p k \<and> KsIndex tab' = KsIndex tab + 1))
    \<and> socket_listen e d ty 0 tab s = socket_listen e d ty 6 tab s"
proof -
  have "installs tab s fd tab' t" using socket_calls_map [OF assms(1)] assms(2) by metis
  then show ?thesis by (simp add: installs_def socket_listen_def IPPROTO_TCP_def)
qed

text \<open>The run of the examples: with the demo provider a socket call succeeds.\<close>

lemma demo_create:
  "\<exists>t. KsCreateSocket demo_env af ty pr fl demo_world = Ok (STATUS_SUCCESS, Some 5, t)
    \<and> heap t = (heap demo_world)(5 \<mapsto> \<lparr>owner = Pool MEMORY_TAG, body = BSocket
        \<lparr>WskSocket = 7, WskDispatch = ConnectionDispatch,
         AsyncContext = \<lparr>CompletionEvent = 6, Irp = 7\<rparr>\<rparr>\<rparr>)"
proof -
  have [simp]: "next_addr demo_world = 5" "captured demo_world" by (simp_all add: demo_world_def)
  show ?thesis
    by (simp add: KsCreateSocket_def ExAllocatePoolWithTag_def KspAsyncContextAllocate_def
        KeInitializeEvent_def IoAllocateIrp_def IoSetCompletionRoutine_def Let_def provider_dispatch_def
        call_and_wait_def submit_def KspAsyncContextCompletionRoutine_def KeSetEvent_def
        KspAsyncContextWaitForCompletion_def KeWaitForSingleObject_def irp_information_def store_def
        logged_def)
qed

lemma demo_socket_connection:
  "\<exists>t tab'. socket_connection demo_env 2 1 6 demo_table demo_world = Ok (1, tab', t)
    \<and> tab' = \<lparr>KsArray = (replicate SOCKETFD_MAX 0)[0 := 2, 1 := 5], KsIndex = 2\<rparr>"
  using demo_create [of 2 1 6 WSK_FLAG_CONNECTION_SOCKET]
  by (auto simp: socket_connection_def KsCreateConnectionSocket_def install_def Let_def
      TO_SOCKETFD_def FROM_SOCKETFD_def array_write_def demo_table_def SOCKETFD_MAX_def)

theorem socket_calls_refine_witness:
  "\<exists>t tab' k. socket_connection demo_env 2 1 6 demo_table demo_world = Ok (1, tab', t)
    \<and> tab_wf tab' t \<and> fd_map tab' 0 = Some 2 \<and> (\<exists>p. fd_map tab' 1 = Some p \<and> usable t p k)"
proof -
  obtain t tab' where r: "socket_connection demo_env 2 1 6 demo_table demo_world = Ok (1, tab', t)"
    using demo_socket_connection by blast
  then show ?thesis using socket_calls_refine [OF demo_tab_wf disjI1 [OF r]]
    by (auto simp: demo_map)
qed

text \<open>C18: The counter wraps: two counters 128 apart give the same number, and a socket call that gets a
  number still in use silently replaces the live socket there. The old socket keeps its block
  and its IRP but no descriptor reaches it any more.\<close>

theorem descriptor_reuse_leaks:
  assumes "tab_wf tab s" and "fd_map tab (next_fd tab) = Some p" and "socket_at s p k"
    and "socket_connection e d ty pr tab s = Ok (fd, tab', t)" and "fd \<noteq> -1"
  shows "next_fd (tab\<lparr>KsIndex := KsIndex tab + 128\<rparr>) = next_fd tab
    \<and> fd = next_fd tab \<and> socket_at t p k \<and> (\<forall>fd'. fd_map tab' fd' \<noteq> Some p)"
proof -
  have idx: "unat (KsIndex tab + 128) mod 128 = unat (KsIndex tab) mod 128"
    by (simp add: unat_word_ariths mod_mod_cancel)
  from socket_calls_map(1) [OF assms(1,4)] assms(5) obtain q where
    fd: "fd = next_fd tab" and m: "fd_map tab' = (fd_map tab)(fd \<mapsto> q)" and q: "heap s q = None"
    by (auto simp: installs_def)
  have pq: "q \<noteq> p" using q assms(3) by (auto simp: socket_at_def)
  obtain st r u where c: "KsCreateSocket e (word_of_int d) (word_of_int ty) (word_of_int pr)
      WSK_FLAG_CONNECTION_SOCKET s = Ok (st, r, u)" and i: "install st r tab u = Ok (fd, tab', t)"
    using socket_calls_install(1) [OF assms(4)] by blast
  have ut: "u = t" using i by (auto simp: install_def Let_def res_simps split: if_splits)
  have w: "ks_wf s" using assms(1) by (simp add: tab_wf_def)
  have "socket_at u p k" using w c
    by (rule KsCreateSocket_cases) (use assms(3) in \<open>auto simp: socket_at_def keeps_def\<close>)
  moreover have "fd_map tab' fd' \<noteq> Some p" for fd'
    using assms(1,2) pq unfolding m fd tab_wf_def by (auto split: if_splits)
  ultimately show ?thesis using idx fd by (simp add: ut next_fd_def TO_SOCKETFD_def SOCKETFD_MAX_def)
qed

theorem descriptor_reuse_leaks_witness:
  "\<exists>t tab'. socket_connection demo_env 2 1 6 (demo_table\<lparr>KsIndex := 128\<rparr>) demo_world = Ok (0, tab', t)
    \<and> socket_at t 2 demo_socket \<and> fd_map tab' 0 \<noteq> Some 2"
proof -
  let ?tab = "demo_table\<lparr>KsIndex := 128\<rparr>"
  have w: "tab_wf ?tab demo_world" using demo_tab_wf by (simp add: tab_wf_def)
  have n: "next_fd ?tab = 0" by (simp add: next_fd_def TO_SOCKETFD_def SOCKETFD_MAX_def)
  obtain t tab' where r: "socket_connection demo_env 2 1 6 ?tab demo_world = Ok (0, tab', t)"
    using demo_create [of 2 1 6 WSK_FLAG_CONNECTION_SOCKET]
    by (auto simp: socket_connection_def KsCreateConnectionSocket_def install_def Let_def
        TO_SOCKETFD_def FROM_SOCKETFD_def array_write_def demo_table_def SOCKETFD_MAX_def)
  then show ?thesis
    using descriptor_reuse_leaks [OF w _ _ r, of 2 demo_socket] by (simp add: n demo_map)
qed

text \<open>\<open>closesocket\<close> needs a descriptor in use; it removes that descriptor alone from the table,
  frees the socket's block, and any later close, bind or connect on the number is a fault until
  a socket call hands it out again.\<close>

theorem closesocket_removes:
  assumes "tab_wf tab s" and "closesocket e fd tab s = Ok (r, tab', t)"
  shows "\<exists>p k. fd_map tab fd = Some p \<and> usable s p k \<and> fd_map tab' = (fd_map tab)(fd := None)
    \<and> heap t = (heap s)(p := None) \<and> tab_wf tab' t \<and> r \<in> {0, -1}
    \<and> closesocket e fd tab' t = Fault \<and> bind e fd a tab' t = Fault \<and> connect e fd a tab' t = Fault"
proof -
  obtain p k where m: "fd_map tab fd = Some p" "usable s p k"
    and t': "fd_map tab' = (fd_map tab)(fd := None)" and h: "heap t = (heap s)(p := None)"
    and w: "tab_wf tab' t"
    using closesocket_map [OF assms] by blast
  have len: "length (KsArray tab') = SOCKETFD_MAX" using w by (simp add: tab_wf_def)
  have rng: "0 \<le> fd \<and> nat fd < SOCKETFD_MAX" using fd_map_range [OF m(1)] assms(1)
    by (simp add: tab_wf_def)
  then have z: "array_read tab' fd = Ok 0"
    using t' len by (auto simp: fd_map_def array_read_def fun_eq_iff split: if_splits dest!: spec [of _ fd])
  have "load_socket 0 t = Fault" using fresh_okD(6) [OF ks_wf_fresh, of t] w
    by (simp add: tab_wf_def load_socket_def load_def)
  then have "closesocket e fd tab' t = Fault \<and> bind e fd a tab' t = Fault \<and> connect e fd a tab' t = Fault"
    using z by (simp add: closesocket_def bind_def connect_def FROM_SOCKETFD_def
        KsCloseSocket_def KsBind_def KsConnect_def)
  moreover have "r \<in> {0, -1}" using assms(2) by (auto simp: closesocket_def res_simps split: if_splits)
  ultimately show ?thesis using m t' h w by blast
qed

theorem closesocket_removes_witness:
  "\<exists>tab' t. closesocket demo_env 0 demo_table demo_world = Ok (0, tab', t) \<and> fd_map tab' 0 = None
    \<and> closesocket demo_env 0 tab' t = Fault"
proof -
  have rd: "array_read demo_table 0 = Ok 2"
    by (simp add: array_read_def demo_table_def SOCKETFD_MAX_def)
  have ls: "load_socket 2 demo_world = Ok demo_socket" by (simp add: load_socket_at)
  have [simp]: "events demo_world 3 = Some False" "heap demo_world 2
      = Some \<lparr>owner = Pool MEMORY_TAG, body = BSocket demo_socket\<rparr>"
    "irps demo_world 4 = Some \<lparr>IoStatus_Status = 0, IoStatus_Information = 0, Completion = None\<rparr>"
    by (simp_all add: demo_world_def)
  have "\<exists>t. KsCloseSocket demo_env 2 demo_world = Ok (STATUS_SUCCESS, t)"
    by (simp add: KsCloseSocket_def ls KspAsyncContextReset_def KeResetEvent_def IoReuseIrp_def
        IoSetCompletionRoutine_def call_and_wait_def submit_def KspAsyncContextCompletionRoutine_def
        KeSetEvent_def KspAsyncContextWaitForCompletion_def KeWaitForSingleObject_def Let_def
        KspAsyncContextFree_def IoFreeIrp_def ExFreePoolWithTag_def logged_def)
  moreover have "array_write demo_table 0 0 = Ok (demo_table\<lparr>KsArray := replicate SOCKETFD_MAX 0\<rparr>)"
    by (simp add: array_write_def demo_table_def SOCKETFD_MAX_def numeral_eq_Suc)
  ultimately obtain tab' t where c: "closesocket demo_env 0 demo_table demo_world = Ok (0, tab', t)"
    by (auto simp: closesocket_def FROM_SOCKETFD_def rd)
  then show ?thesis using closesocket_removes [OF demo_tab_wf c, of 9] by auto
qed

text \<open>C19: \<open>recvfrom\<close> does not receive: on a usable datagram socket it makes exactly one request
  of the provider and that request is a send of the caller's buffer to the address in the output
  parameter; no receive request is ever made, and the result is the byte count of the send.\<close>

theorem recvfrom_sends:
  assumes "wsk_contract e" and "tab_wf tab s" and "fd_map tab fd = Some p" and "usable s p k"
    and "WskDispatch k = DatagramDispatch" and "\<forall>l. mdl_ok e l" and "\<forall>l. lock_ok e l" and "al \<noteq> 0"
  shows "\<exists>t w wb c l. c = CallSendTo (WskSocket k) wb (word_of_int fl) a
    \<and> recvfrom e fd b len fl a al tab s
       = Ok ((if NT_SUCCESS (final_status e l c) then sint (ucast (final_info e l c) :: u32) else -1,
             sizeof_SOCKADDR), tab, t)
    \<and> keeps s t \<and> buf_length wb = ucast (ucast len :: u32) \<and> log t = w @ log s
    \<and> (\<forall>x. EvWsk x \<in> set w \<longleftrightarrow> x = c) \<and> (\<forall>h wb' f r. EvWsk (CallReceiveFrom h wb' f r) \<notin> set w)"
proof -
  have rd: "array_read tab (FROM_SOCKETFD fd) = Ok p"
    using array_read_map [of tab fd p] assms(2,3) by (simp add: tab_wf_def FROM_SOCKETFD_def)
  have w: "ks_wf s" using assms(2) by (simp add: tab_wf_def)
  obtain t l wb w where tr: "transfer e p b (ucast len) DatagramDispatch WskSendTo
      (\<lambda>k wb. CallSendTo (WskSocket k) wb (word_of_int fl) a) s
      = Ok (final_status e l (CallSendTo (WskSocket k) wb (word_of_int fl) a),
        if NT_SUCCESS (final_status e l (CallSendTo (WskSocket k) wb (word_of_int fl) a))
        then ucast (final_info e l (CallSendTo (WskSocket k) wb (word_of_int fl) a)) else ucast len, t)"
    and "buf_length wb = ucast (ucast len :: u32)" "keeps s t" "log t = w @ log s"
    and "\<forall>x. EvWsk x \<in> set w \<longleftrightarrow> x = CallSendTo (WskSocket k) wb (word_of_int fl) a"
    using transfer_completes [OF assms(1) w assms(4) _ assms(6,7), of DatagramDispatch WskSendTo b
        "ucast len" "\<lambda>k wb. CallSendTo (WskSocket k) wb (word_of_int fl) a"] assms(5)
    by auto
  then show ?thesis using rd assms(8)
    by (intro exI [of _ t] exI [of _ w] exI [of _ wb] exI [of _ "CallSendTo (WskSocket k) wb (word_of_int fl) a"]
        exI [of _ l])
      (simp add: recvfrom_def KsSendTo_def KsSendRecvUdp_transfer write_addrlen_def count_result_def)
qed

definition datagram_world :: world where
  "datagram_world = demo_world\<lparr>heap := [2 \<mapsto> \<lparr>owner = Pool MEMORY_TAG,
     body = BSocket (demo_socket\<lparr>WskDispatch := DatagramDispatch\<rparr>)\<rparr>]\<rparr>"

lemma datagram_socket_at [simp]:
  "socket_at datagram_world p k \<longleftrightarrow> p = 2 \<and> k = demo_socket\<lparr>WskDispatch := DatagramDispatch\<rparr>"
  by (auto simp: socket_at_def datagram_world_def)

lemma datagram_tab_wf [simp]: "tab_wf demo_table datagram_world"
proof -
  have "ks_wf datagram_world"
  proof (rule ks_wfI)
    show "fresh_ok datagram_world"
      using ks_wf_fresh [OF demo_wf] by (simp add: fresh_ok_def datagram_world_def demo_world_def)
    show "owner c = Pool MEMORY_TAG" if "heap datagram_world p = Some c" for p c
      using that by (auto simp: datagram_world_def split: if_splits)
  qed (simp_all add: demo_socket_def, (auto simp: datagram_world_def demo_world_def)+)
  then show ?thesis by (simp add: tab_wf_def demo_map) (simp add: demo_table_def)
qed

theorem recvfrom_sends_witness:
  "\<exists>t w wb. recvfrom demo_env 0 9 100 0 10 11 demo_table datagram_world = Ok ((7, 20), demo_table, t)
    \<and> log t = w @ log datagram_world \<and> EvWsk (CallSendTo 7 wb 0 10) \<in> set w"
proof -
  have "usable datagram_world 2 (demo_socket\<lparr>WskDispatch := DatagramDispatch\<rparr>)"
    by (simp add: usable_def)
  then show ?thesis
    using recvfrom_sends [of demo_env demo_table datagram_world 0 2
        "demo_socket\<lparr>WskDispatch := DatagramDispatch\<rparr>" 11 0 10 9 100]
    by (auto simp: demo_map final_status_def final_info_def sizeof_SOCKADDR_def)
qed

end
