(* ===== verification/Addrinfo.thy ===== *)
theory Addrinfo
  imports Ksocket_Laws
begin

text \<open>
  Name resolution in \<^verbatim>\<open>ksocket/berkeley.c\<close>: the two recursive conversions between the ANSI and
  the Unicode address lists, the two recursive destructors, \<open>getaddrinfo\<close> and
  \<open>freeaddrinfo\<close>. The lists live in the heap and may be cyclic, so each function takes the
  number \<open>d\<close> of stack frames left and faults when it runs out.
\<close>

section \<open>Counted strings\<close>

definition BERKELEY_TAG :: u32 where "BERKELEY_TAG = 0x2e2e4242"

text \<open>A local \<open>ANSI_STRING\<close> or \<open>UNICODE_STRING\<close>: not yet written, or holding a buffer.\<close>

datatype strvar = Uninit | Str ptr

definition load_ansi :: "ptr \<Rightarrow> world \<Rightarrow> bytes res" where
  "load_ansi p s = bindR (load p s) (\<lambda>b. case b of BAnsi x \<Rightarrow> Ok x | _ \<Rightarrow> Fault)"

definition load_uni :: "ptr \<Rightarrow> world \<Rightarrow> u16 list res" where
  "load_uni p s = bindR (load p s) (\<lambda>b. case b of BUni x \<Rightarrow> Ok x | _ \<Rightarrow> Fault)"

definition load_infoA :: "ptr \<Rightarrow> world \<Rightarrow> addrinfo res" where
  "load_infoA p s = bindR (load p s) (\<lambda>b. case b of BInfoA x \<Rightarrow> Ok x | _ \<Rightarrow> Fault)"

definition load_infoW :: "ptr \<Rightarrow> world \<Rightarrow> addrinfo res" where
  "load_infoW p s = bindR (load p s) (\<lambda>b. case b of BInfoW x \<Rightarrow> Ok x | _ \<Rightarrow> Fault)"

text \<open>\<open>RtlInit...String\<close> measures the string, so it reads the block.\<close>

definition RtlInitAnsiString :: "ptr \<Rightarrow> world \<Rightarrow> strvar res" where
  "RtlInitAnsiString p s = bindR (load_ansi p s) (\<lambda>_. Ok (Str p))"

definition RtlInitUnicodeString :: "ptr \<Rightarrow> world \<Rightarrow> strvar res" where
  "RtlInitUnicodeString p s = bindR (load_uni p s) (\<lambda>_. Ok (Str p))"

definition alloc_string :: "body \<Rightarrow> world \<Rightarrow> ptr \<times> world" where
  "alloc_string b s = (next_addr s, logged (EvString (next_addr s))
     (s\<lparr>heap := (heap s)(next_addr s \<mapsto> \<lparr>owner = RtlString, body = b\<rparr>),
        next_addr := Suc (next_addr s)\<rparr>))"

text \<open>The conversions allocate their result, or fail and leave the destination as it was.\<close>

fun RtlAnsiStringToUnicodeString ::
  "env \<Rightarrow> strvar \<Rightarrow> world \<Rightarrow> (ntstatus \<times> strvar \<times> world) res" where
  "RtlAnsiStringToUnicodeString e Uninit s = Fault"
| "RtlAnsiStringToUnicodeString e (Str p) s =
     bindR (load_ansi p s) (\<lambda>b.
     let (st, u) = ansi_to_unicode e (log s) b in
     if NT_SUCCESS st then (let (q, t) = alloc_string (BUni u) s in Ok (st, Str q, t))
     else Ok (st, Uninit, logged EvStringFail s))"

fun RtlUnicodeStringToAnsiString ::
  "env \<Rightarrow> strvar \<Rightarrow> world \<Rightarrow> (ntstatus \<times> strvar \<times> world) res" where
  "RtlUnicodeStringToAnsiString e Uninit s = Fault"
| "RtlUnicodeStringToAnsiString e (Str p) s =
     bindR (load_uni p s) (\<lambda>b.
     let (st, u) = unicode_to_ansi e (log s) b in
     if NT_SUCCESS st then (let (q, t) = alloc_string (BAnsi u) s in Ok (st, Str q, t))
     else Ok (st, Uninit, logged EvStringFail s))"

text \<open>Freeing the buffer of a string variable: it must have been written, and the buffer must
  be one the string routines allocated.\<close>

fun RtlFreeString :: "strvar \<Rightarrow> world \<Rightarrow> world res" where
  "RtlFreeString Uninit s = Fault"
| "RtlFreeString (Str p) s = (case heap s p of
     Some c \<Rightarrow> (if owner c = RtlString then Ok (logged (EvFree p) (s\<lparr>heap := (heap s)(p := None)\<rparr>))
               else Fault)
   | None \<Rightarrow> Fault)"

definition RtlFreeAnsiString :: "strvar \<Rightarrow> world \<Rightarrow> world res" where
  "RtlFreeAnsiString = RtlFreeString"

definition RtlFreeUnicodeString :: "strvar \<Rightarrow> world \<Rightarrow> world res" where
  "RtlFreeUnicodeString = RtlFreeString"

fun string_buffer :: "strvar \<Rightarrow> ptr" where
  "string_buffer Uninit = 0"
| "string_buffer (Str p) = p"

section \<open>The conversions\<close>

text \<open>\<open>copy_canonname_ex\<close> and \<open>copy_canonname\<close> are the optional name step: the status, the source
  and the destination variable after it.\<close>

definition copy_canonname_ex ::
  "env \<Rightarrow> ptr \<Rightarrow> world \<Rightarrow> (ntstatus \<times> strvar \<times> strvar \<times> world) res" where
  "copy_canonname_ex e name s =
     (if name \<noteq> 0 then
        bindR (RtlInitAnsiString name s) (\<lambda>CanonicalNameAnsi.
        bindR (RtlAnsiStringToUnicodeString e CanonicalNameAnsi s) (\<lambda>(st, CanonicalNameUnicode, t).
        Ok (st, CanonicalNameAnsi, CanonicalNameUnicode, t)))
      else Ok (STATUS_SUCCESS, Uninit, Uninit, s))"

definition copy_canonname ::
  "env \<Rightarrow> ptr \<Rightarrow> world \<Rightarrow> (ntstatus \<times> strvar \<times> strvar \<times> world) res" where
  "copy_canonname e name s =
     (if name \<noteq> 0 then
        bindR (RtlInitUnicodeString name s) (\<lambda>CanonicalNameUnicode.
        bindR (RtlUnicodeStringToAnsiString e CanonicalNameUnicode s) (\<lambda>(st, CanonicalNameAnsi, t).
        Ok (st, CanonicalNameUnicode, CanonicalNameAnsi, t)))
      else Ok (STATUS_SUCCESS, Uninit, Uninit, s))"

text \<open>The copied fields of a node; the pointers start out as zero.\<close>

definition numeric_copy :: "addrinfo \<Rightarrow> addrinfo" where
  "numeric_copy ai = ai\<lparr>ai_canonname := 0, ai_addr := 0, ai_next := 0\<rparr>"

fun KspUtilAddrInfoToAddrInfoEx ::
  "env \<Rightarrow> nat \<Rightarrow> ptr \<Rightarrow> world \<Rightarrow> (ntstatus \<times> ptr option \<times> world) res" where
  "KspUtilAddrInfoToAddrInfoEx e 0 AddrInfo s = Fault"
| "KspUtilAddrInfoToAddrInfoEx e (Suc d) AddrInfo s =
     (if AddrInfo = 0 then Ok (STATUS_SUCCESS, Some 0, s)
      else let (Result, s1) = ExAllocatePoolWithTag e BERKELEY_TAG s in
        if Result = 0 then Ok (STATUS_INSUFFICIENT_RESOURCES, None, s1)
        else bindR (load_infoA AddrInfo s1) (\<lambda>ai.
          bindR (store Result (BInfoW (numeric_copy ai)) s1) (\<lambda>s2.
          bindR (copy_canonname_ex e (ai_canonname ai) s2)
            (\<lambda>(st, CanonicalNameAnsi, CanonicalNameUnicode, s3).
          if \<not> NT_SUCCESS st
          then bindR (ExFreePoolWithTag Result BERKELEY_TAG s3) (\<lambda>s4. Ok (st, None, s4))
          else let w = (numeric_copy ai)\<lparr>ai_canonname := string_buffer CanonicalNameUnicode,
                 ai_addr := ai_addr ai\<rparr>
            in bindR (store Result (BInfoW w) s3) (\<lambda>s4.
               bindR (KspUtilAddrInfoToAddrInfoEx e d (ai_next ai) s4) (\<lambda>(st, NextAddrInfo, s5).
               if \<not> NT_SUCCESS st
               then bindR (RtlFreeAnsiString CanonicalNameAnsi s5) (\<lambda>s6.
                    bindR (ExFreePoolWithTag Result BERKELEY_TAG s6) (\<lambda>s7. Ok (st, None, s7)))
               else bindR (of_opt NextAddrInfo) (\<lambda>n.
                    bindR (store Result (BInfoW (w\<lparr>ai_next := n\<rparr>)) s5) (\<lambda>s6.
                    Ok (st, Some Result, s6)))))))))"

fun KspUtilAddrInfoExToAddrInfo ::
  "env \<Rightarrow> nat \<Rightarrow> ptr \<Rightarrow> world \<Rightarrow> (ntstatus \<times> ptr option \<times> world) res" where
  "KspUtilAddrInfoExToAddrInfo e 0 AddrInfoEx s = Fault"
| "KspUtilAddrInfoExToAddrInfo e (Suc d) AddrInfoEx s =
     (if AddrInfoEx = 0 then Ok (STATUS_SUCCESS, Some 0, s)
      else let (Result, s1) = ExAllocatePoolWithTag e BERKELEY_TAG s in
        if Result = 0 then Ok (STATUS_INSUFFICIENT_RESOURCES, None, s1)
        else bindR (load_infoW AddrInfoEx s1) (\<lambda>ai.
          bindR (store Result (BInfoA (numeric_copy ai)) s1) (\<lambda>s2.
          bindR (copy_canonname e (ai_canonname ai) s2)
            (\<lambda>(st, CanonicalNameUnicode, CanonicalNameAnsi, s3).
          if \<not> NT_SUCCESS st
          then bindR (ExFreePoolWithTag Result BERKELEY_TAG s3) (\<lambda>s4. Ok (st, None, s4))
          else let w = (numeric_copy ai)\<lparr>ai_canonname := string_buffer CanonicalNameAnsi,
                 ai_addr := ai_addr ai\<rparr>
            in bindR (store Result (BInfoA w) s3) (\<lambda>s4.
               bindR (KspUtilAddrInfoExToAddrInfo e d (ai_next ai) s4) (\<lambda>(st, NextAddrInfo, s5).
               if \<not> NT_SUCCESS st
               then bindR (RtlFreeAnsiString CanonicalNameAnsi s5) (\<lambda>s6.
                    bindR (ExFreePoolWithTag Result BERKELEY_TAG s6) (\<lambda>s7. Ok (st, None, s7)))
               else bindR (of_opt NextAddrInfo) (\<lambda>n.
                    bindR (store Result (BInfoA (w\<lparr>ai_next := n\<rparr>)) s5) (\<lambda>s6.
                    Ok (st, Some Result, s6)))))))))"

section \<open>The destructors\<close>

fun KspUtilFreeAddrInfo :: "nat \<Rightarrow> ptr \<Rightarrow> world \<Rightarrow> world res" where
  "KspUtilFreeAddrInfo 0 AddrInfo s = Fault"
| "KspUtilFreeAddrInfo (Suc d) AddrInfo s =
     bindR (load_infoA AddrInfo s) (\<lambda>ai.
     bindR (if ai_next ai \<noteq> 0 then KspUtilFreeAddrInfo d (ai_next ai) s else Ok s) (\<lambda>s1.
     bindR (if ai_canonname ai \<noteq> 0
            then bindR (RtlInitAnsiString (ai_canonname ai) s1) (\<lambda>v. RtlFreeAnsiString v s1)
            else Ok s1) (\<lambda>s2.
     ExFreePoolWithTag AddrInfo BERKELEY_TAG s2)))"

fun KspUtilFreeAddrInfoEx :: "nat \<Rightarrow> ptr \<Rightarrow> world \<Rightarrow> world res" where
  "KspUtilFreeAddrInfoEx 0 AddrInfo s = Fault"
| "KspUtilFreeAddrInfoEx (Suc d) AddrInfo s =
     bindR (load_infoW AddrInfo s) (\<lambda>ai.
     bindR (if ai_next ai \<noteq> 0 then KspUtilFreeAddrInfoEx d (ai_next ai) s else Ok s) (\<lambda>s1.
     bindR (if ai_canonname ai \<noteq> 0
            then bindR (RtlInitUnicodeString (ai_canonname ai) s1) (\<lambda>v. RtlFreeUnicodeString v s1)
            else Ok s1) (\<lambda>s2.
     ExFreePoolWithTag AddrInfo BERKELEY_TAG s2)))"

section \<open>\<open>getaddrinfo\<close> and \<open>freeaddrinfo\<close>\<close>

text \<open>The optional name arguments: the status and the Unicode variable after the step.\<close>

definition name_argument :: "env \<Rightarrow> ptr \<Rightarrow> world \<Rightarrow> (ntstatus \<times> strvar \<times> world) res" where
  "name_argument e p s =
     (if p \<noteq> 0 then bindR (RtlInitAnsiString p s) (\<lambda>a. RtlAnsiStringToUnicodeString e a s)
      else Ok (STATUS_SUCCESS, Uninit, s))"

text \<open>The exits of \<open>getaddrinfo\<close>: \<open>Error2\<close> frees the node name, \<open>Error3\<close> the service name first.\<close>

definition gai_error2 :: "ntstatus \<Rightarrow> strvar \<Rightarrow> world \<Rightarrow> (ntstatus \<times> ptr option \<times> world) res" where
  "gai_error2 st NodeNameUnicode s =
     bindR (RtlFreeUnicodeString NodeNameUnicode s) (\<lambda>t. Ok (st, None, t))"

definition gai_error3 ::
  "ntstatus \<Rightarrow> strvar \<Rightarrow> strvar \<Rightarrow> world \<Rightarrow> (ntstatus \<times> ptr option \<times> world) res" where
  "gai_error3 st NodeNameUnicode ServiceNameUnicode s =
     bindR (RtlFreeUnicodeString ServiceNameUnicode s) (\<lambda>t. gai_error2 st NodeNameUnicode t)"

definition getaddrinfo ::
  "env \<Rightarrow> nat \<Rightarrow> ptr \<Rightarrow> ptr \<Rightarrow> ptr \<Rightarrow> world \<Rightarrow> (ntstatus \<times> ptr option \<times> world) res" where
  "getaddrinfo e d node service hints s =
     bindR (name_argument e node s) (\<lambda>(st, NodeNameUnicode, s1).
     if \<not> NT_SUCCESS st then Ok (st, None, s1)
     else bindR (name_argument e service s1) (\<lambda>(st, ServiceNameUnicode, s2).
     if \<not> NT_SUCCESS st then gai_error2 st NodeNameUnicode s2
     else bindR (KspUtilAddrInfoToAddrInfoEx e d hints s2) (\<lambda>(st, Hints, s3).
     if \<not> NT_SUCCESS st then gai_error3 st NodeNameUnicode ServiceNameUnicode s3
     else bindR (of_opt Hints) (\<lambda>h.
     bindR (KsGetAddrInfo e (string_buffer NodeNameUnicode) (string_buffer ServiceNameUnicode) h s3)
       (\<lambda>(st, Result, s4).
     bindR (KspUtilFreeAddrInfoEx d h s4) (\<lambda>s5.
     if \<not> NT_SUCCESS st then gai_error3 st NodeNameUnicode ServiceNameUnicode s5
     else bindR (KspUtilAddrInfoExToAddrInfo e d Result s5) (\<lambda>(st, res, s6).
     bindR (KsFreeAddrInfo Result s6) (\<lambda>s7.
     if \<not> NT_SUCCESS st then gai_error3 st NodeNameUnicode ServiceNameUnicode s7
     else Ok (STATUS_SUCCESS, res, s7)))))))))"

definition freeaddrinfo :: "nat \<Rightarrow> ptr \<Rightarrow> world \<Rightarrow> world res" where
  "freeaddrinfo d res s = KspUtilFreeAddrInfo d res s"


section \<open>Lists in the heap\<close>

text \<open>The content of a node: the copied fields and the name.\<close>

type_synonym 'x info = "(u32 \<times> u32 \<times> u32 \<times> u32 \<times> u64 \<times> ptr) \<times> 'x list option"

definition info_fields :: "addrinfo \<Rightarrow> u32 \<times> u32 \<times> u32 \<times> u32 \<times> u64 \<times> ptr" where
  "info_fields ai = (ai_flags ai, ai_family ai, ai_socktype ai, ai_protocol ai, ai_addrlen ai,
     ai_addr ai)"

text \<open>\<open>listed ibody sbody h p xs\<close>: the heap \<open>h\<close> holds at \<open>p\<close> a list with the content \<open>xs\<close>.\<close>

fun listed :: "(addrinfo \<Rightarrow> body) \<Rightarrow> ('x list \<Rightarrow> body) \<Rightarrow> (ptr \<rightharpoonup> cell) \<Rightarrow> ptr \<Rightarrow> 'x info list \<Rightarrow> bool" where
  "listed ibody sbody h p [] \<longleftrightarrow> p = 0"
| "listed ibody sbody h p ((f, nm) # xs) \<longleftrightarrow> p \<noteq> 0
     \<and> (\<exists>c ai. h p = Some c \<and> body c = ibody ai \<and> info_fields ai = f \<and> listed ibody sbody h (ai_next ai) xs
       \<and> (case nm of None \<Rightarrow> ai_canonname ai = 0
          | Some x \<Rightarrow> ai_canonname ai \<noteq> 0
              \<and> (\<exists>c'. h (ai_canonname ai) = Some c' \<and> body c' = sbody x)))"

lemma map_le_Some: "m \<subseteq>\<^sub>m m' \<Longrightarrow> m x = Some y \<Longrightarrow> m' x = Some y"
  by (force simp: map_le_def dom_def)

lemma listed_mono: "listed ibody sbody h p xs \<Longrightarrow> h \<subseteq>\<^sub>m h' \<Longrightarrow> listed ibody sbody h' p xs"
proof (induction ibody sbody h p xs rule: listed.induct)
  case (2 ibody sbody h p f nm xs)
  note ext = map_le_Some [OF 2(3)]
  from 2(2) obtain c ai where "p \<noteq> 0" "h p = Some c" "body c = ibody ai" "info_fields ai = f"
    "listed ibody sbody h (ai_next ai) xs" and
    n: "case nm of None \<Rightarrow> ai_canonname ai = 0
          | Some x \<Rightarrow> ai_canonname ai \<noteq> 0 \<and> (\<exists>c'. h (ai_canonname ai) = Some c' \<and> body c' = sbody x)"
    by auto
  moreover have "case nm of None \<Rightarrow> ai_canonname ai = 0
          | Some x \<Rightarrow> ai_canonname ai \<noteq> 0 \<and> (\<exists>c'. h' (ai_canonname ai) = Some c' \<and> body c' = sbody x)"
    using n ext by (auto split: option.splits)
  ultimately show ?case using 2(1) [OF _ 2(3)] ext by auto
qed simp

text \<open>\<open>owned ibody sbody M p xs\<close>: \<open>M\<close> is exactly the blocks of the list at \<open>p\<close>, each with the owner
  the destructors expect.\<close>

inductive owned :: "(addrinfo \<Rightarrow> body) \<Rightarrow> ('x list \<Rightarrow> body) \<Rightarrow> (ptr \<rightharpoonup> cell) \<Rightarrow> ptr \<Rightarrow> 'x info list \<Rightarrow> bool"
  for ibody sbody where
  nil: "owned ibody sbody Map.empty 0 []"
| plain: "owned ibody sbody M (ai_next ai) xs \<Longrightarrow> q \<noteq> 0 \<Longrightarrow> M q = None \<Longrightarrow> ai_canonname ai = 0
    \<Longrightarrow> owned ibody sbody (M(q \<mapsto> \<lparr>owner = Pool BERKELEY_TAG, body = ibody ai\<rparr>)) q
         ((info_fields ai, None) # xs)"
| named: "owned ibody sbody M (ai_next ai) xs \<Longrightarrow> q \<noteq> 0 \<Longrightarrow> M q = None \<Longrightarrow> ai_canonname ai \<noteq> 0
    \<Longrightarrow> M (ai_canonname ai) = None \<Longrightarrow> ai_canonname ai \<noteq> q
    \<Longrightarrow> owned ibody sbody (M(ai_canonname ai \<mapsto> \<lparr>owner = RtlString, body = sbody x\<rparr>,
          q \<mapsto> \<lparr>owner = Pool BERKELEY_TAG, body = ibody ai\<rparr>)) q ((info_fields ai, Some x) # xs)"

inductive_cases owned_nilE: "owned ibody sbody M p []"

lemma owned_nonnull: "owned ibody sbody M p xs \<Longrightarrow> p = 0 \<longleftrightarrow> xs = []"
  by (induction rule: owned.induct) simp_all

lemma owned_listed: "owned ibody sbody M p xs \<Longrightarrow> listed ibody sbody M p xs"
proof (induction rule: owned.induct)
  case (plain M ai xs q)
  let ?N = "M(q \<mapsto> \<lparr>owner = Pool BERKELEY_TAG, body = ibody ai\<rparr>)"
  have "listed ibody sbody ?N (ai_next ai) xs"
    using plain.IH by (rule listed_mono) (use plain.hyps in \<open>auto simp: map_le_def\<close>)
  then show ?case using plain.hyps unfolding listed.simps
    by (intro conjI exI [of _ "\<lparr>owner = Pool BERKELEY_TAG, body = ibody ai\<rparr>"] exI [of _ ai]) simp_all
next
  case (named M ai xs q x)
  let ?N = "M(ai_canonname ai \<mapsto> \<lparr>owner = RtlString, body = sbody x\<rparr>,
      q \<mapsto> \<lparr>owner = Pool BERKELEY_TAG, body = ibody ai\<rparr>)"
  have "listed ibody sbody ?N (ai_next ai) xs"
    using named.IH by (rule listed_mono) (use named.hyps in \<open>auto simp: map_le_def\<close>)
  then show ?case using named.hyps unfolding listed.simps
    by (intro conjI exI [of _ "\<lparr>owner = Pool BERKELEY_TAG, body = ibody ai\<rparr>"] exI [of _ ai]) simp_all
qed simp

text \<open>Worlds that differ in blocks and log only.\<close>

definition same_rest :: "world \<Rightarrow> world \<Rightarrow> bool" where
  "same_rest s t \<longleftrightarrow> irps t = irps s \<and> mdls t = mdls s \<and> events t = events s
     \<and> captured t = captured s \<and> registered t = registered s"

lemma same_rest_refl [simp]: "same_rest s s"
  by (simp add: same_rest_def)

lemma same_rest_trans [trans]: "same_rest s t \<Longrightarrow> same_rest t u \<Longrightarrow> same_rest s u"
  by (simp add: same_rest_def)

section \<open>The destructors free what they are given\<close>

locale info_free =
  fixes free :: "nat \<Rightarrow> ptr \<Rightarrow> world \<Rightarrow> world res"
    and load_i :: "ptr \<Rightarrow> world \<Rightarrow> addrinfo res"
    and init :: "ptr \<Rightarrow> world \<Rightarrow> strvar res"
    and ibody :: "addrinfo \<Rightarrow> body" and sbody :: "'x list \<Rightarrow> body"
  assumes free_Suc: "free (Suc d) a s =
       bindR (load_i a s) (\<lambda>ai.
       bindR (if ai_next ai \<noteq> 0 then free d (ai_next ai) s else Ok s) (\<lambda>s1.
       bindR (if ai_canonname ai \<noteq> 0
              then bindR (init (ai_canonname ai) s1) (\<lambda>v. RtlFreeString v s1)
              else Ok s1) (\<lambda>s2.
       ExFreePoolWithTag a BERKELEY_TAG s2)))"
    and load_i: "heap s a = Some c \<Longrightarrow> body c = ibody ai \<Longrightarrow> load_i a s = Ok ai"
    and init: "heap s a = Some c \<Longrightarrow> body c = sbody x \<Longrightarrow> init a s = Ok (Str a)"
begin

lemma free_owned:
  assumes "owned ibody sbody M p xs" and "xs \<noteq> []" and "M \<subseteq>\<^sub>m heap s" and "length xs \<le> d"
  shows "\<exists>t. free d p s = Ok t \<and> heap t = heap s |` (- dom M) \<and> same_rest s t
    \<and> next_addr t = next_addr s"
  using assms
proof (induction arbitrary: s d rule: owned.induct)
  case (plain M ai xs q)
  let ?c = "\<lparr>owner = Pool BERKELEY_TAG, body = ibody ai\<rparr>"
  from plain.prems(3) obtain d' where d: "d = Suc d'" "length xs \<le> d'" by (cases d) auto
  have le: "M \<subseteq>\<^sub>m heap s" and q: "heap s q = Some ?c"
    using map_le_trans [OF map_le_fresh plain.prems(2)] map_le_Some [OF plain.prems(2), of q]
      plain.hyps(3) by auto
  have nx: "ai_next ai = 0 \<longleftrightarrow> xs = []" using owned_nonnull [OF plain.hyps(1)] .
  have "\<exists>u. (if ai_next ai \<noteq> 0 then free d' (ai_next ai) s else Ok s) = Ok u
      \<and> heap u = heap s |` (- dom M) \<and> same_rest s u \<and> next_addr u = next_addr s"
  proof (cases "xs = []")
    case True
    then have "M = Map.empty" using plain.hyps(1) by (auto elim: owned_nilE)
    then show ?thesis using True nx by (simp add: restrict_map_def)
  qed (use plain.IH [OF _ le d(2)] nx in simp)
  then obtain u where u: "(if ai_next ai \<noteq> 0 then free d' (ai_next ai) s else Ok s) = Ok u"
    "heap u = heap s |` (- dom M)" "same_rest s u" "next_addr u = next_addr s" by blast
  have uq: "heap u q = Some ?c" using u(2) q plain.hyps(3) by (auto simp: restrict_map_def)
  have "free d q s = Ok (logged (EvFree q) (u\<lparr>heap := (heap u)(q := None)\<rparr>))"
    using u(1) uq plain.hyps(4) load_i [OF q] by (simp add: d(1) free_Suc ExFreePoolWithTag_def)
  then show ?case using u(2-4)
    by (auto simp: restrict_map_def fun_eq_iff same_rest_def logged_def)
next
  case (named M ai xs q x)
  let ?c = "\<lparr>owner = Pool BERKELEY_TAG, body = ibody ai\<rparr>" and ?n = "ai_canonname ai"
    and ?b = "\<lparr>owner = RtlString, body = sbody x\<rparr>"
  from named.prems(3) obtain d' where d: "d = Suc d'" "length xs \<le> d'" by (cases d) auto
  have le: "M \<subseteq>\<^sub>m heap s" and q: "heap s q = Some ?c" and n: "heap s ?n = Some ?b"
  proof -
    show "M \<subseteq>\<^sub>m heap s"
      by (rule map_le_trans [OF _ named.prems(2)]) (use named.hyps(3,5) in \<open>auto simp: map_le_def\<close>)
    show "heap s q = Some ?c" "heap s ?n = Some ?b"
      using map_le_Some [OF named.prems(2)] named.hyps(6) by simp_all
  qed
  have nx: "ai_next ai = 0 \<longleftrightarrow> xs = []" using owned_nonnull [OF named.hyps(1)] .
  have "\<exists>u. (if ai_next ai \<noteq> 0 then free d' (ai_next ai) s else Ok s) = Ok u
      \<and> heap u = heap s |` (- dom M) \<and> same_rest s u \<and> next_addr u = next_addr s"
  proof (cases "xs = []")
    case True
    then have "M = Map.empty" using named.hyps(1) by (auto elim: owned_nilE)
    then show ?thesis using True nx by (simp add: restrict_map_def)
  qed (use named.IH [OF _ le d(2)] nx in simp)
  then obtain u where u: "(if ai_next ai \<noteq> 0 then free d' (ai_next ai) s else Ok s) = Ok u"
    "heap u = heap s |` (- dom M)" "same_rest s u" "next_addr u = next_addr s" by blast
  have uq: "heap u q = Some ?c" "heap u ?n = Some ?b"
    using u(2) q n named.hyps(3,5) by (auto simp: restrict_map_def)
  let ?u = "logged (EvFree ?n) (u\<lparr>heap := (heap u)(?n := None)\<rparr>)"
  have "free d q s = Ok (logged (EvFree q) (?u\<lparr>heap := (heap ?u)(q := None)\<rparr>))"
    using u(1) uq named.hyps(4,6) load_i [OF q] init [OF uq(2)]
    by (simp add: d(1) free_Suc ExFreePoolWithTag_def logged_def)
  then show ?case using u(2-4)
    by (auto simp: restrict_map_def fun_eq_iff same_rest_def logged_def)
qed simp

end

interpretation ansi_free: info_free KspUtilFreeAddrInfo load_infoA RtlInitAnsiString BInfoA BAnsi
  by unfold_locales
    (simp_all add: load_infoA_def load_ansi_def load_def RtlInitAnsiString_def
      RtlFreeAnsiString_def cong: if_cong)

interpretation uni_free: info_free KspUtilFreeAddrInfoEx load_infoW RtlInitUnicodeString BInfoW BUni
  by unfold_locales
    (simp_all add: load_infoW_def load_uni_def load_def RtlInitUnicodeString_def
      RtlFreeUnicodeString_def cong: if_cong)

section \<open>The conversions copy the list\<close>

lemma owned_dom0: "owned ibody sbody M p xs \<Longrightarrow> p \<noteq> 0 \<Longrightarrow> M p \<noteq> None"
  by (cases rule: owned.cases) auto

lemma store_Some: "heap s p = Some c \<Longrightarrow> store p b s = Ok (s\<lparr>heap := (heap s)(p \<mapsto> c\<lparr>body := b\<rparr>)\<rparr>)"
  by (simp add: store_def)

text \<open>A run that only adds the blocks \<open>M\<close>.\<close>

definition adds :: "(ptr \<rightharpoonup> cell) \<Rightarrow> world \<Rightarrow> world \<Rightarrow> bool" where
  "adds M s t \<longleftrightarrow> heap t = heap s ++ M \<and> (\<forall>p. M p \<noteq> None \<longrightarrow> heap s p = None)
     \<and> same_rest s t \<and> fresh_ok t \<and> next_addr s \<le> next_addr t"

lemma adds_le: "adds M s t \<Longrightarrow> heap s \<subseteq>\<^sub>m heap t" "adds M s t \<Longrightarrow> M \<subseteq>\<^sub>m heap t"
  by (force simp: adds_def map_le_def map_add_def dom_def split: option.splits)+

lemma adds_undo: "adds M s t \<Longrightarrow> heap t |` (- dom M) = heap s"
  by (auto simp: adds_def restrict_map_def map_add_def fun_eq_iff dom_def split: option.splits)

lemma fresh_ok_new:
  "fresh_ok s \<Longrightarrow> fresh_ok (logged ev (s\<lparr>heap := (heap s)(next_addr s \<mapsto> c), next_addr := Suc (next_addr s)\<rparr>))"
  by (auto simp: fresh_ok_def logged_def less_Suc_eq)

lemma fresh_ok_store: "fresh_ok s \<Longrightarrow> heap s p \<noteq> None \<Longrightarrow> fresh_ok (s\<lparr>heap := (heap s)(p \<mapsto> c)\<rparr>)"
  by (auto simp: fresh_ok_def)

locale info_copy =
  fixes conv :: "env \<Rightarrow> nat \<Rightarrow> ptr \<Rightarrow> world \<Rightarrow> (ntstatus \<times> ptr option \<times> world) res"
    and load_i :: "ptr \<Rightarrow> world \<Rightarrow> addrinfo res"
    and copy_name :: "env \<Rightarrow> ptr \<Rightarrow> world \<Rightarrow> (ntstatus \<times> strvar \<times> strvar \<times> world) res"
    and cleanup :: "strvar \<Rightarrow> strvar \<Rightarrow> strvar"
    and translate :: "env \<Rightarrow> event list \<Rightarrow> 'x list \<Rightarrow> ntstatus \<times> 'y list"
    and ibody ibody' :: "addrinfo \<Rightarrow> body"
    and sbody :: "'x list \<Rightarrow> body" and sbody' :: "'y list \<Rightarrow> body"
  assumes conv_Suc: "conv e (Suc d) a s =
     (if a = 0 then Ok (STATUS_SUCCESS, Some 0, s)
      else let (Result, s1) = ExAllocatePoolWithTag e BERKELEY_TAG s in
        if Result = 0 then Ok (STATUS_INSUFFICIENT_RESOURCES, None, s1)
        else bindR (load_i a s1) (\<lambda>ai.
          bindR (store Result (ibody' (numeric_copy ai)) s1) (\<lambda>s2.
          bindR (copy_name e (ai_canonname ai) s2) (\<lambda>(st, v, v', s3).
          if \<not> NT_SUCCESS st
          then bindR (ExFreePoolWithTag Result BERKELEY_TAG s3) (\<lambda>s4. Ok (st, None, s4))
          else let w = (numeric_copy ai)\<lparr>ai_canonname := string_buffer v', ai_addr := ai_addr ai\<rparr>
            in bindR (store Result (ibody' w) s3) (\<lambda>s4.
               bindR (conv e d (ai_next ai) s4) (\<lambda>(st, n, s5).
               if \<not> NT_SUCCESS st
               then bindR (RtlFreeString (cleanup v v') s5) (\<lambda>s6.
                    bindR (ExFreePoolWithTag Result BERKELEY_TAG s6) (\<lambda>s7. Ok (st, None, s7)))
               else bindR (of_opt n) (\<lambda>n.
                    bindR (store Result (ibody' (w\<lparr>ai_next := n\<rparr>)) s5) (\<lambda>s6.
                    Ok (st, Some Result, s6)))))))))"
    and load_i: "heap s a = Some c \<Longrightarrow> body c = ibody ai \<Longrightarrow> load_i a s = Ok ai"
    and no_name: "copy_name e 0 s = Ok (STATUS_SUCCESS, Uninit, Uninit, s)"
    and name: "p \<noteq> 0 \<Longrightarrow> heap s p = Some c \<Longrightarrow> body c = sbody x
      \<Longrightarrow> translate e (log s) x = (STATUS_SUCCESS, y)
      \<Longrightarrow> copy_name e p s
        = Ok (STATUS_SUCCESS, Str p, Str (next_addr s), snd (alloc_string (sbody' y) s))"
begin

lemma conv_copies:
  assumes "\<forall>l. pool_ok e l" and "\<forall>l x. translate e l x = (STATUS_SUCCESS, g x)"
    and "listed ibody sbody (heap s) a xs" and "fresh_ok s" and "length xs \<le> d"
  shows "\<exists>q t M. conv e (Suc d) a s = Ok (STATUS_SUCCESS, Some q, t) \<and> adds M s t
    \<and> owned ibody' sbody' M q (map (\<lambda>(f, n). (f, map_option g n)) xs)"
  using assms(3-5)
proof (induction xs arbitrary: a s d)
  case Nil
  then show ?case
    by (intro exI [of _ 0] exI [of _ s] exI [of _ Map.empty])
      (simp add: conv_Suc adds_def owned.nil)
next
  case (Cons fn xs)
  obtain f nm where fn: "fn = (f, nm)" by fastforce
  from Cons.prems(3) obtain d' where d: "d = Suc d'" "length xs \<le> d'" by (cases d) auto
  from Cons.prems(1) obtain c ai where a0: "a \<noteq> 0" and ha: "heap s a = Some c" "body c = ibody ai"
    and f: "info_fields ai = f" and lx: "listed ibody sbody (heap s) (ai_next ai) xs"
    and nm: "case nm of None \<Rightarrow> ai_canonname ai = 0
      | Some x \<Rightarrow> ai_canonname ai \<noteq> 0 \<and> (\<exists>c'. heap s (ai_canonname ai) = Some c' \<and> body c' = sbody x)"
    by (auto simp: fn)
  note fr = fresh_okD [OF Cons.prems(2)]
  let ?r = "next_addr s"
  let ?raw = "\<lparr>owner = Pool BERKELEY_TAG, body = Raw\<rparr>"
  define s1 where "s1 = logged (EvAlloc ?r BERKELEY_TAG)
    (s\<lparr>heap := (heap s)(?r \<mapsto> ?raw), next_addr := Suc ?r\<rparr>)"
  have al: "ExAllocatePoolWithTag e BERKELEY_TAG s = (?r, s1)"
    using assms(1) by (simp add: ExAllocatePoolWithTag_def s1_def)
  have h1: "heap s1 = (heap s)(?r \<mapsto> ?raw)" "next_addr s1 = Suc ?r" "same_rest s s1" "fresh_ok s1"
    using fresh_ok_new [OF Cons.prems(2)] by (simp_all add: s1_def same_rest_def)
  have ar: "a \<noteq> ?r" using ha fr(2) by auto
  define s2 where "s2 = s1\<lparr>heap := (heap s)(?r \<mapsto> ?raw\<lparr>body := ibody' (numeric_copy ai)\<rparr>)\<rparr>"
  have st2: "store ?r (ibody' (numeric_copy ai)) s1 = Ok s2"
    by (simp add: store_def h1 s2_def)
  have f2: "fresh_ok s2" "next_addr s2 = Suc ?r" "same_rest s s2"
    using fresh_ok_store [OF h1(4), of ?r] h1 by (simp_all add: s2_def same_rest_def)
  have h2: "heap s2 = (heap s)(?r \<mapsto> ?raw\<lparr>body := ibody' (numeric_copy ai)\<rparr>)" by (simp add: s2_def)
  have "\<exists>v v' s3 N. copy_name e (ai_canonname ai) s2 = Ok (STATUS_SUCCESS, v, v', s3)
    \<and> heap s3 = heap s2 ++ N \<and> same_rest s2 s3 \<and> fresh_ok s3 \<and> next_addr s2 \<le> next_addr s3
    \<and> (case nm of None \<Rightarrow> v' = Uninit \<and> N = Map.empty
       | Some x \<Rightarrow> v' = Str (Suc ?r) \<and> N = [Suc ?r \<mapsto> \<lparr>owner = RtlString, body = sbody' (g x)\<rparr>])"
  proof (cases nm)
    case None
    then show ?thesis using nm no_name f2 by simp
  next
    case (Some x)
    then obtain c' where n: "ai_canonname ai \<noteq> 0" "heap s (ai_canonname ai) = Some c'"
      "body c' = sbody x" using nm by auto
    then have "heap s2 (ai_canonname ai) = Some c'" using fr(2) by (auto simp: h2)
    then have "copy_name e (ai_canonname ai) s2 = Ok (STATUS_SUCCESS, Str (ai_canonname ai),
        Str (Suc ?r), snd (alloc_string (sbody' (g x)) s2))"
      using name [OF n(1) _ n(3)] assms(2) f2(2) by simp
    moreover have "heap (snd (alloc_string (sbody' (g x)) s2))
        = heap s2 ++ [Suc ?r \<mapsto> \<lparr>owner = RtlString, body = sbody' (g x)\<rparr>]"
      "fresh_ok (snd (alloc_string (sbody' (g x)) s2))"
      using fresh_ok_new [OF f2(1)] by (simp_all add: alloc_string_def f2(2))
    ultimately show ?thesis
      by (intro exI [of _ "Str (ai_canonname ai)"] exI [of _ "Str (Suc ?r)"]
          exI [of _ "snd (alloc_string (sbody' (g x)) s2)"]
          exI [of _ "[Suc ?r \<mapsto> \<lparr>owner = RtlString, body = sbody' (g x)\<rparr>]"])
        (simp add: Some, simp add: alloc_string_def f2 same_rest_def)
  qed
  then obtain v v' s3 N where cn: "copy_name e (ai_canonname ai) s2 = Ok (STATUS_SUCCESS, v, v', s3)"
    and h3: "heap s3 = heap s2 ++ N" "same_rest s2 s3" "fresh_ok s3" "next_addr s2 \<le> next_addr s3"
    and N: "case nm of None \<Rightarrow> v' = Uninit \<and> N = Map.empty
       | Some x \<Rightarrow> v' = Str (Suc ?r) \<and> N = [Suc ?r \<mapsto> \<lparr>owner = RtlString, body = sbody' (g x)\<rparr>]"
    by blast
  have Nn: "N p \<noteq> None \<Longrightarrow> p = Suc ?r" for p using N by (auto split: option.splits if_splits)
  have Nr: "N ?r = None" using Nn [of ?r] by fastforce
  define w where "w = (numeric_copy ai)\<lparr>ai_canonname := string_buffer v', ai_addr := ai_addr ai\<rparr>"
  have r3: "heap s3 ?r = Some (?raw\<lparr>body := ibody' (numeric_copy ai)\<rparr>)"
    using Nr by (simp add: h3 h2 map_add_def)
  define s4 where "s4 = s3\<lparr>heap := (heap s3)(?r \<mapsto> ?raw\<lparr>body := ibody' w\<rparr>)\<rparr>"
  have st4: "store ?r (ibody' w) s3 = Ok s4" by (simp add: store_def r3 s4_def)
  have f4: "fresh_ok s4" using fresh_ok_store [OF h3(3), of ?r] r3 by (simp add: s4_def)
  have h4: "heap s4 = (heap s)(?r \<mapsto> ?raw\<lparr>body := ibody' w\<rparr>) ++ N"
    using Nr by (auto simp: s4_def h3 h2 map_add_def fun_eq_iff split: option.split)
  have le4: "heap s \<subseteq>\<^sub>m heap s4"
    using Nn fr(2) Cons.prems(2)
    by (auto simp: h4 map_le_def map_add_def fresh_ok_def split: option.splits) force+
  obtain q t5 M where rc: "conv e d (ai_next ai) s4 = Ok (STATUS_SUCCESS, Some q, t5)"
    and ad: "adds M s4 t5" and ow: "owned ibody' sbody' M q (map (\<lambda>(f, n). (f, map_option g n)) xs)"
    using Cons.IH [OF listed_mono [OF lx le4] f4 d(2)] d(1) by blast
  have h5: "heap t5 = heap s4 ++ M" "same_rest s4 t5" "fresh_ok t5" "next_addr s4 \<le> next_addr t5"
    and M: "\<And>p. M p \<noteq> None \<Longrightarrow> heap s4 p = None"
    using ad unfolding adds_def by blast+
  have Mr: "M ?r = None" using M [of ?r] Nr by (cases "M ?r") (auto simp: h4 map_add_def)
  have r5: "heap t5 ?r = Some (?raw\<lparr>body := ibody' w\<rparr>)"
    using Mr Nr by (simp add: h5 h4 map_add_def)
  define t where "t = t5\<lparr>heap := (heap t5)(?r \<mapsto> ?raw\<lparr>body := ibody' (w\<lparr>ai_next := q\<rparr>)\<rparr>)\<rparr>"
  have st6: "store ?r (ibody' (w\<lparr>ai_next := q\<rparr>)) t5 = Ok t" by (simp add: store_def r5 t_def)
  have run: "conv e (Suc d) a s = Ok (STATUS_SUCCESS, Some ?r, t)"
    using a0 al fr(1) load_i [of s1 a c ai] ha ar h1(1) st2 cn st4 rc st6
    by (simp add: conv_Suc w_def)
  define K where "K = M ++ N ++ [?r \<mapsto> \<lparr>owner = Pool BERKELEY_TAG, body = ibody' (w\<lparr>ai_next := q\<rparr>)\<rparr>]"
  have MN: "M p = None" if "N p = Some y" for p y
    using that M [of p] by (cases "M p") (auto simp: h4 map_add_def)
  have "heap t = heap s ++ K"
    using Nr Mr MN by (auto simp: t_def h5 h4 K_def map_add_def fun_eq_iff split: option.splits)
  moreover have "heap s p = None" if kp: "K p \<noteq> None" for p
  proof -
    consider "p = ?r" | "p = Suc ?r" | "M p \<noteq> None"
      using kp Nn [of p] unfolding K_def map_add_def
      by (cases "N p"; cases "M p"; cases "p = ?r") auto
    then show ?thesis
    proof cases
      case 2 then show ?thesis using Cons.prems(2) by (metis fresh_ok_def lessI less_asym)
    next
      case 3 then show ?thesis using map_le_Some [OF le4] M by (metis not_None_eq)
    qed (simp add: fr(2))
  qed
  moreover have "same_rest s t" "fresh_ok t" "next_addr s \<le> next_addr t"
    using f2 h3 h5 fresh_ok_store [OF h5(3), of ?r] r5
    by (simp_all add: t_def s4_def same_rest_def)
  ultimately have "adds K s t" by (simp add: adds_def)
  moreover have "owned ibody' sbody' K ?r (map (\<lambda>(f, n). (f, map_option g n)) (fn # xs))"
  proof (cases nm)
    case None
    let ?w = "w\<lparr>ai_next := q\<rparr>"
    have "N = Map.empty" "ai_canonname ?w = 0" "info_fields ?w = f" "ai_next ?w = q"
      using N f by (auto simp: None w_def numeric_copy_def info_fields_def)
    then show ?thesis using owned.plain [of ibody' sbody' M ?w _ ?r] ow Mr fr(1)
      by (simp add: fn None K_def)
  next
    case (Some x)
    let ?w = "w\<lparr>ai_next := q\<rparr>"
    have w: "N = [Suc ?r \<mapsto> \<lparr>owner = RtlString, body = sbody' (g x)\<rparr>]" "ai_canonname ?w = Suc ?r"
      "info_fields ?w = f" "ai_next ?w = q"
      using N f by (auto simp: Some w_def numeric_copy_def info_fields_def)
    have "M (Suc ?r) = None" using MN w(1) by simp
    then show ?thesis using owned.named [of ibody' sbody' M ?w _ ?r "g x"] ow Mr fr(1) w
      by (simp add: fn Some K_def)
  qed
  ultimately show ?case using run by blast
qed

end

interpretation to_ex: info_copy KspUtilAddrInfoToAddrInfoEx load_infoA copy_canonname_ex
  "\<lambda>a u. a" ansi_to_unicode BInfoA BInfoW BAnsi BUni
proof unfold_locales
  fix e d a s show "KspUtilAddrInfoToAddrInfoEx e (Suc d) a s =
     (if a = 0 then Ok (STATUS_SUCCESS, Some 0, s)
      else let (Result, s1) = ExAllocatePoolWithTag e BERKELEY_TAG s in
        if Result = 0 then Ok (STATUS_INSUFFICIENT_RESOURCES, None, s1)
        else bindR (load_infoA a s1) (\<lambda>ai.
          bindR (store Result (BInfoW (numeric_copy ai)) s1) (\<lambda>s2.
          bindR (copy_canonname_ex e (ai_canonname ai) s2) (\<lambda>(st, v, v', s3).
          if \<not> NT_SUCCESS st
          then bindR (ExFreePoolWithTag Result BERKELEY_TAG s3) (\<lambda>s4. Ok (st, None, s4))
          else let w = (numeric_copy ai)\<lparr>ai_canonname := string_buffer v', ai_addr := ai_addr ai\<rparr>
            in bindR (store Result (BInfoW w) s3) (\<lambda>s4.
               bindR (KspUtilAddrInfoToAddrInfoEx e d (ai_next ai) s4) (\<lambda>(st, n, s5).
               if \<not> NT_SUCCESS st
               then bindR (RtlFreeString v s5) (\<lambda>s6.
                    bindR (ExFreePoolWithTag Result BERKELEY_TAG s6) (\<lambda>s7. Ok (st, None, s7)))
               else bindR (of_opt n) (\<lambda>n.
                    bindR (store Result (BInfoW (w\<lparr>ai_next := n\<rparr>)) s5) (\<lambda>s6.
                    Ok (st, Some Result, s6)))))))))"
    by (simp only: KspUtilAddrInfoToAddrInfoEx.simps RtlFreeAnsiString_def)
qed (auto simp: load_infoA_def load_def copy_canonname_ex_def RtlInitAnsiString_def load_ansi_def
    alloc_string_def)

interpretation from_ex: info_copy KspUtilAddrInfoExToAddrInfo load_infoW copy_canonname
  "\<lambda>u a. a" unicode_to_ansi BInfoW BInfoA BUni BAnsi
proof unfold_locales
  fix e d a s show "KspUtilAddrInfoExToAddrInfo e (Suc d) a s =
     (if a = 0 then Ok (STATUS_SUCCESS, Some 0, s)
      else let (Result, s1) = ExAllocatePoolWithTag e BERKELEY_TAG s in
        if Result = 0 then Ok (STATUS_INSUFFICIENT_RESOURCES, None, s1)
        else bindR (load_infoW a s1) (\<lambda>ai.
          bindR (store Result (BInfoA (numeric_copy ai)) s1) (\<lambda>s2.
          bindR (copy_canonname e (ai_canonname ai) s2) (\<lambda>(st, v, v', s3).
          if \<not> NT_SUCCESS st
          then bindR (ExFreePoolWithTag Result BERKELEY_TAG s3) (\<lambda>s4. Ok (st, None, s4))
          else let w = (numeric_copy ai)\<lparr>ai_canonname := string_buffer v', ai_addr := ai_addr ai\<rparr>
            in bindR (store Result (BInfoA w) s3) (\<lambda>s4.
               bindR (KspUtilAddrInfoExToAddrInfo e d (ai_next ai) s4) (\<lambda>(st, n, s5).
               if \<not> NT_SUCCESS st
               then bindR (RtlFreeString v' s5) (\<lambda>s6.
                    bindR (ExFreePoolWithTag Result BERKELEY_TAG s6) (\<lambda>s7. Ok (st, None, s7)))
               else bindR (of_opt n) (\<lambda>n.
                    bindR (store Result (BInfoA (w\<lparr>ai_next := n\<rparr>)) s5) (\<lambda>s6.
                    Ok (st, Some Result, s6)))))))))"
    by (simp only: KspUtilAddrInfoExToAddrInfo.simps RtlFreeAnsiString_def)
qed (auto simp: load_infoW_def load_def copy_canonname_def RtlInitUnicodeString_def load_uni_def
    alloc_string_def)

end
