(* ===== verification/Addrinfo_Props.thy ===== *)
theory Addrinfo_Props
  imports Addrinfo
begin

text \<open>
  What the name resolution layer of \<^verbatim>\<open>ksocket/berkeley.c\<close> guarantees: the conversions copy whole
  lists and the destructors give back exactly what the conversions took, \<open>getaddrinfo\<close> delivers
  the provider's answer; and the paths on which it leaks or faults.
\<close>

lemma KsGetAddrInfo_ok:
  assumes "wsk_contract e" and "fresh_ok s" and "captured s" and "\<forall>l. irp_ok e l"
  shows "\<exists>l t. KsGetAddrInfo e n sv h s = Ok (final_status e l (CallGetAddressInfo n sv h),
      rp_result (wsk e l (CallGetAddressInfo n sv h)), t)
    \<and> heap t = heap s \<and> captured t \<and> fresh_ok t"
proof -
  let ?x = "CallGetAddressInfo n sv h"
  let ?n = "next_addr s"
  define ctx where "ctx = \<lparr>CompletionEvent = ?n, Irp = Suc ?n\<rparr>"
  define s1 where "s1 = logged (EvIrpAlloc (Suc ?n)) (s\<lparr>events := (events s)(?n \<mapsto> False),
    next_addr := Suc (Suc ?n), irps := (irps s)(Suc ?n \<mapsto>
      \<lparr>IoStatus_Status = 0, IoStatus_Information = 0, Completion = Some ?n\<rparr>)\<rparr>)"
  have c: "KspAsyncContextAllocate e s = Ok (STATUS_SUCCESS, ctx, s1)"
    using assms(4) by (simp add: KspAsyncContextAllocate_def KeInitializeEvent_def IoAllocateIrp_def
        IoSetCompletionRoutine_def Let_def ctx_def s1_def logged_def)
  have ar: "armed ctx s1" and h1: "heap s1 = heap s" "captured s1 = captured s"
    by (simp_all add: s1_def ctx_def armed_def)
  have f1: "fresh_ok s1" using assms(2) by (auto simp: fresh_ok_def s1_def less_Suc_eq split: if_splits)
  obtain s2 where w: "call_and_wait e ?x ctx s1
      = Ok (final_status e (log s1) ?x, wsk e (log s1) ?x, s2)" and q: "quiet s1 s2"
    using call_completes [OF assms(1) ar] by blast
  have "irps s2 (Irp ctx) \<noteq> None" using ar quietD(4) [OF q, of "Irp ctx"] by (auto simp: armed_def)
  then obtain t where f: "KspAsyncContextFree ctx s2 = Ok t"
    and t: "t = logged (EvIrpFree (Irp ctx)) (s2\<lparr>irps := (irps s2)(Irp ctx := None)\<rparr>)"
    by (auto simp: KspAsyncContextFree_def IoFreeIrp_def)
  have "fresh_ok s2" using keeps_fresh_ok [OF quiet_keeps [OF q] f1] .
  then have "fresh_ok t" by (auto simp: t fresh_ok_def)
  then show ?thesis using c w f h1 quietD [OF q] assms(3)
    by (auto simp: KsGetAddrInfo_def provider_dispatch_def t intro!: exI [of _ "log s1"])
qed

text \<open>C12: \<open>KspUtilAddrInfoToAddrInfoEx\<close> on a well-formed list of \<open>n\<close> nodes, with memory available and
  \<open>n + 1\<close> stack frames, builds in fresh blocks a Unicode list with the same fields and the
  translated names, leaves the input as it was, and \<open>KspUtilFreeAddrInfoEx\<close> on the result
  restores the heap exactly.\<close>

theorem hints_conversion_roundtrip:
  assumes "\<forall>l. pool_ok e l" and "\<forall>l x. ansi_to_unicode e l x = (STATUS_SUCCESS, g x)"
    and "listed BInfoA BAnsi (heap s) a xs" and "xs \<noteq> []" and "fresh_ok s" and "length xs \<le> d"
  shows "\<exists>q t u. KspUtilAddrInfoToAddrInfoEx e (Suc d) a s = Ok (STATUS_SUCCESS, Some q, t)
    \<and> listed BInfoA BAnsi (heap t) a xs
    \<and> listed BInfoW BUni (heap t) q (map (\<lambda>(f, n). (f, map_option g n)) xs)
    \<and> KspUtilFreeAddrInfoEx d q t = Ok u \<and> heap u = heap s"
proof -
  obtain q t M where c: "KspUtilAddrInfoToAddrInfoEx e (Suc d) a s = Ok (STATUS_SUCCESS, Some q, t)"
    and ad: "adds M s t" and ow: "owned BInfoW BUni M q (map (\<lambda>(f, n). (f, map_option g n)) xs)"
    using to_ex.conv_copies [OF assms(1,2,3,5,6)] by blast
  note le = adds_le [OF ad]
  obtain u where "KspUtilFreeAddrInfoEx d q t = Ok u" "heap u = heap t |` (- dom M)"
    using uni_free.free_owned [OF ow _ le(2)] assms(4,6) by auto
  then show ?thesis
    using c listed_mono [OF assms(3) le(1)] listed_mono [OF owned_listed [OF ow] le(2)] adds_undo [OF ad]
    by metis
qed

text \<open>The world of the examples: at 2 an ANSI list of two nodes, the first with the name at 3; at 5
  the provider's Unicode list of one node with the name at 6; at 7 a node name.\<close>

definition info_node :: "ptr \<Rightarrow> ptr \<Rightarrow> addrinfo" where
  "info_node name nxt = \<lparr>ai_flags = 0, ai_family = 2, ai_socktype = 1, ai_protocol = 6,
     ai_addrlen = 16, ai_canonname = name, ai_addr = 9, ai_next = nxt\<rparr>"

definition info_world :: world where
  "info_world = initial_world\<lparr>heap :=
     [2 \<mapsto> \<lparr>owner = Caller, body = BInfoA (info_node 3 4)\<rparr>,
      3 \<mapsto> \<lparr>owner = Caller, body = BAnsi [97, 98]\<rparr>,
      4 \<mapsto> \<lparr>owner = Caller, body = BInfoA (info_node 0 0)\<rparr>,
      5 \<mapsto> \<lparr>owner = Provider, body = BInfoW (info_node 6 0)\<rparr>,
      6 \<mapsto> \<lparr>owner = Provider, body = BUni [97]\<rparr>,
      7 \<mapsto> \<lparr>owner = Caller, body = BAnsi [120]\<rparr>],
     next_addr := 10, captured := True\<rparr>"

lemma info_world_simps [simp]:
  "heap info_world 2 = Some \<lparr>owner = Caller, body = BInfoA (info_node 3 4)\<rparr>"
  "heap info_world 3 = Some \<lparr>owner = Caller, body = BAnsi [97, 98]\<rparr>"
  "heap info_world 4 = Some \<lparr>owner = Caller, body = BInfoA (info_node 0 0)\<rparr>"
  "heap info_world 5 = Some \<lparr>owner = Provider, body = BInfoW (info_node 6 0)\<rparr>"
  "heap info_world 6 = Some \<lparr>owner = Provider, body = BUni [97]\<rparr>"
  "heap info_world 7 = Some \<lparr>owner = Caller, body = BAnsi [120]\<rparr>"
  "captured info_world"
  by (simp_all add: info_world_def)

lemma info_node_simps [simp]:
  "ai_canonname (info_node n x) = n" "ai_next (info_node n x) = x"
  "info_fields (info_node n x) = (0, 2, 1, 6, 16, 9)"
  by (simp_all add: info_node_def info_fields_def)

lemma info_fresh [simp]: "fresh_ok info_world"
  by (simp add: fresh_ok_def info_world_def initial_world_def)

lemma info_listA: "listed BInfoA BAnsi (heap info_world) 2
    [((0, 2, 1, 6, 16, 9), Some [97, 98]), ((0, 2, 1, 6, 16, 9), None)]"
  by simp

lemma info_listW: "listed BInfoW BUni (heap info_world) 5 [((0, 2, 1, 6, 16, 9), Some [97])]"
  by simp

theorem hints_conversion_roundtrip_witness:
  "\<exists>q t u. KspUtilAddrInfoToAddrInfoEx demo_env 3 2 info_world = Ok (STATUS_SUCCESS, Some q, t)
    \<and> listed BInfoW BUni (heap t) q
        [((0, 2, 1, 6, 16, 9), Some [97, 98]), ((0, 2, 1, 6, 16, 9), None)]
    \<and> KspUtilFreeAddrInfoEx 2 q t = Ok u \<and> heap u = heap info_world"
  using hints_conversion_roundtrip [OF _ _ info_listA, of demo_env "map ucast" 2]
  by (simp del: listed.simps) blast

text \<open>C13: \<open>KspUtilAddrInfoExToAddrInfo\<close> copies the provider's list in the same way, and
  \<open>freeaddrinfo\<close> gives back exactly the blocks and names it built.\<close>

theorem result_conversion_roundtrip:
  assumes "\<forall>l. pool_ok e l" and "\<forall>l x. unicode_to_ansi e l x = (STATUS_SUCCESS, g x)"
    and "listed BInfoW BUni (heap s) a xs" and "xs \<noteq> []" and "fresh_ok s" and "length xs \<le> d"
  shows "\<exists>q t u. KspUtilAddrInfoExToAddrInfo e (Suc d) a s = Ok (STATUS_SUCCESS, Some q, t)
    \<and> listed BInfoW BUni (heap t) a xs
    \<and> listed BInfoA BAnsi (heap t) q (map (\<lambda>(f, n). (f, map_option g n)) xs)
    \<and> freeaddrinfo d q t = Ok u \<and> heap u = heap s"
proof -
  obtain q t M where c: "KspUtilAddrInfoExToAddrInfo e (Suc d) a s = Ok (STATUS_SUCCESS, Some q, t)"
    and ad: "adds M s t" and ow: "owned BInfoA BAnsi M q (map (\<lambda>(f, n). (f, map_option g n)) xs)"
    using from_ex.conv_copies [OF assms(1,2,3,5,6)] by blast
  note le = adds_le [OF ad]
  obtain u where "freeaddrinfo d q t = Ok u" "heap u = heap t |` (- dom M)"
    using ansi_free.free_owned [OF ow _ le(2)] assms(4,6) unfolding freeaddrinfo_def by auto
  then show ?thesis
    using c listed_mono [OF assms(3) le(1)] listed_mono [OF owned_listed [OF ow] le(2)] adds_undo [OF ad]
    by metis
qed

theorem result_conversion_roundtrip_witness:
  "\<exists>q t u. KspUtilAddrInfoExToAddrInfo demo_env 6 5 info_world = Ok (STATUS_SUCCESS, Some q, t)
    \<and> listed BInfoA BAnsi (heap t) q [((0, 2, 1, 6, 16, 9), Some [97])]
    \<and> freeaddrinfo 5 q t = Ok u \<and> heap u = heap info_world"
  using result_conversion_roundtrip [OF _ _ info_listW, of demo_env "map ucast" 5]
  by (simp del: listed.simps) blast

lemma name_argument_quiet:
  assumes "name_argument e p s = Ok (st, v, t)" and "fresh_ok s"
  shows "fresh_ok t \<and> (\<forall>c. EvWsk c \<in> set (log t) \<longleftrightarrow> EvWsk c \<in> set (log s))"
proof (cases "p = 0")
  case False
  with assms(1) obtain b where b: "load_ansi p s = Ok b"
    by (auto simp: name_argument_def RtlInitAnsiString_def res_simps)
  obtain x u where "ansi_to_unicode e (log s) b = (x, u)" by fastforce
  then have "t = (if NT_SUCCESS x then snd (alloc_string (BUni u) s) else logged EvStringFail s)"
    using assms(1) b False
    by (auto simp: name_argument_def RtlInitAnsiString_def alloc_string_def split: if_splits)
  then show ?thesis using assms(2) fresh_ok_new [OF assms(2)]
    by (auto simp: alloc_string_def) (simp_all add: fresh_ok_def logged_def)
qed (use assms in \<open>auto simp: name_argument_def\<close>)

lemma RtlFreeString_log: "RtlFreeString v s = Ok t \<Longrightarrow> EvWsk c \<in> set (log t) \<longleftrightarrow> EvWsk c \<in> set (log s)"
  by (cases v) (auto simp: logged_def split: option.splits if_splits)

lemma KsGetAddrInfo_heap: "KsGetAddrInfo e n sv h s = Ok (st, r, t) \<Longrightarrow> heap t = heap s"
  by (auto simp: KsGetAddrInfo_def KspAsyncContextAllocate_def KspAsyncContextFree_def IoFreeIrp_def
      KeInitializeEvent_def IoAllocateIrp_def IoSetCompletionRoutine_def Let_def res_simps
      split: if_splits option.splits dest!: call_quiet quietD(1))

text \<open>C15: \<open>getaddrinfo\<close> never succeeds without hints: NULL converts to NULL and the destructor is then
  called on it. If the call returns at all, a name conversion failed, so that no lookup was made
  and \<open>*res\<close> is not written.\<close>

theorem getaddrinfo_null_hints:
  assumes "fresh_ok s" and "getaddrinfo e d node service 0 s = Ok (st, res, t)"
  shows "\<not> NT_SUCCESS st \<and> res = None
    \<and> (\<forall>n sv h. EvWsk (CallGetAddressInfo n sv h) \<in> set (log t)
        \<longrightarrow> EvWsk (CallGetAddressInfo n sv h) \<in> set (log s))"
proof -
  from assms(2) obtain st1 v1 s1 where n1: "name_argument e node s = Ok (st1, v1, s1)"
    by (auto simp: getaddrinfo_def res_simps)
  note w1 = name_argument_quiet [OF n1 assms(1)]
  show ?thesis
  proof (cases "NT_SUCCESS st1")
    case False
    then show ?thesis using assms(2) n1 w1 by (auto simp: getaddrinfo_def)
  next
    case True
    with assms(2) n1 obtain st2 v2 s2 where n2: "name_argument e service s1 = Ok (st2, v2, s2)"
      by (auto simp: getaddrinfo_def res_simps)
    note w2 = name_argument_quiet [OF n2]
    have "\<not> NT_SUCCESS st2"
    proof
      assume "NT_SUCCESS st2"
      with assms(2) n1 n2 True obtain d' where d: "d = Suc d'" by (cases d) (auto simp: getaddrinfo_def)
      with assms(2) n1 n2 True \<open>NT_SUCCESS st2\<close> obtain stG G s4 s5 where
        g: "KsGetAddrInfo e (string_buffer v1) (string_buffer v2) 0 s2 = Ok (stG, G, s4)"
        and f: "KspUtilFreeAddrInfoEx d 0 s4 = Ok s5"
        by (auto simp: getaddrinfo_def bindR_Ok_iff [of "KsGetAddrInfo _ _ _ _ _"]
            bindR_Ok_iff [of "KspUtilFreeAddrInfoEx _ _ _"] simp del: KspUtilFreeAddrInfoEx.simps)
      have "heap s4 0 = None"
        using KsGetAddrInfo_heap [OF g] w1 w2 fresh_okD(6) by simp
      then show False using f by (simp add: d load_infoW_def load_def)
    qed
    then show ?thesis using assms(2) n1 n2 True w1 w2
      by (auto simp: getaddrinfo_def gai_error2_def RtlFreeUnicodeString_def res_simps
          dest!: RtlFreeString_log)
  qed
qed

theorem getaddrinfo_null_hints_witness:
  "\<exists>st t. getaddrinfo (demo_env\<lparr>ansi_to_unicode := \<lambda>_ _. (STATUS_UNSUCCESSFUL, [])\<rparr>) 3 7 0 0 info_world
      = Ok (st, None, t) \<and> \<not> NT_SUCCESS st"
proof -
  let ?e = "demo_env\<lparr>ansi_to_unicode := \<lambda>_ _. (STATUS_UNSUCCESSFUL, [])\<rparr>"
  obtain st res t where r: "getaddrinfo ?e 3 7 0 0 info_world = Ok (st, res, t)"
    by (simp add: getaddrinfo_def name_argument_def RtlInitAnsiString_def load_ansi_def load_def)
  then show ?thesis using getaddrinfo_null_hints [OF info_fresh r] by auto
qed

text \<open>C14: With everything in order \<open>getaddrinfo\<close> returns the provider's answer as a list of its own,
  and leaks the Unicode copies of both names: after the caller has freed the result, exactly those two
  blocks remain allocated.\<close>

theorem getaddrinfo_success_leaks:
  assumes "wsk_contract e" and "fresh_ok s" and "captured s"
    and "\<forall>l. pool_ok e l" and "\<forall>l. irp_ok e l"
    and "\<forall>l x. ansi_to_unicode e l x = (STATUS_SUCCESS, g x)"
    and "\<forall>l x. unicode_to_ansi e l x = (STATUS_SUCCESS, g' x)"
    and "load_ansi node s = Ok nb" and "load_ansi service s = Ok sb" and "node \<noteq> 0" and "service \<noteq> 0"
    and "listed BInfoA BAnsi (heap s) hints hs" and "hs \<noteq> []" and "length hs \<le> d"
    and "listed BInfoW BUni (heap s) answer xs" and "xs \<noteq> []" and "length xs \<le> d"
    and "\<forall>l n sv h. rp_result (wsk e l (CallGetAddressInfo n sv h)) = answer
      \<and> NT_SUCCESS (final_status e l (CallGetAddressInfo n sv h))"
  shows "\<exists>res t u n sv. getaddrinfo e (Suc d) node service hints s = Ok (STATUS_SUCCESS, Some res, t)
    \<and> listed BInfoA BAnsi (heap t) res (map (\<lambda>(f, n). (f, map_option g' n)) xs)
    \<and> freeaddrinfo d res t = Ok u \<and> heap s n = None \<and> heap s sv = None \<and> n \<noteq> sv
    \<and> heap u = (heap s)(n \<mapsto> \<lparr>owner = RtlString, body = BUni (g nb)\<rparr>,
        sv \<mapsto> \<lparr>owner = RtlString, body = BUni (g sb)\<rparr>)"
proof -
  let ?s1 = "snd (alloc_string (BUni (g nb)) s)" and ?n = "next_addr s" and ?sv = "Suc (next_addr s)"
  let ?s2 = "snd (alloc_string (BUni (g sb)) ?s1)"
  note fr = assms(2)
  have f1: "fresh_ok ?s1" and f2: "fresh_ok ?s2"
    using fresh_ok_new [OF fr] fresh_ok_new [of ?s1] by (simp_all add: alloc_string_def)
  have h2: "heap ?s2 = (heap s)(?n \<mapsto> \<lparr>owner = RtlString, body = BUni (g nb)\<rparr>,
      ?sv \<mapsto> \<lparr>owner = RtlString, body = BUni (g sb)\<rparr>)"
    by (simp add: alloc_string_def)
  have fresh: "heap s ?n = None" "heap s ?sv = None"
    using fresh_okD(2) [OF fr] fr by (simp, metis fresh_ok_def lessI less_asym)
  then have le: "heap s \<subseteq>\<^sub>m heap ?s2" by (auto simp: h2 map_le_def)
  have sb1: "load_ansi service ?s1 = Ok sb"
    using assms(9) fresh by (auto simp: load_ansi_def load_def alloc_string_def split: option.splits)
  note ren = assms(6)
  have n1: "name_argument e node s = Ok (STATUS_SUCCESS, Str ?n, ?s1)"
    using assms(6,8,10) by (simp add: name_argument_def RtlInitAnsiString_def alloc_string_def)
  have n2: "name_argument e service ?s1 = Ok (STATUS_SUCCESS, Str ?sv, ?s2)"
    using assms(6,11) sb1 by (simp add: name_argument_def RtlInitAnsiString_def alloc_string_def)
  obtain q s3 M where c: "KspUtilAddrInfoToAddrInfoEx e (Suc d) hints ?s2 = Ok (STATUS_SUCCESS, Some q, s3)"
    and ad: "adds M ?s2 s3" and ow: "owned BInfoW BUni M q (map (\<lambda>(f, n). (f, map_option g n)) hs)"
    using to_ex.conv_copies [OF assms(4,6) listed_mono [OF assms(12) le] f2 assms(14)] by blast
  have cap3: "captured s3" "fresh_ok s3" using ad assms(3)
    by (simp_all add: adds_def same_rest_def alloc_string_def)
  obtain l s4 where k: "KsGetAddrInfo e ?n ?sv q s3 = Ok (final_status e l (CallGetAddressInfo ?n ?sv q),
      answer, s4)" and h4: "heap s4 = heap s3" "captured s4" "fresh_ok s4"
    using KsGetAddrInfo_ok [OF assms(1) cap3(2,1) assms(5), of ?n ?sv q] assms(18) by metis
  obtain s5 where fh: "KspUtilFreeAddrInfoEx (Suc d) q s4 = Ok s5" and h5: "heap s5 = heap s4 |` (- dom M)"
    and r5: "same_rest s4 s5" "next_addr s5 = next_addr s4"
    using uni_free.free_owned [OF ow _ _, of s4 "Suc d"] adds_le(2) [OF ad] h4(1) assms(13,14) by auto
  have h52: "heap s5 = heap ?s2" using h5 h4(1) adds_undo [OF ad] by simp
  have f5: "fresh_ok s5" "captured s5" using h4 r5 h5
    by (auto simp: fresh_ok_def same_rest_def restrict_map_def split: if_splits)
  obtain res t N where cr: "KspUtilAddrInfoExToAddrInfo e (Suc d) answer s5 = Ok (STATUS_SUCCESS, Some res, t)"
    and an: "adds N s5 t" and on: "owned BInfoA BAnsi N res (map (\<lambda>(f, n). (f, map_option g' n)) xs)"
    using from_ex.conv_copies [OF assms(4,7) _ f5(1) assms(17), of answer]
      listed_mono [OF assms(15) le] h52 by metis
  let ?t = "logged (EvWsk (CallFreeAddressInfo answer)) t"
  have "captured t" using an f5 by (simp add: adds_def same_rest_def)
  then have run: "getaddrinfo e (Suc d) node service hints s = Ok (STATUS_SUCCESS, Some res, ?t)"
    using n1 n2 c k fh cr assms(18)
    by (simp add: getaddrinfo_def KsFreeAddrInfo_def provider_dispatch_def)
  have leN: "N \<subseteq>\<^sub>m heap ?t" using adds_le(2) [OF an] by simp
  obtain u where "freeaddrinfo d res ?t = Ok u" "heap u = heap ?t |` (- dom N)"
    using ansi_free.free_owned [OF on _ leN] assms(16,17) unfolding freeaddrinfo_def by auto
  then show ?thesis
    using run listed_mono [OF owned_listed [OF on] leN] adds_undo [OF an] h52 h2 fresh
    by (intro exI [of _ res] exI [of _ ?t] exI [of _ u] exI [of _ ?n] exI [of _ ?sv]) simp
qed

definition info_env :: env where
  "info_env = demo_env\<lparr>wsk := \<lambda>_ _. \<lparr>rp_status = STATUS_PENDING,
     rp_iosb = Some (STATUS_SUCCESS, 0), rp_result = 5\<rparr>\<rparr>"

lemma info_env_simps [simp]:
  "pool_ok info_env l" "irp_ok info_env l" "rp_result (wsk info_env l c) = 5"
  "final_status info_env l c = STATUS_SUCCESS" "wsk_contract info_env"
  "ansi_to_unicode info_env l bs = (STATUS_SUCCESS, map ucast bs)"
  "unicode_to_ansi info_env l ws = (STATUS_SUCCESS, map ucast ws)"
  by (simp_all add: info_env_def final_status_def wsk_contract_def)

theorem getaddrinfo_success_leaks_witness:
  "\<exists>res t u n sv. getaddrinfo info_env 6 7 7 2 info_world = Ok (STATUS_SUCCESS, Some res, t)
    \<and> listed BInfoA BAnsi (heap t) res [((0, 2, 1, 6, 16, 9), Some [97])]
    \<and> freeaddrinfo 5 res t = Ok u \<and> heap info_world n = None \<and> heap info_world sv = None \<and> n \<noteq> sv
    \<and> heap u = (heap info_world)(n \<mapsto> \<lparr>owner = RtlString, body = BUni [120]\<rparr>,
        sv \<mapsto> \<lparr>owner = RtlString, body = BUni [120]\<rparr>)"
proof -
  have l: "load_ansi 7 info_world = Ok [120]" by (simp add: load_ansi_def load_def)
  show ?thesis
    using getaddrinfo_success_leaks [of info_env info_world "map ucast" "map ucast" 7 "[120]" 7 "[120]" 2
        _ 5 5, OF _ info_fresh _ _ _ _ _ l l _ _ info_listA _ _ info_listW]
    by (simp del: listed.simps)
qed

text \<open>C16: When the second node of the hints cannot be allocated, the error path of
  \<open>KspUtilAddrInfoToAddrInfoEx\<close> does not free the Unicode copy it made: it calls
  \<open>RtlFreeAnsiString\<close> on a variable that is not initialised (no name), or that points into the
  caller's own list (a name). Unless that string happens to come from the string routines the call
  is a fault in either case, instead of the status \<open>STATUS_INSUFFICIENT_RESOURCES\<close>.\<close>

theorem hints_conversion_error_faults:
  assumes "\<forall>l. pool_ok e l \<longleftrightarrow> l = log s" and "\<forall>l x. ansi_to_unicode e l x = (STATUS_SUCCESS, g x)"
    and "listed BInfoA BAnsi (heap s) a (x # y # ys)" and "fresh_ok s"
    and "\<forall>p b. heap s p \<noteq> Some \<lparr>owner = RtlString, body = BAnsi b\<rparr>"
  shows "KspUtilAddrInfoToAddrInfoEx e (Suc (Suc d)) a s = Fault"
proof -
  obtain f nm where x: "x = (f, nm)" by fastforce
  from assms(3) obtain c ai where a0: "a \<noteq> 0" and ha: "heap s a = Some c" "body c = BInfoA ai"
    and nx: "ai_next ai \<noteq> 0" and nm: "case nm of None \<Rightarrow> ai_canonname ai = 0
      | Some z \<Rightarrow> ai_canonname ai \<noteq> 0 \<and> (\<exists>c'. heap s (ai_canonname ai) = Some c' \<and> body c' = BAnsi z)"
    by (cases y) (auto simp: x)
  note fr = fresh_okD [OF assms(4)]
  let ?r = "next_addr s"
  have ar: "a \<noteq> ?r" using ha fr(2) by auto
  show ?thesis
  proof (cases nm)
    case None
    then have "ai_canonname ai = 0" using nm by simp
    then show ?thesis using assms(1) a0 ha nx fr(1) ar
      by (simp add: ExAllocatePoolWithTag_def load_infoA_def load_def store_def copy_canonname_ex_def
          RtlFreeAnsiString_def Let_def logged_def)
  next
    case (Some z)
    then obtain c' where n: "ai_canonname ai \<noteq> 0" "heap s (ai_canonname ai) = Some c'"
      "body c' = BAnsi z" using nm by auto
    have nr: "ai_canonname ai \<noteq> ?r" "ai_canonname ai \<noteq> Suc ?r"
      using n(2) assms(4) unfolding fresh_ok_def by (metis less_irrefl option.distinct(1),
        metis lessI less_asym option.distinct(1))
    have "owner c' \<noteq> RtlString" using assms(5) n by (metis (full_types) cell.surjective old.unit.exhaust)
    then show ?thesis using assms(1,2) a0 ha nx fr(1) ar n nr
      by (simp add: ExAllocatePoolWithTag_def load_infoA_def load_def store_def copy_canonname_ex_def
          RtlFreeAnsiString_def Let_def logged_def RtlInitAnsiString_def load_ansi_def alloc_string_def)
  qed
qed

theorem hints_conversion_error_faults_witness:
  "KspUtilAddrInfoToAddrInfoEx (demo_env\<lparr>pool_ok := \<lambda>l. l = []\<rparr>) 7 2 info_world = Fault"
proof -
  have "log info_world = []" by (simp add: info_world_def initial_world_def)
  moreover have "\<forall>p b. heap info_world p \<noteq> Some \<lparr>owner = RtlString, body = BAnsi b\<rparr>"
    by (simp add: info_world_def)
  ultimately show ?thesis
    using hints_conversion_error_faults [OF _ _ info_listA info_fresh,
        of "demo_env\<lparr>pool_ok := \<lambda>l. l = []\<rparr>" "map ucast" 5]
    by (simp del: listed.simps KspUtilAddrInfoToAddrInfoEx.simps)
qed

end
