(* ===== verification/Pb_Heap.thy ===== *)
theory Pb_Heap
  imports Prelude
begin

text \<open>
  The allocator behind \<^verbatim>\<open>do_alloc\<close> and \<^verbatim>\<open>do_free\<close> of \<^verbatim>\<open>protobuf-c/protobuf-c.c\<close>: every request is
  numbered, and the number names the block it returns. Which requests fail is up to the
  allocator. Freeing a block that is not live is a fault.
\<close>

record pb_heap =
  alloc_fails :: "nat \<Rightarrow> u64 \<Rightarrow> bool"
  requests :: nat
  live :: "nat set"

definition do_alloc :: "u64 \<Rightarrow> pb_heap \<Rightarrow> nat option \<times> pb_heap" where
  "do_alloc sz h = (let n = requests h; h' = h\<lparr>requests := n + 1\<rparr> in
     if alloc_fails h n sz then (None, h') else (Some n, h'\<lparr>live := insert n (live h)\<rparr>))"

definition do_free :: "nat option \<Rightarrow> pb_heap \<Rightarrow> pb_heap res" where
  "do_free p h = (case p of None \<Rightarrow> Ok h
     | Some n \<Rightarrow> if n \<in> live h then Ok (h\<lparr>live := live h - {n}\<rparr>) else Fault)"

text \<open>Block numbers not yet handed out are not live.\<close>

definition heap_ok :: "pb_heap \<Rightarrow> bool" where
  "heap_ok h \<longleftrightarrow> live h \<subseteq> {..<requests h}"

lemma heap_ok_alloc: "heap_ok h \<Longrightarrow> do_alloc sz h = (p, h') \<Longrightarrow> heap_ok h'"
  by (auto simp: do_alloc_def heap_ok_def Let_def split: if_splits)

lemma heap_ok_fresh: "heap_ok h \<Longrightarrow> do_alloc sz h = (Some n, h') \<Longrightarrow> n \<notin> live h"
  by (auto simp: do_alloc_def heap_ok_def Let_def split: if_splits)

lemma do_free_Ok: "do_free (Some n) h = Ok h' \<longleftrightarrow> n \<in> live h \<and> h' = h\<lparr>live := live h - {n}\<rparr>"
  by (auto simp: do_free_def)

lemma do_free_None [simp]: "do_free None h = Ok h"
  by (simp add: do_free_def)

lemma heap_ok_free: "heap_ok h \<Longrightarrow> do_free p h = Ok h' \<Longrightarrow> heap_ok h'"
  by (auto simp: do_free_def heap_ok_def split: option.splits if_splits)

end
