(* ===== verification/Pb_Mem.thy ===== *)
theory Pb_Mem
  imports Prelude
begin

text \<open>
  Memory as \<^verbatim>\<open>protobuf-c/protobuf-c.c\<close> writes it: an output pointer is an index into the block
  it points into, and a store, \<open>memcpy\<close> or \<open>memmove\<close> that leaves the block is a fault.
  The algebra of consecutive writes lets a packing routine be summarised by the bytes it emits.
\<close>

section \<open>Stores and loads\<close>

definition put :: "nat \<Rightarrow> u8 \<Rightarrow> bytes \<Rightarrow> bytes res" where
  "put p b m = (if p < length m then Ok (m[p := b]) else Fault)"

definition get :: "nat \<Rightarrow> bytes \<Rightarrow> u8 res" where
  "get p m = (if p < length m then Ok (m ! p) else Fault)"

definition write_bytes :: "nat \<Rightarrow> bytes \<Rightarrow> bytes \<Rightarrow> bytes res" where
  "write_bytes p bs m =
     (if p + length bs \<le> length m then Ok (take p m @ bs @ drop (p + length bs) m) else Fault)"

definition read_bytes :: "nat \<Rightarrow> nat \<Rightarrow> bytes \<Rightarrow> bytes res" where
  "read_bytes p n m = (if p + n \<le> length m then Ok (take n (drop p m)) else Fault)"

definition memmove :: "nat \<Rightarrow> nat \<Rightarrow> nat \<Rightarrow> bytes \<Rightarrow> bytes res" where
  "memmove dest src n m = bindR (read_bytes src n m) (\<lambda>bs. write_bytes dest bs m)"

text \<open>\<open>out[p] |= b\<close>\<close>

definition or_byte :: "nat \<Rightarrow> u8 \<Rightarrow> bytes \<Rightarrow> bytes res" where
  "or_byte p b m = bindR (get p m) (\<lambda>x. put p (x OR b) m)"

section \<open>The algebra of writes\<close>

lemma put_write: "put p b m = write_bytes p [b] m"
  by (auto simp: put_def write_bytes_def upd_conv_take_nth_drop)

lemma write_append:
  "write_bytes p (xs @ ys) m = bindR (write_bytes p xs m) (write_bytes (p + length xs) ys)"
proof (cases "p + length xs \<le> length m")
  case True
  then have "p \<le> length m" by simp
  with True show ?thesis by (simp add: write_bytes_def min_absorb2 ac_simps)
qed (simp add: write_bytes_def)

lemma write_length [res_simps]: "write_bytes p bs m = Ok m' \<Longrightarrow> length m' = length m"
  by (auto simp: write_bytes_def split: if_splits)

lemma write_nil: "p \<le> length m \<Longrightarrow> write_bytes p [] m = Ok m"
  by (simp add: write_bytes_def)

lemma write_Ok_iff: "write_bytes p bs m = Ok m'
    \<longleftrightarrow> p + length bs \<le> length m \<and> m' = take p m @ bs @ drop (p + length bs) m"
  by (auto simp: write_bytes_def)

text \<open>A packing routine, started at \<open>p\<close>, writes exactly \<open>bs\<close> and returns their number;
  where the block is too short it faults.\<close>

type_synonym packer = "nat \<Rightarrow> bytes \<Rightarrow> (nat \<times> bytes) res"

definition emits :: "packer \<Rightarrow> bytes \<Rightarrow> bool" where
  "emits f bs \<longleftrightarrow> (\<forall>p m. p \<le> length m
     \<longrightarrow> f p m = bindR (write_bytes p bs m) (\<lambda>m'. Ok (length bs, m')))"

lemma emitsI: "(\<And>p m. p \<le> length m
    \<Longrightarrow> f p m = bindR (write_bytes p bs m) (\<lambda>m'. Ok (length bs, m'))) \<Longrightarrow> emits f bs"
  by (simp add: emits_def)

lemma emitsD: "emits f bs \<Longrightarrow> p \<le> length m
    \<Longrightarrow> f p m = bindR (write_bytes p bs m) (\<lambda>m'. Ok (length bs, m'))"
  by (simp add: emits_def)

text \<open>What \<open>emits\<close> means for a caller: enough room gives exactly the bytes in place and nothing
  else changed, too little room is a fault.\<close>

lemma emits_fits:
  "emits f bs \<Longrightarrow> p + length bs \<le> length m
    \<Longrightarrow> f p m = Ok (length bs, take p m @ bs @ drop (p + length bs) m)"
  by (simp add: emitsD write_bytes_def)

lemma emits_short: "emits f bs \<Longrightarrow> p \<le> length m \<Longrightarrow> length m < p + length bs \<Longrightarrow> f p m = Fault"
  by (simp add: emitsD write_bytes_def)

lemma emits_nil: "emits (\<lambda>p m. Ok (0, m)) []"
  by (simp add: emits_def write_nil)

lemma emits_one: "emits (\<lambda>p m. bindR (put p b m) (\<lambda>m. Ok (1, m))) [b]"
  by (simp add: emits_def put_write)

text \<open>Two routines one after the other, as in \<open>rv = f(out); rv += g(out + rv)\<close>.\<close>

definition andthen :: "packer \<Rightarrow> packer \<Rightarrow> packer" where
  "andthen f g p m = bindR (f p m) (\<lambda>(n, m1). bindR (g (p + n) m1) (\<lambda>(k, m2). Ok (n + k, m2)))"

lemma emits_then:
  assumes "emits f xs" and "emits g ys"
  shows "emits (andthen f g) (xs @ ys)"
proof (rule emitsI)
  fix p m assume p: "p \<le> length (m :: bytes)"
  show "andthen f g p m = bindR (write_bytes p (xs @ ys) m) (\<lambda>m'. Ok (length (xs @ ys), m'))"
  proof (cases "write_bytes p xs m")
    case (Ok m1)
    then have "p + length xs \<le> length m1" using write_length [OF Ok] by (auto simp: write_Ok_iff)
    then show ?thesis using Ok emitsD [OF assms(1) p] emitsD [OF assms(2)]
      by (simp add: andthen_def write_append bindR_assoc)
  qed (simp_all add: andthen_def emitsD [OF assms(1) p] write_append)
qed

text \<open>A write followed by a change of its first byte.\<close>

lemma or_byte_write:
  assumes "bs \<noteq> []"
  shows "bindR (write_bytes p bs m) (or_byte p b) = write_bytes p ((hd bs OR b) # tl bs) m"
  using assms
  by (cases bs) (auto simp: write_bytes_def or_byte_def get_def put_def nth_append list_update_append)

lemma memmove_write:
  assumes "p + n \<le> length m" and "p' + n \<le> length m"
  shows "memmove p' p n m = write_bytes p' (take n (drop p m)) m"
  using assms by (simp add: memmove_def read_bytes_def)

text \<open>Writing a body at \<open>p + j\<close>, moving it to \<open>p + k\<close> and then writing \<open>k\<close> bytes at \<open>p\<close>
  leaves the \<open>k\<close> bytes followed by the body.\<close>

lemma write_move_prefix:
  assumes "length pre = k" and "j \<le> k"
  shows "bindR (write_bytes (p + j) body m) (\<lambda>m1.
      bindR (memmove (p + k) (p + j) (length body) m1) (write_bytes p pre))
    = write_bytes p (pre @ body) m"
proof (cases "p + k + length body \<le> length m")
  case True
  then have a: "p + j + length body \<le> length m" using assms by simp
  define m1 where "m1 = take (p + j) m @ body @ drop (p + j + length body) m"
  have l1: "length m1 = length m" using a by (simp add: m1_def)
  have "write_bytes (p + j) body m = Ok m1" using a by (simp add: write_bytes_def m1_def)
  moreover have "memmove (p + k) (p + j) (length body) m1
      = Ok (take (p + k) m1 @ body @ drop (p + k + length body) m1)"
    using True a l1 by (simp add: memmove_def read_bytes_def write_bytes_def m1_def)
  moreover have "take p (take (p + k) m1 @ body @ drop (p + k + length body) m1) = take p m"
    using a True l1 assms by (simp add: m1_def min_def)
  moreover have "drop (p + k) (take (p + k) m1 @ body @ drop (p + k + length body) m1)
      = body @ drop (p + k + length body) m"
    using a True l1 assms by (simp add: m1_def ac_simps)
  ultimately show ?thesis using True l1 assms(1)
    by (simp add: write_bytes_def ac_simps)
next
  case False
  then show ?thesis
    using assms by (auto simp: write_bytes_def memmove_def read_bytes_def)
qed

end
