(* ===== verification/Pb_Buffer.thy ===== *)
theory Pb_Buffer
  imports Pb_Heap Pb_Mem
begin

text \<open>
  \<^verbatim>\<open>ProtobufCBufferSimple\<close>: a growing byte buffer, and the contract that a caller of \<^verbatim>\<open>append\<close>
  relies on.
\<close>

section \<open>The buffer\<close>

text \<open>\<open>sb_block\<close> is the heap block of \<open>sb_data\<close>, when it is one.\<close>

record buffer_simple =
  sb_alloced :: u64
  sb_len :: u64
  sb_data :: bytes
  sb_block :: "nat option"
  sb_must_free_data :: bool

text \<open>\<open>while (new_alloced < new_len) new_alloced += new_alloced;\<close>\<close>

partial_function (option) double_until :: "u64 \<Rightarrow> u64 \<Rightarrow> u64 option" where
  "double_until new_alloced new_len =
     (if new_alloced < new_len then double_until (new_alloced + new_alloced) new_len
      else Some new_alloced)"

declare double_until.simps [code]

fun returned :: "'a option \<Rightarrow> 'a res" where
  "returned (Some x) = Ok x" | "returned None = Hang"

definition protobuf_c_buffer_simple_append ::
  "bytes \<Rightarrow> buffer_simple \<times> pb_heap \<Rightarrow> (buffer_simple \<times> pb_heap) res" where
  "protobuf_c_buffer_simple_append data st = (let (simp, h) = st; len = of_nat (length data);
       new_len = sb_len simp + len in
     if sb_alloced simp < new_len then
       bindR (returned (double_until (sb_alloced simp * 2) new_len)) (\<lambda>new_alloced.
       case do_alloc new_alloced h of
         (None, h) \<Rightarrow> Ok (simp, h)
       | (Some blk, h) \<Rightarrow>
           bindR (read_bytes 0 (unat (sb_len simp)) (sb_data simp)) (\<lambda>old.
           bindR (write_bytes 0 old (replicate (unat new_alloced) 0)) (\<lambda>new_data.
           bindR (if sb_must_free_data simp then do_free (sb_block simp) h else Ok h) (\<lambda>h.
           bindR (write_bytes (unat (sb_len simp)) data new_data) (\<lambda>new_data.
           Ok (simp\<lparr>sb_data := new_data, sb_block := Some blk, sb_alloced := new_alloced,
               sb_must_free_data := True, sb_len := new_len\<rparr>, h))))))
     else bindR (write_bytes (unat (sb_len simp)) data (sb_data simp)) (\<lambda>d.
       Ok (simp\<lparr>sb_data := d, sb_len := new_len\<rparr>, h)))"

section \<open>The doubling loop\<close>

lemma double_until_least:
  assumes "0 < a" and "a < n" and "unat n \<le> 2 ^ 63"
  shows "\<exists>k r. double_until a n = Some r \<and> unat r = 2 ^ k * unat a \<and> unat n \<le> unat r \<and> unat r < 2 * unat n"
  using assms
proof (induction "unat n - unat a" arbitrary: a rule: less_induct)
  case less
  have d: "unat (a + a) = 2 * unat a"
    using less.prems by (simp add: unat_word_ariths word_less_nat_alt)
  have a: "0 < unat a" using less.prems(1) by (simp add: word_less_nat_alt)
  show ?case
  proof (cases "a + a < n")
    case True
    have "0 < a + a" using d a by (simp add: word_less_nat_alt)
    moreover have "unat n - unat (a + a) < unat n - unat a"
      using True d a by (simp add: word_less_nat_alt)
    ultimately obtain k r where "double_until (a + a) n = Some r" "unat r = 2 ^ k * unat (a + a)"
        "unat n \<le> unat r" "unat r < 2 * unat n"
      using less.hyps [of "a + a"] True less.prems(3) by blast
    then show ?thesis using d less.prems(2)
      by (subst double_until.simps) (auto intro!: exI [of _ "Suc k"])
  next
    case False
    then have "double_until a n = Some (a + a)" using less.prems(2)
      by (subst double_until.simps, subst double_until.simps) simp
    then show ?thesis using d False less.prems(2)
      by (auto simp: word_less_nat_alt intro!: exI [of _ 1])
  qed
qed

lemma double_until_ge: "\<not> a < n \<Longrightarrow> double_until a n = Some a"
  by (subst double_until.simps) simp

lemma double_until_zero: "double_until 0 n = Some r \<Longrightarrow> n = 0"
proof -
  assume r: "double_until 0 n = Some r"
  have "0 = (0 :: u64) \<longrightarrow> n = 0"
    by (rule double_until.raw_induct [OF _ r, of "\<lambda>a m _. a = 0 \<longrightarrow> m = 0"]) (auto simp: word_gt_0 split: if_splits)
  then show "n = 0" by simp
qed

section \<open>The contract of a buffer\<close>

text \<open>A buffer that is \<open>ready\<close> holds \<open>contents\<close> and has \<open>room\<close> for more; within its room
  \<open>append\<close> adds exactly the bytes given to it.\<close>

locale append_buffer =
  fixes append :: "bytes \<Rightarrow> 'b \<Rightarrow> 'b res" and ready :: "'b \<Rightarrow> bool" and contents :: "'b \<Rightarrow> bytes"
    and room :: "'b \<Rightarrow> nat"
  assumes append_adds: "ready b \<Longrightarrow> length bs \<le> room b \<Longrightarrow> \<exists>b'. append bs b = Ok b' \<and> ready b'
      \<and> contents b' = contents b @ bs \<and> room b' = room b - length bs"
    and room_small: "room b < 2 ^ 32"
begin

lemma append_two:
  assumes "ready b" and "length (xs @ ys) \<le> room b"
  shows "\<exists>b'. bindR (append xs b) (append ys) = Ok b' \<and> ready b'
    \<and> contents b' = contents b @ xs @ ys \<and> room b' = room b - length (xs @ ys)"
proof -
  obtain b1 where "append xs b = Ok b1" "ready b1" "contents b1 = contents b @ xs" "room b1 = room b - length xs"
    using append_adds [of b xs] assms by auto
  then show ?thesis using append_adds [of b1 ys] assms by auto
qed

end

section \<open>The simple buffer meets it\<close>

definition sb_contents :: "buffer_simple \<times> pb_heap \<Rightarrow> bytes" where
  "sb_contents st = take (unat (sb_len (fst st))) (sb_data (fst st))"

definition sb_valid :: "buffer_simple \<times> pb_heap \<Rightarrow> bool" where
  "sb_valid st = (let (b, h) = st in
     heap_ok h \<and> length (sb_data b) = unat (sb_alloced b) \<and> sb_len b \<le> sb_alloced b
     \<and> 0 < sb_alloced b \<and> unat (sb_alloced b) < 2 ^ 34
     \<and> (sb_must_free_data b \<longrightarrow> (\<exists>n. sb_block b = Some n \<and> n \<in> live h)))"

definition never_fails :: "pb_heap \<Rightarrow> bool" where
  "never_fails h \<longleftrightarrow> (\<forall>n sz. \<not> alloc_fails h n sz)"

definition sb_ready :: "buffer_simple \<times> pb_heap \<Rightarrow> bool" where
  "sb_ready st \<longleftrightarrow> sb_valid st \<and> never_fails (snd st) \<and> unat (sb_len (fst st)) < 2 ^ 32"

definition sb_room :: "buffer_simple \<times> pb_heap \<Rightarrow> nat" where
  "sb_room st = 2 ^ 32 - 1 - unat (sb_len (fst st))"

text \<open>Within the first four gigabytes an append adds its bytes to the contents; the block of the
  old data is given back when it was the buffer's own.\<close>

lemma simple_append:
  assumes v: "sb_valid (b, h)" and nf: "never_fails h"
    and l: "unat (sb_len b) + length bs < 2 ^ 32"
  shows "\<exists>b' h'. protobuf_c_buffer_simple_append bs (b, h) = Ok (b', h')
    \<and> sb_valid (b', h') \<and> never_fails h' \<and> sb_contents (b', h') = sb_contents (b, h) @ bs
    \<and> unat (sb_len b') = unat (sb_len b) + length bs"
proof -
  let ?len = "of_nat (length bs) :: u64" and ?n = "sb_len b + of_nat (length bs)"
  have n: "unat ?n = unat (sb_len b) + length bs"
    using l by (simp add: unat_word_ariths unat_of_nat)
  have d: "length (sb_data b) = unat (sb_alloced b)" and le: "unat (sb_len b) \<le> unat (sb_alloced b)"
    and pos: "0 < unat (sb_alloced b)" and small: "unat (sb_alloced b) < 2 ^ 34"
    using v by (auto simp: sb_valid_def word_le_nat_alt word_less_nat_alt)
  show ?thesis
  proof (cases "sb_alloced b < ?n")
    case False
    then have f: "unat (sb_len b) + length bs \<le> unat (sb_alloced b)" using n by (simp add: word_less_nat_alt)
    then show ?thesis using v nf False n d le
      by (auto simp: protobuf_c_buffer_simple_append_def write_bytes_def sb_valid_def sb_contents_def
          word_le_nat_alt min_absorb2)
  next
    case True
    have a2: "unat (sb_alloced b * 2) = 2 * unat (sb_alloced b)"
      using small by (simp add: unat_word_ariths)
    obtain r where r: "double_until (sb_alloced b * 2) ?n = Some r" "unat ?n \<le> unat r" "unat r < 2 * unat ?n"
    proof (cases "sb_alloced b * 2 < ?n")
      case True
      then show ?thesis using that double_until_least [of "sb_alloced b * 2" ?n] a2 pos n l
        by (auto simp: word_less_nat_alt)
    next
      case F: False
      then have "double_until (sb_alloced b * 2) ?n = Some (sb_alloced b * 2)"
        by (rule double_until_ge)
      then show ?thesis using that F True a2 by (simp add: word_less_nat_alt)
    qed
    let ?new = "take (unat (sb_len b)) (sb_data b) @ replicate (unat r - unat (sb_len b)) 0"
    let ?data = "take (unat (sb_len b)) ?new @ bs @ drop (unat (sb_len b) + length bs) ?new"
    let ?b' = "b\<lparr>sb_data := ?data, sb_block := Some (requests h), sb_alloced := r,
      sb_must_free_data := True, sb_len := ?n\<rparr>"
    define h1 where "h1 = h\<lparr>requests := requests h + 1, live := insert (requests h) (live h)\<rparr>"
    obtain h2 where h2: "(if sb_must_free_data b then do_free (sb_block b) h1 else Ok h1) = Ok h2"
        "heap_ok h2" "requests h \<in> live h2" "never_fails h2"
    proof (cases "sb_must_free_data b")
      case True
      then obtain k where k: "sb_block b = Some k" "k \<in> live h" using v by (auto simp: sb_valid_def)
      then have "k \<noteq> requests h" using v by (auto simp: sb_valid_def heap_ok_def)
      show ?thesis
        by (rule that [of "h1\<lparr>live := live h1 - {k}\<rparr>"])
          (use \<open>k \<noteq> requests h\<close> True k v nf in \<open>auto simp: h1_def do_free_Ok sb_valid_def heap_ok_def never_fails_def\<close>)
    next
      case False
      show ?thesis
        by (rule that [of h1]) (use False v nf in \<open>auto simp: h1_def sb_valid_def heap_ok_def never_fails_def\<close>)
    qed
    have al: "do_alloc r h = (Some (requests h), h1)" using nf by (simp add: h1_def do_alloc_def never_fails_def Let_def)
    have rl: "unat (sb_len b) + length bs \<le> unat r" using r(2) n by simp
    have c: "protobuf_c_buffer_simple_append bs (b, h) = Ok (?b', h2)"
      using True r(1) al h2(1) d le rl
      by (simp add: protobuf_c_buffer_simple_append_def Let_def read_bytes_def write_bytes_def min_absorb2)
    have "unat r < 2 ^ 34" "0 < r" using r n l True by (auto simp: word_less_nat_alt)
    then have "sb_valid (?b', h2)" using h2 rl n d le by (simp add: sb_valid_def min_def word_le_nat_alt)
    moreover have "sb_contents (?b', h2) = sb_contents (b, h) @ bs" using n d le by (simp add: sb_contents_def min_def)
    ultimately show ?thesis using c h2(4) n by auto
  qed
qed

interpretation simple: append_buffer protobuf_c_buffer_simple_append sb_ready sb_contents sb_room
proof
  fix bs :: bytes and st :: "buffer_simple \<times> pb_heap"
  assume r: "sb_ready st" and l: "length bs \<le> sb_room st"
  obtain b h where st: "st = (b, h)" by (cases st)
  have "unat (sb_len b) + length bs < 2 ^ 32" using r l by (auto simp: sb_ready_def sb_room_def st)
  with simple_append [of b h bs] r show "\<exists>b'. protobuf_c_buffer_simple_append bs st = Ok b' \<and> sb_ready b'
      \<and> sb_contents b' = sb_contents st @ bs \<and> sb_room b' = sb_room st - length bs"
    by (fastforce simp: sb_ready_def sb_room_def st)
qed (simp add: sb_room_def)


section \<open>Properties\<close>

text \<open>C29: The doubling loop of \<open>protobuf_c_buffer_simple_append\<close> ends for every positive capacity below
  the new length (up to \<open>2 ^ 63\<close>), with the capacity doubled a whole number of times, at least the
  new length and less than twice it; with a capacity of zero it never ends.\<close>

theorem buffer_growth_terminates:
  "(0 < a \<longrightarrow> a < n \<longrightarrow> unat n \<le> 2 ^ 63 \<longrightarrow> (\<exists>k r. double_until a n = Some r
      \<and> unat r = 2 ^ k * unat a \<and> unat n \<le> unat r \<and> unat r < 2 * unat n))
   \<and> (0 < n \<longrightarrow> double_until 0 n = None)"
  using double_until_least [of a n] double_until_zero [of n] by (cases "double_until 0 n") auto

lemma buffer_growth_terminates_witness:
  "(\<exists>k r. double_until 16 100 = Some r \<and> unat r = 2 ^ k * 16 \<and> 100 \<le> unat r \<and> unat r < 200)
   \<and> double_until 0 1 = None"
  using buffer_growth_terminates [of 16 100] buffer_growth_terminates [of 1 1] by simp

text \<open>When the allocator refuses the larger block, \<open>protobuf_c_buffer_simple_append\<close> returns
  normally with the buffer unchanged: the bytes are dropped, and its caller cannot tell.\<close>

theorem buffer_append_drops:
  assumes "sb_valid (b, h)" and "sb_alloced b < sb_len b + of_nat (length bs)"
    and "unat (sb_len b) + length bs < 2 ^ 32" and "\<And>sz. alloc_fails h (requests h) sz"
  shows "\<exists>h'. protobuf_c_buffer_simple_append bs (b, h) = Ok (b, h') \<and> live h' = live h"
proof -
  let ?n = "sb_len b + of_nat (length bs)"
  have n: "unat ?n = unat (sb_len b) + length bs"
    using assms(3) by (simp add: unat_word_ariths unat_of_nat)
  have a2: "unat (sb_alloced b * 2) = 2 * unat (sb_alloced b)" and pos: "0 < unat (sb_alloced b)"
    using assms(1) by (auto simp: sb_valid_def unat_word_ariths word_less_nat_alt)
  have "\<exists>r. double_until (sb_alloced b * 2) ?n = Some r"
    using double_until_least [of "sb_alloced b * 2" ?n] a2 pos n assms(3)
      double_until_ge [of "sb_alloced b * 2" ?n]
    by (cases "sb_alloced b * 2 < ?n") (auto simp: word_less_nat_alt)
  then show ?thesis using assms(2,4) by (auto simp: protobuf_c_buffer_simple_append_def Let_def do_alloc_def)
qed

definition small_buffer :: buffer_simple where
  "small_buffer = \<lparr>sb_alloced = 2, sb_len = 1, sb_data = [7, 0], sb_block = None, sb_must_free_data = False\<rparr>"

lemma buffer_append_drops_witness:
  "\<exists>h'. protobuf_c_buffer_simple_append [1, 2, 3]
      (small_buffer, \<lparr>alloc_fails = \<lambda>_ _. True, requests = 0, live = {}\<rparr>) = Ok (small_buffer, h') \<and> live h' = {}"
  using buffer_append_drops [of small_buffer "\<lparr>alloc_fails = \<lambda>_ _. True, requests = 0, live = {}\<rparr>" "[1, 2, 3]"]
  by (simp add: sb_valid_def small_buffer_def heap_ok_def)

end
