(* ===== verification/Pb_Types.thy ===== *)
theory Pb_Types
  imports Prelude
begin

text \<open>
  The data of \<^verbatim>\<open>protobuf-c/protobuf-c.h\<close>: descriptors, messages and the typed reads of a
  message member. A message is an association list from the offsets its descriptor names to the
  values stored there; a pointer the library compares with a field's default is marked as such,
  and every other block carries its number in the heap.
\<close>

section \<open>Descriptors\<close>

datatype ProtobufCLabel = LABEL_REQUIRED | LABEL_OPTIONAL | LABEL_REPEATED | LABEL_NONE

datatype ProtobufCType = TYPE_INT32 | TYPE_SINT32 | TYPE_SFIXED32 | TYPE_INT64 | TYPE_SINT64
  | TYPE_SFIXED64 | TYPE_UINT32 | TYPE_FIXED32 | TYPE_UINT64 | TYPE_FIXED64 | TYPE_FLOAT
  | TYPE_DOUBLE | TYPE_BOOL | TYPE_ENUM | TYPE_STRING | TYPE_BYTES | TYPE_MESSAGE

definition FLAG_PACKED :: u32 where "FLAG_PACKED = push_bit 0 1"
definition FLAG_DEPRECATED :: u32 where "FLAG_DEPRECATED = push_bit 1 1"
definition FLAG_ONEOF :: u32 where "FLAG_ONEOF = push_bit 2 1"

text \<open>The wire types; a tag read from the wire may hold another three bits.\<close>

definition WIRE_TYPE_VARINT :: nat where "WIRE_TYPE_VARINT = 0"
definition WIRE_TYPE_64BIT :: nat where "WIRE_TYPE_64BIT = 1"
definition WIRE_TYPE_LENGTH_PREFIXED :: nat where "WIRE_TYPE_LENGTH_PREFIXED = 2"
definition WIRE_TYPE_32BIT :: nat where "WIRE_TYPE_32BIT = 5"

lemmas wire_type_defs =
  WIRE_TYPE_VARINT_def WIRE_TYPE_64BIT_def WIRE_TYPE_LENGTH_PREFIXED_def WIRE_TYPE_32BIT_def

definition SERVICE_DESCRIPTOR_MAGIC :: u32 where "SERVICE_DESCRIPTOR_MAGIC = 0x14159bc3"
definition MESSAGE_DESCRIPTOR_MAGIC :: u32 where "MESSAGE_DESCRIPTOR_MAGIC = 0x28aaeef9"
definition ENUM_DESCRIPTOR_MAGIC :: u32 where "ENUM_DESCRIPTOR_MAGIC = 0x114315af"

text \<open>What \<open>default_value\<close> points to.\<close>

datatype default_value = Def32 u32 | Def64 u64 | DefStr bytes | DefBytes u64 bytes

record field_desc =
  fd_name :: bytes
  fd_id :: u32
  fd_label :: ProtobufCLabel
  fd_type :: ProtobufCType
  fd_quantifier_offset :: nat
  fd_offset :: nat
  fd_descriptor :: nat
  fd_default :: "default_value option"
  fd_flags :: u32

text \<open>\<open>start_value\<close> is an \<open>int\<close>.\<close>

record int_range =
  start_value :: u32
  orig_index :: u32

section \<open>Messages\<close>

text \<open>A string or data pointer: null, the field's default, or a block with its contents.\<close>

datatype ptr = Null | Dflt | Heap nat bytes

record unknown_field =
  uf_tag :: u32
  uf_wire_type :: nat
  uf_len :: u64
  uf_data :: ptr

text \<open>A member of a message: zeroed memory, a 32-bit or 64-bit word, a string, binary data (length
  and pointer), a message pointer, or an array (its block, its capacity and the elements stored).\<close>

datatype slot = Zero | V32 u32 | V64 u64 | VStr ptr | VBytes u64 ptr | VMsg "(nat \<times> message) option"
    | VArr "(nat \<times> nat \<times> slot list) option"
  and message = Message (descriptor: nat) (members: "(nat \<times> slot) list")
    (unknown_block: "(nat \<times> nat) option") (unknown_fields: "unknown_field list")

text \<open>A message descriptor. \<open>md_fields\<close>, \<open>fields_sorted_by_name\<close> and \<open>field_ranges\<close> carry their
  lengths; the ranges end in the dummy element. \<open>md_addr\<close> is the low half of the descriptor's own
  address, which a quantifier offset of zero reads. \<open>message_init\<close> is generated code, which copies
  a static initial value: here, the members it holds.\<close>

record message_desc =
  md_magic :: u32
  md_addr :: u32
  sizeof_message :: u64
  md_fields :: "field_desc list"
  fields_sorted_by_name :: "nat list option"
  n_field_ranges :: nat
  field_ranges :: "int_range list"
  message_init :: "(nat \<times> slot) list option"

type_synonym schema = "message_desc list"

section \<open>Typed reads\<close>

fun as32 :: "slot \<Rightarrow> u32 res" where
  "as32 (V32 w) = Ok w" | "as32 Zero = Ok 0" | "as32 _ = Fault"

fun as64 :: "slot \<Rightarrow> u64 res" where
  "as64 (V64 w) = Ok w" | "as64 Zero = Ok 0" | "as64 _ = Fault"

fun as_str :: "slot \<Rightarrow> ptr res" where
  "as_str (VStr p) = Ok p" | "as_str Zero = Ok Null" | "as_str _ = Fault"

fun as_bytes :: "slot \<Rightarrow> (u64 \<times> ptr) res" where
  "as_bytes (VBytes n p) = Ok (n, p)" | "as_bytes Zero = Ok (0, Null)" | "as_bytes _ = Fault"

fun as_msg :: "slot \<Rightarrow> (nat \<times> message) option res" where
  "as_msg (VMsg p) = Ok p" | "as_msg Zero = Ok None" | "as_msg _ = Fault"

fun as_arr :: "slot \<Rightarrow> (nat \<times> nat \<times> slot list) option res" where
  "as_arr (VArr p) = Ok p" | "as_arr Zero = Ok None" | "as_arr _ = Fault"

text \<open>\<open>STRUCT_MEMBER\<close>: the slot at an offset; an offset no member has is a fault.\<close>

definition STRUCT_MEMBER :: "message \<Rightarrow> nat \<Rightarrow> slot res" where
  "STRUCT_MEMBER m off = of_opt (map_of (members m) off)"

definition get_desc :: "schema \<Rightarrow> nat \<Rightarrow> message_desc res" where
  "get_desc S i = (if i < length S then Ok (S ! i) else Fault)"

text \<open>\<open>*(uint32_t *) qmember\<close>: a quantifier offset of zero is the start of the message, the
  descriptor pointer.\<close>

definition quantifier32 :: "message_desc \<Rightarrow> message \<Rightarrow> nat \<Rightarrow> u32 res" where
  "quantifier32 D m off = (if off = 0 then Ok (md_addr D) else bindR (STRUCT_MEMBER m off) as32)"

definition quantifier_size :: "message \<Rightarrow> nat \<Rightarrow> u64 res" where
  "quantifier_size m off = bindR (STRUCT_MEMBER m off) as64"

text \<open>The characters of a string, up to its terminating zero (a block without one is overrun), and
  the bytes behind a data pointer.\<close>

fun c_string :: "field_desc \<Rightarrow> ptr \<Rightarrow> bytes res" where
  "c_string f Null = Fault"
| "c_string f Dflt = (case fd_default f of Some (DefStr s) \<Rightarrow> Ok s | _ \<Rightarrow> Fault)"
| "c_string f (Heap _ s) = (if 0 \<in> set s then Ok (takeWhile (\<lambda>b. b \<noteq> 0) s) else Fault)"

fun c_data :: "field_desc \<Rightarrow> ptr \<Rightarrow> bytes res" where
  "c_data f Null = Ok []"
| "c_data f Dflt = (case fd_default f of Some (DefBytes _ bs) \<Rightarrow> Ok bs | _ \<Rightarrow> Fault)"
| "c_data f (Heap _ bs) = Ok bs"

text \<open>The first \<open>n\<close> bytes, as \<open>memcpy\<close> reads them.\<close>

definition c_prefix :: "u64 \<Rightarrow> bytes \<Rightarrow> bytes res" where
  "c_prefix n bs = (if unat n \<le> length bs then Ok (take (unat n) bs) else Fault)"

definition has_flag :: "field_desc \<Rightarrow> u32 \<Rightarrow> bool" where
  "has_flag f flag \<longleftrightarrow> fd_flags f AND flag \<noteq> 0"

text \<open>Elements of an array, as \<open>for (i = 0; i < count; i++) ... array[i]\<close> reads them: the index is
  an \<open>unsigned\<close>, so a count that it cannot reach never ends, and reading past the elements
  stored is a fault.\<close>

definition elements :: "u64 \<Rightarrow> (nat \<times> nat \<times> slot list) option \<Rightarrow> slot list res" where
  "elements count arr = (case arr of
     None \<Rightarrow> if count = 0 then Ok [] else Fault
   | Some (_, _, vs) \<Rightarrow>
       if length vs < unat count then Fault
       else if 2 ^ 32 \<le> unat count then Hang else Ok (take (unat count) vs))"

end
