(* ===== verification/Pb_Varint.thy ===== *)
theory Pb_Varint
  imports Pb_Mem
begin

text \<open>
  Scalars on the wire (\<^verbatim>\<open>protobuf-c/protobuf-c.c\<close>): the size functions, the zigzag maps and the
  packing functions for variable-length and fixed-width integers, against one reference, the
  base-128 digits of a number. \<open>size_t\<close> is a 64-bit word; the host is little endian.
\<close>

section \<open>Sizes\<close>

definition get_tag_size :: "u32 \<Rightarrow> u64" where
  "get_tag_size number =
     (if number < push_bit 4 1 then 1 else if number < push_bit 11 1 then 2
      else if number < push_bit 18 1 then 3 else if number < push_bit 25 1 then 4 else 5)"

definition uint32_size :: "u32 \<Rightarrow> u64" where
  "uint32_size v =
     (if v < push_bit 7 1 then 1 else if v < push_bit 14 1 then 2
      else if v < push_bit 21 1 then 3 else if v < push_bit 28 1 then 4 else 5)"

definition int32_size :: "u32 \<Rightarrow> u64" where
  "int32_size v =
     (if sint v < 0 then 10 else if sint v < 2 ^ 7 then 1 else if sint v < 2 ^ 14 then 2
      else if sint v < 2 ^ 21 then 3 else if sint v < 2 ^ 28 then 4 else 5)"

definition zigzag32 :: "u32 \<Rightarrow> u32" where
  "zigzag32 v = push_bit 1 v XOR - drop_bit 31 v"

definition sint32_size :: "u32 \<Rightarrow> u64" where
  "sint32_size v = uint32_size (zigzag32 v)"

definition uint64_size :: "u64 \<Rightarrow> u64" where
  "uint64_size v =
     (let upper_v = ucast (drop_bit 32 v) :: u32 in
      if upper_v = 0 then uint32_size (ucast v)
      else if upper_v < push_bit 3 1 then 5 else if upper_v < push_bit 10 1 then 6
      else if upper_v < push_bit 17 1 then 7 else if upper_v < push_bit 24 1 then 8
      else if upper_v < push_bit 31 1 then 9 else 10)"

definition zigzag64 :: "u64 \<Rightarrow> u64" where
  "zigzag64 v = push_bit 1 v XOR - drop_bit 63 v"

definition sint64_size :: "u64 \<Rightarrow> u64" where
  "sint64_size v = uint64_size (zigzag64 v)"

section \<open>Packing\<close>

text \<open>\<open>out[rv++] = b\<close>, then the rest.\<close>

definition emit :: "u8 \<Rightarrow> packer \<Rightarrow> packer" where
  "emit b k p m = bindR (put p b m) (\<lambda>m. bindR (k (p + 1) m) (\<lambda>(n, m). Ok (n + 1, m)))"

definition stop :: packer where
  "stop p m = Ok (0, m)"

definition uint32_pack :: "u32 \<Rightarrow> packer" where
  "uint32_pack value =
     (if 0x80 \<le> value then
        emit (ucast (value OR 0x80)) (let value = drop_bit 7 value in
        if 0x80 \<le> value then
          emit (ucast (value OR 0x80)) (let value = drop_bit 7 value in
          if 0x80 \<le> value then
            emit (ucast (value OR 0x80)) (let value = drop_bit 7 value in
            if 0x80 \<le> value then
              emit (ucast (value OR 0x80)) (let value = drop_bit 7 value in
              emit (ucast value) stop)
            else emit (ucast value) stop)
          else emit (ucast value) stop)
        else emit (ucast value) stop)
      else emit (ucast value) stop)"

definition int32_pack :: "u32 \<Rightarrow> packer" where
  "int32_pack value =
     (if sint value < 0 then
        emit (ucast (value OR 0x80)) (emit (ucast (drop_bit 7 value OR 0x80))
        (emit (ucast (drop_bit 14 value OR 0x80)) (emit (ucast (drop_bit 21 value OR 0x80))
        (emit (ucast (drop_bit 28 value OR 0xf0))
        (emit 0xff (emit 0xff (emit 0xff (emit 0xff (emit 1 stop)))))))))
      else uint32_pack value)"

definition sint32_pack :: "u32 \<Rightarrow> packer" where
  "sint32_pack value = uint32_pack (zigzag32 value)"

lemma unat_drop: "unat (drop_bit n w) = unat w div 2 ^ n"
  by (metis drop_bit_eq_div unat_drop_bit_eq)

text \<open>\<open>while (hi >= 128) out[rv++] = hi | 0x80, hi >>= 7;\<close> and the last byte.\<close>

function pack_high :: "u32 \<Rightarrow> packer" where
  "pack_high hi = (if 128 \<le> hi then emit (ucast (hi OR 0x80)) (pack_high (drop_bit 7 hi))
     else emit (ucast hi) stop)"
  by auto
termination
  by (relation "measure unat") (auto simp: word_le_nat_alt unat_drop)

declare pack_high.simps [simp del]

definition uint64_pack :: "u64 \<Rightarrow> packer" where
  "uint64_pack value =
     (let hi = ucast (drop_bit 32 value) :: u32; lo = ucast value :: u32 in
      if hi = 0 then uint32_pack lo
      else emit (ucast (lo OR 0x80)) (emit (ucast (drop_bit 7 lo OR 0x80))
        (emit (ucast (drop_bit 14 lo OR 0x80)) (emit (ucast (drop_bit 21 lo OR 0x80))
        (if hi < 8 then emit (ucast (push_bit 4 hi OR drop_bit 28 lo)) stop
         else emit (ucast (push_bit 4 (hi AND 7) OR drop_bit 28 lo OR 0x80))
           (pack_high (drop_bit 3 hi)))))))"

definition sint64_pack :: "u64 \<Rightarrow> packer" where
  "sint64_pack value = uint64_pack (zigzag64 value)"

text \<open>\<open>memcpy(out, &value, n)\<close> on a little-endian host.\<close>

definition le_bytes :: "nat \<Rightarrow> 'a::len word \<Rightarrow> bytes" where
  "le_bytes n v = map (\<lambda>i. ucast (drop_bit (8 * i) v)) [0..<n]"

definition fixed32_pack :: "u32 \<Rightarrow> packer" where
  "fixed32_pack value p m = bindR (write_bytes p (le_bytes 4 value) m) (\<lambda>m. Ok (4, m))"

definition fixed64_pack :: "u64 \<Rightarrow> packer" where
  "fixed64_pack value p m = bindR (write_bytes p (le_bytes 8 value) m) (\<lambda>m. Ok (8, m))"

definition boolean_pack :: "u32 \<Rightarrow> packer" where
  "boolean_pack value p m = bindR (put p (if value \<noteq> 0 then 1 else 0) m) (\<lambda>m. Ok (1, m))"

definition tag_pack :: "u32 \<Rightarrow> packer" where
  "tag_pack number =
     (if number < push_bit (32 - 3) 1 then uint32_pack (push_bit 3 number)
      else uint64_pack (push_bit 3 (ucast number)))"

section \<open>The reference encoding\<close>

text \<open>Base-128 digits, least significant first, all but the last with the top bit set.\<close>

fun varint :: "nat \<Rightarrow> bytes" where
  "varint n = (if n < 128 then [of_nat n] else of_nat (n mod 128 + 128) # varint (n div 128))"

declare varint.simps [simp del]

lemma varint_small: "n < 128 \<Longrightarrow> varint n = [of_nat n]"
  and varint_step: "128 \<le> n \<Longrightarrow> varint n = of_nat (n mod 128 + 128) # varint (n div 128)"
  by (simp_all add: varint.simps)

lemma varint_nonempty [simp]: "varint n \<noteq> []"
  by (cases "n < 128") (simp_all add: varint_small varint_step)

lemma length_varint_step: "length (varint n) = (if n < 128 then 1 else Suc (length (varint (n div 128))))"
  by (simp add: varint_small varint_step)

lemma varint_length_le: "n < 128 ^ Suc k \<Longrightarrow> length (varint n) \<le> Suc k"
proof (induction k arbitrary: n)
  case (Suc k)
  have "n div 128 < 128 ^ Suc k" using Suc.prems by (simp add: less_mult_imp_div_less)
  from Suc.IH [OF this] show ?case by (simp add: length_varint_step [of n])
qed (simp add: length_varint_step)

lemma varint_length_ge: "128 ^ k \<le> n \<Longrightarrow> Suc k \<le> length (varint n)"
proof (induction k arbitrary: n)
  case 0 then show ?case by (cases "varint n") auto
next
  case (Suc k)
  have "(128::nat) ^ k * 128 \<le> n" using Suc.prems by simp
  then have "128 ^ k \<le> n div 128" by (simp add: less_eq_div_iff_mult_less_eq)
  moreover have "128 \<le> n" using order_trans [OF _ Suc.prems, of 128] by simp
  ultimately show ?case using Suc.IH [of "n div 128"] by (simp add: length_varint_step [of n])
qed

text \<open>Length \<open>k + 1\<close> exactly when the number has that many digits.\<close>

lemma varint_length: "128 ^ k \<le> n \<Longrightarrow> n < 128 ^ Suc k \<Longrightarrow> length (varint n) = Suc k"
  by (rule antisym [OF varint_length_le varint_length_ge])

lemma varint_length_0: "n < 128 \<Longrightarrow> length (varint n) = 1"
  by (simp add: varint_small)

section \<open>The packing functions write the reference encoding\<close>

lemma bit_exp_nat: "bit (2 ^ k :: nat) n \<longleftrightarrow> n = k"
  by (auto simp: bit_exp_iff)

lemma take_bit_exp_and: "take_bit k n AND 2 ^ k = (0::nat)"
  by (rule bit_eqI) (simp add: bit_and_iff bit_take_bit_iff bit_exp_nat)

lemma bit_0x80: "bit (0x80 :: 'a::len word) n \<longleftrightarrow> n = 7 \<and> n < LENGTH('a)"
proof -
  have "bit (2 ^ 7 :: 'a word) n \<longleftrightarrow> n = 7 \<and> n < LENGTH('a)"
    unfolding bit_exp_iff possible_bit_word by auto
  then show ?thesis by simp
qed

lemma bit_128_nat: "bit (128 :: nat) n \<longleftrightarrow> n = 7"
  using bit_exp_nat [of 7 n] by simp

lemma bit_of_nat_word_iff: "bit (of_nat m :: 'a::len word) n \<longleftrightarrow> n < LENGTH('a) \<and> bit m n"
  by transfer (simp add: bit_take_bit_iff bit_of_nat_iff)

lemma len8: "LENGTH(8) = 8"
  by simp

lemma digit_byte: "(of_nat (n mod 128 + 128) :: u8) = of_nat n OR 0x80"
proof -
  have "take_bit 7 n + 2 ^ 7 = take_bit 7 n OR 2 ^ 7"
    by (rule disjunctive_add_eq_or) (rule take_bit_exp_and)
  then have a: "of_nat (n mod 128 + 128) = (of_nat (take_bit 7 n OR 2 ^ 7) :: u8)"
    by (simp add: take_bit_eq_mod)
  show ?thesis unfolding a
    by (rule bit_word_eqI)
      (simp only: bit_or_iff bit_0x80 bit_of_nat_word_iff bit_take_bit_iff bit_exp_nat len8, auto)
qed

lemma or_bit_7: "8 \<le> LENGTH('a) \<Longrightarrow> ucast (w OR 0x80 :: 'a::len word) = (ucast w OR 0x80 :: u8)"
  by (rule bit_word_eqI) (auto simp: bit_simps bit_0x80 dest: bit_imp_le_length)

lemma more_digit: "8 \<le> LENGTH('a) \<Longrightarrow> (ucast (w OR 0x80 :: 'a::len word) :: u8) = of_nat (unat w mod 128 + 128)"
  unfolding digit_byte by (simp add: or_bit_7)

lemma emits_emit: "emits f bs \<Longrightarrow> emits (emit b f) (b # bs)"
proof (rule emitsI)
  fix p m assume f: "emits f bs" and p: "p \<le> length (m :: bytes)"
  have e: "emit b f p m = bindR (write_bytes p [b] m) (\<lambda>m. bindR (f (p + 1) m) (\<lambda>(n, m). Ok (n + 1, m)))"
    by (simp add: emit_def put_write)
  show "emit b f p m = bindR (write_bytes p (b # bs) m) (\<lambda>m'. Ok (length (b # bs), m'))"
  proof (cases "write_bytes p [b] m")
    case (Ok m1)
    then have "p + 1 \<le> length m1" using write_length [OF Ok] by (auto simp: write_Ok_iff)
    then show ?thesis using Ok emitsD [OF f, of "p + 1" m1] write_append [of p "[b]" bs m]
      by (simp add: e bindR_assoc)
  qed (use write_append [of p "[b]" bs m] in \<open>simp_all add: e\<close>)
qed

lemma emits_stop: "emits stop []"
  by (simp add: emits_def write_nil stop_def)

lemma emits_cong: "emits f xs \<Longrightarrow> xs = ys \<Longrightarrow> emits f ys"
  by simp

text \<open>One step of each varint writer, and its last byte.\<close>

lemma emits_digit:
  assumes "8 \<le> LENGTH('a)" and "0x80 \<le> (w :: 'a::len word)" and "emits f (varint (unat (drop_bit 7 w)))"
  shows "emits (emit (ucast (w OR 0x80)) f) (varint (unat w))"
proof -
  have "unat (0x80 :: 'a word) = 128" using assms(1)
    using power_increasing [OF assms(1), of "2::nat"]
    by (simp add: unat_numeral take_bit_nat_eq_self)
  then have "128 \<le> unat w" using assms(2) by (simp add: word_le_nat_alt)
  then show ?thesis using emits_emit [OF assms(3)]
    by (simp add: more_digit [OF assms(1)] varint_step unat_drop)
qed

lemma emits_last:
  assumes "unat w < 128"
  shows "emits (emit (ucast w) stop) (varint (unat w))"
  using emits_emit [OF emits_stop] by (simp add: varint_small [OF assms])

lemma ge_0x80: "0x80 \<le> (w :: u32) \<longleftrightarrow> 128 \<le> unat w"
  by (simp add: word_le_nat_alt)

lemma emits_digits:
  fixes w :: u32
  assumes "0x80 \<le> w \<Longrightarrow> emits f (varint (unat (drop_bit 7 w)))"
  shows "emits (if 0x80 \<le> w then emit (ucast (w OR 0x80)) f else emit (ucast w) stop) (varint (unat w))"
  using assms emits_digit [of w f] emits_last [of w] by (simp add: ge_0x80)

lemma emits_uint32_pack: "emits (uint32_pack v) (varint (unat v))"
proof -
  have l: "unat (drop_bit 7 (drop_bit 7 (drop_bit 7 (drop_bit 7 v)))) < 128"
    using unsigned_less [of v, where ?'a = nat]
    by (simp add: unat_drop div_mult2_eq [symmetric] less_mult_imp_div_less)
  show ?thesis
    unfolding uint32_pack_def Let_def
    by (intro emits_digits emits_last l)
qed

lemma emits_pack_high: "emits (pack_high hi) (varint (unat hi))"
proof (induction hi rule: pack_high.induct)
  case (1 hi)
  show ?case by (subst pack_high.simps) (rule emits_digits, rule 1, assumption)
qed

lemma unat_ucast_mod: "unat (ucast (w :: 'a::len word) :: 'b::len word) = unat w mod 2 ^ LENGTH('b)"
  by transfer (simp add: take_bit_eq_mod nat_mod_distrib nat_power_eq)

lemma emits_digit64:
  fixes v :: u64
  assumes "b = ucast (drop_bit k v OR 0x80)" and "128 \<le> unat v div 2 ^ k"
    and "emits f (varint (unat v div 2 ^ (k + 7)))"
  shows "emits (emit b f) (varint (unat v div 2 ^ k))"
proof -
  have e: "unat (drop_bit 7 (drop_bit k v)) = unat v div 2 ^ (k + 7)"
    by (simp add: unat_drop div_mult2_eq [symmetric] power_add mult.commute)
  have "0x80 \<le> drop_bit k v" using assms(2) by (simp add: word_le_nat_alt unat_drop)
  then have "emits (emit (ucast (drop_bit k v OR 0x80)) f) (varint (unat (drop_bit k v)))"
    using emits_digit [of "drop_bit k v" f] assms(3) e by simp
  then show ?thesis by (simp add: assms(1) unat_drop)
qed

lemma emits_last64:
  fixes v :: u64
  assumes "b = ucast (drop_bit k v)" and "unat v div 2 ^ k < 128"
  shows "emits (emit b stop) (varint (unat v div 2 ^ k))"
  using emits_last [of "drop_bit k v"] assms by (simp add: unat_drop)

lemma div_ge: "2 ^ (k + j) \<le> (n::nat) \<Longrightarrow> 2 ^ j \<le> n div 2 ^ k"
  by (simp add: less_eq_div_iff_mult_less_eq power_add mult.commute)

text \<open>The bits of the masks, as the simplifier normalises them.\<close>

lemma bit_masks:
  "bit (7 :: int) n \<longleftrightarrow> n < 3" "bit (128 :: int) n \<longleftrightarrow> n = 7"
  "bit (112 :: int) n \<longleftrightarrow> 4 \<le> n \<and> n < 7" "bit (240 :: int) n \<longleftrightarrow> 4 \<le> n \<and> n < 8"
  "bit (255 :: int) n \<longleftrightarrow> n < 8"
proof -
  have m: "(7 :: int) = mask 3" "(128 :: int) = push_bit 7 1" "(112 :: int) = push_bit 4 (mask 3)"
    "(240 :: int) = push_bit 4 (mask 4)" "(255 :: int) = mask 8"
    by (simp_all add: mask_eq_exp_minus_1 push_bit_eq_mult)
  show "bit (7 :: int) n \<longleftrightarrow> n < 3" "bit (128 :: int) n \<longleftrightarrow> n = 7"
    "bit (112 :: int) n \<longleftrightarrow> 4 \<le> n \<and> n < 7" "bit (240 :: int) n \<longleftrightarrow> 4 \<le> n \<and> n < 8"
    "bit (255 :: int) n \<longleftrightarrow> n < 8"
    unfolding m by (auto simp only: bit_push_bit_iff bit_mask_iff bit_1_iff possible_bit_def) auto
qed

lemma emits_uint64_pack: "emits (uint64_pack v) (varint (unat v))"
proof -
  define hi where "hi = (ucast (drop_bit 32 v) :: u32)"
  define lo where "lo = (ucast v :: u32)"
  have lt: "unat v < 2 ^ 64" using unsigned_less [of v, where ?'a = nat] by simp
  have hi: "unat hi = unat v div 2 ^ 32"
    using lt by (simp add: hi_def unat_ucast_mod unat_drop less_mult_imp_div_less)
  show ?thesis
  proof (cases "hi = 0")
    case True
    then have "unat v < 2 ^ 32" using hi by (simp add: div_eq_0_iff)
    then have "unat lo = unat v" by (simp add: lo_def unat_ucast_mod)
    then show ?thesis using True emits_uint32_pack [of lo]
      by (simp add: uint64_pack_def hi_def [symmetric] lo_def [symmetric] Let_def)
  next
    case False
    then have "1 \<le> unat hi" by (simp add: unat_eq_0 Suc_le_eq unat_gt_0)
    then have big: "2 ^ 32 \<le> unat v" unfolding hi by (simp add: div_greater_zero_iff Suc_le_eq)
    have b: "128 \<le> unat v div 2 ^ 0" "128 \<le> unat v div 2 ^ 7" "128 \<le> unat v div 2 ^ 14" "128 \<le> unat v div 2 ^ 21"
      using big div_ge [of _ 7 "unat v"] by auto
    have d: "ucast (lo OR 0x80) = (ucast (drop_bit 0 v OR 0x80) :: u8)"
      "ucast (drop_bit 7 lo OR 0x80) = (ucast (drop_bit 7 v OR 0x80) :: u8)"
      "ucast (drop_bit 14 lo OR 0x80) = (ucast (drop_bit 14 v OR 0x80) :: u8)"
      "ucast (drop_bit 21 lo OR 0x80) = (ucast (drop_bit 21 v OR 0x80) :: u8)"
      "ucast (push_bit 4 hi OR drop_bit 28 lo) = (ucast (drop_bit 28 v) :: u8)"
      unfolding lo_def hi_def
      by (rule bit_word_eqI; auto simp: bit_simps bit_masks; fail)+
    have d6: "ucast (push_bit 4 (hi AND 7) OR drop_bit 28 lo OR 0x80) = (ucast (drop_bit 28 v OR 0x80) :: u8)"
      unfolding lo_def hi_def
      by (rule bit_word_eqI) (auto simp: bit_simps bit_masks)
    have t: "emits (if hi < 8 then emit (ucast (push_bit 4 hi OR drop_bit 28 lo)) stop
         else emit (ucast (push_bit 4 (hi AND 7) OR drop_bit 28 lo OR 0x80)) (pack_high (drop_bit 3 hi)))
         (varint (unat v div 2 ^ 28))"
    proof (cases "hi < 8")
      case True
      then have "unat v div 2 ^ 32 < 8" using hi by (simp add: word_less_nat_alt)
      then have "unat v div 2 ^ 28 < 128" by (simp add: div_less_iff_less_mult)
      then show ?thesis using True emits_last64 [OF d(5)] by simp
    next
      case False
      then have "8 \<le> unat v div 2 ^ 32" using hi by (simp add: word_less_nat_alt)
      then have "128 \<le> unat v div 2 ^ 28" by (simp add: less_eq_div_iff_mult_less_eq)
      moreover have "unat (drop_bit 3 hi) = unat v div 2 ^ (28 + 7)"
        by (simp add: unat_drop hi div_mult2_eq [symmetric])
      ultimately show ?thesis
        using False emits_digit64 [OF d6] emits_pack_high [of "drop_bit 3 hi"] by simp
    qed
    have "emits (uint64_pack v) (varint (unat v div 2 ^ 0))"
      unfolding uint64_pack_def Let_def hi_def [symmetric] lo_def [symmetric]
      using False t emits_digit64 [OF d(1) b(1)] emits_digit64 [OF d(2) b(2)]
        emits_digit64 [OF d(3) b(3)] emits_digit64 [OF d(4) b(4)] by simp
    then show ?thesis by simp
  qed
qed

text \<open>Sign extension to 64 bits, by the sign.\<close>

lemma bit_sext: "bit (scast (v :: u32) :: u64) n \<longleftrightarrow> n < 64 \<and> bit v (min n 31)"
  by (auto simp: bit_simps min_def)

lemma sext_negative:
  assumes "sint (v :: u32) < 0"
  shows "2 ^ 63 \<le> unat (scast v :: u64)"
proof -
  have "bit (scast v :: u64) 63" using assms bit_last_iff [of v] by (simp add: bit_sext)
  then have "bit (unat (scast v :: u64)) 63" by (simp add: bit_unsigned_iff)
  then have "unat (scast v :: u64) div 2 ^ 63 \<noteq> 0" by (metis bit_iff_odd even_zero)
  then show ?thesis by (simp add: div_eq_0_iff not_less)
qed

lemma sext_nonneg:
  assumes "\<not> sint (v :: u32) < 0"
  shows "unat (scast v :: u64) = unat v"
proof -
  have s: "\<not> bit v 31" using assms bit_last_iff [of v] by simp
  have "(scast v :: u64) = ucast v"
  proof (intro bit_word_eqI)
    fix n assume n: "n < LENGTH(64)"
    show "bit (scast v :: u64) n = bit (ucast v :: u64) n"
    proof (cases "n < 31")
      case False
      then have "\<not> bit v n" using s bit_imp_le_length [of v n] by (cases "n = 31") auto
      then show ?thesis using False n s by (simp add: bit_simps min_def)
    qed (use n in \<open>simp add: bit_simps min_def\<close>)
  qed
  then show ?thesis using unsigned_less [of v, where ?'a = nat] by (simp add: unat_ucast_mod)
qed

lemma emits_int32_pack: "emits (int32_pack v) (varint (unat (scast v :: u64)))"
proof (cases "sint v < 0")
  case True
  define w where "w = (scast v :: u64)"
  have s: "bit v 31" using True bit_last_iff [of v] by simp
  note bw = bit_sext [of v, folded w_def]
  have big: "2 ^ 63 \<le> unat w" using sext_negative [OF True] by (simp add: w_def)
  then have b: "128 \<le> unat w div 2 ^ 0" "128 \<le> unat w div 2 ^ 7" "128 \<le> unat w div 2 ^ 14"
    "128 \<le> unat w div 2 ^ 21" "128 \<le> unat w div 2 ^ 28" "128 \<le> unat w div 2 ^ 35"
    "128 \<le> unat w div 2 ^ 42" "128 \<le> unat w div 2 ^ 49" "128 \<le> unat w div 2 ^ 56"
    using div_ge [of _ 7 "unat w"] by auto
  have l: "unat w div 2 ^ 63 < 128" using unsigned_less [of w, where ?'a = nat]
    by (simp add: div_less_iff_less_mult)
  have d: "ucast (v OR 0x80) = (ucast (drop_bit 0 w OR 0x80) :: u8)"
    "ucast (drop_bit 7 v OR 0x80) = (ucast (drop_bit 7 w OR 0x80) :: u8)"
    "ucast (drop_bit 14 v OR 0x80) = (ucast (drop_bit 14 w OR 0x80) :: u8)"
    "ucast (drop_bit 21 v OR 0x80) = (ucast (drop_bit 21 w OR 0x80) :: u8)"
    "ucast (drop_bit 28 v OR 0xf0) = (ucast (drop_bit 28 w OR 0x80) :: u8)"
    "0xff = (ucast (drop_bit 35 w OR 0x80) :: u8)" "0xff = (ucast (drop_bit 42 w OR 0x80) :: u8)"
    "0xff = (ucast (drop_bit 49 w OR 0x80) :: u8)" "0xff = (ucast (drop_bit 56 w OR 0x80) :: u8)"
    "1 = (ucast (drop_bit 63 w) :: u8)"
    using s by (rule_tac bit_word_eqI; auto simp: bit_simps bit_masks bw min_def; fail)+
  have "emits (int32_pack v) (varint (unat w div 2 ^ 0))"
    using True emits_digit64 [OF d(1) b(1)] emits_digit64 [OF d(2) b(2)] emits_digit64 [OF d(3) b(3)]
      emits_digit64 [OF d(4) b(4)] emits_digit64 [OF d(5) b(5)] emits_digit64 [OF d(6) b(6)]
      emits_digit64 [OF d(7) b(7)] emits_digit64 [OF d(8) b(8)] emits_digit64 [OF d(9) b(9)]
      emits_last64 [OF d(10) l]
    by (simp add: int32_pack_def)
  then show ?thesis by (simp add: w_def)
next
  case False
  then show ?thesis using emits_uint32_pack [of v] sext_nonneg [OF False] by (simp add: int32_pack_def)
qed

section \<open>The size functions count the bytes of the reference encoding\<close>

text \<open>The number of digits by thresholds.\<close>

lemma length_varint_cases:
  "n < 2 ^ 64 \<Longrightarrow> length (varint n) =
    (if n < 2 ^ 7 then 1 else if n < 2 ^ 14 then 2 else if n < 2 ^ 21 then 3 else if n < 2 ^ 28 then 4
     else if n < 2 ^ 35 then 5 else if n < 2 ^ 42 then 6 else if n < 2 ^ 49 then 7
     else if n < 2 ^ 56 then 8 else if n < 2 ^ 63 then 9 else 10)"
proof -
  assume "n < 2 ^ 64"
  then consider "n < 2 ^ 7" | "2 ^ 7 \<le> n" "n < 2 ^ 14"
    | "2 ^ 14 \<le> n" "n < 2 ^ 21"
    | "2 ^ 21 \<le> n" "n < 2 ^ 28"
    | "2 ^ 28 \<le> n" "n < 2 ^ 35"
    | "2 ^ 35 \<le> n" "n < 2 ^ 42"
    | "2 ^ 42 \<le> n" "n < 2 ^ 49"
    | "2 ^ 49 \<le> n" "n < 2 ^ 56"
    | "2 ^ 56 \<le> n" "n < 2 ^ 63"
    | "2 ^ 63 \<le> n" "n < 2 ^ 64"
    by linarith
  then show ?thesis
    by cases (use varint_length_0 [of n] varint_length [of 1 n] varint_length [of 2 n]
      varint_length [of 3 n] varint_length [of 4 n] varint_length [of 5 n] varint_length [of 6 n]
      varint_length [of 7 n] varint_length [of 8 n] varint_length [of 9 n] in simp_all)
qed

lemma uint32_size_varint: "uint32_size v = of_nat (length (varint (unat v)))"
proof -
  have "unat v < 2 ^ 32" using unsigned_less [of v, where ?'a = nat] by simp
  then show ?thesis by (simp add: uint32_size_def length_varint_cases word_less_nat_alt)
qed

lemma uint64_size_varint: "uint64_size v = of_nat (length (varint (unat v)))"
proof -
  define hi where "hi = (ucast (drop_bit 32 v) :: u32)"
  have lt: "unat v < 2 ^ 64" using unsigned_less [of v, where ?'a = nat] by simp
  have hi: "unat hi = unat v div 2 ^ 32"
    using lt by (simp add: hi_def unat_ucast_mod unat_drop less_mult_imp_div_less)
  show ?thesis
  proof (cases "hi = 0")
    case True
    then have "unat v < 2 ^ 32" using hi by (simp add: div_eq_0_iff)
    then have "unat (ucast v :: u32) = unat v" by (simp add: unat_ucast_mod)
    then show ?thesis using True by (simp add: uint64_size_def hi_def [symmetric] uint32_size_varint)
  next
    case False
    then have "2 ^ 32 \<le> unat v" using hi by (metis div_less not_less unat_eq_0)
    then show ?thesis using False lt
      by (simp add: uint64_size_def hi_def [symmetric] length_varint_cases word_less_nat_alt hi
          div_less_iff_less_mult Let_def)
  qed
qed

lemma int32_size_varint: "int32_size v = of_nat (length (varint (unat (scast v :: u64))))"
proof (cases "sint v < 0")
  case True
  then show ?thesis
    using sext_negative [OF True] unsigned_less [of "scast v :: u64", where ?'a = nat]
    by (simp add: int32_size_def length_varint_cases)
next
  case False
  define n where "n = unat v"
  have s: "sint v = int n" using False uint_sint [of v] sint_less [of v]
    by (simp add: take_bit_int_eq_self n_def)
  have l: "n < 2 ^ 32" using unsigned_less [of v, where ?'a = nat] by (simp add: n_def)
  have "unat (scast v :: u64) = n" using sext_nonneg [OF False] by (simp add: n_def)
  then show ?thesis using l by (simp add: int32_size_def s length_varint_cases)
qed

lemma get_tag_size_varint: 
  assumes "wt < 8"
  shows "get_tag_size i = of_nat (length (varint (unat i * 8 + wt)))"
proof -
  have "unat i < 2 ^ 32" using unsigned_less [of i, where ?'a = nat] by simp
  then show ?thesis using assms
    by (simp add: get_tag_size_def length_varint_cases word_less_nat_alt)
qed

lemma unat_tag: "unat (push_bit 3 (ucast i :: u64)) = unat (i :: u32) * 8"
proof -
  have "unat i < 2 ^ 32" using unsigned_less [of i, where ?'a = nat] by simp
  then show ?thesis by (simp add: push_bit_eq_mult unat_word_ariths unat_ucast_mod)
qed

lemma emits_tag_pack: "emits (tag_pack i) (varint (unat i * 8))"
proof (cases "i < push_bit (32 - 3) 1")
  case True
  then have "unat i < 2 ^ 29" by (simp add: word_less_nat_alt)
  then have "unat (push_bit 3 i) = unat i * 8" by (simp add: push_bit_eq_mult unat_word_ariths)
  then show ?thesis using True emits_uint32_pack [of "push_bit 3 i"] by (simp add: tag_pack_def)
next
  case False
  then show ?thesis using emits_uint64_pack [of "push_bit 3 (ucast i)"] by (simp add: tag_pack_def unat_tag)
qed

section \<open>Zigzag\<close>

definition zigzag :: "int \<Rightarrow> nat" where
  "zigzag i = nat (if 0 \<le> i then 2 * i else - 2 * i - 1)"

lemma neg_mod: "- M \<le> x \<Longrightarrow> x < 0 \<Longrightarrow> x mod M = x + M" for x :: int
  using mod_pos_pos_trivial [of "x + M" M] by simp

lemma zigzag32_sint: "unat (zigzag32 v) = zigzag (sint v)"
proof (cases "sint v < 0")
  case False
  have u: "uint v = sint v" using False uint_sint [of v] sint_less [of v]
    by (simp add: take_bit_int_eq_self)
  then have l: "uint v < 2 ^ 31" using sint_less [of v] by simp
  then have "int (unat v) < int (2 ^ 31)" by simp
  then have "unat v < 2 ^ 31" by (simp only: of_nat_less_iff)
  then have "drop_bit 31 v = 0" by (simp add: word_unat_eq_iff unat_drop)
  then have "uint (zigzag32 v) = 2 * uint v" using l
    by (simp add: zigzag32_def push_bit_eq_mult uint_word_ariths)
  then have "nat (uint (zigzag32 v)) = zigzag (sint v)" using False u by (simp only: zigzag_def) simp
  then show ?thesis by simp
next
  case True
  have u: "uint v = sint v + 2 ^ 32"
    using True sint_greater_eq [of v] by (simp add: uint_sint [of v] take_bit_eq_mod neg_mod)
  then have r: "2 ^ 31 \<le> uint v" "uint v < 2 ^ 32" using sint_greater_eq [of v] True by simp_all
  then have "int (2 ^ 31) \<le> int (unat v)" "int (unat v) < int (2 ^ 32)" by simp_all
  then have "2 ^ 31 \<le> unat v" "unat v < 2 ^ 32" by (simp_all only: of_nat_less_iff of_nat_le_iff)
  then have "unat v div 2 ^ 31 = 1" by (intro div_nat_eqI) simp_all
  then have "drop_bit 31 v = 1" by (simp add: word_unat_eq_iff unat_drop)
  then have "zigzag32 v = NOT (push_bit 1 v)" by (simp add: zigzag32_def)
  then have "uint (zigzag32 v) = (- (2 * uint v) - 1) mod 2 ^ 32"
    by (simp add: unsigned_not_eq take_bit_eq_mod not_eq_complement push_bit_eq_mult uint_word_ariths
        mod_simps mult.commute)
  also have "- (2 * uint v) - 1 = (- 2 * sint v - 1) + (- 2) * 2 ^ 32" using u by simp
  also have "\<dots> mod 2 ^ 32 = - 2 * sint v - 1"
    using True sint_greater_eq [of v] by (simp only: mod_mult_self1) simp
  finally have "nat (uint (zigzag32 v)) = zigzag (sint v)" using True by (simp only: zigzag_def) simp
  then show ?thesis by simp
qed

lemma zigzag64_sint: "unat (zigzag64 v) = zigzag (sint v)"
proof (cases "sint v < 0")
  case False
  have u: "uint v = sint v" using False uint_sint [of v] sint_less [of v]
    by (simp add: take_bit_int_eq_self)
  then have l: "uint v < 2 ^ 63" using sint_less [of v] by simp
  then have "int (unat v) < int (2 ^ 63)" by simp
  then have "unat v < 2 ^ 63" by (simp only: of_nat_less_iff)
  then have "drop_bit 63 v = 0" by (simp add: word_unat_eq_iff unat_drop)
  then have "uint (zigzag64 v) = 2 * uint v" using l
    by (simp add: zigzag64_def push_bit_eq_mult uint_word_ariths)
  then have "nat (uint (zigzag64 v)) = zigzag (sint v)" using False u by (simp only: zigzag_def) simp
  then show ?thesis by simp
next
  case True
  have u: "uint v = sint v + 2 ^ 64"
    using True sint_greater_eq [of v] by (simp add: uint_sint [of v] take_bit_eq_mod neg_mod)
  then have r: "2 ^ 63 \<le> uint v" "uint v < 2 ^ 64" using sint_greater_eq [of v] True by simp_all
  then have "int (2 ^ 63) \<le> int (unat v)" "int (unat v) < int (2 ^ 64)" by simp_all
  then have "2 ^ 63 \<le> unat v" "unat v < 2 ^ 64" by (simp_all only: of_nat_less_iff of_nat_le_iff)
  then have "unat v div 2 ^ 63 = 1" by (intro div_nat_eqI) simp_all
  then have "drop_bit 63 v = 1" by (simp add: word_unat_eq_iff unat_drop)
  then have "zigzag64 v = NOT (push_bit 1 v)" by (simp add: zigzag64_def)
  then have "uint (zigzag64 v) = (- (2 * uint v) - 1) mod 2 ^ 64"
    by (simp add: unsigned_not_eq take_bit_eq_mod not_eq_complement push_bit_eq_mult uint_word_ariths
        mod_simps mult.commute)
  also have "- (2 * uint v) - 1 = (- 2 * sint v - 1) + (- 2) * 2 ^ 64" using u by simp
  also have "\<dots> mod 2 ^ 64 = - 2 * sint v - 1"
    using True sint_greater_eq [of v] by (simp only: mod_mult_self1) simp
  finally have "nat (uint (zigzag64 v)) = zigzag (sint v)" using True by (simp only: zigzag_def) simp
  then show ?thesis by simp
qed

lemma of_nat_or_word: "(of_nat (a OR b) :: 'a::len word) = of_nat a OR of_nat b"
  by (rule bit_word_eqI) (auto simp: bit_simps bit_of_nat_word_iff)

lemma add_wire_type: "wt < 8 \<Longrightarrow> 8 * i + wt = 8 * i OR (wt::nat)"
proof -
  assume wt: "wt < 8"
  have "8 * i = push_bit 3 i" by (simp add: push_bit_eq_mult)
  moreover have "wt = take_bit 3 wt" using wt by (simp add: take_bit_nat_eq_self)
  moreover have "push_bit 3 i AND take_bit 3 wt = 0"
    by (rule bit_eqI) (auto simp: bit_simps)
  ultimately show ?thesis by (metis disjunctive_add_eq_or)
qed

lemma varint_wire_type:
  assumes "wt < 8"
  shows "(hd (varint (8 * i)) OR of_nat wt) # tl (varint (8 * i)) = varint (8 * i + wt)"
proof (cases "8 * i < 128")
  case True
  then have "8 * i + wt < 128" using assms by presburger
  moreover have "(of_nat (8 * i) OR of_nat wt :: u8) = of_nat (8 * i + wt)"
    by (simp only: add_wire_type [OF assms] of_nat_or_word)
  ultimately show ?thesis using True by (simp only: varint_small list.sel)
next
  case False
  define q r where "q = i div 16" and "r = i mod 16"
  have i: "8 * i = 128 * q + 8 * r" using mult_div_mod_eq [of 16 i] unfolding q_def r_def by linarith
  have r: "8 * r + wt < 128" using assms mod_less_divisor [of 16 i] unfolding r_def by linarith
  have m: "(8 * i + wt) mod 128 = 8 * i mod 128 + wt" "(8 * i + wt) div 128 = 8 * i div 128"
    using r unfolding i by (simp_all add: add.assoc)
  have e: "8 * i mod 128 + 128 = 8 * (i mod 16 + 16)" using mult_mod_right [of 8 i 16] by simp
  have e': "(8 * i + wt) mod 128 + 128 = 8 * (i mod 16 + 16) + wt" using m(1) e by simp
  have "of_nat (8 * i mod 128 + 128) OR of_nat wt = (of_nat ((8 * i + wt) mod 128 + 128) :: u8)"
    unfolding e e' by (simp only: add_wire_type [OF assms] of_nat_or_word)
  then show ?thesis using False m(2) by (simp add: varint_step del: of_nat_add of_nat_mult)
qed

text \<open>A tag: the field number and the wire type in one varint.\<close>

definition tag_bytes :: "u32 \<Rightarrow> nat \<Rightarrow> bytes" where
  "tag_bytes number wt = varint (unat number * 8 + wt)"

lemma tag_bytes_nonempty [simp]: "tag_bytes i wt \<noteq> []"
  by (simp add: tag_bytes_def)

lemma emits_tag:
  assumes "wt < 8"
  shows "emits (\<lambda>p m. bindR (tag_pack i p m) (\<lambda>(n, m). bindR (or_byte p (of_nat wt) m) (\<lambda>m. Ok (n, m))))
    (tag_bytes i wt)"
proof (rule emitsI)
  fix p m assume p: "p \<le> length (m :: bytes)"
  let ?t = "varint (8 * unat i)"
  have t: "tag_pack i p m = bindR (write_bytes p ?t m) (\<lambda>m'. Ok (length ?t, m'))"
    using emitsD [OF emits_tag_pack p] by (simp add: mult.commute)
  have o: "bindR (write_bytes p ?t m) (or_byte p (of_nat wt)) = write_bytes p (tag_bytes i wt) m"
    using or_byte_write [of ?t p m "of_nat wt"] varint_wire_type [OF assms, of "unat i"]
    by (simp add: tag_bytes_def mult.commute)
  have l: "length (tag_bytes i wt) = length ?t"
    unfolding tag_bytes_def mult.commute [of "unat i"] varint_wire_type [OF assms, symmetric]
    by (cases ?t) auto
  show "bindR (tag_pack i p m) (\<lambda>(n, m). bindR (or_byte p (of_nat wt) m) (\<lambda>m. Ok (n, m)))
    = bindR (write_bytes p (tag_bytes i wt) m) (\<lambda>m'. Ok (length (tag_bytes i wt), m'))"
    unfolding o [symmetric] l by (simp add: t bindR_assoc)
qed

lemma length_le_bytes [byte_simps]: "length (le_bytes n v) = n"
  by (simp add: le_bytes_def)

section \<open>Codecs\<close>

text \<open>\<open>for (...) payload_at += pack(arr[i], payload_at)\<close>\<close>

fun pack_all :: "('v \<Rightarrow> packer) \<Rightarrow> 'v list \<Rightarrow> packer" where
  "pack_all f [] p m = Ok (0, m)"
| "pack_all f (v # vs) p m = bindR (f v p m) (\<lambda>(n, m). bindR (pack_all f vs (p + n) m) (\<lambda>(k, m). Ok (n + k, m)))"

lemma pack_all_Cons: "pack_all f (v # vs) = andthen (f v) (pack_all f vs)"
  by (simp add: andthen_def fun_eq_iff)

lemma emits_pack_all:
  "(\<And>v. v \<in> set vs \<Longrightarrow> emits (f v) (enc v)) \<Longrightarrow> emits (pack_all f vs) (concat (map enc vs))"
proof (induction vs)
  case Nil then show ?case by (simp add: emits_def write_nil)
next
  case (Cons v vs)
  then show ?case unfolding pack_all_Cons by (simp add: emits_then)
qed

text \<open>The contract of a scalar on the wire: a packing routine and a size function that agree with
  one encoding.\<close>

locale scalar_codec =
  fixes size_of :: "'v \<Rightarrow> u64" and pack :: "'v \<Rightarrow> packer" and enc :: "'v \<Rightarrow> bytes"
  assumes pack_emits: "emits (pack v) (enc v)"
    and size_enc: "size_of v = of_nat (length (enc v))"
    and enc_length: "1 \<le> length (enc v) \<and> length (enc v) \<le> 10"
begin

lemma unat_size: "unat (size_of v) = length (enc v)"
  using enc_length [of v] by (simp add: size_enc unat_of_nat)

lemma pack_fits: "p + unat (size_of v) \<le> length m
    \<Longrightarrow> pack v p m = Ok (unat (size_of v), take p m @ enc v @ drop (p + unat (size_of v)) m)"
  using emits_fits [OF pack_emits] by (simp add: unat_size)

lemma array_emits: "emits (pack_all pack vs) (concat (map enc vs))"
  by (rule emits_pack_all) (rule pack_emits)

lemma array_size: "(\<Sum>v\<leftarrow>vs. size_of v) = of_nat (length (concat (map enc vs)))"
  by (induction vs) (simp_all add: size_enc)

lemma array_length: "length vs \<le> length (concat (map enc vs))" "length (concat (map enc vs)) \<le> 10 * length vs"
proof (induction vs)
  case (Cons v vs)
  { case 1 show ?case using Cons enc_length [of v] by simp }
  { case 2 show ?case using Cons enc_length [of v] by simp }
qed simp_all

end

lemma varint_length_64: "1 \<le> length (varint (unat (w :: u64))) \<and> length (varint (unat w)) \<le> 10"
  using unsigned_less [of w, where ?'a = nat] by (simp add: length_varint_cases)

lemma varint_length_32: "1 \<le> length (varint (unat (w :: u32))) \<and> length (varint (unat w)) \<le> 10"
  using unsigned_less [of w, where ?'a = nat] by (simp add: length_varint_cases)

interpretation uint32: scalar_codec uint32_size uint32_pack "\<lambda>v. varint (unat v)"
  by unfold_locales (simp_all only: emits_uint32_pack uint32_size_varint varint_length_32)

interpretation int32: scalar_codec int32_size int32_pack "\<lambda>v. varint (unat (scast v :: u64))"
  by unfold_locales (simp_all only: emits_int32_pack int32_size_varint varint_length_64)

interpretation uint64: scalar_codec uint64_size uint64_pack "\<lambda>v. varint (unat v)"
  by unfold_locales (simp_all only: emits_uint64_pack uint64_size_varint varint_length_64)

interpretation sint32: scalar_codec sint32_size sint32_pack "\<lambda>v. varint (zigzag (sint v))"
  by unfold_locales
    (simp_all only: sint32_pack_def sint32_size_def zigzag32_sint [symmetric] emits_uint32_pack
      uint32_size_varint varint_length_32)

interpretation sint64: scalar_codec sint64_size sint64_pack "\<lambda>v. varint (zigzag (sint v))"
  by unfold_locales
    (simp_all only: sint64_pack_def sint64_size_def zigzag64_sint [symmetric] emits_uint64_pack
      uint64_size_varint varint_length_64)

interpretation fixed32: scalar_codec "\<lambda>_. 4" fixed32_pack "\<lambda>v. le_bytes 4 v"
  by unfold_locales (simp_all add: fixed32_pack_def emits_def byte_simps)

interpretation fixed64: scalar_codec "\<lambda>_. 8" fixed64_pack "\<lambda>v. le_bytes 8 v"
  by unfold_locales (simp_all add: fixed64_pack_def emits_def byte_simps)

interpretation boolean: scalar_codec "\<lambda>_. 1" boolean_pack "\<lambda>v. [if v \<noteq> 0 then 1 else 0]"
  by unfold_locales (simp_all add: boolean_pack_def emits_def put_write)

section \<open>Properties\<close>

text \<open>C28: Every integer packing routine writes, at its output pointer, exactly the base-128 digits of the
  number (sign-extended to 64 bits for \<open>int32\<close>, zigzag for \<open>sint32\<close> and \<open>sint64\<close>; the field number
  times eight for a tag) and nothing else, faults when they do not fit, and the corresponding size
  function is the number of bytes written. A tag with its wire type has the size
  \<open>get_tag_size\<close> gives.\<close>

theorem integer_packing:
  "emits (uint32_pack v) (varint (unat v)) \<and> uint32_size v = of_nat (length (varint (unat v)))
   \<and> emits (int32_pack v) (varint (unat (scast v :: u64)))
   \<and> int32_size v = of_nat (length (varint (unat (scast v :: u64))))
   \<and> emits (sint32_pack v) (varint (zigzag (sint v)))
   \<and> sint32_size v = of_nat (length (varint (zigzag (sint v))))
   \<and> emits (uint64_pack w) (varint (unat w)) \<and> uint64_size w = of_nat (length (varint (unat w)))
   \<and> emits (sint64_pack w) (varint (zigzag (sint w)))
   \<and> sint64_size w = of_nat (length (varint (zigzag (sint w))))
   \<and> emits (tag_pack v) (tag_bytes v 0) \<and> get_tag_size v = of_nat (length (tag_bytes v 5))"
proof (intro conjI)
  show "emits (tag_pack v) (tag_bytes v 0)" using emits_tag_pack by (simp add: tag_bytes_def)
  show "get_tag_size v = of_nat (length (tag_bytes v 5))"
    using get_tag_size_varint [of 5 v] by (simp add: tag_bytes_def)
qed (rule uint32.pack_emits uint32.size_enc int32.pack_emits int32.size_enc sint32.pack_emits
    sint32.size_enc uint64.pack_emits uint64.size_enc sint64.pack_emits sint64.size_enc)+

end
