(* ===== verification/Pb_Wire.thy ===== *)
theory Pb_Wire
  imports Pb_Types Pb_Varint
begin

text \<open>
  The reference encoding of a message: what \<^verbatim>\<open>protobuf-c\<close>'s three serialising routines are
  measured against. It is written over bytes alone, without output pointers, sizes or buffers.
  \<open>d\<close> bounds the nesting of messages, as the C stack does.
\<close>

section \<open>Access to a field\<close>

text \<open>The chain of label tests shared by \<^verbatim>\<open>protobuf_c_message_get_packed_size\<close>,
  \<^verbatim>\<open>protobuf_c_message_pack\<close> and \<^verbatim>\<open>protobuf_c_message_pack_to_buffer\<close>: which routine is called
  and with which quantifier. The \<open>has\<close> of an optional field is only looked at when it is used.\<close>

datatype access = Required slot | Oneof u32 slot | Optional "u32 res" slot | Unlabeled slot
  | Repeated u64 slot

definition field_access :: "message_desc \<Rightarrow> message \<Rightarrow> field_desc \<Rightarrow> access res" where
  "field_access D m f = bindR (STRUCT_MEMBER m (fd_offset f)) (\<lambda>v.
     if fd_label f = LABEL_REQUIRED then Ok (Required v)
     else if (fd_label f = LABEL_OPTIONAL \<or> fd_label f = LABEL_NONE) \<and> has_flag f FLAG_ONEOF then
       bindR (quantifier32 D m (fd_quantifier_offset f)) (\<lambda>c. Ok (Oneof c v))
     else if fd_label f = LABEL_OPTIONAL then
       Ok (Optional (quantifier32 D m (fd_quantifier_offset f)) v)
     else if fd_label f = LABEL_NONE then Ok (Unlabeled v)
     else bindR (quantifier_size m (fd_quantifier_offset f)) (\<lambda>n. Ok (Repeated n v)))"

definition pointer_type :: "ProtobufCType \<Rightarrow> bool" where
  "pointer_type t \<longleftrightarrow> t = TYPE_MESSAGE \<or> t = TYPE_STRING"

text \<open>\<open>ptr == NULL || ptr == field->default_value\<close>\<close>

definition unset_pointer :: "field_desc \<Rightarrow> slot \<Rightarrow> bool res" where
  "unset_pointer f v =
     (if fd_type f = TYPE_MESSAGE then bindR (as_msg v) (\<lambda>p. Ok (p = None))
      else bindR (as_str v) (\<lambda>p. Ok (p = Null \<or> p = Dflt)))"

text \<open>A floating-point number equals zero whatever its sign bit.\<close>

definition field_is_zeroish :: "field_desc \<Rightarrow> slot \<Rightarrow> bool res" where
  "field_is_zeroish f v = (case fd_type f of
     TYPE_BOOL \<Rightarrow> bindR (as32 v) (\<lambda>w. Ok (w = 0))
   | TYPE_ENUM \<Rightarrow> bindR (as32 v) (\<lambda>w. Ok (w = 0))
   | TYPE_SINT32 \<Rightarrow> bindR (as32 v) (\<lambda>w. Ok (w = 0))
   | TYPE_INT32 \<Rightarrow> bindR (as32 v) (\<lambda>w. Ok (w = 0))
   | TYPE_UINT32 \<Rightarrow> bindR (as32 v) (\<lambda>w. Ok (w = 0))
   | TYPE_SFIXED32 \<Rightarrow> bindR (as32 v) (\<lambda>w. Ok (w = 0))
   | TYPE_FIXED32 \<Rightarrow> bindR (as32 v) (\<lambda>w. Ok (w = 0))
   | TYPE_SINT64 \<Rightarrow> bindR (as64 v) (\<lambda>w. Ok (w = 0))
   | TYPE_INT64 \<Rightarrow> bindR (as64 v) (\<lambda>w. Ok (w = 0))
   | TYPE_UINT64 \<Rightarrow> bindR (as64 v) (\<lambda>w. Ok (w = 0))
   | TYPE_SFIXED64 \<Rightarrow> bindR (as64 v) (\<lambda>w. Ok (w = 0))
   | TYPE_FIXED64 \<Rightarrow> bindR (as64 v) (\<lambda>w. Ok (w = 0))
   | TYPE_FLOAT \<Rightarrow> bindR (as32 v) (\<lambda>w. Ok (w = 0 \<or> w = 0x80000000))
   | TYPE_DOUBLE \<Rightarrow> bindR (as64 v) (\<lambda>w. Ok (w = 0 \<or> w = 0x8000000000000000))
   | TYPE_STRING \<Rightarrow> bindR (as_str v) (\<lambda>p. if p = Null then Ok True
       else bindR (c_string f p) (\<lambda>s. Ok (s = [])))
   | TYPE_BYTES \<Rightarrow> bindR (as_bytes v) (\<lambda>(n, p). Ok (n = 0))
   | TYPE_MESSAGE \<Rightarrow> bindR (as_msg v) (\<lambda>p. Ok (p = None)))"

text \<open>Whether an optional or oneof member is left out.\<close>

definition skip_oneof :: "field_desc \<Rightarrow> u32 \<Rightarrow> slot \<Rightarrow> bool res" where
  "skip_oneof f oneof_case v = (if oneof_case \<noteq> fd_id f then Ok True
     else if pointer_type (fd_type f) then unset_pointer f v else Ok False)"

definition skip_optional :: "field_desc \<Rightarrow> u32 res \<Rightarrow> slot \<Rightarrow> bool res" where
  "skip_optional f has v = (if pointer_type (fd_type f) then unset_pointer f v
     else bindR has (\<lambda>h. Ok (h = 0)))"

section \<open>Encoding of values\<close>

definition wire_type_of :: "ProtobufCType \<Rightarrow> nat" where
  "wire_type_of t =
     (if t \<in> {TYPE_SFIXED32, TYPE_FIXED32, TYPE_FLOAT} then WIRE_TYPE_32BIT
      else if t \<in> {TYPE_SFIXED64, TYPE_FIXED64, TYPE_DOUBLE} then WIRE_TYPE_64BIT
      else if t \<in> {TYPE_STRING, TYPE_BYTES, TYPE_MESSAGE} then WIRE_TYPE_LENGTH_PREFIXED
      else WIRE_TYPE_VARINT)"

definition scalar_bytes :: "ProtobufCType \<Rightarrow> slot \<Rightarrow> bytes res" where
  "scalar_bytes t v =
     (if t = TYPE_INT32 \<or> t = TYPE_ENUM then
        bindR (as32 v) (\<lambda>w. Ok (varint (unat (scast w :: u64))))
      else if t = TYPE_SINT32 then bindR (as32 v) (\<lambda>w. Ok (varint (zigzag (sint w))))
      else if t = TYPE_UINT32 then bindR (as32 v) (\<lambda>w. Ok (varint (unat w)))
      else if t = TYPE_INT64 \<or> t = TYPE_UINT64 then bindR (as64 v) (\<lambda>w. Ok (varint (unat w)))
      else if t = TYPE_SINT64 then bindR (as64 v) (\<lambda>w. Ok (varint (zigzag (sint w))))
      else if t = TYPE_SFIXED32 \<or> t = TYPE_FIXED32 \<or> t = TYPE_FLOAT then
        bindR (as32 v) (\<lambda>w. Ok (le_bytes 4 w))
      else if t = TYPE_SFIXED64 \<or> t = TYPE_FIXED64 \<or> t = TYPE_DOUBLE then
        bindR (as64 v) (\<lambda>w. Ok (le_bytes 8 w))
      else if t = TYPE_BOOL then bindR (as32 v) (\<lambda>w. Ok [if w \<noteq> 0 then 1 else 0])
      else Fault)"

text \<open>A body with its length in front; lengths stay within \<open>INT_MAX\<close>, the most the parser takes.\<close>

definition prefixed :: "bytes \<Rightarrow> bytes res" where
  "prefixed bs = (if length bs < 2 ^ 31 then Ok (varint (length bs) @ bs) else Fault)"

definition value_bytes :: "(message \<Rightarrow> bytes res) \<Rightarrow> field_desc \<Rightarrow> slot \<Rightarrow> bytes res" where
  "value_bytes enc f v = (case fd_type f of
     TYPE_STRING \<Rightarrow> bindR (as_str v) (\<lambda>p. bindR (if p = Null then Ok [] else c_string f p) prefixed)
   | TYPE_BYTES \<Rightarrow> bindR (as_bytes v) (\<lambda>(n, p). bindR (bindR (c_data f p) (c_prefix n)) prefixed)
   | TYPE_MESSAGE \<Rightarrow> bindR (as_msg v) (\<lambda>p.
       bindR (case p of None \<Rightarrow> Ok [] | Some (_, m) \<Rightarrow> enc m) prefixed)
   | t \<Rightarrow> scalar_bytes t v)"

definition enc_required :: "(message \<Rightarrow> bytes res) \<Rightarrow> field_desc \<Rightarrow> slot \<Rightarrow> bytes res" where
  "enc_required enc f v = bindR (value_bytes enc f v)
     (\<lambda>bs. Ok (tag_bytes (fd_id f) (wire_type_of (fd_type f)) @ bs))"

fun concatR :: "('a \<Rightarrow> bytes res) \<Rightarrow> 'a list \<Rightarrow> bytes res" where
  "concatR e [] = Ok []"
| "concatR e (x # xs) = bindR (e x) (\<lambda>b. bindR (concatR e xs) (\<lambda>bs. Ok (b @ bs)))"

text \<open>An element of a repeated field must not be a null pointer.\<close>

definition null_element :: "ProtobufCType \<Rightarrow> slot \<Rightarrow> bool" where
  "null_element t v \<longleftrightarrow> t = TYPE_STRING \<and> as_str v = Ok Null \<or> t = TYPE_MESSAGE \<and> as_msg v = Ok None"

definition is_packable_type :: "ProtobufCType \<Rightarrow> bool" where
  "is_packable_type t \<longleftrightarrow> t \<noteq> TYPE_STRING \<and> t \<noteq> TYPE_BYTES \<and> t \<noteq> TYPE_MESSAGE"

definition enc_repeated :: "(message \<Rightarrow> bytes res) \<Rightarrow> field_desc \<Rightarrow> u64 \<Rightarrow> slot \<Rightarrow> bytes res" where
  "enc_repeated enc f count v = bindR (as_arr v) (\<lambda>arr. bindR (elements count arr) (\<lambda>vs.
     if has_flag f FLAG_PACKED then
       if vs = [] then Ok []
       else if \<not> is_packable_type (fd_type f) then Fault
       else bindR (concatR (scalar_bytes (fd_type f)) vs) (\<lambda>body.
         bindR (prefixed body)
           (\<lambda>bs. Ok (tag_bytes (fd_id f) WIRE_TYPE_LENGTH_PREFIXED @ bs)))
     else if \<exists>v\<in>set vs. null_element (fd_type f) v then Fault
     else concatR (enc_required enc f) vs))"

definition enc_field :: "(message \<Rightarrow> bytes res) \<Rightarrow> message_desc \<Rightarrow> message \<Rightarrow> field_desc \<Rightarrow> bytes res" where
  "enc_field enc D m f = bindR (field_access D m f) (\<lambda>a. case a of
     Required v \<Rightarrow> enc_required enc f v
   | Oneof c v \<Rightarrow> bindR (skip_oneof f c v) (\<lambda>s. if s then Ok [] else enc_required enc f v)
   | Optional h v \<Rightarrow> bindR (skip_optional f h v) (\<lambda>s. if s then Ok [] else enc_required enc f v)
   | Unlabeled v \<Rightarrow> bindR (field_is_zeroish f v) (\<lambda>s. if s then Ok [] else enc_required enc f v)
   | Repeated n v \<Rightarrow> enc_repeated enc f n v)"

text \<open>The bytes behind an unknown field's pointer.\<close>

fun raw_data :: "ptr \<Rightarrow> bytes res" where
  "raw_data Null = Ok []" | "raw_data Dflt = Fault" | "raw_data (Heap _ bs) = Ok bs"

definition enc_unknown :: "unknown_field \<Rightarrow> bytes res" where
  "enc_unknown u = (if uf_wire_type u < 8 then
     bindR (bindR (raw_data (uf_data u)) (c_prefix (uf_len u)))
       (\<lambda>bs. Ok (tag_bytes (uf_tag u) (uf_wire_type u) @ bs)) else Fault)"

fun enc_message :: "schema \<Rightarrow> nat \<Rightarrow> message \<Rightarrow> bytes res" where
  "enc_message S 0 m = Fault"
| "enc_message S (Suc d) m = bindR (get_desc S (descriptor m)) (\<lambda>D.
     bindR (guardR (md_magic D = MESSAGE_DESCRIPTOR_MAGIC)) (\<lambda>_.
     bindR (concatR (enc_field (enc_message S d) D m) (md_fields D)) (\<lambda>known.
     bindR (concatR enc_unknown (unknown_fields m)) (\<lambda>unknown. Ok (known @ unknown)))))"

lemma wire_type_less: "wire_type_of t < 8"
  by (simp add: wire_type_of_def wire_type_defs)

lemma tag_size: "wt < 8 \<Longrightarrow> get_tag_size i = of_nat (length (tag_bytes i wt))"
  by (simp add: tag_bytes_def get_tag_size_varint)

lemma elements_length: "elements n arr = Ok vs \<Longrightarrow> of_nat (length vs) = n \<and> length vs = unat n"
  by (auto simp: elements_def min_absorb2 split: option.splits if_splits prod.splits)

section \<open>Enough depth\<close>

lemma concatR_mono:
  "(\<And>x. x \<in> set xs \<Longrightarrow> relR (=) (e x) (e' x)) \<Longrightarrow> relR (=) (concatR e xs) (concatR e' xs)"
  by (induction xs) (auto intro!: relR_bind)

lemma value_bytes_mono:
  "(\<And>m. relR (=) (e m) (e' m)) \<Longrightarrow> relR (=) (value_bytes e f v) (value_bytes e' f v)"
  by (cases "fd_type f")
    (auto simp: value_bytes_def relR_refl split: option.split intro!: relR_bind_same relR_bind)

lemma enc_required_mono:
  "(\<And>m. relR (=) (e m) (e' m)) \<Longrightarrow> relR (=) (enc_required e f v) (enc_required e' f v)"
  unfolding enc_required_def by (rule relR_bind [OF value_bytes_mono]) auto

lemma enc_field_mono:
  "(\<And>m. relR (=) (e m) (e' m)) \<Longrightarrow> relR (=) (enc_field e D m f) (enc_field e' D m f)"
  by (auto simp: enc_field_def enc_repeated_def relR_refl enc_required_mono
      split: access.split if_split intro!: relR_bind_same concatR_mono)

text \<open>A deeper bound gives the same bytes.\<close>

lemma enc_message_mono: "d \<le> d' \<Longrightarrow> relR (=) (enc_message S d m) (enc_message S d' m)"
proof (induction d arbitrary: d' m)
  case (Suc d)
  then obtain e where "d' = Suc e" "d \<le> e" by (cases d') auto
  then show ?case using Suc.IH
    by (auto intro!: relR_bind_same relR_bind [OF concatR_mono] enc_field_mono)
qed simp

end
