(* ===== verification/Pb_Pack.thy ===== *)
theory Pb_Pack
  imports Pb_Wire
begin

text \<open>
  \<^verbatim>\<open>protobuf_c_message_pack\<close> and its helpers: serialising into a block of memory at an output
  pointer. Reading an element or a member of the wrong kind, and writing outside the block, is a
  fault, as is a failed assertion.
\<close>

section \<open>The packing functions\<close>

definition string_pack :: "field_desc \<Rightarrow> ptr \<Rightarrow> packer" where
  "string_pack f str out mem =
     (if str = Null then bindR (put out 0 mem) (\<lambda>mem. Ok (1, mem))
      else bindR (c_string f str) (\<lambda>s.
        bindR (uint32_pack (of_nat (length s)) out mem) (\<lambda>(rv, mem).
        bindR (write_bytes (out + rv) s mem) (\<lambda>mem. Ok (rv + length s, mem)))))"

definition binary_data_pack :: "field_desc \<Rightarrow> u64 \<times> ptr \<Rightarrow> packer" where
  "binary_data_pack f bd out mem = (let (len, data) = bd in
     bindR (uint32_pack (ucast len) out mem) (\<lambda>(rv, mem).
     bindR (bindR (c_data f data) (c_prefix len)) (\<lambda>bs.
     bindR (write_bytes (out + rv) bs mem) (\<lambda>mem. Ok (rv + unat len, mem)))))"

definition prefixed_message_pack :: "(message \<Rightarrow> packer) \<Rightarrow> (nat \<times> message) option \<Rightarrow> packer" where
  "prefixed_message_pack message_pack msg out mem = (case msg of
     None \<Rightarrow> bindR (put out 0 mem) (\<lambda>mem. Ok (1, mem))
   | Some (_, m) \<Rightarrow>
       bindR (guardR (out + 1 \<le> length mem)) (\<lambda>_.
       bindR (message_pack m (out + 1) mem) (\<lambda>(rv, mem).
       let rv_packed_size = unat (uint32_size (of_nat rv)) in
       bindR (if rv_packed_size \<noteq> 1 then memmove (out + rv_packed_size) (out + 1) rv mem else Ok mem)
         (\<lambda>mem. bindR (uint32_pack (of_nat rv) out mem) (\<lambda>(n, mem). Ok (n + rv, mem))))))"

text \<open>\<open>out[0] |= wire_type; return rv + f(out + rv)\<close>\<close>

definition with_wire_type :: "nat \<Rightarrow> nat \<Rightarrow> packer \<Rightarrow> packer" where
  "with_wire_type wt rv f out mem = bindR (or_byte out (of_nat wt) mem) (\<lambda>mem.
     bindR (f (out + rv) mem) (\<lambda>(n, mem). Ok (rv + n, mem)))"

text \<open>Packing the value a member holds.\<close>

definition pack32 :: "(u32 \<Rightarrow> packer) \<Rightarrow> slot \<Rightarrow> packer" where
  "pack32 pack v out mem = bindR (as32 v) (\<lambda>w. pack w out mem)"

definition pack64 :: "(u64 \<Rightarrow> packer) \<Rightarrow> slot \<Rightarrow> packer" where
  "pack64 pack v out mem = bindR (as64 v) (\<lambda>w. pack w out mem)"

definition required_field_pack :: "(message \<Rightarrow> packer) \<Rightarrow> field_desc \<Rightarrow> slot \<Rightarrow> packer" where
  "required_field_pack message_pack f member out mem =
     bindR (tag_pack (fd_id f) out mem) (\<lambda>(rv, mem). case fd_type f of
       TYPE_SINT32 \<Rightarrow> with_wire_type WIRE_TYPE_VARINT rv (pack32 sint32_pack member) out mem
     | TYPE_ENUM \<Rightarrow> with_wire_type WIRE_TYPE_VARINT rv (pack32 int32_pack member) out mem
     | TYPE_INT32 \<Rightarrow> with_wire_type WIRE_TYPE_VARINT rv (pack32 int32_pack member) out mem
     | TYPE_UINT32 \<Rightarrow> with_wire_type WIRE_TYPE_VARINT rv (pack32 uint32_pack member) out mem
     | TYPE_SINT64 \<Rightarrow> with_wire_type WIRE_TYPE_VARINT rv (pack64 sint64_pack member) out mem
     | TYPE_INT64 \<Rightarrow> with_wire_type WIRE_TYPE_VARINT rv (pack64 uint64_pack member) out mem
     | TYPE_UINT64 \<Rightarrow> with_wire_type WIRE_TYPE_VARINT rv (pack64 uint64_pack member) out mem
     | TYPE_SFIXED32 \<Rightarrow> with_wire_type WIRE_TYPE_32BIT rv (pack32 fixed32_pack member) out mem
     | TYPE_FIXED32 \<Rightarrow> with_wire_type WIRE_TYPE_32BIT rv (pack32 fixed32_pack member) out mem
     | TYPE_FLOAT \<Rightarrow> with_wire_type WIRE_TYPE_32BIT rv (pack32 fixed32_pack member) out mem
     | TYPE_SFIXED64 \<Rightarrow> with_wire_type WIRE_TYPE_64BIT rv (pack64 fixed64_pack member) out mem
     | TYPE_FIXED64 \<Rightarrow> with_wire_type WIRE_TYPE_64BIT rv (pack64 fixed64_pack member) out mem
     | TYPE_DOUBLE \<Rightarrow> with_wire_type WIRE_TYPE_64BIT rv (pack64 fixed64_pack member) out mem
     | TYPE_BOOL \<Rightarrow> with_wire_type WIRE_TYPE_VARINT rv (pack32 boolean_pack member) out mem
     | TYPE_STRING \<Rightarrow> with_wire_type WIRE_TYPE_LENGTH_PREFIXED rv
         (\<lambda>out mem. bindR (as_str member) (\<lambda>str. string_pack f str out mem)) out mem
     | TYPE_BYTES \<Rightarrow> with_wire_type WIRE_TYPE_LENGTH_PREFIXED rv
         (\<lambda>out mem. bindR (as_bytes member) (\<lambda>bd. binary_data_pack f bd out mem)) out mem
     | TYPE_MESSAGE \<Rightarrow> with_wire_type WIRE_TYPE_LENGTH_PREFIXED rv
         (\<lambda>out mem. bindR (as_msg member) (\<lambda>msg. prefixed_message_pack message_pack msg out mem))
         out mem)"

definition oneof_field_pack :: "(message \<Rightarrow> packer) \<Rightarrow> field_desc \<Rightarrow> u32 \<Rightarrow> slot \<Rightarrow> packer" where
  "oneof_field_pack message_pack f oneof_case member out mem =
     bindR (skip_oneof f oneof_case member) (\<lambda>skip.
       if skip then Ok (0, mem) else required_field_pack message_pack f member out mem)"

definition optional_field_pack :: "(message \<Rightarrow> packer) \<Rightarrow> field_desc \<Rightarrow> u32 res \<Rightarrow> slot \<Rightarrow> packer" where
  "optional_field_pack message_pack f has member out mem =
     bindR (skip_optional f has member) (\<lambda>skip.
       if skip then Ok (0, mem) else required_field_pack message_pack f member out mem)"

definition unlabeled_field_pack :: "(message \<Rightarrow> packer) \<Rightarrow> field_desc \<Rightarrow> slot \<Rightarrow> packer" where
  "unlabeled_field_pack message_pack f member out mem =
     bindR (field_is_zeroish f member) (\<lambda>zero.
       if zero then Ok (0, mem) else required_field_pack message_pack f member out mem)"

text \<open>\<open>memcpy(out, in, n * 4)\<close>: the product is an \<open>unsigned\<close>.\<close>

definition copy_to_little_endian_32 ::
  "nat \<Rightarrow> (nat \<times> nat \<times> slot list) option \<Rightarrow> u32 \<Rightarrow> bytes \<Rightarrow> bytes res" where
  "copy_to_little_endian_32 out arr n mem = bindR (elements (ucast (n * 4 div 4)) arr) (\<lambda>vs.
     bindR (concatR (\<lambda>v. bindR (as32 v) (\<lambda>w. Ok (le_bytes 4 w))) vs) (\<lambda>bs. write_bytes out bs mem))"

definition copy_to_little_endian_64 ::
  "nat \<Rightarrow> (nat \<times> nat \<times> slot list) option \<Rightarrow> u32 \<Rightarrow> bytes \<Rightarrow> bytes res" where
  "copy_to_little_endian_64 out arr n mem = bindR (elements (ucast (n * 8 div 8)) arr) (\<lambda>vs.
     bindR (concatR (\<lambda>v. bindR (as64 v) (\<lambda>w. Ok (le_bytes 8 w))) vs) (\<lambda>bs. write_bytes out bs mem))"

definition get_type_min_size :: "ProtobufCType \<Rightarrow> u32" where
  "get_type_min_size t =
     (if t = TYPE_SFIXED32 \<or> t = TYPE_FIXED32 \<or> t = TYPE_FLOAT then 4
      else if t = TYPE_SFIXED64 \<or> t = TYPE_FIXED64 \<or> t = TYPE_DOUBLE then 8 else 1)"

text \<open>The payload of a packed field; the number returned is how far \<open>payload_at\<close> moves.\<close>

definition packed_payload :: "ProtobufCType \<Rightarrow> u64 \<Rightarrow> (nat \<times> nat \<times> slot list) option \<Rightarrow> packer" where
  "packed_payload t count arr payload_at mem =
     (let copy32 = bindR (copy_to_little_endian_32 payload_at arr (ucast count) mem)
            (\<lambda>mem. Ok (unat (count * 4), mem));
          copy64 = bindR (copy_to_little_endian_64 payload_at arr (ucast count) mem)
            (\<lambda>mem. Ok (unat (count * 8), mem));
          each = (\<lambda>pack. bindR (elements count arr) (\<lambda>vs. pack_all pack vs payload_at mem)) in
     case t of
       TYPE_SFIXED32 \<Rightarrow> copy32 | TYPE_FIXED32 \<Rightarrow> copy32 | TYPE_FLOAT \<Rightarrow> copy32
     | TYPE_SFIXED64 \<Rightarrow> copy64 | TYPE_FIXED64 \<Rightarrow> copy64 | TYPE_DOUBLE \<Rightarrow> copy64
     | TYPE_ENUM \<Rightarrow> each (pack32 int32_pack) | TYPE_INT32 \<Rightarrow> each (pack32 int32_pack)
     | TYPE_SINT32 \<Rightarrow> each (pack32 sint32_pack) | TYPE_SINT64 \<Rightarrow> each (pack64 sint64_pack)
     | TYPE_UINT32 \<Rightarrow> each (pack32 uint32_pack)
     | TYPE_INT64 \<Rightarrow> each (pack64 uint64_pack) | TYPE_UINT64 \<Rightarrow> each (pack64 uint64_pack)
     | TYPE_BOOL \<Rightarrow> each (pack32 boolean_pack)
     | _ \<Rightarrow> Fault)"

definition repeated_field_pack :: "(message \<Rightarrow> packer) \<Rightarrow> field_desc \<Rightarrow> u64 \<Rightarrow> slot \<Rightarrow> packer" where
  "repeated_field_pack message_pack f count member out mem = bindR (as_arr member) (\<lambda>arr.
     if has_flag f FLAG_PACKED then
       if count = 0 then Ok (0, mem)
       else bindR (tag_pack (fd_id f) out mem) (\<lambda>(len_start, mem).
         bindR (or_byte out (of_nat WIRE_TYPE_LENGTH_PREFIXED) mem) (\<lambda>mem.
         let min_length = ucast (ucast (get_type_min_size (fd_type f)) * count) :: u32;
             length_size_min = unat (uint32_size min_length);
             header_len = len_start + length_size_min in
         bindR (guardR (out + header_len \<le> length mem)) (\<lambda>_.
         bindR (packed_payload (fd_type f) count arr (out + header_len) mem) (\<lambda>(moved, mem).
         let payload_len = of_nat moved :: u32;
             actual_length_size = unat (uint32_size payload_len) in
         bindR (if length_size_min \<noteq> actual_length_size then
             bindR (guardR (actual_length_size = length_size_min + 1)) (\<lambda>_.
             bindR (memmove (out + header_len + 1) (out + header_len) (unat payload_len) mem) (\<lambda>mem.
             Ok (header_len + 1, mem)))
           else Ok (header_len, mem)) (\<lambda>(header_len, mem).
         bindR (uint32_pack payload_len (out + len_start) mem) (\<lambda>(_, mem).
         Ok (unat (of_nat header_len + payload_len), mem)))))))
     else bindR (elements count arr) (\<lambda>vs. pack_all (required_field_pack message_pack f) vs out mem))"

definition unknown_field_pack :: "unknown_field \<Rightarrow> packer" where
  "unknown_field_pack u out mem = bindR (tag_pack (uf_tag u) out mem) (\<lambda>(rv, mem).
     bindR (or_byte out (of_nat (uf_wire_type u)) mem) (\<lambda>mem.
     bindR (bindR (raw_data (uf_data u)) (c_prefix (uf_len u))) (\<lambda>bs.
     bindR (write_bytes (out + rv) bs mem) (\<lambda>mem. Ok (rv + unat (uf_len u), mem)))))"

definition field_pack :: "(message \<Rightarrow> packer) \<Rightarrow> message_desc \<Rightarrow> message \<Rightarrow> field_desc \<Rightarrow> packer" where
  "field_pack message_pack D m f out mem = bindR (field_access D m f) (\<lambda>a. case a of
     Required v \<Rightarrow> required_field_pack message_pack f v out mem
   | Oneof c v \<Rightarrow> oneof_field_pack message_pack f c v out mem
   | Optional h v \<Rightarrow> optional_field_pack message_pack f h v out mem
   | Unlabeled v \<Rightarrow> unlabeled_field_pack message_pack f v out mem
   | Repeated n v \<Rightarrow> repeated_field_pack message_pack f n v out mem)"

fun protobuf_c_message_pack :: "schema \<Rightarrow> nat \<Rightarrow> message \<Rightarrow> packer" where
  "protobuf_c_message_pack S 0 m out mem = Fault"
| "protobuf_c_message_pack S (Suc d) m out mem = bindR (get_desc S (descriptor m)) (\<lambda>D.
     bindR (guardR (md_magic D = MESSAGE_DESCRIPTOR_MAGIC)) (\<lambda>_.
     bindR (pack_all (field_pack (protobuf_c_message_pack S d) D m) (md_fields D) out mem) (\<lambda>(rv, mem).
     bindR (pack_all unknown_field_pack (unknown_fields m) (out + rv) mem) (\<lambda>(n, mem).
     Ok (rv + n, mem)))))"

section \<open>They write the reference encoding\<close>

definition packs :: "bytes res \<Rightarrow> packer \<Rightarrow> bool" where
  "packs e f \<longleftrightarrow> (\<forall>bs. e = Ok bs \<longrightarrow> emits f bs)"

lemma packsD: "packs e f \<Longrightarrow> e = Ok bs \<Longrightarrow> emits f bs"
  by (simp add: packs_def)

lemma packs_Ok [simp]: "packs (Ok bs) f \<longleftrightarrow> emits f bs"
  and packs_Fault [simp]: "packs Fault f"
  and packs_Hang [simp]: "packs Hang f"
  by (simp_all add: packs_def)

lemma packs_bind: "(\<And>x. a = Ok x \<Longrightarrow> packs (e x) (f x)) \<Longrightarrow> packs (bindR a e) (\<lambda>p m. bindR a (\<lambda>x. f x p m))"
  by (cases a) auto

lemma packs_if: "(b \<Longrightarrow> packs e f) \<Longrightarrow> (\<not> b \<Longrightarrow> packs e' f')
    \<Longrightarrow> packs (if b then e else e') (\<lambda>p m. if b then f p m else f' p m)"
  by simp

lemma packs_all:
  "(\<And>x. x \<in> set xs \<Longrightarrow> packs (e x) (f x)) \<Longrightarrow> packs (concatR e xs) (pack_all f xs)"
proof (induction xs)
  case Nil then show ?case using emits_nil by (simp add: emits_def)
next
  case (Cons x xs)
  show ?case
  proof (cases "e x")
    case (Ok b)
    then have b: "emits (f x) b" using Cons.prems [of x] by simp
    show ?thesis
    proof (cases "concatR e xs")
      case (Ok bs)
      then have "emits (pack_all f xs) bs" using Cons by simp
      then show ?thesis using \<open>e x = Ok b\<close> Ok emits_then [OF b] unfolding pack_all_Cons by simp
    qed (simp_all add: \<open>e x = Ok b\<close>)
  qed simp_all
qed

text \<open>A tag followed by a value.\<close>

lemma emits_tagged:
  assumes "wt < 8" and "emits f bs"
  shows "emits (\<lambda>out mem. bindR (tag_pack i out mem) (\<lambda>(rv, mem). with_wire_type wt rv f out mem))
    (tag_bytes i wt @ bs)"
proof -
  have "(\<lambda>out mem. bindR (tag_pack i out mem) (\<lambda>(rv, mem). with_wire_type wt rv f out mem))
    = andthen (\<lambda>p m. bindR (tag_pack i p m) (\<lambda>(n, m). bindR (or_byte p (of_nat wt) m) (\<lambda>m. Ok (n, m)))) f"
    by (simp add: fun_eq_iff andthen_def with_wire_type_def bindR_assoc split_def)
  then show ?thesis using emits_then [OF emits_tag [OF assms(1)] assms(2)] by simp
qed

lemma packs_tagged:
  assumes "wt < 8" and "packs e f"
  shows "packs (bindR e (\<lambda>bs. Ok (tag_bytes i wt @ bs)))
    (\<lambda>out mem. bindR (tag_pack i out mem) (\<lambda>(rv, mem). with_wire_type wt rv f out mem))"
  using assms by (cases e) (auto intro: emits_tagged)

lemma emits_write: "emits (\<lambda>p m. bindR (write_bytes p bs m) (\<lambda>m. Ok (length bs, m))) bs"
  by (simp add: emits_def)

lemma packs_string: "packs (bindR (if p = Null then Ok [] else c_string f p) prefixed) (string_pack f p)"
proof (cases "p = Null")
  case True
  then show ?thesis by (simp add: prefixed_def string_pack_def [abs_def] varint_small emits_one [simplified])
next
  case False
  show ?thesis
  proof (cases "c_string f p")
    case (Ok s)
    have "string_pack f p = andthen (uint32_pack (of_nat (length s)))
        (\<lambda>p m. bindR (write_bytes p s m) (\<lambda>m. Ok (length s, m)))"
      using Ok False by (simp add: fun_eq_iff string_pack_def andthen_def bindR_assoc split_def)
    moreover have "length s < 2 ^ 31 \<Longrightarrow> emits (uint32_pack (of_nat (length s))) (varint (length s))"
      using emits_uint32_pack [of "of_nat (length s)"] by (simp add: unat_of_nat)
    ultimately show ?thesis using False Ok emits_then [OF _ emits_write] by (simp add: prefixed_def)
  qed (simp_all add: False)
qed

lemma packs_data: "packs (bindR (bindR (c_data f p) (c_prefix n)) prefixed) (binary_data_pack f (n, p))"
proof (cases "bindR (c_data f p) (c_prefix n)")
  case (Ok bs)
  then have n: "unat n = length bs" by (auto simp: bindR_Ok_iff c_prefix_def min_absorb2 split: if_splits)
  have "binary_data_pack f (n, p) = andthen (uint32_pack (ucast n))
      (\<lambda>p m. bindR (write_bytes p bs m) (\<lambda>m. Ok (length bs, m)))"
    by (simp add: fun_eq_iff binary_data_pack_def Ok n andthen_def split_def) (simp add: bindR_assoc)
  moreover have "length bs < 2 ^ 31 \<Longrightarrow> emits (uint32_pack (ucast n)) (varint (length bs))"
    using emits_uint32_pack [of "ucast n"] by (simp add: unat_ucast_mod n)
  ultimately show ?thesis using emits_then [OF _ emits_write] by (simp add: Ok prefixed_def)
qed simp_all

text \<open>Writing the body first and its length in front of it afterwards.\<close>

lemma write_prefix_after:
  assumes "length pre = k"
  shows "bindR (write_bytes (p + k) body m) (write_bytes p pre) = write_bytes p (pre @ body) m"
  using assms by (auto simp: write_bytes_def min_def ac_simps)

lemma move_to_prefix:
  assumes "length pre = k" and "j \<le> k"
  shows "bindR (write_bytes (p + j) body m) (\<lambda>m. bindR
      (if k \<noteq> j then memmove (p + k) (p + j) (length body) m else Ok m) (write_bytes p pre))
    = write_bytes p (pre @ body) m"
  using write_move_prefix [OF assms] write_prefix_after [OF assms(1)] by (cases "k = j") simp_all

lemma nat_length_size: "n < 2 ^ 32 \<Longrightarrow> unat (uint32_size (of_nat n)) = length (varint n)"
  using varint_length_32 [of "of_nat n"] by (simp add: uint32_size_varint unat_of_nat)

lemma varint_length_1: "1 \<le> length (varint n)"
  using varint_nonempty [of n] by (cases "varint n") auto

lemma packs_message:
  assumes "\<And>m. packs (e m) (pk m)"
  shows "packs (bindR (case p of None \<Rightarrow> Ok [] | Some (_, m) \<Rightarrow> e m) prefixed) (prefixed_message_pack pk p)"
proof (cases p)
  case None
  then show ?thesis by (simp add: prefixed_def prefixed_message_pack_def [abs_def] varint_small emits_one [simplified])
next
  case (Some x)
  obtain i msg where x: "x = (i, msg)" by (cases x)
  show ?thesis
  proof (cases "e msg")
    case (Ok bs)
    have em: "emits (pk msg) bs" using packsD [OF assms Ok] .
    have "emits (prefixed_message_pack pk p) (varint (length bs) @ bs)" if l: "length bs < 2 ^ 31"
    proof (rule emitsI)
      fix out mem assume o: "out \<le> length (mem :: bytes)"
      let ?k = "length (varint (length bs))"
      have u: "emits (uint32_pack (of_nat (length bs))) (varint (length bs))"
        using emits_uint32_pack [of "of_nat (length bs)"] l by (simp add: unat_of_nat)
      have sz: "unat (uint32_size (of_nat (length bs))) = ?k" using l by (intro nat_length_size) simp
      show "prefixed_message_pack pk p out mem = bindR (write_bytes out (varint (length bs) @ bs) mem)
        (\<lambda>m'. Ok (length (varint (length bs) @ bs), m'))"
      proof (cases "out + 1 \<le> length mem")
        case True
        have "prefixed_message_pack pk p out mem = bindR (write_bytes (out + 1) bs mem) (\<lambda>m.
            bindR (if ?k \<noteq> 1 then memmove (out + ?k) (out + 1) (length bs) m else Ok m) (\<lambda>m.
            bindR (uint32_pack (of_nat (length bs)) out m) (\<lambda>(n, m). Ok (n + length bs, m))))"
          using True emitsD [OF em True] by (simp add: prefixed_message_pack_def Some x bindR_assoc sz Let_def del: One_nat_def cong: if_cong)
        also have "\<dots> = bindR (bindR (write_bytes (out + 1) bs mem) (\<lambda>m.
            bindR (if ?k \<noteq> 1 then memmove (out + ?k) (out + 1) (length bs) m else Ok m)
              (write_bytes out (varint (length bs))))) (\<lambda>m'. Ok (?k + length bs, m'))"
          unfolding bindR_assoc
        proof (intro bindR_cong refl)
          fix m m2
          assume 1: "write_bytes (out + 1) bs mem = Ok m"
            and 2: "(if ?k \<noteq> 1 then memmove (out + ?k) (out + 1) (length bs) m else Ok m) = Ok m2"
          then have "out \<le> length m2" using o write_length [OF 1]
            by (auto simp: memmove_def bindR_Ok_iff dest: write_length split: if_splits)
          from emitsD [OF u this] show "bindR (uint32_pack (of_nat (length bs)) out m2) (\<lambda>(n, m). Ok (n + length bs, m))
              = bindR (write_bytes out (varint (length bs)) m2) (\<lambda>m'. Ok (?k + length bs, m'))"
            by (simp add: bindR_assoc)
        qed
        also have "\<dots> = bindR (write_bytes out (varint (length bs) @ bs) mem) (\<lambda>m'. Ok (?k + length bs, m'))"
          by (simp only: move_to_prefix [OF refl varint_length_1])
        finally show ?thesis by simp
      next
        case False
        then show ?thesis using varint_length_1 [of "length bs"]
          by (simp add: prefixed_message_pack_def Some x write_bytes_def)
      qed
    qed
    then show ?thesis by (simp add: Some x Ok prefixed_def)
  qed (simp_all add: Some x)
qed

lemma packs32: "(\<And>w. emits (pk w) (h w)) \<Longrightarrow> packs (bindR (as32 v) (\<lambda>w. Ok (h w))) (pack32 pk v)"
  unfolding pack32_def [abs_def] by (rule packs_bind) simp

lemma packs64: "(\<And>w. emits (pk w) (h w)) \<Longrightarrow> packs (bindR (as64 v) (\<lambda>w. Ok (h w))) (pack64 pk v)"
  unfolding pack64_def [abs_def] by (rule packs_bind) simp

lemmas packs_scalars =
  packs32 [of int32_pack, OF int32.pack_emits] packs32 [of sint32_pack, OF sint32.pack_emits]
  packs32 [of uint32_pack, OF uint32.pack_emits] packs32 [of fixed32_pack, OF fixed32.pack_emits]
  packs32 [of boolean_pack, OF boolean.pack_emits] packs64 [of uint64_pack, OF uint64.pack_emits]
  packs64 [of sint64_pack, OF sint64.pack_emits] packs64 [of fixed64_pack, OF fixed64.pack_emits]

lemma packs_required:
  assumes "\<And>m. packs (e m) (pk m)"
  shows "packs (enc_required e f v) (required_field_pack pk f v)"
proof -
  note t = packs_tagged [OF wire_type_less [of "fd_type f"], of _ _ "fd_id f"]
  have s: "packs (value_bytes e f v) (\<lambda>out mem. bindR (as_str v) (\<lambda>str. string_pack f str out mem))"
    if "fd_type f = TYPE_STRING"
    using that by (simp add: value_bytes_def packs_bind packs_string)
  have d: "packs (value_bytes e f v) (\<lambda>out mem. bindR (as_bytes v) (\<lambda>bd. binary_data_pack f bd out mem))"
    if "fd_type f = TYPE_BYTES"
    using that packs_data by (auto simp: value_bytes_def intro!: packs_bind)
  have m: "packs (value_bytes e f v)
      (\<lambda>out mem. bindR (as_msg v) (\<lambda>msg. prefixed_message_pack pk msg out mem))"
    if "fd_type f = TYPE_MESSAGE"
    using that by (simp add: value_bytes_def packs_bind packs_message [OF assms])
  show ?thesis
    using t [OF s] t [OF d] t [OF m] packs_scalars [THEN t]
    by (cases "fd_type f")
      (simp_all add: enc_required_def required_field_pack_def [abs_def] value_bytes_def scalar_bytes_def
        wire_type_of_def)
qed

lemma varint_length_mono: "m \<le> n \<Longrightarrow> length (varint m) \<le> length (varint n)"
proof (induction n arbitrary: m rule: varint.induct)
  case (1 n)
  show ?case
  proof (cases "m < 128")
    case False
    then have "m div 128 \<le> n div 128" using 1 by (simp add: div_le_mono)
    then show ?thesis using 1 False by (simp add: length_varint_step [of m] length_varint_step [of n])
  qed (simp add: length_varint_step [of m] varint_length_1 [simplified])
qed

lemma varint_length_times_128: "length (varint (128 * n)) \<le> Suc (length (varint n))"
  by (cases "n = 0") (simp_all add: length_varint_step [of "128 * n"] varint_small)

text \<open>Ten times as many bytes need at most one more byte for their number.\<close>

lemma varint_length_10: "m \<le> 10 * n \<Longrightarrow> length (varint m) \<le> Suc (length (varint n))"
  using varint_length_mono [of m "128 * n"] varint_length_times_128 [of n] by simp

definition max_size :: "ProtobufCType \<Rightarrow> nat" where
  "max_size t = (if get_type_min_size t = 1 then 10 else unat (get_type_min_size t))"

lemma scalar_length:
  assumes "scalar_bytes t v = Ok b"
  shows "unat (get_type_min_size t) \<le> length b \<and> length b \<le> max_size t"
  using assms int32.enc_length uint32.enc_length sint32.enc_length uint64.enc_length sint64.enc_length
  by (cases t) (auto simp: scalar_bytes_def bindR_Ok_iff get_type_min_size_def max_size_def byte_simps)

lemma scalars_length:
  assumes "concatR (scalar_bytes t) vs = Ok bs"
  shows "unat (get_type_min_size t) * length vs \<le> length bs \<and> length bs \<le> max_size t * length vs"
  using assms
proof (induction vs arbitrary: bs)
  case (Cons v vs)
  then obtain b bs' where b: "scalar_bytes t v = Ok b" "concatR (scalar_bytes t) vs = Ok bs'" "bs = b @ bs'"
    by (auto simp: bindR_Ok_iff)
  then show ?case using Cons.IH [OF b(2)] scalar_length [OF b(1)] by (simp add: algebra_simps)
qed simp

text \<open>The length prefix guessed from the smallest element is right or one byte short.\<close>

lemma guessed_prefix:
  assumes "concatR (scalar_bytes t) vs = Ok bs"
  shows "length (varint (unat (get_type_min_size t) * length vs)) \<le> length (varint (length bs))
    \<and> length (varint (length bs)) \<le> Suc (length (varint (unat (get_type_min_size t) * length vs)))"
proof (cases "get_type_min_size t = 1")
  case True
  then show ?thesis using scalars_length [OF assms] varint_length_mono varint_length_10 by (simp add: max_size_def)
next
  case False
  then have "length bs = unat (get_type_min_size t) * length vs"
    using scalars_length [OF assms] by (simp add: max_size_def)
  then show ?thesis by simp
qed

lemma whole_elements:
  assumes "k \<in> {4, 8}" and "elements n arr = Ok vs" and "k * length vs < 2 ^ 31"
  shows "ucast ((ucast n :: u32) * of_nat k div of_nat k) = n" and "unat (n * of_nat k) = k * length vs"
proof -
  have n: "unat n = length vs" using elements_length [OF assms(2)] by simp
  then show u: "unat (n * of_nat k) = k * length vs" using assms(1,3) by (auto simp: unat_word_ariths)
  have "unat (ucast n * of_nat k div of_nat k :: u32) = length vs"
    using assms(1,3) n by (auto simp: unat_div unat_word_ariths unat_ucast_mod)
  then show "ucast ((ucast n :: u32) * of_nat k div of_nat k) = n"
    using n assms(1,3) by (intro word_unat_eq_iff [THEN iffD2]) (auto simp: unat_ucast_mod)
qed

lemma emits_copy32:
  assumes "bindR (elements n arr) (concatR (\<lambda>v. bindR (as32 v) (\<lambda>w. Ok (le_bytes 4 w)))) = Ok bs" "length bs < 2 ^ 31"
  shows "emits (\<lambda>at mem. bindR (copy_to_little_endian_32 at arr (ucast n) mem) (\<lambda>mem. Ok (unat (n * 4), mem))) bs"
proof -
  obtain vs where vs: "elements n arr = Ok vs" "concatR (scalar_bytes TYPE_FIXED32) vs = Ok bs"
    using assms(1) by (auto simp: bindR_Ok_iff scalar_bytes_def [abs_def])
  have "length bs = 4 * length vs" using scalars_length [OF vs(2)] by (simp add: max_size_def get_type_min_size_def)
  then show ?thesis using vs(2) whole_elements [of 4, OF _ vs(1)] assms(2) vs(1)
    by (simp add: emits_def copy_to_little_endian_32_def bindR_assoc scalar_bytes_def [abs_def])
qed

lemma emits_copy64:
  assumes "bindR (elements n arr) (concatR (\<lambda>v. bindR (as64 v) (\<lambda>w. Ok (le_bytes 8 w)))) = Ok bs" "length bs < 2 ^ 31"
  shows "emits (\<lambda>at mem. bindR (copy_to_little_endian_64 at arr (ucast n) mem) (\<lambda>mem. Ok (unat (n * 8), mem))) bs"
proof -
  obtain vs where vs: "elements n arr = Ok vs" "concatR (scalar_bytes TYPE_FIXED64) vs = Ok bs"
    using assms(1) by (auto simp: bindR_Ok_iff scalar_bytes_def [abs_def])
  have "length bs = 8 * length vs" using scalars_length [OF vs(2)] by (simp add: max_size_def get_type_min_size_def)
  then show ?thesis using vs(2) whole_elements [of 8, OF _ vs(1)] assms(2) vs(1)
    by (simp add: emits_def copy_to_little_endian_64_def bindR_assoc scalar_bytes_def [abs_def])
qed

lemma emits_payload:
  assumes "is_packable_type t" and "bindR (elements n arr) (concatR (scalar_bytes t)) = Ok bs"
    and "length bs < 2 ^ 31"
  shows "emits (packed_payload t n arr) bs"
proof -
  have each: "emits (\<lambda>at mem. bindR (elements n arr) (\<lambda>vs. pack_all pk vs at mem)) bs"
    if "\<And>v. packs (scalar_bytes t v) (pk v)" for pk
    using packsD [OF _ assms(2)] that by (blast intro: packs_bind packs_all)
  show ?thesis
    using assms packs_scalars [of "_ :: slot"] each emits_copy32 emits_copy64
    by (cases t) (simp_all add: packed_payload_def [abs_def] is_packable_type_def scalar_bytes_def [abs_def])
qed

text \<open>The part of a packed field after its tag.\<close>

definition packed_body :: "ProtobufCType \<Rightarrow> u64 \<Rightarrow> (nat \<times> nat \<times> slot list) option \<Rightarrow> packer" where
  "packed_body t count arr at mem =
     (let j = unat (uint32_size (ucast (ucast (get_type_min_size t) * count))) in
     bindR (guardR (at + j \<le> length mem)) (\<lambda>_.
     bindR (packed_payload t count arr (at + j) mem) (\<lambda>(moved, mem).
     let k = unat (uint32_size (of_nat moved)) in
     bindR (guardR (k = j \<or> k = j + 1)) (\<lambda>_.
     bindR (if k \<noteq> j then memmove (at + k) (at + j) moved mem else Ok mem) (\<lambda>mem.
     bindR (uint32_pack (of_nat moved) at mem) (\<lambda>(_, mem). Ok (k + moved, mem)))))))"

lemma emits_packed_body:
  assumes "is_packable_type t" and vs: "elements n arr = Ok vs"
    and bs: "concatR (scalar_bytes t) vs = Ok bs" and l: "length bs < 2 ^ 31"
  shows "emits (packed_body t n arr) (varint (length bs) @ bs)"
proof (rule emitsI)
  fix at mem assume at: "at \<le> length (mem :: bytes)"
  let ?j = "length (varint (unat (get_type_min_size t) * length vs))" and ?k = "length (varint (length bs))"
  have m: "unat (get_type_min_size t) * length vs < 2 ^ 31" using scalars_length [OF bs] l by linarith
  have e: "unat (ucast (ucast (get_type_min_size t) * n) :: u32) = unat (get_type_min_size t) * length vs"
    using m elements_length [OF vs] by (auto simp: unat_ucast_mod unat_word_ariths get_type_min_size_def)
  then have "ucast (ucast (get_type_min_size t) * n) = (of_nat (unat (get_type_min_size t) * length vs) :: u32)"
    using m by (intro word_unat_eq_iff [THEN iffD2]) (simp only: e unat_of_nat, simp)
  then have j: "unat (uint32_size (ucast (ucast (get_type_min_size t) * n))) = ?j"
    using nat_length_size [of "unat (get_type_min_size t) * length vs"] m by (simp only:) simp
  have k: "unat (uint32_size (of_nat (length bs))) = ?k" using l by (intro nat_length_size) simp
  note jk = guessed_prefix [OF bs]
  have p: "emits (packed_payload t n arr) bs" using emits_payload [OF assms(1) _ l] vs bs by simp
  have u: "emits (uint32_pack (of_nat (length bs))) (varint (length bs))"
    using emits_uint32_pack [of "of_nat (length bs)"] l by (simp add: unat_of_nat)
  show "packed_body t n arr at mem = bindR (write_bytes at (varint (length bs) @ bs) mem)
    (\<lambda>m'. Ok (length (varint (length bs) @ bs), m'))"
  proof (cases "at + ?j \<le> length mem")
    case True
    have "packed_body t n arr at mem = bindR (write_bytes (at + ?j) bs mem) (\<lambda>m.
        bindR (if ?k \<noteq> ?j then memmove (at + ?k) (at + ?j) (length bs) m else Ok m) (\<lambda>m.
        bindR (uint32_pack (of_nat (length bs)) at m) (\<lambda>(_, m). Ok (?k + length bs, m))))"
      using True emitsD [OF p True] jk k j
      by (cases "write_bytes (at + ?j) bs mem") (auto simp: packed_body_def Let_def cong: if_cong)
    also have "\<dots> = bindR (bindR (write_bytes (at + ?j) bs mem) (\<lambda>m.
        bindR (if ?k \<noteq> ?j then memmove (at + ?k) (at + ?j) (length bs) m else Ok m)
          (write_bytes at (varint (length bs))))) (\<lambda>m'. Ok (?k + length bs, m'))"
      unfolding bindR_assoc
    proof (intro bindR_cong refl)
      fix m m2
      assume 1: "write_bytes (at + ?j) bs mem = Ok m"
        and 2: "(if ?k \<noteq> ?j then memmove (at + ?k) (at + ?j) (length bs) m else Ok m) = Ok m2"
      then have "at \<le> length m2" using at write_length [OF 1]
        by (auto simp: memmove_def bindR_Ok_iff dest: write_length split: if_splits)
      from emitsD [OF u this] show "bindR (uint32_pack (of_nat (length bs)) at m2) (\<lambda>(_, m). Ok (?k + length bs, m))
          = bindR (write_bytes at (varint (length bs)) m2) (\<lambda>m'. Ok (?k + length bs, m'))"
        by (simp add: bindR_assoc)
    qed
    also have "\<dots> = bindR (write_bytes at (varint (length bs) @ bs) mem) (\<lambda>m'. Ok (?k + length bs, m'))"
      by (simp only: move_to_prefix [OF refl jk [THEN conjunct1]])
    finally show ?thesis by simp
  next
    case False
    then show ?thesis using j jk by (simp add: packed_body_def Let_def write_bytes_def)
  qed
qed

lemma tag_pack_length: "tag_pack i out mem = Ok (rv, mem') \<Longrightarrow> out \<le> length mem \<Longrightarrow> rv \<le> 5"
proof -
  assume t: "tag_pack i out mem = Ok (rv, mem')" and o: "out \<le> length mem"
  have "unat i < 2 ^ 32" using unsigned_less [of i, where ?'a = nat] by simp
  then have "length (varint (unat i * 8)) \<le> Suc 4" by (intro varint_length_le) simp
  then show "rv \<le> 5" using t emitsD [OF emits_tag_pack o, of i] by (auto simp: bindR_Ok_iff)
qed

lemma unat_size_le: "unat (uint32_size w) \<le> 10"
  using uint32.unat_size [of w] uint32.enc_length [of w] by simp

lemma unat_small_sum: "a + b < 2 ^ 32 \<Longrightarrow> unat (of_nat a + of_nat b :: u32) = a + b"
  by (simp add: unat_of_nat unat_word_ariths mod_simps)

lemma packed_as_body:
  assumes arr: "as_arr v = Ok arr" and pf: "has_flag f FLAG_PACKED" and n: "n \<noteq> 0"
    and o: "out \<le> length mem"
    and moved: "\<And>at mem moved mem'. packed_payload (fd_type f) n arr at mem = Ok (moved, mem')
      \<Longrightarrow> at \<le> length mem \<Longrightarrow> moved < 2 ^ 31"
  shows "repeated_field_pack pk f n v out mem = bindR (tag_pack (fd_id f) out mem) (\<lambda>(rv, mem).
    with_wire_type WIRE_TYPE_LENGTH_PREFIXED rv (packed_body (fd_type f) n arr) out mem)"
proof -
  let ?j = "unat (uint32_size (ucast (ucast (get_type_min_size (fd_type f)) * n)))"
  have step: "bindR (guardR (out + (rv + ?j) \<le> length m)) (\<lambda>_.
      bindR (packed_payload (fd_type f) n arr (out + (rv + ?j)) m) (\<lambda>(moved, mem).
      let payload_len = of_nat moved :: u32; actual_length_size = unat (uint32_size payload_len) in
      bindR (if ?j \<noteq> actual_length_size then
          bindR (guardR (actual_length_size = ?j + 1)) (\<lambda>_.
          bindR (memmove (out + (rv + ?j) + 1) (out + (rv + ?j)) (unat payload_len) mem) (\<lambda>mem.
          Ok (rv + ?j + 1, mem)))
        else Ok (rv + ?j, mem)) (\<lambda>(header_len, mem).
      bindR (uint32_pack payload_len (out + rv) mem) (\<lambda>(_, mem).
      Ok (unat (of_nat header_len + payload_len), mem)))))
    = bindR (packed_body (fd_type f) n arr (out + rv) m) (\<lambda>(n, mem). Ok (rv + n, mem))"
    if rv: "rv \<le> 5" for rv m
  proof (cases "out + (rv + ?j) \<le> length m")
    case True
    show ?thesis
    proof (cases "packed_payload (fd_type f) n arr (out + (rv + ?j)) m")
      case (Ok x)
      obtain mv m3 where x: "x = (mv, m3)" by (cases x)
      let ?k = "unat (uint32_size (of_nat mv))"
      have mv: "mv < 2 ^ 31" using moved [OF Ok [unfolded x] True] .
      then have u: "unat (of_nat mv :: u32) = mv" by (simp add: unat_of_nat)
      have s: "unat (of_nat (rv + ?k) + of_nat mv :: u32) = rv + (?k + mv)"
        using unat_small_sum [of "rv + ?k" mv] unat_size_le [of "of_nat mv"] rv mv by simp
      consider "?k = ?j" | "?k = ?j + 1" | "?k \<noteq> ?j" "?k \<noteq> ?j + 1" by auto
      then show ?thesis
      proof cases
        case 1
        then show ?thesis using True Ok x s
          by (simp add: packed_body_def Let_def add.assoc bindR_assoc split_def)
      next
        case 2
        have c: "(out + (rv + ?j) + 1) = out + (rv + (?j + 1))" "rv + ?j + 1 = rv + (?j + 1)" by simp_all
        show ?thesis using True Ok x s u 2 unfolding c
          by (simp add: packed_body_def Let_def bindR_assoc split_def) (simp add: ac_simps)
      next
        case 3
        then show ?thesis using True Ok x by (simp add: packed_body_def Let_def add.assoc)
      qed
    qed (use True in \<open>simp_all add: packed_body_def Let_def add.assoc\<close>)
  qed (simp add: packed_body_def Let_def add.assoc)
  show ?thesis unfolding repeated_field_pack_def with_wire_type_def
    using arr pf n step tag_pack_length [OF _ o, of "fd_id f"]
    by (auto simp: Let_def intro!: bindR_cong)
qed

lemma emits_agree: "(\<And>p m. p \<le> length m \<Longrightarrow> f p m = g p m) \<Longrightarrow> emits g bs \<Longrightarrow> emits f bs"
  by (simp add: emits_def)

lemma packs_repeated:
  assumes "\<And>m. packs (e m) (pk m)"
  shows "packs (enc_repeated e f n v) (repeated_field_pack pk f n v)"
proof (cases "as_arr v")
  case arr: (Ok arr)
  show ?thesis
  proof (cases "elements n arr")
    case vs: (Ok vs)
    note len = elements_length [OF vs]
    show ?thesis
    proof (cases "has_flag f FLAG_PACKED")
      case pf: True
      show ?thesis
      proof (cases "n = 0")
        case True
        then show ?thesis using arr vs len pf emits_nil
          by (simp add: enc_repeated_def repeated_field_pack_def [abs_def])
      next
        case n: False
        then have ne: "vs \<noteq> []" using len by auto
        show ?thesis unfolding packs_def
        proof (intro allI impI)
          fix bs assume "enc_repeated e f n v = Ok bs"
          then obtain body where p: "is_packable_type (fd_type f)"
            and b: "concatR (scalar_bytes (fd_type f)) vs = Ok body" and l: "length body < 2 ^ 31"
            and bs: "bs = tag_bytes (fd_id f) WIRE_TYPE_LENGTH_PREFIXED @ varint (length body) @ body"
            using arr vs ne pf by (auto simp: enc_repeated_def bindR_Ok_iff prefixed_def split: if_splits)
          have pl: "emits (packed_payload (fd_type f) n arr) body"
            using emits_payload [OF p _ l] vs b by simp
          show "emits (repeated_field_pack pk f n v) bs" unfolding bs
          proof (rule emits_agree [OF packed_as_body [OF arr pf n] emits_tagged [OF _ emits_packed_body [OF p vs b l]]])
            fix at mem moved mem'
            assume "packed_payload (fd_type f) n arr at mem = Ok (moved, mem')" "at \<le> length mem"
            then show "moved < 2 ^ 31" using emitsD [OF pl] l by (auto simp: bindR_Ok_iff)
          qed (simp_all add: wire_type_defs)
        qed
      qed
    next
      case False
      then show ?thesis using arr vs packs_all [of vs "enc_required e f" "required_field_pack pk f"] packs_required [OF assms]
        by (simp add: enc_repeated_def repeated_field_pack_def [abs_def])
    qed
  qed (simp_all add: enc_repeated_def arr)
qed (simp_all add: enc_repeated_def)

lemma packs_skip: "packs (if b then Ok [] else e) (\<lambda>p m. if b then Ok (0, m) else f p m)" if "packs e f"
  using that emits_nil by simp

lemma packs_field:
  assumes "\<And>m. packs (e m) (pk m)"
  shows "packs (enc_field e D m f) (field_pack pk D m f)"
  unfolding enc_field_def field_pack_def [abs_def]
proof (rule packs_bind)
  fix a
  note s = packs_bind [OF packs_skip [OF packs_required [OF assms]]]
  show "packs (case a of Required v \<Rightarrow> enc_required e f v
     | Oneof c v \<Rightarrow> bindR (skip_oneof f c v) (\<lambda>s. if s then Ok [] else enc_required e f v)
     | Optional h v \<Rightarrow> bindR (skip_optional f h v) (\<lambda>s. if s then Ok [] else enc_required e f v)
     | Unlabeled v \<Rightarrow> bindR (field_is_zeroish f v) (\<lambda>s. if s then Ok [] else enc_required e f v)
     | Repeated n v \<Rightarrow> enc_repeated e f n v)
    (\<lambda>out mem. case a of Required v \<Rightarrow> required_field_pack pk f v out mem
   | Oneof c v \<Rightarrow> oneof_field_pack pk f c v out mem
   | Optional h v \<Rightarrow> optional_field_pack pk f h v out mem
   | Unlabeled v \<Rightarrow> unlabeled_field_pack pk f v out mem
   | Repeated n v \<Rightarrow> repeated_field_pack pk f n v out mem)"
    using packs_required [OF assms] packs_repeated [OF assms] s
    by (cases a) (simp_all add: oneof_field_pack_def [abs_def] optional_field_pack_def [abs_def]
        unlabeled_field_pack_def [abs_def])
qed

lemma packs_unknown: "packs (enc_unknown u) (unknown_field_pack u)"
proof -
  let ?e = "bindR (raw_data (uf_data u)) (c_prefix (uf_len u))"
  let ?f = "\<lambda>p m. bindR ?e (\<lambda>bs. bindR (write_bytes p bs m) (\<lambda>m. Ok (unat (uf_len u), m)))"
  have "packs (bindR ?e Ok) ?f"
    by (rule packs_bind) (auto simp: bindR_Ok_iff c_prefix_def emits_def min_absorb2 split: if_splits)
  then have "packs ?e ?f" by (cases ?e) simp_all
  from packs_tagged [OF _ this, of "uf_wire_type u" "uf_tag u"] show ?thesis
    by (simp add: enc_unknown_def unknown_field_pack_def [abs_def] with_wire_type_def bindR_assoc)
qed

lemma packs_then: "packs e f \<Longrightarrow> packs e' g
    \<Longrightarrow> packs (bindR e (\<lambda>a. bindR e' (\<lambda>b. Ok (a @ b)))) (andthen f g)"
  by (cases e; cases e') (auto intro: emits_then)

theorem packs_message_pack: "packs (enc_message S d m) (protobuf_c_message_pack S d m)"
proof (induction d arbitrary: m)
  case (Suc d)
  have "packs (bindR (concatR (enc_field (enc_message S d) D m) (md_fields D)) (\<lambda>known.
      bindR (concatR enc_unknown (unknown_fields m)) (\<lambda>unknown. Ok (known @ unknown))))
    (andthen (pack_all (field_pack (protobuf_c_message_pack S d) D m) (md_fields D))
      (pack_all unknown_field_pack (unknown_fields m)))" for D
    by (intro packs_then packs_all packs_field Suc.IH packs_unknown)
  then have "packs (enc_message S (Suc d) m) (\<lambda>out mem. bindR (get_desc S (descriptor m)) (\<lambda>D.
     bindR (guardR (md_magic D = MESSAGE_DESCRIPTOR_MAGIC)) (\<lambda>_.
     andthen (pack_all (field_pack (protobuf_c_message_pack S d) D m) (md_fields D))
      (pack_all unknown_field_pack (unknown_fields m)) out mem)))"
    by (simp only: enc_message.simps) (intro packs_bind)
  then show ?case
    by (simp add: andthen_def [abs_def] protobuf_c_message_pack.simps [abs_def])
qed simp

end
