(* ===== verification/Pb_Size.thy ===== *)
theory Pb_Size
  imports Pb_Wire
begin

text \<open>
  \<^verbatim>\<open>protobuf_c_message_get_packed_size\<close> and its helpers, and that they compute the length of the
  reference encoding modulo \<open>2 ^ 64\<close>.
\<close>

section \<open>The size functions\<close>

text \<open>\<open>uint32_size(len)\<close> with a \<open>size_t\<close> argument truncates it.\<close>

definition length_size :: "u64 \<Rightarrow> u64" where
  "length_size len = uint32_size (ucast len)"

definition required_field_get_packed_size ::
  "(message \<Rightarrow> u64 res) \<Rightarrow> field_desc \<Rightarrow> slot \<Rightarrow> u64 res" where
  "required_field_get_packed_size get_packed_size f member = (let rv = get_tag_size (fd_id f) in
     case fd_type f of
       TYPE_SINT32 \<Rightarrow> bindR (as32 member) (\<lambda>w. Ok (rv + sint32_size w))
     | TYPE_ENUM \<Rightarrow> bindR (as32 member) (\<lambda>w. Ok (rv + int32_size w))
     | TYPE_INT32 \<Rightarrow> bindR (as32 member) (\<lambda>w. Ok (rv + int32_size w))
     | TYPE_UINT32 \<Rightarrow> bindR (as32 member) (\<lambda>w. Ok (rv + uint32_size w))
     | TYPE_SINT64 \<Rightarrow> bindR (as64 member) (\<lambda>w. Ok (rv + sint64_size w))
     | TYPE_INT64 \<Rightarrow> bindR (as64 member) (\<lambda>w. Ok (rv + uint64_size w))
     | TYPE_UINT64 \<Rightarrow> bindR (as64 member) (\<lambda>w. Ok (rv + uint64_size w))
     | TYPE_SFIXED32 \<Rightarrow> Ok (rv + 4)
     | TYPE_FIXED32 \<Rightarrow> Ok (rv + 4)
     | TYPE_SFIXED64 \<Rightarrow> Ok (rv + 8)
     | TYPE_FIXED64 \<Rightarrow> Ok (rv + 8)
     | TYPE_BOOL \<Rightarrow> Ok (rv + 1)
     | TYPE_FLOAT \<Rightarrow> Ok (rv + 4)
     | TYPE_DOUBLE \<Rightarrow> Ok (rv + 8)
     | TYPE_STRING \<Rightarrow> bindR (as_str member) (\<lambda>str.
         bindR (if str = Null then Ok 0 else bindR (c_string f str) (\<lambda>s. Ok (of_nat (length s))))
           (\<lambda>len. Ok (rv + length_size len + len)))
     | TYPE_BYTES \<Rightarrow> bindR (as_bytes member) (\<lambda>(len, _). Ok (rv + length_size len + len))
     | TYPE_MESSAGE \<Rightarrow> bindR (as_msg member) (\<lambda>msg.
         bindR (case msg of None \<Rightarrow> Ok 0 | Some (_, m) \<Rightarrow> get_packed_size m)
           (\<lambda>subrv. Ok (rv + length_size subrv + subrv))))"

definition oneof_field_get_packed_size ::
  "(message \<Rightarrow> u64 res) \<Rightarrow> field_desc \<Rightarrow> u32 \<Rightarrow> slot \<Rightarrow> u64 res" where
  "oneof_field_get_packed_size get_packed_size f oneof_case member =
     bindR (skip_oneof f oneof_case member) (\<lambda>skip.
       if skip then Ok 0 else required_field_get_packed_size get_packed_size f member)"

definition optional_field_get_packed_size ::
  "(message \<Rightarrow> u64 res) \<Rightarrow> field_desc \<Rightarrow> u32 res \<Rightarrow> slot \<Rightarrow> u64 res" where
  "optional_field_get_packed_size get_packed_size f has member =
     bindR (skip_optional f has member) (\<lambda>skip.
       if skip then Ok 0 else required_field_get_packed_size get_packed_size f member)"

definition unlabeled_field_get_packed_size ::
  "(message \<Rightarrow> u64 res) \<Rightarrow> field_desc \<Rightarrow> slot \<Rightarrow> u64 res" where
  "unlabeled_field_get_packed_size get_packed_size f member =
     bindR (field_is_zeroish f member) (\<lambda>zero.
       if zero then Ok 0 else required_field_get_packed_size get_packed_size f member)"

text \<open>\<open>for (...) rv += size(x)\<close>\<close>

fun sum_sizes :: "('a \<Rightarrow> u64 res) \<Rightarrow> 'a list \<Rightarrow> u64 res" where
  "sum_sizes f [] = Ok 0"
| "sum_sizes f (x # xs) = bindR (f x) (\<lambda>n. bindR (sum_sizes f xs) (\<lambda>rv. Ok (n + rv)))"

definition elements_size ::
  "(message \<Rightarrow> u64 res) \<Rightarrow> field_desc \<Rightarrow> u64 \<Rightarrow> (nat \<times> nat \<times> slot list) option \<Rightarrow> u64 res" where
  "elements_size get_packed_size f count arr =
     (let each = (\<lambda>size. bindR (elements count arr) (sum_sizes size)) in
     case fd_type f of
       TYPE_SINT32 \<Rightarrow> each (\<lambda>v. bindR (as32 v) (\<lambda>w. Ok (sint32_size w)))
     | TYPE_ENUM \<Rightarrow> each (\<lambda>v. bindR (as32 v) (\<lambda>w. Ok (int32_size w)))
     | TYPE_INT32 \<Rightarrow> each (\<lambda>v. bindR (as32 v) (\<lambda>w. Ok (int32_size w)))
     | TYPE_UINT32 \<Rightarrow> each (\<lambda>v. bindR (as32 v) (\<lambda>w. Ok (uint32_size w)))
     | TYPE_SINT64 \<Rightarrow> each (\<lambda>v. bindR (as64 v) (\<lambda>w. Ok (sint64_size w)))
     | TYPE_INT64 \<Rightarrow> each (\<lambda>v. bindR (as64 v) (\<lambda>w. Ok (uint64_size w)))
     | TYPE_UINT64 \<Rightarrow> each (\<lambda>v. bindR (as64 v) (\<lambda>w. Ok (uint64_size w)))
     | TYPE_SFIXED32 \<Rightarrow> Ok (4 * count)
     | TYPE_FIXED32 \<Rightarrow> Ok (4 * count)
     | TYPE_FLOAT \<Rightarrow> Ok (4 * count)
     | TYPE_SFIXED64 \<Rightarrow> Ok (8 * count)
     | TYPE_FIXED64 \<Rightarrow> Ok (8 * count)
     | TYPE_DOUBLE \<Rightarrow> Ok (8 * count)
     | TYPE_BOOL \<Rightarrow> Ok count
     | TYPE_STRING \<Rightarrow> each (\<lambda>v. bindR (as_str v) (\<lambda>p. bindR (c_string f p) (\<lambda>s.
         let len = of_nat (length s) in Ok (length_size len + len))))
     | TYPE_BYTES \<Rightarrow> each (\<lambda>v. bindR (as_bytes v) (\<lambda>(len, _). Ok (length_size len + len)))
     | TYPE_MESSAGE \<Rightarrow> each (\<lambda>v. bindR (as_msg v) (\<lambda>msg. case msg of None \<Rightarrow> Fault
         | Some (_, m) \<Rightarrow> bindR (get_packed_size m) (\<lambda>len. Ok (length_size len + len)))))"

definition repeated_field_get_packed_size ::
  "(message \<Rightarrow> u64 res) \<Rightarrow> field_desc \<Rightarrow> u64 \<Rightarrow> slot \<Rightarrow> u64 res" where
  "repeated_field_get_packed_size get_packed_size f count member = bindR (as_arr member) (\<lambda>arr.
     if count = 0 then Ok 0
     else let header_size = get_tag_size (fd_id f);
              header_size = (if has_flag f FLAG_PACKED then header_size else header_size * count) in
       bindR (elements_size get_packed_size f count arr) (\<lambda>rv.
       let header_size = (if has_flag f FLAG_PACKED then header_size + length_size rv
         else header_size) in
       Ok (header_size + rv)))"

definition unknown_field_get_packed_size :: "unknown_field \<Rightarrow> u64" where
  "unknown_field_get_packed_size u = get_tag_size (uf_tag u) + uf_len u"

definition field_size ::
  "(message \<Rightarrow> u64 res) \<Rightarrow> message_desc \<Rightarrow> message \<Rightarrow> field_desc \<Rightarrow> u64 res" where
  "field_size get_packed_size D m f = bindR (field_access D m f) (\<lambda>a. case a of
     Required v \<Rightarrow> required_field_get_packed_size get_packed_size f v
   | Oneof c v \<Rightarrow> oneof_field_get_packed_size get_packed_size f c v
   | Optional h v \<Rightarrow> optional_field_get_packed_size get_packed_size f h v
   | Unlabeled v \<Rightarrow> unlabeled_field_get_packed_size get_packed_size f v
   | Repeated n v \<Rightarrow> repeated_field_get_packed_size get_packed_size f n v)"

fun protobuf_c_message_get_packed_size :: "schema \<Rightarrow> nat \<Rightarrow> message \<Rightarrow> u64 res" where
  "protobuf_c_message_get_packed_size S 0 m = Fault"
| "protobuf_c_message_get_packed_size S (Suc d) m = bindR (get_desc S (descriptor m)) (\<lambda>D.
     bindR (guardR (md_magic D = MESSAGE_DESCRIPTOR_MAGIC)) (\<lambda>_.
     bindR (sum_sizes (field_size (protobuf_c_message_get_packed_size S d) D m) (md_fields D)) (\<lambda>rv.
     bindR (sum_sizes (\<lambda>u. Ok (unknown_field_get_packed_size u)) (unknown_fields m))
       (\<lambda>n. Ok (rv + n)))))"

section \<open>They compute the length of the encoding\<close>

abbreviation sized :: "bytes \<Rightarrow> u64 \<Rightarrow> bool" where
  "sized bs n \<equiv> n = of_nat (length bs)"

lemma length_size_prefix: "n < 2 ^ 32 \<Longrightarrow> length_size (of_nat n) = of_nat (length (varint n))"
  by (simp add: length_size_def uint32_size_varint unat_ucast_mod unat_of_nat)

lemma prefixed_size: "prefixed bs = Ok r \<Longrightarrow>
    length_size (of_nat (length bs)) + of_nat (length bs) = of_nat (length r)"
  by (auto simp: prefixed_def length_size_prefix split: if_splits)

lemma c_prefix_Ok: "c_prefix n bs = Ok r \<longleftrightarrow> unat n \<le> length bs \<and> r = take (unat n) bs"
  by (auto simp: c_prefix_def)

lemma c_prefix_size: "c_prefix n bs = Ok r \<Longrightarrow> of_nat (length r) = n"
  by (auto simp: c_prefix_def min_absorb2 split: if_splits)

lemma sized_bind_prefixed:
  "relR sized a b \<Longrightarrow> relR sized (bindR a (\<lambda>bs. bindR (prefixed bs) (\<lambda>r. Ok (t @ r))))
    (bindR b (\<lambda>len. Ok (of_nat (length t) + length_size len + len)))"
  by (fastforce simp: relR_def bindR_Ok_iff add.assoc prefixed_size)

lemma sized_sum:
  "(\<And>x. x \<in> set xs \<Longrightarrow> relR sized (e x) (s x)) \<Longrightarrow> relR sized (concatR e xs) (sum_sizes s xs)"
  by (induction xs) (auto intro!: relR_bind)

lemma sized_bind_const:
  "(\<And>x. a = Ok x \<Longrightarrow> relR sized (f x) b) \<Longrightarrow> relR sized (bindR a f) b"
  by (cases a) auto

lemma enc_required_prefixed:
  assumes "value_bytes e f v = bindR a prefixed"
  shows "enc_required e f v = bindR a (\<lambda>bs. bindR (prefixed bs) (\<lambda>r.
    Ok (tag_bytes (fd_id f) (wire_type_of (fd_type f)) @ r)))"
  by (simp add: enc_required_def assms bindR_assoc)

lemma size_tag: "get_tag_size (fd_id f) = of_nat (length (tag_bytes (fd_id f) (wire_type_of t)))"
  by (rule tag_size [OF wire_type_less])

lemma data_sized: "relR sized (bindR (c_data f p) (c_prefix n)) (Ok n)"
  by (auto simp: relR_def bindR_Ok_iff c_prefix_size)

lemma required_sized:
  assumes "\<And>m. relR sized (e m) (s m)"
  shows "relR sized (enc_required e f v) (required_field_get_packed_size s f v)"
proof -
  let ?t = "tag_bytes (fd_id f) (wire_type_of (fd_type f))"
  consider "fd_type f = TYPE_STRING" | "fd_type f = TYPE_BYTES" | "fd_type f = TYPE_MESSAGE"
    | "is_packable_type (fd_type f)" by (auto simp: is_packable_type_def)
  then show ?thesis
  proof cases
    case 1
    have "required_field_get_packed_size s f v = bindR (bindR (as_str v)
        (\<lambda>str. if str = Null then Ok 0 else bindR (c_string f str) (\<lambda>s. Ok (of_nat (length s)))))
      (\<lambda>len. Ok (of_nat (length ?t) + length_size len + len))"
      using 1 by (simp add: required_field_get_packed_size_def size_tag [of f "fd_type f"] bindR_assoc)
    moreover have "enc_required e f v = bindR (bindR (as_str v)
        (\<lambda>p. if p = Null then Ok [] else c_string f p)) (\<lambda>bs. bindR (prefixed bs) (\<lambda>r. Ok (?t @ r)))"
      using 1 by (intro enc_required_prefixed) (simp add: value_bytes_def bindR_assoc)
    moreover have "relR sized (c_string f p) (bindR (c_string f p) (\<lambda>s. Ok (of_nat (length s))))" for p
      by (cases "c_string f p") auto
    ultimately show ?thesis by (auto intro!: sized_bind_prefixed relR_bind_same)
  next
    case 2
    have "required_field_get_packed_size s f v = bindR (bindR (as_bytes v) (\<lambda>(n, p). Ok n))
      (\<lambda>len. Ok (of_nat (length ?t) + length_size len + len))"
      using 2 by (simp add: required_field_get_packed_size_def size_tag [of f "fd_type f"] bindR_assoc split_def)
    moreover have "enc_required e f v = bindR (bindR (as_bytes v)
        (\<lambda>(n, p). bindR (c_data f p) (c_prefix n))) (\<lambda>bs. bindR (prefixed bs) (\<lambda>r. Ok (?t @ r)))"
      using 2 by (intro enc_required_prefixed) (simp add: value_bytes_def bindR_assoc split_def)
    ultimately show ?thesis by (auto intro!: sized_bind_prefixed relR_bind_same data_sized)
  next
    case 3
    have "required_field_get_packed_size s f v = bindR (bindR (as_msg v)
        (\<lambda>msg. case msg of None \<Rightarrow> Ok 0 | Some (_, m) \<Rightarrow> s m))
      (\<lambda>len. Ok (of_nat (length ?t) + length_size len + len))"
      using 3 by (simp add: required_field_get_packed_size_def size_tag [of f "fd_type f"] bindR_assoc)
    moreover have "enc_required e f v = bindR (bindR (as_msg v)
        (\<lambda>p. case p of None \<Rightarrow> Ok [] | Some (_, m) \<Rightarrow> e m)) (\<lambda>bs. bindR (prefixed bs) (\<lambda>r. Ok (?t @ r)))"
      using 3 by (intro enc_required_prefixed) (simp add: value_bytes_def bindR_assoc)
    ultimately show ?thesis using assms
      by (auto intro!: sized_bind_prefixed relR_bind_same split: option.split)
  next
    case 4
    then show ?thesis
      by (cases "fd_type f")
        (auto simp: required_field_get_packed_size_def enc_required_def value_bytes_def
          scalar_bytes_def is_packable_type_def bindR_assoc size_tag [of f "fd_type f"] byte_simps
          sint32.size_enc int32.size_enc uint32.size_enc sint64.size_enc uint64.size_enc
          intro!: relR_bind_same sized_bind_const)
  qed
qed

lemma scalars_sized:
  assumes "is_packable_type (fd_type f)"
  shows "relR sized (bindR (elements n arr) (concatR (scalar_bytes (fd_type f)))) (elements_size s f n arr)"
proof -
  have l: "elements n arr = Ok vs \<Longrightarrow> of_nat (length vs) = n" for vs
    by (auto simp: elements_def min_absorb2 split: option.splits if_splits prod.splits)
  have c: "concatR (\<lambda>v. bindR (g v) (\<lambda>w. Ok (h w))) vs = Ok bs \<Longrightarrow> (\<And>w. length (h w) = k)
    \<Longrightarrow> of_nat (length bs) = of_nat k * (of_nat (length vs) :: u64)" for g h k vs bs
    by (induction vs arbitrary: bs) (auto simp: bindR_Ok_iff algebra_simps)
  have sc: "relR sized (bindR (elements n arr) (concatR (\<lambda>v. bindR (g v) (\<lambda>w. Ok (h w)))))
     (Ok (of_nat k * n))" if "\<And>w. length (h w) = k" for g h k
    using c [of g h _ _ k] l that by (fastforce simp: relR_def bindR_Ok_iff)
  show ?thesis using assms sc [of "le_bytes 4" 4] sc [of "le_bytes 8" 8] sc [of "\<lambda>w. [if w \<noteq> 0 then 1 else 0]" 1]
    by (cases "fd_type f")
      (auto simp: elements_size_def scalar_bytes_def [abs_def] is_packable_type_def byte_simps
        sint32.size_enc int32.size_enc uint32.size_enc sint64.size_enc uint64.size_enc
        intro!: relR_bind_same sized_sum)
qed

lemma value_bytes_scalar: "is_packable_type (fd_type f) \<Longrightarrow> value_bytes e f = scalar_bytes (fd_type f)"
  by (cases "fd_type f") (auto simp: value_bytes_def is_packable_type_def)

lemma prefixed_length_size:
  "relR sized (bindR a prefixed) (bindR b (\<lambda>len. Ok (length_size len + len)))" if "relR sized a b"
  using that by (fastforce simp: relR_def bindR_Ok_iff prefixed_size)

text \<open>The sizes of the elements of a repeated field, without their tags.\<close>

lemma values_sized:
  assumes "\<And>m. relR sized (e m) (s m)" and "elements n arr = Ok vs"
    and "\<forall>v\<in>set vs. \<not> null_element (fd_type f) v"
  shows "relR sized (concatR (value_bytes e f) vs) (elements_size s f n arr)"
proof -
  consider "fd_type f = TYPE_STRING" | "fd_type f = TYPE_BYTES" | "fd_type f = TYPE_MESSAGE"
    | "is_packable_type (fd_type f)" by (auto simp: is_packable_type_def)
  then show ?thesis
  proof cases
    case 1
    have "relR sized (value_bytes e f v) (bindR (as_str v) (\<lambda>p. bindR (c_string f p) (\<lambda>s.
      let len = of_nat (length s) in Ok (length_size len + len))))" if "v \<in> set vs" for v
    proof (cases "as_str v")
      case (Ok p)
      then have "p \<noteq> Null" using assms(3) that 1 by (auto simp: null_element_def)
      then show ?thesis using 1 Ok prefixed_length_size [of "c_string f p" "bindR (c_string f p) (\<lambda>s. Ok (of_nat (length s)))"]
        by (cases "c_string f p") (simp_all add: value_bytes_def Let_def)
    qed (simp_all add: value_bytes_def 1)
    then show ?thesis using 1 assms(2) by (simp add: elements_size_def sized_sum)
  next
    case 2
    have "relR sized (value_bytes e f v) (bindR (as_bytes v) (\<lambda>(len, _). Ok (length_size len + len)))" for v
      using 2 prefixed_length_size [OF data_sized]
      by (auto simp: value_bytes_def intro!: relR_bind_same)
    then show ?thesis using 2 assms(2) by (simp add: elements_size_def sized_sum)
  next
    case 3
    have "relR sized (value_bytes e f v) (bindR (as_msg v) (\<lambda>msg. case msg of None \<Rightarrow> Fault
         | Some (_, m) \<Rightarrow> bindR (s m) (\<lambda>len. Ok (length_size len + len))))" if "v \<in> set vs" for v
      using 3 assms(1,3) that prefixed_length_size [OF assms(1)]
      by (auto simp: value_bytes_def null_element_def split: option.split intro!: relR_bind_same)
    then show ?thesis using 3 assms(2) by (simp add: elements_size_def sized_sum)
  next
    case 4
    then show ?thesis using scalars_sized [OF 4, of n arr s] assms(2) by (simp add: value_bytes_scalar)
  qed
qed

lemma concat_required:
  assumes "concatR (enc_required e f) vs = Ok bs"
  shows "\<exists>body. concatR (value_bytes e f) vs = Ok body
    \<and> length bs = length vs * length (tag_bytes (fd_id f) (wire_type_of (fd_type f))) + length body"
  using assms
  by (induction vs arbitrary: bs) (fastforce simp: bindR_Ok_iff enc_required_def)+

lemma repeated_sized:
  assumes "\<And>m. relR sized (e m) (s m)"
  shows "relR sized (enc_repeated e f n v) (repeated_field_get_packed_size s f n v)"
  unfolding enc_repeated_def repeated_field_get_packed_size_def
proof (rule relR_bind_same)
  fix arr
  let ?E = "\<lambda>vs. if has_flag f FLAG_PACKED then if vs = [] then Ok [] else if \<not> is_packable_type (fd_type f) then Fault
       else bindR (concatR (scalar_bytes (fd_type f)) vs) (\<lambda>body. bindR (prefixed body)
           (\<lambda>bs. Ok (tag_bytes (fd_id f) WIRE_TYPE_LENGTH_PREFIXED @ bs)))
     else if \<exists>v\<in>set vs. null_element (fd_type f) v then Fault else concatR (enc_required e f) vs"
  let ?s = "if n = 0 then Ok 0
     else let header_size = get_tag_size (fd_id f);
              header_size = (if has_flag f FLAG_PACKED then header_size else header_size * n) in
       bindR (elements_size s f n arr) (\<lambda>rv.
       let header_size = (if has_flag f FLAG_PACKED then header_size + length_size rv
         else header_size) in Ok (header_size + rv))"
  show "relR sized (bindR (elements n arr) ?E) ?s"
  proof (cases "elements n arr")
    case (Ok vs)
    note len = elements_length [OF Ok]
    show ?thesis
    proof (cases "n = 0")
      case True
      then show ?thesis using Ok len by auto
    next
      case False
      then have ne: "vs \<noteq> []" using len by auto
      show ?thesis
      proof (cases "has_flag f FLAG_PACKED")
        case True
        have "relR sized (concatR (scalar_bytes (fd_type f)) vs) (elements_size s f n arr)"
          if "is_packable_type (fd_type f)"
          using scalars_sized [OF that, of n arr s] Ok by simp
        from sized_bind_prefixed [OF this] show ?thesis
          using True Ok ne False tag_size [of 2 "fd_id f"]
          by (auto simp: wire_type_defs Let_def)
      next
        case F: False
        have "relR sized (concatR (enc_required e f) vs)
            (bindR (elements_size s f n arr) (\<lambda>rv. Ok (get_tag_size (fd_id f) * n + rv)))"
          if nn: "\<forall>v\<in>set vs. \<not> null_element (fd_type f) v"
        proof (cases "concatR (enc_required e f) vs")
          case E: (Ok bs)
          obtain body where b: "concatR (value_bytes e f) vs = Ok body" and l: "length bs =
              length vs * length (tag_bytes (fd_id f) (wire_type_of (fd_type f))) + length body"
            using concat_required [OF E] by auto
          show ?thesis
            using relR_D [OF values_sized [OF assms Ok nn] b] E l len
            by (auto simp: size_tag [of f "fd_type f"] mult.commute)
        qed simp_all
        then show ?thesis using F Ok ne False by (auto simp: Let_def)
      qed
    qed
  qed simp_all
qed

lemma field_sized:
  assumes "\<And>m. relR sized (e m) (s m)"
  shows "relR sized (enc_field e D m f) (field_size s D m f)"
  unfolding enc_field_def field_size_def
  by (auto intro!: relR_bind_same required_sized [OF assms] repeated_sized [OF assms]
      simp: oneof_field_get_packed_size_def optional_field_get_packed_size_def
        unlabeled_field_get_packed_size_def split: access.split)

lemma unknown_sized: "relR sized (enc_unknown u) (Ok (unknown_field_get_packed_size u))"
  by (auto simp: relR_def enc_unknown_def bindR_Ok_iff unknown_field_get_packed_size_def
      tag_size c_prefix_size split: if_splits)

theorem packed_size:
  "relR sized (enc_message S d m) (protobuf_c_message_get_packed_size S d m)"
proof (induction d arbitrary: m)
  case (Suc d)
  then show ?case
    by (auto intro!: relR_bind_same relR_bind [OF sized_sum [OF field_sized]]
        relR_bind [OF sized_sum [OF unknown_sized]])
qed simp

end
