(* ===== verification/Pb_Pack_Buffer.thy ===== *)
theory Pb_Pack_Buffer
  imports Pb_Buffer Pb_Pack Pb_Size
begin

text \<open>
  \<^verbatim>\<open>protobuf_c_message_pack_to_buffer\<close> and its helpers: serialising into a buffer through its
  \<^verbatim>\<open>append\<close> function, with small scratch blocks on the stack, whose first contents do not matter.
\<close>

section \<open>The packing functions\<close>

definition MAX_UINT64_ENCODED_SIZE :: nat where "MAX_UINT64_ENCODED_SIZE = 10"

text \<open>\<open>scratch[0] |= wire_type; rv += f(scratch + rv); buffer->append(buffer, rv, scratch);\<close>\<close>

definition append_header ::
  "(bytes \<Rightarrow> 'b \<Rightarrow> 'b res) \<Rightarrow> nat \<Rightarrow> nat \<Rightarrow> packer \<Rightarrow> bytes \<Rightarrow> 'b \<Rightarrow> (u64 \<times> 'b) res" where
  "append_header app wt rv f scratch b =
     bindR (with_wire_type wt rv f 0 scratch) (\<lambda>(rv, scratch).
     bindR (app (take rv scratch) b) (\<lambda>b. Ok (of_nat rv, b)))"

definition required_field_pack_to_buffer ::
  "(bytes \<Rightarrow> 'b \<Rightarrow> 'b res) \<Rightarrow> (message \<Rightarrow> u64 res) \<Rightarrow> (message \<Rightarrow> 'b \<Rightarrow> (u64 \<times> 'b) res)
    \<Rightarrow> field_desc \<Rightarrow> slot \<Rightarrow> 'b \<Rightarrow> (u64 \<times> 'b) res" where
  "required_field_pack_to_buffer app get_packed_size pack_to_buffer f member b =
     bindR (tag_pack (fd_id f) 0 (replicate (MAX_UINT64_ENCODED_SIZE * 2) 0)) (\<lambda>(rv, scratch).
     let varint = (\<lambda>pack. append_header app WIRE_TYPE_VARINT rv pack scratch b);
         prefix = (\<lambda>len :: u64. append_header app WIRE_TYPE_LENGTH_PREFIXED rv
           (uint32_pack (ucast len)) scratch b) in
     case fd_type f of
       TYPE_SINT32 \<Rightarrow> varint (pack32 sint32_pack member)
     | TYPE_ENUM \<Rightarrow> varint (pack32 int32_pack member)
     | TYPE_INT32 \<Rightarrow> varint (pack32 int32_pack member)
     | TYPE_UINT32 \<Rightarrow> varint (pack32 uint32_pack member)
     | TYPE_SINT64 \<Rightarrow> varint (pack64 sint64_pack member)
     | TYPE_INT64 \<Rightarrow> varint (pack64 uint64_pack member)
     | TYPE_UINT64 \<Rightarrow> varint (pack64 uint64_pack member)
     | TYPE_SFIXED32 \<Rightarrow> append_header app WIRE_TYPE_32BIT rv (pack32 fixed32_pack member) scratch b
     | TYPE_FIXED32 \<Rightarrow> append_header app WIRE_TYPE_32BIT rv (pack32 fixed32_pack member) scratch b
     | TYPE_FLOAT \<Rightarrow> append_header app WIRE_TYPE_32BIT rv (pack32 fixed32_pack member) scratch b
     | TYPE_SFIXED64 \<Rightarrow> append_header app WIRE_TYPE_64BIT rv (pack64 fixed64_pack member) scratch b
     | TYPE_FIXED64 \<Rightarrow> append_header app WIRE_TYPE_64BIT rv (pack64 fixed64_pack member) scratch b
     | TYPE_DOUBLE \<Rightarrow> append_header app WIRE_TYPE_64BIT rv (pack64 fixed64_pack member) scratch b
     | TYPE_BOOL \<Rightarrow> varint (pack32 boolean_pack member)
     | TYPE_STRING \<Rightarrow> bindR (as_str member) (\<lambda>str.
         bindR (if str = Null then Ok [] else c_string f str) (\<lambda>s.
         let sublen = of_nat (length s) in
         bindR (prefix sublen) (\<lambda>(rv, b). bindR (app s b) (\<lambda>b. Ok (rv + sublen, b)))))
     | TYPE_BYTES \<Rightarrow> bindR (as_bytes member) (\<lambda>(sublen, data).
         bindR (prefix sublen) (\<lambda>(rv, b).
         bindR (bindR (c_data f data) (c_prefix sublen)) (\<lambda>bs.
         bindR (app bs b) (\<lambda>b. Ok (rv + sublen, b)))))
     | TYPE_MESSAGE \<Rightarrow> bindR (as_msg member) (\<lambda>msg. case msg of
         None \<Rightarrow> prefix 0
       | Some (_, m) \<Rightarrow> bindR (get_packed_size m) (\<lambda>sublen.
           bindR (prefix sublen) (\<lambda>(rv, b).
           bindR (pack_to_buffer m b) (\<lambda>(_, b). Ok (rv + sublen, b))))))"

definition oneof_field_pack_to_buffer ::
  "(bytes \<Rightarrow> 'b \<Rightarrow> 'b res) \<Rightarrow> (message \<Rightarrow> u64 res) \<Rightarrow> (message \<Rightarrow> 'b \<Rightarrow> (u64 \<times> 'b) res)
    \<Rightarrow> field_desc \<Rightarrow> u32 \<Rightarrow> slot \<Rightarrow> 'b \<Rightarrow> (u64 \<times> 'b) res" where
  "oneof_field_pack_to_buffer app get_packed_size pack_to_buffer f oneof_case member b =
     bindR (skip_oneof f oneof_case member) (\<lambda>skip. if skip then Ok (0, b)
       else required_field_pack_to_buffer app get_packed_size pack_to_buffer f member b)"

definition optional_field_pack_to_buffer ::
  "(bytes \<Rightarrow> 'b \<Rightarrow> 'b res) \<Rightarrow> (message \<Rightarrow> u64 res) \<Rightarrow> (message \<Rightarrow> 'b \<Rightarrow> (u64 \<times> 'b) res)
    \<Rightarrow> field_desc \<Rightarrow> u32 res \<Rightarrow> slot \<Rightarrow> 'b \<Rightarrow> (u64 \<times> 'b) res" where
  "optional_field_pack_to_buffer app get_packed_size pack_to_buffer f has member b =
     bindR (skip_optional f has member) (\<lambda>skip. if skip then Ok (0, b)
       else required_field_pack_to_buffer app get_packed_size pack_to_buffer f member b)"

definition unlabeled_field_pack_to_buffer ::
  "(bytes \<Rightarrow> 'b \<Rightarrow> 'b res) \<Rightarrow> (message \<Rightarrow> u64 res) \<Rightarrow> (message \<Rightarrow> 'b \<Rightarrow> (u64 \<times> 'b) res)
    \<Rightarrow> field_desc \<Rightarrow> slot \<Rightarrow> 'b \<Rightarrow> (u64 \<times> 'b) res" where
  "unlabeled_field_pack_to_buffer app get_packed_size pack_to_buffer f member b =
     bindR (field_is_zeroish f member) (\<lambda>zero. if zero then Ok (0, b)
       else required_field_pack_to_buffer app get_packed_size pack_to_buffer f member b)"

text \<open>\<open>rv\<close> and \<open>count\<close> are \<open>unsigned\<close>, so sums and products are taken modulo \<open>2 ^ 32\<close>.\<close>

definition get_packed_payload_length ::
  "ProtobufCType \<Rightarrow> u32 \<Rightarrow> (nat \<times> nat \<times> slot list) option \<Rightarrow> u64 res" where
  "get_packed_payload_length t count arr =
     (let each = (\<lambda>size. bindR (elements (ucast count) arr) (\<lambda>vs.
            bindR (sum_sizes size vs) (\<lambda>rv. Ok (ucast (ucast rv :: u32))))) in
     case t of
       TYPE_SFIXED32 \<Rightarrow> Ok (ucast (count * 4)) | TYPE_FIXED32 \<Rightarrow> Ok (ucast (count * 4))
     | TYPE_FLOAT \<Rightarrow> Ok (ucast (count * 4))
     | TYPE_SFIXED64 \<Rightarrow> Ok (ucast (count * 8)) | TYPE_FIXED64 \<Rightarrow> Ok (ucast (count * 8))
     | TYPE_DOUBLE \<Rightarrow> Ok (ucast (count * 8))
     | TYPE_ENUM \<Rightarrow> each (\<lambda>v. bindR (as32 v) (\<lambda>w. Ok (int32_size w)))
     | TYPE_INT32 \<Rightarrow> each (\<lambda>v. bindR (as32 v) (\<lambda>w. Ok (int32_size w)))
     | TYPE_SINT32 \<Rightarrow> each (\<lambda>v. bindR (as32 v) (\<lambda>w. Ok (sint32_size w)))
     | TYPE_UINT32 \<Rightarrow> each (\<lambda>v. bindR (as32 v) (\<lambda>w. Ok (uint32_size w)))
     | TYPE_SINT64 \<Rightarrow> each (\<lambda>v. bindR (as64 v) (\<lambda>w. Ok (sint64_size w)))
     | TYPE_INT64 \<Rightarrow> each (\<lambda>v. bindR (as64 v) (\<lambda>w. Ok (uint64_size w)))
     | TYPE_UINT64 \<Rightarrow> each (\<lambda>v. bindR (as64 v) (\<lambda>w. Ok (uint64_size w)))
     | TYPE_BOOL \<Rightarrow> Ok (ucast count)
     | _ \<Rightarrow> Fault)"

text \<open>One element at a time through \<open>scratch[16]\<close>.\<close>

fun append_each ::
  "(bytes \<Rightarrow> 'b \<Rightarrow> 'b res) \<Rightarrow> (slot \<Rightarrow> packer) \<Rightarrow> slot list \<Rightarrow> 'b \<Rightarrow> (u64 \<times> 'b) res" where
  "append_each app pack [] b = Ok (0, b)"
| "append_each app pack (v # vs) b = bindR (pack v 0 (replicate 16 0)) (\<lambda>(len, scratch).
     bindR (app (take len scratch) b) (\<lambda>b.
     bindR (append_each app pack vs b) (\<lambda>(rv, b). Ok (of_nat len + rv, b))))"

definition pack_buffer_packed_payload ::
  "(bytes \<Rightarrow> 'b \<Rightarrow> 'b res) \<Rightarrow> ProtobufCType \<Rightarrow> u32 \<Rightarrow> (nat \<times> nat \<times> slot list) option
    \<Rightarrow> 'b \<Rightarrow> (u64 \<times> 'b) res" where
  "pack_buffer_packed_payload app t count arr b =
     (let whole = (\<lambda>k elem. let rv = ucast (count * k) in
            bindR (elements (rv div ucast k) arr) (\<lambda>vs. bindR (concatR elem vs) (\<lambda>bs.
            bindR (app bs b) (\<lambda>b. Ok (rv, b)))));
          whole32 = whole 4 (\<lambda>v. bindR (as32 v) (\<lambda>w. Ok (le_bytes 4 w)));
          whole64 = whole 8 (\<lambda>v. bindR (as64 v) (\<lambda>w. Ok (le_bytes 8 w)));
          each = (\<lambda>pack. bindR (elements (ucast count) arr) (\<lambda>vs. append_each app pack vs b)) in
     case t of
       TYPE_SFIXED32 \<Rightarrow> whole32 | TYPE_FIXED32 \<Rightarrow> whole32 | TYPE_FLOAT \<Rightarrow> whole32
     | TYPE_SFIXED64 \<Rightarrow> whole64 | TYPE_FIXED64 \<Rightarrow> whole64 | TYPE_DOUBLE \<Rightarrow> whole64
     | TYPE_ENUM \<Rightarrow> each (pack32 int32_pack) | TYPE_INT32 \<Rightarrow> each (pack32 int32_pack)
     | TYPE_SINT32 \<Rightarrow> each (pack32 sint32_pack) | TYPE_UINT32 \<Rightarrow> each (pack32 uint32_pack)
     | TYPE_SINT64 \<Rightarrow> each (pack64 sint64_pack)
     | TYPE_INT64 \<Rightarrow> each (pack64 uint64_pack) | TYPE_UINT64 \<Rightarrow> each (pack64 uint64_pack)
     | TYPE_BOOL \<Rightarrow> bindR (each (pack32 boolean_pack)) (\<lambda>(_, b). Ok (ucast count, b))
     | _ \<Rightarrow> Fault)"

text \<open>\<open>for (...) rv += f(x, buffer)\<close>\<close>

fun buffer_all :: "('a \<Rightarrow> 'b \<Rightarrow> (u64 \<times> 'b) res) \<Rightarrow> 'a list \<Rightarrow> 'b \<Rightarrow> (u64 \<times> 'b) res" where
  "buffer_all f [] b = Ok (0, b)"
| "buffer_all f (x # xs) b = bindR (f x b) (\<lambda>(n, b).
     bindR (buffer_all f xs b) (\<lambda>(rv, b). Ok (n + rv, b)))"

definition repeated_field_pack_to_buffer ::
  "(bytes \<Rightarrow> 'b \<Rightarrow> 'b res) \<Rightarrow> (message \<Rightarrow> u64 res) \<Rightarrow> (message \<Rightarrow> 'b \<Rightarrow> (u64 \<times> 'b) res)
    \<Rightarrow> field_desc \<Rightarrow> u32 \<Rightarrow> slot \<Rightarrow> 'b \<Rightarrow> (u64 \<times> 'b) res" where
  "repeated_field_pack_to_buffer app get_packed_size pack_to_buffer f count member b =
     bindR (as_arr member) (\<lambda>arr.
     if count = 0 then Ok (0, b)
     else if has_flag f FLAG_PACKED then
       bindR (tag_pack (fd_id f) 0 (replicate (MAX_UINT64_ENCODED_SIZE * 2) 0)) (\<lambda>(rv, scratch).
       bindR (get_packed_payload_length (fd_type f) count arr) (\<lambda>payload_len.
       bindR (append_header app WIRE_TYPE_LENGTH_PREFIXED rv (uint32_pack (ucast payload_len)) scratch b)
         (\<lambda>(rv, b).
       bindR (pack_buffer_packed_payload app (fd_type f) count arr b) (\<lambda>(tmp, b).
       bindR (guardR (tmp = payload_len)) (\<lambda>_. Ok (rv + payload_len, b))))))
     else bindR (elements (ucast count) arr) (\<lambda>vs.
       bindR (buffer_all (required_field_pack_to_buffer app get_packed_size pack_to_buffer f) vs b)
         (\<lambda>(rv, b). Ok (ucast (ucast rv :: u32), b))))"

definition unknown_field_pack_to_buffer ::
  "(bytes \<Rightarrow> 'b \<Rightarrow> 'b res) \<Rightarrow> unknown_field \<Rightarrow> 'b \<Rightarrow> (u64 \<times> 'b) res" where
  "unknown_field_pack_to_buffer app u b =
     bindR (tag_pack (uf_tag u) 0 (replicate MAX_UINT64_ENCODED_SIZE 0)) (\<lambda>(rv, header).
     bindR (or_byte 0 (of_nat (uf_wire_type u)) header) (\<lambda>header.
     bindR (app (take rv header) b) (\<lambda>b.
     bindR (bindR (raw_data (uf_data u)) (c_prefix (uf_len u))) (\<lambda>bs.
     bindR (app bs b) (\<lambda>b. Ok (of_nat rv + uf_len u, b))))))"

definition field_pack_to_buffer ::
  "(bytes \<Rightarrow> 'b \<Rightarrow> 'b res) \<Rightarrow> (message \<Rightarrow> u64 res) \<Rightarrow> (message \<Rightarrow> 'b \<Rightarrow> (u64 \<times> 'b) res)
    \<Rightarrow> message_desc \<Rightarrow> message \<Rightarrow> field_desc \<Rightarrow> 'b \<Rightarrow> (u64 \<times> 'b) res" where
  "field_pack_to_buffer app get_packed_size pack_to_buffer D m f b =
     bindR (field_access D m f) (\<lambda>a. case a of
       Required v \<Rightarrow> required_field_pack_to_buffer app get_packed_size pack_to_buffer f v b
     | Oneof c v \<Rightarrow> oneof_field_pack_to_buffer app get_packed_size pack_to_buffer f c v b
     | Optional h v \<Rightarrow> optional_field_pack_to_buffer app get_packed_size pack_to_buffer f h v b
     | Unlabeled v \<Rightarrow> unlabeled_field_pack_to_buffer app get_packed_size pack_to_buffer f v b
     | Repeated n v \<Rightarrow>
         repeated_field_pack_to_buffer app get_packed_size pack_to_buffer f (ucast n) v b)"

fun protobuf_c_message_pack_to_buffer ::
  "(bytes \<Rightarrow> 'b \<Rightarrow> 'b res) \<Rightarrow> schema \<Rightarrow> nat \<Rightarrow> message \<Rightarrow> 'b \<Rightarrow> (u64 \<times> 'b) res" where
  "protobuf_c_message_pack_to_buffer app S 0 m b = Fault"
| "protobuf_c_message_pack_to_buffer app S (Suc d) m b = bindR (get_desc S (descriptor m)) (\<lambda>D.
     bindR (guardR (md_magic D = MESSAGE_DESCRIPTOR_MAGIC)) (\<lambda>_.
     bindR (buffer_all (field_pack_to_buffer app (protobuf_c_message_get_packed_size S d)
         (protobuf_c_message_pack_to_buffer app S d) D m) (md_fields D) b) (\<lambda>(rv, b).
     bindR (buffer_all (unknown_field_pack_to_buffer app) (unknown_fields m) b) (\<lambda>(n, b).
     Ok (rv + n, b)))))"

section \<open>They append the reference encoding\<close>

definition appends :: "('b \<Rightarrow> bool) \<Rightarrow> ('b \<Rightarrow> bytes) \<Rightarrow> ('b \<Rightarrow> nat) \<Rightarrow> bytes res
    \<Rightarrow> ('b \<Rightarrow> (u64 \<times> 'b) res) \<Rightarrow> bool" where
  "appends ready contents room e f \<longleftrightarrow> (\<forall>bs b. e = Ok bs \<longrightarrow> ready b \<longrightarrow> length bs \<le> room b \<longrightarrow>
     (\<exists>b'. f b = Ok (of_nat (length bs), b') \<and> ready b' \<and> contents b' = contents b @ bs
       \<and> room b' = room b - length bs))"

lemma appendsD: "appends ready contents room e f \<Longrightarrow> e = Ok bs \<Longrightarrow> ready b \<Longrightarrow> length bs \<le> room b \<Longrightarrow>
     \<exists>b'. f b = Ok (of_nat (length bs), b') \<and> ready b' \<and> contents b' = contents b @ bs
       \<and> room b' = room b - length bs"
  by (simp add: appends_def)

lemma appends_Fault [simp]: "appends ready contents room Fault f"
  and appends_Hang [simp]: "appends ready contents room Hang f"
  by (simp_all add: appends_def)

lemma appends_nil: "appends ready contents room (Ok []) (\<lambda>b. Ok (0, b))"
  by (simp add: appends_def)

lemma appends_bind: "(\<And>x. a = Ok x \<Longrightarrow> appends ready contents room (e x) (f x))
    \<Longrightarrow> appends ready contents room (bindR a e) (\<lambda>b. bindR a (\<lambda>x. f x b))"
  by (cases a) auto

lemma appends_cong: "(\<And>bs b. e = Ok bs \<Longrightarrow> length bs \<le> room b \<Longrightarrow> f b = g b)
    \<Longrightarrow> appends ready contents room e g \<Longrightarrow> appends ready contents room e f"
  by (simp add: appends_def)

lemma appends_then:
  assumes "appends ready contents room e f" and "appends ready contents room e' g"
  shows "appends ready contents room (bindR e (\<lambda>x. bindR e' (\<lambda>y. Ok (x @ y))))
    (\<lambda>b. bindR (f b) (\<lambda>(n, b). bindR (g b) (\<lambda>(k, b). Ok (n + k, b))))"
  unfolding appends_def
proof (intro allI impI)
  fix bs b
  assume "bindR e (\<lambda>x. bindR e' (\<lambda>y. Ok (x @ y))) = Ok bs" and r: "ready b" and l: "length bs \<le> room b"
  then obtain x y where e: "e = Ok x" "e' = Ok y" "bs = x @ y" by (auto simp: bindR_Ok_iff)
  obtain b1 where b1: "f b = Ok (of_nat (length x), b1)" "ready b1" "contents b1 = contents b @ x"
      "room b1 = room b - length x"
    using appendsD [OF assms(1) e(1) r] l e(3) by auto
  have "length y \<le> room b1" using b1(4) l e(3) by simp
  from appendsD [OF assms(2) e(2) b1(2) this] obtain b2 where "g b1 = Ok (of_nat (length y), b2)" "ready b2"
      "contents b2 = contents b1 @ y" "room b2 = room b1 - length y" by auto
  then show "\<exists>b'. bindR (f b) (\<lambda>(n, b). bindR (g b) (\<lambda>(k, b). Ok (n + k, b))) = Ok (of_nat (length bs), b')
      \<and> ready b' \<and> contents b' = contents b @ bs \<and> room b' = room b - length bs"
    using b1 l e(3) by auto
qed

lemma appends_all:
  "(\<And>x. x \<in> set xs \<Longrightarrow> appends ready contents room (e x) (f x))
    \<Longrightarrow> appends ready contents room (concatR e xs) (buffer_all f xs)"
proof (induction xs)
  case (Cons x xs)
  have "buffer_all f (x # xs) = (\<lambda>b. bindR (f x b) (\<lambda>(n, b). bindR (buffer_all f xs b) (\<lambda>(k, b). Ok (n + k, b))))"
    by (simp add: fun_eq_iff)
  then show ?case using appends_then [OF Cons.prems [of x] Cons.IH] Cons.prems by simp
qed (simp add: appends_def)

text \<open>A header in scratch memory: a tag and at most ten bytes fit into the twenty of the block.\<close>

lemma length_tag_bytes: "wt < 8 \<Longrightarrow> length (tag_bytes i wt) \<le> 5"
proof -
  assume wt: "wt < 8"
  have "unat i < 2 ^ 32" using unsigned_less [of i, where ?'a = nat] by simp
  then have "unat i * 8 + wt < 128 ^ Suc 4" using wt by simp
  from varint_length_le [OF this] show ?thesis by (simp add: tag_bytes_def)
qed

lemma scratch_header:
  assumes "wt < 8" and "emits f bs" and "length bs \<le> 10" and "length scr = 20"
  shows "bindR (tag_pack i 0 scr) (\<lambda>(rv, scr). append_header app wt rv f scr b)
    = bindR (app (tag_bytes i wt @ bs) b) (\<lambda>b. Ok (of_nat (length (tag_bytes i wt @ bs)), b))"
proof -
  have "bindR (tag_pack i 0 scr) (\<lambda>(rv, scr). append_header app wt rv f scr b)
    = bindR (bindR (tag_pack i 0 scr) (\<lambda>(rv, scr). with_wire_type wt rv f 0 scr)) (\<lambda>(rv, scr).
      bindR (app (take rv scr) b) (\<lambda>b. Ok (of_nat rv, b)))"
    by (simp add: append_header_def bindR_assoc split_def)
  moreover have "bindR (tag_pack i 0 scr) (\<lambda>(rv, scr). with_wire_type wt rv f 0 scr)
    = Ok (length (tag_bytes i wt @ bs), (tag_bytes i wt @ bs) @ drop (length (tag_bytes i wt @ bs)) scr)"
    using emits_fits [OF emits_tagged [OF assms(1,2), of i], of 0 scr] length_tag_bytes [OF assms(1), of i] assms(3,4)
    by simp
  ultimately show ?thesis by simp
qed

lemma scalar_max: "is_packable_type t \<Longrightarrow> scalar_bytes t v = Ok b \<Longrightarrow> length b \<le> 10"
  using scalar_length [of t v b] by (auto simp: max_size_def get_type_min_size_def split: if_splits)

context append_buffer
begin

lemma appends_bytes: "appends ready contents room (Ok bs) (\<lambda>b. bindR (append bs b) (\<lambda>b. Ok (of_nat (length bs), b)))"
  using append_adds [of _ bs] by (fastforce simp: appends_def)

lemma appends_header:
  assumes "wt < 8" and "packs e f" and "\<And>bs. e = Ok bs \<Longrightarrow> length bs \<le> 10" and "length scr = 20"
  shows "appends ready contents room (bindR e (\<lambda>bs. Ok (tag_bytes i wt @ bs)))
    (\<lambda>b. bindR (tag_pack i 0 scr) (\<lambda>(rv, scr). append_header append wt rv f scr b))"
proof (cases e)
  case (Ok bs)
  then show ?thesis using scratch_header [OF assms(1) packsD [OF assms(2) Ok] assms(3) [OF Ok] assms(4), of i append]
      appends_bytes [of "tag_bytes i wt @ bs"] by simp
qed simp_all

text \<open>A header with a length, then the body.\<close>

lemma appends_prefixed:
  assumes "appends ready contents room e f" and "length scr = 20" and "wt < 8"
    and len: "\<And>bs. e = Ok bs \<Longrightarrow> len = of_nat (length bs)"
  shows "appends ready contents room (bindR e (\<lambda>bs. bindR (prefixed bs) (\<lambda>r. Ok (tag_bytes i wt @ r))))
    (\<lambda>b. bindR (tag_pack i 0 scr) (\<lambda>(rv, scr).
      bindR (append_header append wt rv (uint32_pack (ucast len)) scr b) (\<lambda>(rv, b).
      bindR (f b) (\<lambda>(_, b). Ok (rv + len, b)))))"
proof (cases e)
  case (Ok bs)
  show ?thesis
  proof (cases "length bs < 2 ^ 31")
    case True
    have "emits (uint32_pack (ucast len)) (varint (length bs))"
      using emits_uint32_pack [of "ucast len"] True len [OF Ok] by (simp add: unat_ucast_mod unat_of_nat)
    moreover have "length (varint (length bs)) \<le> 10"
      using varint_length_32 [of "of_nat (length bs)"] True by (simp add: unat_of_nat)
    ultimately have h: "bindR (tag_pack i 0 scr) (\<lambda>(rv, scr). append_header append wt rv (uint32_pack (ucast len)) scr b)
      = bindR (append (tag_bytes i wt @ varint (length bs)) b)
        (\<lambda>b. Ok (of_nat (length (tag_bytes i wt @ varint (length bs))), b))" for b
      using assms(2,3) by (intro scratch_header)
    have "appends ready contents room e (\<lambda>b. bindR (f b) (\<lambda>(_, b). Ok (len, b)))"
      using assms(1) len by (fastforce simp: appends_def)
    from appends_then [OF appends_bytes this, of "tag_bytes i wt @ varint (length bs)"] h
    have "appends ready contents room (Ok (tag_bytes i wt @ varint (length bs) @ bs))
      (\<lambda>b. bindR (bindR (tag_pack i 0 scr) (\<lambda>(rv, scr). append_header append wt rv (uint32_pack (ucast len)) scr b))
        (\<lambda>(n, b). bindR (f b) (\<lambda>(_, b). Ok (n + len, b))))"
      by (simp add: Ok bindR_assoc split_def)
    then show ?thesis using True by (simp add: Ok prefixed_def bindR_assoc split_def)
  qed (simp add: Ok prefixed_def)
qed simp_all

end

lemma value_bytes_max: "is_packable_type (fd_type f) \<Longrightarrow> value_bytes e f v = Ok bs \<Longrightarrow> length bs \<le> 10"
  using scalar_max by (simp add: value_bytes_scalar)

context append_buffer
begin

lemma appends_required:
  assumes sz: "\<And>m. relR sized (e m) (gps m)" and pb: "\<And>m. appends ready contents room (e m) (ptb m)"
  shows "appends ready contents room (enc_required e f v) (required_field_pack_to_buffer append gps ptb f v)"
proof -
  have scr: "length (replicate (MAX_UINT64_ENCODED_SIZE * 2) 0 :: bytes) = 20"
    by (simp add: MAX_UINT64_ENCODED_SIZE_def)
  note pre = appends_prefixed [OF _ scr wire_type_less [of "fd_type f"], where i = "fd_id f"]
  consider "fd_type f = TYPE_STRING" | "fd_type f = TYPE_BYTES" | "fd_type f = TYPE_MESSAGE"
    | "is_packable_type (fd_type f)" by (auto simp: is_packable_type_def)
  then show ?thesis
  proof cases
    case 1
    have enc: "enc_required e f v = bindR (bindR (as_str v) (\<lambda>p. if p = Null then Ok [] else c_string f p))
      (\<lambda>s. bindR (prefixed s) (\<lambda>r. Ok (tag_bytes (fd_id f) (wire_type_of (fd_type f)) @ r)))"
      using 1 by (simp add: enc_required_def value_bytes_def bindR_assoc)
    show ?thesis
    proof (cases "bindR (as_str v) (\<lambda>p. if p = Null then Ok [] else c_string f p)")
      case (Ok s)
      then obtain p where p: "as_str v = Ok p" "(if p = Null then Ok [] else c_string f p) = Ok s"
        by (auto simp: bindR_Ok_iff)
      have "required_field_pack_to_buffer append gps ptb f v b =
        bindR (tag_pack (fd_id f) 0 (replicate (MAX_UINT64_ENCODED_SIZE * 2) 0)) (\<lambda>(rv, scr).
        bindR (append_header append (wire_type_of (fd_type f)) rv (uint32_pack (ucast (of_nat (length s) :: u64))) scr b)
        (\<lambda>(rv, b). bindR (bindR (append s b) (\<lambda>b. Ok (of_nat (length s) :: u64, b)))
          (\<lambda>(_, b). Ok (rv + of_nat (length s), b))))" for b
        using 1 p by (simp add: required_field_pack_to_buffer_def wire_type_of_def Let_def bindR_assoc)
      then show ?thesis using pre [OF appends_bytes, of s "of_nat (length s)"] unfolding enc Ok
        by (simp add: appends_def)
    qed (simp_all add: enc)
  next
    case 2
    have enc: "enc_required e f v = bindR (bindR (as_bytes v) (\<lambda>(n, p). bindR (c_data f p) (c_prefix n)))
      (\<lambda>s. bindR (prefixed s) (\<lambda>r. Ok (tag_bytes (fd_id f) (wire_type_of (fd_type f)) @ r)))"
      using 2 by (simp add: enc_required_def value_bytes_def bindR_assoc split_def)
    show ?thesis
    proof (cases "bindR (as_bytes v) (\<lambda>(n, p). bindR (c_data f p) (c_prefix n))")
      case (Ok s)
      then obtain n p d where p: "as_bytes v = Ok (n, p)" "c_data f p = Ok d" "c_prefix n d = Ok s"
        by (auto simp: bindR_Ok_iff split: prod.splits)
      then have n: "n = of_nat (length s)" by (auto simp: bindR_Ok_iff c_prefix_size)
      have "required_field_pack_to_buffer append gps ptb f v b =
        bindR (tag_pack (fd_id f) 0 (replicate (MAX_UINT64_ENCODED_SIZE * 2) 0)) (\<lambda>(rv, scr).
        bindR (append_header append (wire_type_of (fd_type f)) rv (uint32_pack (ucast n)) scr b)
        (\<lambda>(rv, b). bindR (bindR (append s b) (\<lambda>b. Ok (of_nat (length s) :: u64, b)))
          (\<lambda>(_, b). Ok (rv + n, b))))" for b
        using 2 p by (simp add: required_field_pack_to_buffer_def wire_type_of_def Let_def bindR_assoc)
      then show ?thesis using pre [OF appends_bytes, of s n] n unfolding enc Ok
        by (simp add: appends_def)
    qed (simp_all add: enc)
  next
    case 3
    have enc: "enc_required e f v = bindR (bindR (as_msg v) (\<lambda>p. case p of None \<Rightarrow> Ok [] | Some (_, m) \<Rightarrow> e m))
      (\<lambda>s. bindR (prefixed s) (\<lambda>r. Ok (tag_bytes (fd_id f) (wire_type_of (fd_type f)) @ r)))"
      using 3 by (simp add: enc_required_def value_bytes_def bindR_assoc)
    show ?thesis
    proof (cases "as_msg v")
      case (Ok p)
      show ?thesis
      proof (cases p)
        case None
        have "required_field_pack_to_buffer append gps ptb f v b =
          bindR (tag_pack (fd_id f) 0 (replicate (MAX_UINT64_ENCODED_SIZE * 2) 0)) (\<lambda>(rv, scr).
          bindR (append_header append (wire_type_of (fd_type f)) rv (uint32_pack (ucast (0 :: u64))) scr b)
          (\<lambda>(rv, b). bindR (Ok (0 :: u64, b)) (\<lambda>(_, b). Ok (rv + 0, b))))" for b
          using 3 Ok None by (simp add: required_field_pack_to_buffer_def wire_type_of_def Let_def bindR_Ok_right)
        then show ?thesis using pre [OF appends_nil, of 0] unfolding enc Ok None
          by (simp add: appends_def)
      next
        case (Some x)
        obtain i m where x: "x = (i, m)" by (cases x)
        show ?thesis
        proof (cases "e m")
          case E: (Ok s)
          have g: "gps m = Ok (of_nat (length s))" using relR_D [OF sz E] by auto
          have "required_field_pack_to_buffer append gps ptb f v b =
            bindR (tag_pack (fd_id f) 0 (replicate (MAX_UINT64_ENCODED_SIZE * 2) 0)) (\<lambda>(rv, scr).
            bindR (append_header append (wire_type_of (fd_type f)) rv (uint32_pack (ucast (of_nat (length s) :: u64))) scr b)
            (\<lambda>(rv, b). bindR (ptb m b) (\<lambda>(_, b). Ok (rv + of_nat (length s), b))))" for b
            using 3 Ok Some x g by (simp add: required_field_pack_to_buffer_def wire_type_of_def Let_def)
          then show ?thesis using pre [OF pb [of m], of "of_nat (length s)"] E unfolding enc Ok Some x
            by (simp add: appends_def)
        qed (simp_all add: enc Ok Some x)
      qed
    qed (simp_all add: enc)
  next
    case 4
    have h: "packs (value_bytes e f v) pk \<Longrightarrow> appends ready contents room (enc_required e f v)
      (\<lambda>b. bindR (tag_pack (fd_id f) 0 (replicate (MAX_UINT64_ENCODED_SIZE * 2) 0)) (\<lambda>(rv, scr).
        append_header append (wire_type_of (fd_type f)) rv pk scr b))" for pk
      unfolding enc_required_def
      by (rule appends_header [OF wire_type_less _ value_bytes_max [OF 4] scr])
    show ?thesis using 4 h [of "pack32 int32_pack v"] h [of "pack32 sint32_pack v"] h [of "pack32 uint32_pack v"]
        h [of "pack32 fixed32_pack v"] h [of "pack32 boolean_pack v"] h [of "pack64 uint64_pack v"]
        h [of "pack64 sint64_pack v"] h [of "pack64 fixed64_pack v"] packs_scalars
      by (cases "fd_type f") (simp_all add: required_field_pack_to_buffer_def [abs_def] value_bytes_scalar
        scalar_bytes_def [abs_def] wire_type_of_def is_packable_type_def)
  qed
qed

end

lemma elements_less: "elements n arr = Ok vs \<Longrightarrow> unat n < 2 ^ 32"
  by (auto simp: elements_def split: option.splits if_splits prod.splits)

lemma ucast_ucast_id: "unat (n :: u64) < 2 ^ 32 \<Longrightarrow> ucast (ucast n :: u32) = n"
  by (simp add: word_unat_eq_iff unat_ucast_mod)

lemma ucast_times: "ucast (k * n) = (ucast n * ucast k :: u32)" for k n :: u64
  by (simp add: word_unat_eq_iff unat_ucast_mod unat_word_ariths mod_mod_cancel mod_simps mult.commute)

lemma payload_length:
  fixes f :: field_desc
  assumes "is_packable_type (fd_type f)" and "elements n arr = Ok vs"
    and "concatR (scalar_bytes (fd_type f)) vs = Ok body" and "length body < 2 ^ 31"
  shows "get_packed_payload_length (fd_type f) (ucast n) arr = Ok (of_nat (length body))"
proof -
  have n: "ucast (ucast n :: u32) = n" using elements_less [OF assms(2)] by (rule ucast_ucast_id)
  have "get_packed_payload_length (fd_type f) (ucast n) arr
      = bindR (elements_size (\<lambda>_. Fault) f n arr) (\<lambda>rv. Ok (ucast (ucast rv :: u32)))"
    using assms(1) by (cases "fd_type f")
      (simp_all add: get_packed_payload_length_def elements_size_def Let_def is_packable_type_def n
        ucast_times bindR_assoc)
  moreover have "elements_size (\<lambda>_. Fault) f n arr = Ok (of_nat (length body))"
    using relR_D [OF scalars_sized [OF assms(1), of n arr "\<lambda>_. Fault"], of body] assms(2,3) by simp
  moreover have "unat (of_nat (length body) :: u64) < 2 ^ 32" using assms(4) by (simp add: unat_of_nat)
  ultimately show ?thesis using ucast_ucast_id by simp
qed

lemma bools_length: "concatR (scalar_bytes TYPE_BOOL) vs = Ok body \<Longrightarrow> length body = length vs"
  by (induction vs arbitrary: body) (auto simp: bindR_Ok_iff scalar_bytes_def)

context append_buffer
begin

lemma appends_each:
  assumes pk: "\<And>v. packs (e v) (pk v)" and small: "\<And>v bs. e v = Ok bs \<Longrightarrow> length bs \<le> 10"
  shows "appends ready contents room (concatR e vs) (append_each append pk vs)"
proof -
  have one: "appends ready contents room (e v) (\<lambda>b. bindR (pk v 0 (replicate 16 0)) (\<lambda>(len, scratch).
     bindR (append (take len scratch) b) (\<lambda>b. Ok (of_nat len, b))))" for v
  proof (cases "e v")
    case (Ok bs)
    show ?thesis
      using emits_fits [OF packsD [OF pk Ok], of 0 "replicate 16 0"] small [OF Ok] appends_bytes [of bs]
      by (simp add: Ok)
  qed simp_all
  have "append_each append pk vs = buffer_all (\<lambda>v b. bindR (pk v 0 (replicate 16 0)) (\<lambda>(len, scratch).
     bindR (append (take len scratch) b) (\<lambda>b. Ok (of_nat len, b)))) vs"
    by (induction vs) (simp_all add: fun_eq_iff bindR_assoc split_def)
  then show ?thesis using appends_all [OF one] by simp
qed

lemma appends_payload:
  assumes p: "is_packable_type t" and vs: "elements n arr = Ok vs"
    and body: "concatR (scalar_bytes t) vs = Ok body" and l: "length body < 2 ^ 31"
  shows "appends ready contents room (Ok body) (pack_buffer_packed_payload append t (ucast n) arr)"
proof -
  have n: "ucast (ucast n :: u32) = n" using elements_less [OF vs] by (rule ucast_ucast_id)
  have each: "appends ready contents room (Ok body)
      (\<lambda>b. bindR (elements (ucast (ucast n :: u32)) arr) (\<lambda>vs. append_each append pk vs b))"
    if "\<And>v. packs (scalar_bytes t v) (pk v)" for pk
    using appends_each [of "scalar_bytes t" pk vs] that scalar_max [OF p] vs body by (simp add: n)
  have whole: "appends ready contents room (Ok body) (\<lambda>b. bindR (elements (ucast (ucast n * k :: u32) div ucast k) arr)
      (\<lambda>vs. bindR (concatR (scalar_bytes t) vs) (\<lambda>bs. bindR (append bs b) (\<lambda>b. Ok (ucast (ucast n * k :: u32), b)))))"
    if k: "length body = unat k * length vs" "k \<in> {4, 8}" for k
  proof -
    have m: "unat (ucast n * k :: u32) = unat k * length vs"
      using l k elements_length [OF vs] by (auto simp: unat_word_ariths unat_ucast_mod mod_simps)
    then have "unat (ucast (ucast n * k :: u32) :: u64) = length body" using k l by (simp add: unat_ucast_mod)
    then have r: "ucast (ucast n * k :: u32) = (of_nat (length body) :: u64)"
      using l by (simp add: word_unat_eq_iff unat_of_nat)
    have "unat (of_nat (length body) div ucast k :: u64) = length body div unat k"
      using k(2) l by (auto simp: unat_div unat_of_nat unat_ucast_mod)
    then have "unat (of_nat (length body) div ucast k :: u64) = unat n"
      using k elements_length [OF vs] by auto
    then have "of_nat (length body) div ucast k = n" by (simp add: word_unat_eq_iff)
    then show ?thesis using appends_bytes [of body] vs body by (simp add: r)
  qed
  have bool: "ucast (ucast n :: u32) = (of_nat (length body) :: u64)" if "t = TYPE_BOOL"
    using bools_length [of vs body] body elements_length [OF vs] that n by simp
  then have B: "appends ready contents room (Ok body) (\<lambda>b. bindR (f b) (\<lambda>(_, b). Ok (ucast (ucast n :: u32), b)))"
    if "t = TYPE_BOOL" "appends ready contents room (Ok body) f" for f
    using that by (fastforce simp: appends_def)
  have len: "get_type_min_size t \<noteq> 1 \<Longrightarrow> length body = unat (get_type_min_size t) * length vs"
    using scalars_length [OF body] by (simp add: max_size_def)
  show ?thesis
    using p each [of "pack32 int32_pack"] each [of "pack32 sint32_pack"] each [of "pack32 uint32_pack"]
      each [of "pack64 uint64_pack"] each [of "pack64 sint64_pack"] B [OF _ each [of "pack32 boolean_pack"]]
      whole [of 4] whole [of 8] len packs_scalars
    by (cases t) (simp_all add: pack_buffer_packed_payload_def [abs_def] is_packable_type_def Let_def
        scalar_bytes_def [abs_def] get_type_min_size_def)
qed

end

context append_buffer
begin

lemma appends_repeated:
  assumes sz: "\<And>m. relR sized (e m) (gps m)" and pb: "\<And>m. appends ready contents room (e m) (ptb m)"
  shows "appends ready contents room (enc_repeated e f n v)
    (repeated_field_pack_to_buffer append gps ptb f (ucast n) v)"
proof (cases "as_arr v")
  case arr: (Ok arr)
  show ?thesis
  proof (cases "elements n arr")
    case vs: (Ok vs)
    note len = elements_length [OF vs]
    have n: "ucast (ucast n :: u32) = n" using elements_less [OF vs] by (rule ucast_ucast_id)
    then have z: "ucast n = (0 :: u32) \<longleftrightarrow> n = 0" by (metis ucast_0)
    show ?thesis
    proof (cases "n = 0")
      case True
      then show ?thesis using arr vs len appends_nil
        by (simp add: enc_repeated_def repeated_field_pack_to_buffer_def [abs_def])
    next
      case n0: False
      then have ne: "vs \<noteq> []" using len by auto
      show ?thesis
      proof (cases "has_flag f FLAG_PACKED")
        case pf: True
        show ?thesis
        proof (cases "is_packable_type (fd_type f) \<and> (\<exists>body. concatR (scalar_bytes (fd_type f)) vs = Ok body \<and> length body < 2 ^ 31)")
          case True
          then obtain body where p: "is_packable_type (fd_type f)"
            and b: "concatR (scalar_bytes (fd_type f)) vs = Ok body" and l: "length body < 2 ^ 31" by auto
          let ?scr = "replicate (MAX_UINT64_ENCODED_SIZE * 2) 0 :: bytes"
          have scr: "length ?scr = 20" by (simp add: MAX_UINT64_ENCODED_SIZE_def)
          have "appends ready contents room (Ok body) (\<lambda>b. bindR (pack_buffer_packed_payload append (fd_type f) (ucast n) arr b)
            (\<lambda>(tmp, b). bindR (guardR (tmp = of_nat (length body))) (\<lambda>_. Ok (tmp, b))))"
            using appends_payload [OF p vs b l] by (fastforce simp: appends_def)
          from appends_prefixed [OF this scr, of WIRE_TYPE_LENGTH_PREFIXED "of_nat (length body)" "fd_id f"]
          show ?thesis using arr vs n0 z pf ne p b payload_length [OF p vs b l]
            by (simp add: enc_repeated_def repeated_field_pack_to_buffer_def [abs_def] wire_type_defs bindR_assoc
                split_def)
        next
          case False
          then show ?thesis using arr vs ne pf by (auto simp: enc_repeated_def appends_def bindR_Ok_iff prefixed_def
                split: if_splits)
        qed
      next
        case False
        have "appends ready contents room (concatR (enc_required e f) vs)
            (buffer_all (required_field_pack_to_buffer append gps ptb f) vs)"
          by (intro appends_all appends_required sz pb)
        then have "appends ready contents room (concatR (enc_required e f) vs) (\<lambda>b.
            bindR (buffer_all (required_field_pack_to_buffer append gps ptb f) vs b)
              (\<lambda>(rv, b). Ok (ucast (ucast rv :: u32), b)))"
          unfolding appends_def
        proof (intro allI impI, goal_cases)
          case (1 bs b)
          then obtain b' where b': "buffer_all (required_field_pack_to_buffer append gps ptb f) vs b = Ok (of_nat (length bs), b')"
              "ready b'" "contents b' = contents b @ bs" "room b' = room b - length bs" by blast
          have "unat (of_nat (length bs) :: u64) < 2 ^ 32" using 1(4) room_small [of b] by (simp add: unat_of_nat)
          then show ?case using b' by (simp add: ucast_ucast_id)
        qed
        then show ?thesis using arr vs False n0 z n
          by (simp add: enc_repeated_def repeated_field_pack_to_buffer_def [abs_def])
      qed
    qed
  qed (simp_all add: enc_repeated_def arr)
qed (simp_all add: enc_repeated_def)

lemma appends_skip: "appends ready contents room (if s then Ok [] else e) (\<lambda>b. if s then Ok (0, b) else f b)"
  if "appends ready contents room e f"
  using that by (simp add: appends_nil)

lemma appends_field:
  assumes sz: "\<And>m. relR sized (e m) (gps m)" and pb: "\<And>m. appends ready contents room (e m) (ptb m)"
  shows "appends ready contents room (enc_field e D m f) (field_pack_to_buffer append gps ptb D m f)"
  unfolding enc_field_def field_pack_to_buffer_def [abs_def]
proof (rule appends_bind)
  fix a
  note r = appends_required [OF sz pb]
  note s = appends_bind [OF appends_skip [OF r]]
  show "appends ready contents room (case a of Required v \<Rightarrow> enc_required e f v
     | Oneof c v \<Rightarrow> bindR (skip_oneof f c v) (\<lambda>s. if s then Ok [] else enc_required e f v)
     | Optional h v \<Rightarrow> bindR (skip_optional f h v) (\<lambda>s. if s then Ok [] else enc_required e f v)
     | Unlabeled v \<Rightarrow> bindR (field_is_zeroish f v) (\<lambda>s. if s then Ok [] else enc_required e f v)
     | Repeated n v \<Rightarrow> enc_repeated e f n v)
    (\<lambda>b. case a of Required v \<Rightarrow> required_field_pack_to_buffer append gps ptb f v b
   | Oneof c v \<Rightarrow> oneof_field_pack_to_buffer append gps ptb f c v b
   | Optional h v \<Rightarrow> optional_field_pack_to_buffer append gps ptb f h v b
   | Unlabeled v \<Rightarrow> unlabeled_field_pack_to_buffer append gps ptb f v b
   | Repeated n v \<Rightarrow> repeated_field_pack_to_buffer append gps ptb f (ucast n) v b)"
    using r s appends_repeated [OF sz pb]
    by (cases a) (simp_all add: oneof_field_pack_to_buffer_def [abs_def]
        optional_field_pack_to_buffer_def [abs_def] unlabeled_field_pack_to_buffer_def [abs_def])
qed

lemma appends_unknown: "appends ready contents room (enc_unknown u) (unknown_field_pack_to_buffer append u)"
proof (cases "uf_wire_type u < 8")
  case wt: True
  show ?thesis
  proof (cases "bindR (raw_data (uf_data u)) (c_prefix (uf_len u))")
    case (Ok bs)
    then have n: "of_nat (length bs) = uf_len u" by (auto simp: bindR_Ok_iff c_prefix_size)
    let ?t = "tag_bytes (uf_tag u) (uf_wire_type u)"
    have "bindR (tag_pack (uf_tag u) 0 (replicate MAX_UINT64_ENCODED_SIZE 0)) (\<lambda>(rv, header).
     bindR (or_byte 0 (of_nat (uf_wire_type u)) header) (\<lambda>h. Ok (rv, h))) =
     Ok (length ?t, ?t @ drop (length ?t) (replicate MAX_UINT64_ENCODED_SIZE 0))"
      using emits_fits [OF emits_tag [OF wt, of "uf_tag u"], of 0 "replicate MAX_UINT64_ENCODED_SIZE 0"]
        length_tag_bytes [OF wt, of "uf_tag u"] by (simp add: MAX_UINT64_ENCODED_SIZE_def)
    then obtain h h2 where h: "tag_pack (uf_tag u) 0 (replicate MAX_UINT64_ENCODED_SIZE 0) = Ok (length ?t, h)"
        "or_byte 0 (of_nat (uf_wire_type u)) h = Ok h2" "take (length ?t) h2 = ?t"
      by (auto simp: bindR_Ok_iff)
    have "unknown_field_pack_to_buffer append u b = bindR (bindR (append ?t b) (\<lambda>b. Ok (of_nat (length ?t), b)))
      (\<lambda>(n, b). bindR (bindR (append bs b) (\<lambda>b. Ok (of_nat (length bs), b))) (\<lambda>(k, b). Ok (n + k, b)))" for b
      by (simp add: unknown_field_pack_to_buffer_def h Ok bindR_assoc n)
    then show ?thesis using appends_then [OF appends_bytes [of ?t] appends_bytes [of bs]] wt Ok
      by (simp add: enc_unknown_def appends_def)
  qed (simp_all add: enc_unknown_def)
qed (simp add: enc_unknown_def)

theorem appends_message:
  "appends ready contents room (enc_message S d m) (protobuf_c_message_pack_to_buffer append S d m)"
proof (induction d arbitrary: m)
  case (Suc d)
  have "appends ready contents room (bindR (concatR (enc_field (enc_message S d) D m) (md_fields D)) (\<lambda>known.
      bindR (concatR enc_unknown (unknown_fields m)) (\<lambda>unknown. Ok (known @ unknown))))
    (\<lambda>b. bindR (buffer_all (field_pack_to_buffer append (protobuf_c_message_get_packed_size S d)
         (protobuf_c_message_pack_to_buffer append S d) D m) (md_fields D) b) (\<lambda>(rv, b).
     bindR (buffer_all (unknown_field_pack_to_buffer append) (unknown_fields m) b) (\<lambda>(n, b). Ok (rv + n, b))))" for D
    by (intro appends_then appends_all appends_field Suc.IH appends_unknown packed_size)
  then show ?case
    by (simp add: protobuf_c_message_pack_to_buffer.simps [abs_def]) (intro appends_bind)
qed simp

end

end
