(* ===== verification/Pb_Pack_Props.thy ===== *)
theory Pb_Pack_Props
  imports Pb_Pack_Buffer
begin

text \<open>
  The properties of the serialising half of \<^verbatim>\<open>protobuf-c/protobuf-c.c\<close>, and a sample schema and
  message on which they are evaluated: message \<open>Sample { required uint32 id = 1; repeated sint32
  deltas = 2 [packed]; optional string name = 3; optional Sample next = 4; }\<close>.
\<close>

section \<open>A sample message\<close>

definition sample_field :: "nat \<Rightarrow> ProtobufCLabel \<Rightarrow> ProtobufCType \<Rightarrow> nat \<Rightarrow> nat \<Rightarrow> u32 \<Rightarrow> field_desc" where
  "sample_field i lab t q off fl = \<lparr>fd_name = [], fd_id = of_nat i, fd_label = lab, fd_type = t,
     fd_quantifier_offset = q, fd_offset = off, fd_descriptor = 0, fd_default = None, fd_flags = fl\<rparr>"

definition Sample :: message_desc where
  "Sample = \<lparr>md_magic = MESSAGE_DESCRIPTOR_MAGIC, md_addr = 1, sizeof_message = 64,
     md_fields = [sample_field 1 LABEL_REQUIRED TYPE_UINT32 0 24 0,
       sample_field 2 LABEL_REPEATED TYPE_SINT32 32 40 FLAG_PACKED,
       sample_field 3 LABEL_OPTIONAL TYPE_STRING 0 48 0,
       sample_field 4 LABEL_OPTIONAL TYPE_MESSAGE 0 56 0],
     fields_sorted_by_name = None, n_field_ranges = 1,
     field_ranges = [\<lparr>start_value = 1, orig_index = 0\<rparr>, \<lparr>start_value = 0, orig_index = 4\<rparr>],
     message_init = None\<rparr>"

definition sample_leaf :: message where
  "sample_leaf = Message 0 [(24, V32 7), (32, Zero), (40, Zero), (48, VStr (Heap 9 [104, 105, 0])), (56, VMsg None)] None []"

definition sample_message :: message where
  "sample_message = Message 0 [(24, V32 150), (32, V64 2), (40, VArr (Some (3, 2, [V32 (-1), V32 64]))),
     (48, VStr Null), (56, VMsg (Some (5, sample_leaf)))] None
     [\<lparr>uf_tag = 100, uf_wire_type = 0, uf_len = 1, uf_data = Heap 6 [42]\<rparr>]"

definition sample_bytes :: bytes where
  "sample_bytes = [8, 150, 1, 18, 3, 1, 128, 1, 34, 6, 8, 7, 26, 2, 104, 105, 160, 6, 42]"

lemmas enc_eval = enc_field_def field_access_def STRUCT_MEMBER_def quantifier32_def quantifier_size_def
  enc_required_def value_bytes_def scalar_bytes_def enc_repeated_def elements_def has_flag_def
  FLAG_PACKED_def FLAG_ONEOF_def skip_oneof_def skip_optional_def unset_pointer_def pointer_type_def
  field_is_zeroish_def is_packable_type_def null_element_def enc_unknown_def c_prefix_def prefixed_def
  wire_type_of_def wire_type_defs tag_bytes_def varint_small varint_step zigzag_def get_desc_def

lemmas sample_defs = Sample_def sample_field_def sample_message_def sample_bytes_def

lemma sample_leaf_encodes: "enc_message [Sample] (Suc 0) sample_leaf = Ok [8, 7, 26, 2, 104, 105]"
  by (simp add: enc_eval sample_defs sample_leaf_def)

lemma sample_encodes: "enc_message [Sample] 2 sample_message = Ok sample_bytes"
proof -
  have "descriptor sample_message = 0" by (simp add: sample_message_def)
  then show ?thesis using sample_leaf_encodes
    by (simp add: numeral_2_eq_2 enc_eval sample_defs del: enc_message.simps(2)) (simp add: enc_eval sample_defs)
qed

section \<open>Properties\<close>

text \<open>C26: \<open>protobuf_c_message_get_packed_size\<close> returns the length of the wire encoding of the message
  (modulo the width of \<open>size_t\<close>).\<close>

theorem packed_size_exact:
  assumes "enc_message S d m = Ok bs"
  shows "protobuf_c_message_get_packed_size S d m = Ok (of_nat (length bs))"
  using relR_D [OF packed_size assms] by simp

lemma packed_size_exact_witness: "protobuf_c_message_get_packed_size [Sample] 2 sample_message = Ok 19"
  using packed_size_exact [OF sample_encodes] by (simp add: sample_bytes_def)

text \<open>C25: \<open>protobuf_c_message_pack\<close> writes exactly the wire encoding at its output pointer, changes
  nothing else in the block and returns the length; if the block is too short it writes outside of
  it, and never otherwise.\<close>

theorem message_pack_writes:
  assumes "enc_message S d m = Ok bs" and "p \<le> length mem"
  shows "protobuf_c_message_pack S d m p mem
    = (if p + length bs \<le> length mem then Ok (length bs, take p mem @ bs @ drop (p + length bs) mem) else Fault)"
  using emits_fits [OF packsD [OF packs_message_pack assms(1)]]
    emits_short [OF packsD [OF packs_message_pack assms(1)] assms(2)] by simp

lemma message_pack_writes_witness:
  "protobuf_c_message_pack [Sample] 2 sample_message 1 (replicate 21 0) = Ok (19, 0 # sample_bytes @ [0])
   \<and> protobuf_c_message_pack [Sample] 2 sample_message 0 (replicate 18 0) = Fault"
  using message_pack_writes [OF sample_encodes, of 1 "replicate 21 0"]
    message_pack_writes [OF sample_encodes, of 0 "replicate 18 0"] by (simp add: sample_bytes_def)

text \<open>C27: \<open>protobuf_c_message_pack_to_buffer\<close> on a \<open>ProtobufCBufferSimple\<close> appends exactly the bytes
  that \<open>protobuf_c_message_pack\<close> writes and returns their number, as long as the allocator grants
  its requests and the buffer stays below four gigabytes.\<close>

theorem pack_to_simple_buffer:
  assumes "enc_message S d m = Ok bs" and "sb_ready st" and "length bs \<le> sb_room st"
  shows "\<exists>st'. protobuf_c_message_pack_to_buffer protobuf_c_buffer_simple_append S d m st
      = Ok (of_nat (length bs), st') \<and> sb_ready st' \<and> sb_contents st' = sb_contents st @ bs"
  using appendsD [OF simple.appends_message assms] by blast

definition sample_buffer :: "buffer_simple \<times> pb_heap" where
  "sample_buffer = (small_buffer, \<lparr>alloc_fails = \<lambda>_ _. False, requests = 0, live = {}\<rparr>)"

lemma pack_to_simple_buffer_witness:
  "\<exists>st'. protobuf_c_message_pack_to_buffer protobuf_c_buffer_simple_append [Sample] 2 sample_message sample_buffer
      = Ok (19, st') \<and> sb_ready st' \<and> sb_contents st' = 7 # sample_bytes"
  using pack_to_simple_buffer [OF sample_encodes, of sample_buffer]
  by (simp add: sample_buffer_def small_buffer_def sb_ready_def sb_valid_def sb_room_def sb_contents_def
      never_fails_def heap_ok_def sample_bytes_def)

text \<open>In a packed repeated field the length prefix is first guessed from the smallest element
  size. The assertion that the guess is at most one byte short never fails, and \<open>repeated_field_pack\<close>
  stays within the tag, the prefix and the elements.\<close>

theorem packed_field_prefix:
  assumes "as_arr v = Ok arr" and "elements n arr = Ok vs" and "concatR (scalar_bytes (fd_type f)) vs = Ok body"
    and "has_flag f FLAG_PACKED" and "is_packable_type (fd_type f)" and "vs \<noteq> []" and "length body < 2 ^ 31"
    and "out + length (tag_bytes (fd_id f) 2) + length (varint (length body)) + length body \<le> length mem"
  shows "\<exists>mem'. repeated_field_pack pack f n v out mem
      = Ok (length (tag_bytes (fd_id f) 2) + length (varint (length body)) + length body, mem')"
proof -
  have "enc_repeated (\<lambda>_. Fault) f n v = Ok (tag_bytes (fd_id f) 2 @ varint (length body) @ body)"
    using assms by (simp add: enc_repeated_def prefixed_def wire_type_defs)
  from emits_fits [OF packsD [OF packs_repeated this], of pack out mem] show ?thesis
    using assms(8) by simp
qed

lemma packed_field_prefix_witness:
  "\<exists>mem'. repeated_field_pack (\<lambda>_ _ _. Fault) (sample_field 2 LABEL_REPEATED TYPE_SINT32 32 40 FLAG_PACKED) 2
      (VArr (Some (3, 2, [V32 (-1), V32 64]))) 0 (replicate 5 0) = Ok (5, mem')"
  using packed_field_prefix [of "VArr (Some (3, 2, [V32 (-1), V32 64]))" "Some (3, 2, [V32 (-1), V32 64])" 2
      "[V32 (-1), V32 64]" "sample_field 2 LABEL_REPEATED TYPE_SINT32 32 40 FLAG_PACKED" "[1, 128, 1]" 0
      "replicate 5 0" "\<lambda>_ _ _. Fault"]
  by (simp add: enc_eval sample_defs) (simp add: numeral_eq_Suc)

end
