(* ===== verification/Pb_Desc.thy ===== *)
theory Pb_Desc
  imports Pb_Types
begin

text \<open>
  Querying descriptors (\<^verbatim>\<open>protobuf-c/protobuf-c.c\<close>): the binary searches by name and by number, and
  the service object. Against: the finite map a sorted table stands for.
\<close>

section \<open>Enumerations, methods and services\<close>

record enum_value =
  ev_name :: bytes
  ev_value :: u32

record enum_desc =
  ed_magic :: u32
  ed_values :: "enum_value list"
  values_by_name :: "(bytes \<times> nat) list option"
  n_value_ranges :: nat
  value_ranges :: "int_range list"

record service_desc =
  sd_magic :: u32
  sd_methods :: "bytes list"
  method_indices_by_name :: "nat list option"

text \<open>The handlers are the words behind the structure; a handler is known by a number.\<close>

record service =
  sv_descriptor :: service_desc
  sv_destroy :: "nat option"
  sv_handlers :: "nat option list"

section \<open>Lookup by number\<close>

text \<open>The interval \<open>[start, start + n)\<close> of ranges that is still searched. All arithmetic is at the
  width of \<open>int\<close> and \<open>unsigned\<close>; the result is an \<open>int\<close>.\<close>

function range_loop :: "int_range list \<Rightarrow> u32 \<Rightarrow> nat \<Rightarrow> nat \<Rightarrow> int res" where
  "range_loop rs v start n =
     (if 1 < n then
        let mid = start + n div 2 in
        if length rs \<le> mid + 1 then Fault
        else if sint v < sint (start_value (rs ! mid)) then range_loop rs v start (mid - start)
        else if sint (start_value (rs ! mid) + (orig_index (rs ! (mid + 1)) - orig_index (rs ! mid)))
            \<le> sint v then
          let new_start = mid + 1 in range_loop rs v new_start (start + n - new_start)
        else Ok (sint (v - start_value (rs ! mid) + orig_index (rs ! mid)))
      else if 0 < n then
        if length rs \<le> start + 1 then Fault
        else
          let start_orig_index = orig_index (rs ! start);
              range_size = orig_index (rs ! (start + 1)) - start_orig_index in
          if sint (start_value (rs ! start)) \<le> sint v
            \<and> sint v < sint (start_value (rs ! start) + range_size)
          then Ok (sint (v - start_value (rs ! start) + start_orig_index))
          else Ok (-1)
      else Ok (-1))"
  by auto
termination
  by (relation "measure (\<lambda>(rs, v, start, n). n)") auto

declare range_loop.simps [simp del]

definition int_range_lookup :: "nat \<Rightarrow> int_range list \<Rightarrow> u32 \<Rightarrow> int res" where
  "int_range_lookup n_ranges rs v = (if n_ranges = 0 then Ok (-1) else range_loop rs v 0 n_ranges)"

definition protobuf_c_enum_descriptor_get_value :: "enum_desc \<Rightarrow> u32 \<Rightarrow> enum_value option res" where
  "protobuf_c_enum_descriptor_get_value E v =
     bindR (int_range_lookup (n_value_ranges E) (value_ranges E) v) (\<lambda>rv.
       if rv < 0 then Ok None
       else if nat rv < length (ed_values E) then Ok (Some (ed_values E ! nat rv)) else Fault)"

definition protobuf_c_message_descriptor_get_field :: "message_desc \<Rightarrow> u32 \<Rightarrow> field_desc option res" where
  "protobuf_c_message_descriptor_get_field D v =
     bindR (int_range_lookup (n_field_ranges D) (field_ranges D) v) (\<lambda>rv.
       if rv < 0 then Ok None
       else if nat rv < length (md_fields D) then Ok (Some (md_fields D ! nat rv)) else Fault)"

section \<open>Lookup by name\<close>

fun strcmp :: "bytes \<Rightarrow> bytes \<Rightarrow> int" where
  "strcmp [] [] = 0"
| "strcmp [] (_ # _) = -1"
| "strcmp (_ # _) [] = 1"
| "strcmp (a # as) (b # bs) = (if a = b then strcmp as bs else if a < b then -1 else 1)"

text \<open>The loop the three searches share; \<open>entry mid\<close> reads the name at a position of the sorted
  table and the value found there.\<close>

function name_loop :: "(nat \<Rightarrow> (bytes \<times> 'a) res) \<Rightarrow> bytes \<Rightarrow> nat \<Rightarrow> nat \<Rightarrow> 'a option res" where
  "name_loop entry name start count =
     (if 1 < count then
        let mid = start + count div 2 in
        bindR (entry mid) (\<lambda>(n, x).
          let rv = strcmp n name in
          if rv = 0 then Ok (Some x)
          else if rv < 0 then name_loop entry name (mid + 1) (start + count - (mid + 1))
          else name_loop entry name start (mid - start))
      else if count = 0 then Ok None
      else bindR (entry start) (\<lambda>(n, x). if strcmp n name = 0 then Ok (Some x) else Ok None))"
  by auto
termination
  by (relation "measure (\<lambda>(e, name, start, count). count)") auto

declare name_loop.simps [simp del]

text \<open>\<open>array[i]\<close>\<close>

definition entry_at :: "'a list \<Rightarrow> nat \<Rightarrow> 'a res" where
  "entry_at xs i = (if i < length xs then Ok (xs ! i) else Fault)"

definition protobuf_c_enum_descriptor_get_value_by_name ::
  "enum_desc option \<Rightarrow> bytes \<Rightarrow> enum_value option res" where
  "protobuf_c_enum_descriptor_get_value_by_name desc name = (case desc of None \<Rightarrow> Ok None
   | Some E \<Rightarrow> (case values_by_name E of None \<Rightarrow> Ok None
     | Some tab \<Rightarrow> bindR (name_loop (entry_at tab) name 0 (length tab)) (\<lambda>found. case found of
         None \<Rightarrow> Ok None | Some i \<Rightarrow> bindR (entry_at (ed_values E) i) (\<lambda>x. Ok (Some x)))))"

definition protobuf_c_message_descriptor_get_field_by_name ::
  "message_desc option \<Rightarrow> bytes \<Rightarrow> field_desc option res" where
  "protobuf_c_message_descriptor_get_field_by_name desc name = (case desc of None \<Rightarrow> Ok None
   | Some D \<Rightarrow> (case fields_sorted_by_name D of None \<Rightarrow> Ok None
     | Some tab \<Rightarrow> name_loop (\<lambda>mid. bindR (entry_at tab mid) (\<lambda>i.
         bindR (entry_at (md_fields D) i) (\<lambda>f. Ok (fd_name f, f)))) name 0 (length (md_fields D))))"

text \<open>A method is known by its position.\<close>

definition protobuf_c_service_descriptor_get_method_by_name ::
  "service_desc option \<Rightarrow> bytes \<Rightarrow> nat option res" where
  "protobuf_c_service_descriptor_get_method_by_name desc name = (case desc of None \<Rightarrow> Ok None
   | Some D \<Rightarrow> (case method_indices_by_name D of None \<Rightarrow> Ok None
     | Some tab \<Rightarrow> name_loop (\<lambda>mid. bindR (entry_at tab mid) (\<lambda>i.
         bindR (entry_at (sd_methods D) i) (\<lambda>n. Ok (n, i)))) name 0 (length (sd_methods D))))"

section \<open>Services\<close>

text \<open>Which handler is called.\<close>

definition protobuf_c_service_invoke_internal :: "service \<Rightarrow> nat \<Rightarrow> nat res" where
  "protobuf_c_service_invoke_internal s method_index =
     bindR (guardR (method_index < length (sd_methods (sv_descriptor s)))) (\<lambda>_.
     bindR (entry_at (sv_handlers s) method_index) of_opt)"

definition protobuf_c_service_generated_init ::
  "service \<Rightarrow> service_desc \<Rightarrow> nat option \<Rightarrow> service res" where
  "protobuf_c_service_generated_init s D destroy =
     bindR (guardR (sd_magic D = SERVICE_DESCRIPTOR_MAGIC)) (\<lambda>_.
     let n = length (sd_methods D) in
     bindR (guardR (n \<le> length (sv_handlers s))) (\<lambda>_.
     Ok (s\<lparr>sv_descriptor := D, sv_destroy := destroy,
       sv_handlers := replicate n None @ drop n (sv_handlers s)\<rparr>)))"

text \<open>The destructor that is called.\<close>

definition protobuf_c_service_destroy :: "service \<Rightarrow> nat res" where
  "protobuf_c_service_destroy s = of_opt (sv_destroy s)"

section \<open>Ranges stand for a finite map\<close>

definition range_start :: "int_range list \<Rightarrow> nat \<Rightarrow> int" where
  "range_start rs k = sint (start_value (rs ! k))"

definition range_index :: "int_range list \<Rightarrow> nat \<Rightarrow> int" where
  "range_index rs k = uint (orig_index (rs ! k))"

definition range_size :: "int_range list \<Rightarrow> nat \<Rightarrow> int" where
  "range_size rs k = range_index rs (k + 1) - range_index rs k"

text \<open>What the code generator promises: the ranges are in order and do not touch the largest
  integer, and the indices grow.\<close>

definition ranges_ok :: "nat \<Rightarrow> int_range list \<Rightarrow> bool" where
  "ranges_ok n rs \<longleftrightarrow> length rs = n + 1 \<and> range_index rs n < 2 ^ 31
     \<and> list_all (\<lambda>k. 0 < range_size rs k \<and> range_start rs k + range_size rs k < 2 ^ 31) [0..<n]
     \<and> list_all (\<lambda>k. range_start rs k + range_size rs k \<le> range_start rs (k + 1)) [0..<n - 1]"

definition in_range :: "int_range list \<Rightarrow> int \<Rightarrow> nat \<Rightarrow> bool" where
  "in_range rs v k \<longleftrightarrow> range_start rs k \<le> v \<and> v < range_start rs k + range_size rs k"

definition range_map :: "nat \<Rightarrow> int_range list \<Rightarrow> int \<Rightarrow> nat option" where
  "range_map n rs v = (case filter (in_range rs v) [0..<n] of [] \<Rightarrow> None
     | k # _ \<Rightarrow> Some (nat (range_index rs k + (v - range_start rs k))))"

lemma sint_word_of_int_small: "- (2 ^ 31) \<le> x \<Longrightarrow> x < 2 ^ 31 \<Longrightarrow> sint (word_of_int x :: u32) = x"
  by (simp add: signed_of_int signed_take_bit_int_eq_self)

lemma sint_add_small:
  fixes a b :: u32
  assumes "- (2 ^ 31) \<le> sint a + y" and "sint a + y < 2 ^ 31" and "b = word_of_int y"
  shows "sint (a + b) = sint a + y"
proof -
  have "a + b = word_of_int (sint a + y)" using assms(3) by (simp add: wi_hom_add [symmetric])
  then show ?thesis by (simp only: sint_word_of_int_small [OF assms(1,2)])
qed


lemma ranges_okD:
  assumes "ranges_ok n rs" and "k < n"
  shows "0 < range_size rs k" "range_start rs k + range_size rs k < 2 ^ 31" "k + 1 < length rs"
  using assms by (auto simp: ranges_ok_def list_all_iff)

lemma ranges_ordered:
  assumes "ranges_ok n rs" and "j < k" and "k < n"
  shows "range_start rs j + range_size rs j \<le> range_start rs k"
  using assms(2,3)
proof (induction k)
  case (Suc k)
  have s: "range_start rs k + range_size rs k \<le> range_start rs (k + 1)"
    using assms(1) Suc.prems by (auto simp: ranges_ok_def list_all_iff)
  show ?case
  proof (cases "j = k")
    case False
    then show ?thesis using Suc s ranges_okD(1) [OF assms(1), of k] by simp
  qed (use s in simp)
qed simp

lemma range_index_mono:
  assumes "ranges_ok n rs" and "j \<le> k" and "k \<le> n"
  shows "range_index rs j \<le> range_index rs k"
  using assms(2,3)
proof (induction k)
  case (Suc k)
  then show ?case using ranges_okD(1) [OF assms(1), of k] by (cases "j = Suc k") (auto simp: range_size_def)
qed simp

lemma range_end:
  assumes "ranges_ok n rs" and "k < n"
  shows "sint (start_value (rs ! k) + (orig_index (rs ! (k + 1)) - orig_index (rs ! k)))
    = range_start rs k + range_size rs k"
proof -
  have "- (2 ^ 31) \<le> range_start rs k" using sint_greater_eq [of "start_value (rs ! k)"] by (simp add: range_start_def)
  then show ?thesis
    using ranges_okD [OF assms]
    by (intro trans [OF sint_add_small]) (auto simp: range_start_def range_size_def range_index_def wi_hom_sub [symmetric])
qed

lemma range_hit:
  assumes "ranges_ok n rs" and "k < n" and "in_range rs (sint v) k"
  shows "sint (v - start_value (rs ! k) + orig_index (rs ! k)) = range_index rs k + (sint v - range_start rs k)"
    and "0 \<le> range_index rs k + (sint v - range_start rs k)"
proof -
  have "range_index rs (k + 1) < 2 ^ 31"
    using range_index_mono [OF assms(1), of "k + 1" n] assms(1,2) by (auto simp: ranges_ok_def)
  then have b: "range_index rs k + (sint v - range_start rs k) < 2 ^ 31"
    using assms(3) by (simp add: in_range_def range_size_def)
  show p: "0 \<le> range_index rs k + (sint v - range_start rs k)"
    using assms(3) by (simp add: in_range_def range_index_def)
  have "v - start_value (rs ! k) + orig_index (rs ! k)
      = word_of_int (range_index rs k + (sint v - range_start rs k))"
    by (simp add: range_index_def range_start_def wi_hom_add [symmetric] wi_hom_sub [symmetric])
  then show "sint (v - start_value (rs ! k) + orig_index (rs ! k)) = range_index rs k + (sint v - range_start rs k)"
    using p b by (simp only:) (rule sint_word_of_int_small, simp_all)
qed

lemma in_range_unique:
  assumes "ranges_ok n rs" and "j < n" and "k < n" and "in_range rs v j" and "in_range rs v k"
  shows "j = k"
  using assms ranges_ordered [OF assms(1), of j k] ranges_ordered [OF assms(1), of k j]
  by (cases j k rule: linorder_cases) (auto simp: in_range_def)

lemma range_map_hit:
  assumes "ranges_ok n rs" and "k < n" and "in_range rs v k"
  shows "range_map n rs v = Some (nat (range_index rs k + (v - range_start rs k)))"
proof -
  have "\<exists>js. filter (in_range rs v) [0..<n] = k # js"
  proof (cases "filter (in_range rs v) [0..<n]")
    case Nil
    then show ?thesis using assms(2,3) by (simp add: filter_empty_conv)
  next
    case (Cons j js)
    then have "j \<in> set (filter (in_range rs v) [0..<n])" by simp
    then have "j < n" "in_range rs v j" by auto
    then show ?thesis using Cons in_range_unique [OF assms(1) _ assms(2) _ assms(3), of j] by simp
  qed
  then show ?thesis by (auto simp: range_map_def)
qed

lemma range_map_miss: "(\<And>k. k < n \<Longrightarrow> \<not> in_range rs v k) \<Longrightarrow> range_map n rs v = None"
proof -
  assume "\<And>k. k < n \<Longrightarrow> \<not> in_range rs v k"
  then have "filter (in_range rs v) [0..<n] = []" by (simp add: filter_empty_conv)
  then show ?thesis by (simp add: range_map_def)
qed


definition lookup_result :: "nat option \<Rightarrow> int" where
  "lookup_result r = (case r of None \<Rightarrow> -1 | Some i \<Rightarrow> int i)"

lemma lookup_hit:
  assumes "ranges_ok n rs" and "k < n" and "in_range rs (sint v) k"
  shows "sint (v - start_value (rs ! k) + orig_index (rs ! k)) = lookup_result (range_map n rs (sint v))"
  using range_hit [OF assms] range_map_hit [OF assms] by (simp add: lookup_result_def)

text \<open>The value can only be in the interval that is still searched.\<close>

lemma range_loop_map:
  assumes ok: "ranges_ok N rs" and "start + n \<le> N"
    and "\<And>k. k < N \<Longrightarrow> in_range rs (sint v) k \<Longrightarrow> start \<le> k \<and> k < start + n"
  shows "range_loop rs v start n = Ok (lookup_result (range_map N rs (sint v)))"
  using assms(2,3)
proof (induction n arbitrary: start rule: less_induct)
  case (less n)
  have len: "length rs = N + 1" using ok by (simp add: ranges_ok_def)
  consider "1 < n" | "n = 1" | "n = 0" by linarith
  then show ?case
  proof cases
    case 1
    define mid where "mid = start + n div 2"
    have mid: "start < mid" "mid < start + n" "mid < N" using 1 less.prems(1) by (auto simp: mid_def)
    note e = range_end [OF ok mid(3)]
    have unf: "range_loop rs v start n =
      (if sint v < range_start rs mid then range_loop rs v start (mid - start)
       else if range_start rs mid + range_size rs mid \<le> sint v then
         range_loop rs v (mid + 1) (start + n - (mid + 1))
       else Ok (sint (v - start_value (rs ! mid) + orig_index (rs ! mid))))"
      using 1 mid len e by (subst range_loop.simps) (simp add: Let_def mid_def [symmetric] range_start_def)
    consider "sint v < range_start rs mid" | "range_start rs mid + range_size rs mid \<le> sint v"
      | "in_range rs (sint v) mid" unfolding in_range_def by linarith
    then show ?thesis
    proof cases
      case 1
      have "start \<le> k \<and> k < start + (mid - start)" if k: "k < N" "in_range rs (sint v) k" for k
      proof -
        have "\<not> mid < k" using ranges_ordered [OF ok, of mid k] ranges_okD(1) [OF ok mid(3)] 1 k
          by (auto simp: in_range_def)
        moreover have "k \<noteq> mid" using 1 k by (auto simp: in_range_def)
        ultimately show ?thesis using less.prems(2) [OF k] mid by simp
      qed
      then show ?thesis using 1 mid less.prems(1) unfolding unf by (simp add: less.IH)
    next
      case 2
      have "mid + 1 \<le> k \<and> k < mid + 1 + (start + n - (mid + 1))" if k: "k < N" "in_range rs (sint v) k" for k
      proof -
        have "\<not> k < mid" using ranges_ordered [OF ok, of k mid] ranges_okD(1) [OF ok mid(3)] mid(3) 2 k
          by (auto simp: in_range_def)
        moreover have "k \<noteq> mid" using 2 k by (auto simp: in_range_def)
        ultimately show ?thesis using less.prems(2) [OF k] mid by simp
      qed
      then have "range_loop rs v (mid + 1) (start + n - (mid + 1)) = Ok (lookup_result (range_map N rs (sint v)))"
        using mid less.prems(1) by (intro less.IH) simp_all
      then show ?thesis using 2 ranges_okD(1) [OF ok mid(3)] unfolding unf by simp
    next
      case 3
      then show ?thesis using lookup_hit [OF ok mid(3) 3] unfolding unf by (simp add: in_range_def)
    qed
  next
    case 2
    then have st: "start < N" using less.prems(1) by simp
    have unf: "range_loop rs v start n = (if in_range rs (sint v) start
        then Ok (sint (v - start_value (rs ! start) + orig_index (rs ! start))) else Ok (-1))"
      using 2 len st range_end [OF ok st]
      by (subst range_loop.simps) (simp add: in_range_def range_start_def)
    have "\<not> in_range rs (sint v) start \<Longrightarrow> range_map N rs (sint v) = None"
      using less.prems(2) 2 by (intro range_map_miss) (metis One_nat_def add.right_neutral add_Suc_right le_less_Suc_eq)
    then show ?thesis using lookup_hit [OF ok st, of v] unfolding unf by (simp add: lookup_result_def)
  next
    case 3
    then have "range_map N rs (sint v) = None" using less.prems(2) by (intro range_map_miss) force
    then show ?thesis using 3 by (subst range_loop.simps) (simp add: lookup_result_def)
  qed
qed

text \<open>C30: For range tables as the code generator makes them, \<open>int_range_lookup\<close> is the lookup in the
  finite map the table stands for: it ends, reads no entry outside the table, and returns the index
  of the value, or minus one for a value in no range.\<close>

theorem int_range_lookup_map:
  assumes "ranges_ok n rs"
  shows "int_range_lookup n rs v = Ok (lookup_result (range_map n rs (sint v)))"
  using range_loop_map [OF assms, of 0 n v] range_map_miss [of n rs "sint v"]
  by (auto simp: int_range_lookup_def lookup_result_def)

definition sample_ranges :: "int_range list" where
  "sample_ranges = [\<lparr>start_value = - 3, orig_index = 0\<rparr>, \<lparr>start_value = 10, orig_index = 2\<rparr>,
     \<lparr>start_value = 100, orig_index = 7\<rparr>, \<lparr>start_value = 0, orig_index = 8\<rparr>]"

lemma int_range_lookup_map_witness:
  "int_range_lookup 3 sample_ranges 12 = Ok 4 \<and> int_range_lookup 3 sample_ranges 15 = Ok (-1)"
  using int_range_lookup_map [of 3 sample_ranges 12] int_range_lookup_map [of 3 sample_ranges 15]
  by (simp add: ranges_ok_def sample_ranges_def range_index_def range_start_def range_size_def
      range_map_def in_range_def lookup_result_def upt_conv_Cons)

text \<open>The largest \<open>int\<close> lies behind the end of every range, computed at the width of an \<open>int\<close>: the search goes on to the right.\<close>

lemma sint_max: "sint (0x7fffffff :: u32) = 2147483647"
  by simp

lemma sint_le_max: "sint (w :: u32) \<le> 2147483647"
  using sint_lt [of w] by simp

lemma range_loop_max: "start + n < length rs \<Longrightarrow> range_loop rs 0x7fffffff start n = Ok (- 1)"
proof (induction n arbitrary: start rule: less_induct)
  case (less n)
  have over: "\<not> sint (0x7fffffff :: u32) < sint w" "sint w \<le> sint (0x7fffffff :: u32)" for w :: u32
    unfolding sint_max using sint_le_max [of w] by simp_all
  show ?case
  proof (cases "1 < n")
    case True
    let ?mid = "start + n div 2"
    have "start + n - (?mid + 1) < n" using True by simp
    moreover have "?mid + 1 + (start + n - (?mid + 1)) < length rs" using less.prems True by linarith
    ultimately have "range_loop rs 0x7fffffff (?mid + 1) (start + n - (?mid + 1)) = Ok (- 1)" by (rule less.IH)
    moreover have "\<not> length rs \<le> ?mid + 1" using less.prems True by linarith
    ultimately show ?thesis using True
      by (subst range_loop.simps) (simp only: Let_def over if_True if_False)
  next
    case False
    then have "n \<noteq> 0 \<Longrightarrow> \<not> length rs \<le> start + 1" using less.prems by linarith
    then show ?thesis using False
      by (subst range_loop.simps) (simp only: Let_def over if_True if_False simp_thms split: if_split, blast)
  qed
qed

text \<open>C32: An enumeration value equal to the largest \<open>int\<close> is never found by its number, whatever ranges the enumeration
  has (the table has one entry more than it has ranges), a range that holds the value included: the end of that range, one more,
  does not fit into an \<open>int\<close>. It wraps to the smallest one here, as with the usual compilers; where the search
  computes it halfway it is a signed overflow, which C leaves undefined.\<close>

theorem enum_value_max_not_found:
  assumes "n_value_ranges E < length (value_ranges E)"
  shows "protobuf_c_enum_descriptor_get_value E 0x7fffffff = Ok None"
  using range_loop_max [of 0 "n_value_ranges E" "value_ranges E"] assms
  by (simp add: protobuf_c_enum_descriptor_get_value_def int_range_lookup_def)

definition max_enum :: enum_desc where
  "max_enum = \<lparr>ed_magic = ENUM_DESCRIPTOR_MAGIC, ed_values = [\<lparr>ev_name = [65], ev_value = 0x7fffffff\<rparr>],
     values_by_name = Some [([65], 0)], n_value_ranges = 1,
     value_ranges = [\<lparr>start_value = 0x7fffffff, orig_index = 0\<rparr>, \<lparr>start_value = 0, orig_index = 1\<rparr>]\<rparr>"

lemma enum_value_max_not_found_witness:
  "protobuf_c_enum_descriptor_get_value max_enum (ev_value (ed_values max_enum ! 0)) = Ok None"
  using enum_value_max_not_found [of max_enum] by (simp add: max_enum_def)

section \<open>Sorted names stand for a finite map\<close>

lemma strcmp_eq [simp]: "strcmp a b = 0 \<longleftrightarrow> a = b"
  by (induction a b rule: strcmp.induct) auto

lemma strcmp_swap: "strcmp a b < 0 \<longleftrightarrow> 0 < strcmp b a"
  by (induction a b rule: strcmp.induct) auto

lemma strcmp_trans: "strcmp a b < 0 \<Longrightarrow> strcmp b c < 0 \<Longrightarrow> strcmp a c < 0"
proof (induction a b arbitrary: c rule: strcmp.induct)
  case (4 a as b bs)
  then show ?case by (cases c) (auto split: if_splits)
next
  case (2 b bs)
  then show ?case by (cases c) auto
qed auto

definition names_sorted :: "(bytes \<times> 'a) list \<Rightarrow> bool" where
  "names_sorted es = sorted_wrt (\<lambda>x y. strcmp (fst x) (fst y) < 0) es"

lemma names_sorted_less: "names_sorted es \<Longrightarrow> i < j \<Longrightarrow> j < length es \<Longrightarrow> strcmp (fst (es ! i)) (fst (es ! j)) < 0"
  by (simp add: names_sorted_def sorted_wrt_iff_nth_less)

lemma names_distinct: "names_sorted es \<Longrightarrow> distinct (map fst es)"
proof -
  assume s: "names_sorted es"
  have "fst (es ! i) \<noteq> fst (es ! j)" if "i < length es" "j < length es" "i \<noteq> j" for i j
  proof -
    have "\<not> strcmp b b < 0" for b by (metis less_irrefl strcmp_eq)
    then show ?thesis using names_sorted_less [OF s] that by (metis nat_neq_iff)
  qed
  then show ?thesis by (simp add: distinct_conv_nth)
qed

lemma map_of_nth: "names_sorted es \<Longrightarrow> i < length es \<Longrightarrow> map_of es (fst (es ! i)) = Some (snd (es ! i))"
  using names_distinct [of es] by (metis map_of_eq_Some_iff nth_mem prod.collapse)

lemma name_loop_map:
  assumes s: "names_sorted es" and e: "\<And>i. i < length es \<Longrightarrow> entry i = Ok (es ! i)"
    and "start + n \<le> length es"
    and "\<And>i. i < length es \<Longrightarrow> fst (es ! i) = name \<Longrightarrow> start \<le> i \<and> i < start + n"
  shows "name_loop entry name start n = Ok (map_of es name)"
  using assms(3,4)
proof (induction n arbitrary: start rule: less_induct)
  case (less n)
  have none: "map_of es name = None" if "\<And>i. i < length es \<Longrightarrow> fst (es ! i) \<noteq> name"
    using that by (force simp: map_of_eq_None_iff in_set_conv_nth)
  consider "1 < n" | "n = 1" | "n = 0" by linarith
  then show ?case
  proof cases
    case 1
    define mid where "mid = start + n div 2"
    have mid: "start < mid" "mid < start + n" "mid < length es" using 1 less.prems(1) by (auto simp: mid_def)
    have unf: "name_loop entry name start n =
      (if fst (es ! mid) = name then Ok (Some (snd (es ! mid)))
       else if strcmp (fst (es ! mid)) name < 0 then name_loop entry name (mid + 1) (start + n - (mid + 1))
       else name_loop entry name start (mid - start))"
      using 1 mid e by (subst name_loop.simps) (simp add: Let_def mid_def [symmetric] split_def)
    consider "fst (es ! mid) = name" | "strcmp (fst (es ! mid)) name < 0" | "strcmp name (fst (es ! mid)) < 0"
      by (metis linorder_less_linear strcmp_eq strcmp_swap)
    then show ?thesis
    proof cases
      case 1
      then show ?thesis using map_of_nth [OF s mid(3)] unfolding unf by simp
    next
      case 2
      have "mid + 1 \<le> i \<and> i < mid + 1 + (start + n - (mid + 1))" if i: "i < length es" "fst (es ! i) = name" for i
      proof -
        have "\<not> i < mid" using names_sorted_less [OF s, of i mid] mid(3) 2 i strcmp_swap [of "fst (es ! mid)" name] by auto
        moreover have "i \<noteq> mid" using 2 i by (metis less_irrefl strcmp_eq)
        ultimately show ?thesis using less.prems(2) [OF i] mid by simp
      qed
      then have "name_loop entry name (mid + 1) (start + n - (mid + 1)) = Ok (map_of es name)"
        using mid less.prems(1) by (intro less.IH) simp_all
      moreover have "fst (es ! mid) \<noteq> name" using 2 by (metis less_irrefl strcmp_eq)
      ultimately show ?thesis using 2 unfolding unf by simp
    next
      case 3
      have "start \<le> i \<and> i < start + (mid - start)" if i: "i < length es" "fst (es ! i) = name" for i
      proof -
        have "\<not> mid < i" using names_sorted_less [OF s, of mid i] 3 i strcmp_swap [of name "fst (es ! mid)"] by auto
        moreover have "i \<noteq> mid" using 3 i by (metis less_irrefl strcmp_eq)
        ultimately show ?thesis using less.prems(2) [OF i] mid by simp
      qed
      then have "name_loop entry name start (mid - start) = Ok (map_of es name)"
        using mid less.prems(1) by (intro less.IH) simp_all
      moreover have "fst (es ! mid) \<noteq> name" using 3 by (metis less_irrefl strcmp_eq)
      ultimately show ?thesis using 3 strcmp_swap [of name "fst (es ! mid)"] unfolding unf by simp
    qed
  next
    case 2
    then have st: "start < length es" using less.prems(1) by simp
    have unf: "name_loop entry name start n = (if fst (es ! start) = name then Ok (Some (snd (es ! start))) else Ok None)"
      using 2 st e by (subst name_loop.simps) (simp add: split_def)
    have "fst (es ! start) \<noteq> name \<Longrightarrow> map_of es name = None"
      using less.prems(2) 2 by (intro none) (metis Suc_eq_plus1 le_antisym less_Suc_eq_le)
    then show ?thesis using map_of_nth [OF s st] unfolding unf by auto
  next
    case 3
    then have "map_of es name = None" using less.prems(2) by (intro none) force
    then show ?thesis using 3 by (subst name_loop.simps) simp
  qed
qed

section \<open>The contract of a lookup by name\<close>

locale name_lookup =
  fixes lookup :: "'d \<Rightarrow> bytes \<Rightarrow> 'v option res" and entries :: "'d \<Rightarrow> (bytes \<times> 'v) list"
    and indexed :: "'d \<Rightarrow> bool"
  assumes lookup_map: "indexed d \<Longrightarrow> lookup d name = Ok (map_of (entries d) name)"
    and entries_distinct: "indexed d \<Longrightarrow> distinct (map fst (entries d))"
begin

lemma finds: "indexed d \<Longrightarrow> (name, x) \<in> set (entries d) \<Longrightarrow> lookup d name = Ok (Some x)"
  using lookup_map entries_distinct by simp

lemma finds_only: "indexed d \<Longrightarrow> lookup d name = Ok (Some x) \<Longrightarrow> (name, x) \<in> set (entries d)"
  using lookup_map by (auto dest: map_of_SomeD)

lemma misses: "indexed d \<Longrightarrow> name \<notin> fst ` set (entries d) \<Longrightarrow> lookup d name = Ok None"
  using lookup_map by (simp add: map_of_eq_None_iff)

end

text \<open>The tables of the three kinds of descriptor: the sorted index and what it points to.\<close>

definition enum_entries :: "enum_desc \<Rightarrow> (bytes \<times> enum_value) list" where
  "enum_entries E = (case values_by_name E of None \<Rightarrow> []
     | Some tab \<Rightarrow> map (\<lambda>(n, i). (n, ed_values E ! i)) tab)"

definition enum_indexed :: "enum_desc \<Rightarrow> bool" where
  "enum_indexed E \<longleftrightarrow> names_sorted (enum_entries E)
     \<and> (\<forall>tab. values_by_name E = Some tab \<longrightarrow> (\<forall>(n, i)\<in>set tab. i < length (ed_values E)))"

definition field_entries :: "message_desc \<Rightarrow> (bytes \<times> field_desc) list" where
  "field_entries D = (case fields_sorted_by_name D of None \<Rightarrow> []
     | Some tab \<Rightarrow> map (\<lambda>i. (fd_name (md_fields D ! i), md_fields D ! i)) tab)"

definition field_indexed :: "message_desc \<Rightarrow> bool" where
  "field_indexed D \<longleftrightarrow> names_sorted (field_entries D)
     \<and> (\<forall>tab. fields_sorted_by_name D = Some tab \<longrightarrow> length tab = length (md_fields D)
         \<and> (\<forall>i\<in>set tab. i < length (md_fields D)))"

definition method_entries :: "service_desc \<Rightarrow> (bytes \<times> nat) list" where
  "method_entries D = (case method_indices_by_name D of None \<Rightarrow> []
     | Some tab \<Rightarrow> map (\<lambda>i. (sd_methods D ! i, i)) tab)"

definition method_indexed :: "service_desc \<Rightarrow> bool" where
  "method_indexed D \<longleftrightarrow> names_sorted (method_entries D)
     \<and> (\<forall>tab. method_indices_by_name D = Some tab \<longrightarrow> length tab = length (sd_methods D)
         \<and> (\<forall>i\<in>set tab. i < length (sd_methods D)))"

interpretation enum_names: name_lookup
  "\<lambda>E. protobuf_c_enum_descriptor_get_value_by_name (Some E)" enum_entries enum_indexed
proof
  fix E :: enum_desc and name :: bytes
  assume ok: "enum_indexed E"
  then show "distinct (map fst (enum_entries E))" by (auto simp: enum_indexed_def intro: names_distinct)
  show "protobuf_c_enum_descriptor_get_value_by_name (Some E) name = Ok (map_of (enum_entries E) name)"
  proof (cases "values_by_name E")
    case (Some tab)
    have e: "enum_entries E = map (\<lambda>(n, i). (n, ed_values E ! i)) tab" by (simp add: enum_entries_def Some)
    have s: "names_sorted tab" using ok by (simp add: enum_indexed_def e names_sorted_def sorted_wrt_map split_def)
    have l: "name_loop (entry_at tab) name 0 (length tab) = Ok (map_of tab name)"
      using name_loop_map [OF s, of "entry_at tab" 0 "length tab" name] by (simp add: entry_at_def)
    have m: "map_of (map (\<lambda>(n, i). (n, g i)) tab) name = map_option g (map_of tab name)" for g :: "nat \<Rightarrow> enum_value"
      by (induction tab) auto
    have "map_of tab name = Some i \<Longrightarrow> i < length (ed_values E)" for i
      using ok Some by (auto simp: enum_indexed_def dest!: map_of_SomeD)
    then show ?thesis unfolding e m
      by (auto simp: protobuf_c_enum_descriptor_get_value_by_name_def Some l entry_at_def split: option.split)
  qed (simp add: protobuf_c_enum_descriptor_get_value_by_name_def enum_entries_def)
qed

interpretation field_names: name_lookup
  "\<lambda>D. protobuf_c_message_descriptor_get_field_by_name (Some D)" field_entries field_indexed
proof
  fix D :: message_desc and name :: bytes
  assume ok: "field_indexed D"
  then show "distinct (map fst (field_entries D))" by (auto simp: field_indexed_def intro: names_distinct)
  show "protobuf_c_message_descriptor_get_field_by_name (Some D) name = Ok (map_of (field_entries D) name)"
  proof (cases "fields_sorted_by_name D")
    case (Some tab)
    have e: "field_entries D = map (\<lambda>i. (fd_name (md_fields D ! i), md_fields D ! i)) tab"
      by (simp add: field_entries_def Some)
    have b: "length tab = length (md_fields D)" "\<And>i. i \<in> set tab \<Longrightarrow> i < length (md_fields D)"
      using ok Some by (auto simp: field_indexed_def)
    have s: "names_sorted (field_entries D)" using ok by (simp add: field_indexed_def)
    show ?thesis
      unfolding protobuf_c_message_descriptor_get_field_by_name_def Some option.case
      by (rule name_loop_map [OF s]) (use b e in \<open>auto simp: entry_at_def\<close>)
  qed (simp add: protobuf_c_message_descriptor_get_field_by_name_def field_entries_def)
qed

interpretation method_names: name_lookup
  "\<lambda>D. protobuf_c_service_descriptor_get_method_by_name (Some D)" method_entries method_indexed
proof
  fix D :: service_desc and name :: bytes
  assume ok: "method_indexed D"
  then show "distinct (map fst (method_entries D))" by (auto simp: method_indexed_def intro: names_distinct)
  show "protobuf_c_service_descriptor_get_method_by_name (Some D) name = Ok (map_of (method_entries D) name)"
  proof (cases "method_indices_by_name D")
    case (Some tab)
    have e: "method_entries D = map (\<lambda>i. (sd_methods D ! i, i)) tab" by (simp add: method_entries_def Some)
    have b: "length tab = length (sd_methods D)" "\<And>i. i \<in> set tab \<Longrightarrow> i < length (sd_methods D)"
      using ok Some by (auto simp: method_indexed_def)
    have s: "names_sorted (method_entries D)" using ok by (simp add: method_indexed_def)
    show ?thesis
      unfolding protobuf_c_service_descriptor_get_method_by_name_def Some option.case
      by (rule name_loop_map [OF s]) (use b e in \<open>auto simp: entry_at_def\<close>)
  qed (simp add: protobuf_c_service_descriptor_get_method_by_name_def method_entries_def)
qed

section \<open>Properties of the lookups\<close>

text \<open>C31: On a descriptor whose index is sorted by name and stays within its tables, the three lookups
  by name return exactly the entry with that name, and nothing for a name that is not there.\<close>

theorem name_lookups:
  "(enum_indexed E \<longrightarrow> protobuf_c_enum_descriptor_get_value_by_name (Some E) name = Ok (map_of (enum_entries E) name))
   \<and> (field_indexed D \<longrightarrow> protobuf_c_message_descriptor_get_field_by_name (Some D) name = Ok (map_of (field_entries D) name))
   \<and> (method_indexed V \<longrightarrow> protobuf_c_service_descriptor_get_method_by_name (Some V) name = Ok (map_of (method_entries V) name))"
  by (simp add: enum_names.lookup_map field_names.lookup_map method_names.lookup_map)

definition name_field :: "bytes \<Rightarrow> field_desc" where
  "name_field n = \<lparr>fd_name = n, fd_id = 1, fd_label = LABEL_REQUIRED, fd_type = TYPE_BOOL,
     fd_quantifier_offset = 0, fd_offset = 24, fd_descriptor = 0, fd_default = None, fd_flags = 0\<rparr>"

definition name_desc :: message_desc where
  "name_desc = \<lparr>md_magic = MESSAGE_DESCRIPTOR_MAGIC, md_addr = 1, sizeof_message = 32,
     md_fields = [name_field [98], name_field [97, 98], name_field [97]],
     fields_sorted_by_name = Some [2, 1, 0], n_field_ranges = 0, field_ranges = [], message_init = None\<rparr>"

definition name_service :: service_desc where
  "name_service = \<lparr>sd_magic = SERVICE_DESCRIPTOR_MAGIC, sd_methods = [[66], [65]],
     method_indices_by_name = Some [1, 0]\<rparr>"

lemma name_lookups_witness:
  "protobuf_c_enum_descriptor_get_value_by_name (Some max_enum) [65] = Ok (Some (ed_values max_enum ! 0))
   \<and> protobuf_c_message_descriptor_get_field_by_name (Some name_desc) [97, 98] = Ok (Some (name_field [97, 98]))
   \<and> protobuf_c_service_descriptor_get_method_by_name (Some name_service) [67] = Ok None"
  using name_lookups [of max_enum "[65]" name_desc name_service] name_lookups [of max_enum "[97, 98]" name_desc name_service]
    name_lookups [of max_enum "[67]" name_desc name_service]
  by (simp add: enum_indexed_def enum_entries_def max_enum_def names_sorted_def field_indexed_def field_entries_def
      name_desc_def name_field_def method_indexed_def method_entries_def name_service_def)

section \<open>Services\<close>

text \<open>A service object initialised by \<open>protobuf_c_service_generated_init\<close> has no handlers: invoking
  any of its methods calls a null pointer, and an index beyond the methods fails an assertion; once a
  handler is stored, invoking its method calls exactly that one.\<close>

theorem service_invocation:
  assumes "protobuf_c_service_generated_init s D destroy = Ok t"
  shows "protobuf_c_service_invoke_internal t i = Fault
    \<and> (i < length (sd_methods D) \<longrightarrow>
         protobuf_c_service_invoke_internal (t\<lparr>sv_handlers := (sv_handlers t)[i := Some h]\<rparr>) j
           = (if j = i then Ok h else Fault))
    \<and> protobuf_c_service_destroy t = of_opt destroy"
  using assms
  by (auto simp: protobuf_c_service_generated_init_def protobuf_c_service_invoke_internal_def
      protobuf_c_service_destroy_def bindR_Ok_iff guardR_def entry_at_def nth_append Let_def nth_list_update
      split: if_splits)

lemma service_invocation_witness:
  "\<exists>t. protobuf_c_service_generated_init \<lparr>sv_descriptor = name_service, sv_destroy = None, sv_handlers = [Some 3, Some 4]\<rparr>
      name_service (Some 9) = Ok t \<and> protobuf_c_service_invoke_internal t 0 = Fault"
  using service_invocation [of "\<lparr>sv_descriptor = name_service, sv_destroy = None, sv_handlers = [Some 3, Some 4]\<rparr>"
      name_service "Some 9" _ 0]
  by (simp add: protobuf_c_service_generated_init_def name_service_def)

end
