(* ===== verification/Pb_Message.thy ===== *)
theory Pb_Message
  imports Pb_Types Pb_Heap Pb_Desc
begin

text \<open>
  Messages in memory (\<^verbatim>\<open>protobuf-c/protobuf-c.c\<close>): initialising, checking, merging and freeing them.
  The C recursion over nested messages is bounded by \<open>d\<close>, the calls the stack has room for.
\<close>

section \<open>Members\<close>

text \<open>Storing into a member; an offset no member has is a fault.\<close>

definition set_member :: "message \<Rightarrow> nat \<Rightarrow> slot \<Rightarrow> message res" where
  "set_member m off v = (if off \<in> fst ` set (members m)
     then Ok (Message (descriptor m) (map (\<lambda>(o', w). (o', if o' = off then v else w)) (members m))
       (unknown_block m) (unknown_fields m))
     else Fault)"

definition sizeof_elt_in_repeated_array :: "ProtobufCType \<Rightarrow> u64" where
  "sizeof_elt_in_repeated_array t = (case t of
     TYPE_SINT32 \<Rightarrow> 4 | TYPE_INT32 \<Rightarrow> 4 | TYPE_UINT32 \<Rightarrow> 4 | TYPE_SFIXED32 \<Rightarrow> 4 | TYPE_FIXED32 \<Rightarrow> 4
   | TYPE_FLOAT \<Rightarrow> 4 | TYPE_ENUM \<Rightarrow> 4
   | TYPE_SINT64 \<Rightarrow> 8 | TYPE_INT64 \<Rightarrow> 8 | TYPE_UINT64 \<Rightarrow> 8 | TYPE_SFIXED64 \<Rightarrow> 8 | TYPE_FIXED64 \<Rightarrow> 8
   | TYPE_DOUBLE \<Rightarrow> 8
   | TYPE_BOOL \<Rightarrow> 4
   | TYPE_STRING \<Rightarrow> 8 | TYPE_MESSAGE \<Rightarrow> 8
   | TYPE_BYTES \<Rightarrow> 16)"

text \<open>\<open>for (...) f(x)\<close>, each step changing the heap.\<close>

fun each_heap :: "('a \<Rightarrow> pb_heap \<Rightarrow> pb_heap res) \<Rightarrow> 'a list \<Rightarrow> pb_heap \<Rightarrow> pb_heap res" where
  "each_heap f [] h = Ok h"
| "each_heap f (x # xs) h = bindR (f x h) (each_heap f xs)"

text \<open>\<open>do_free\<close> of a string or data pointer; the default is not a block of the heap.\<close>

fun free_ptr :: "ptr \<Rightarrow> pb_heap \<Rightarrow> pb_heap res" where
  "free_ptr Null h = Ok h"
| "free_ptr Dflt h = Fault"
| "free_ptr (Heap b _) h = do_free (Some b) h"

text \<open>\<open>if (p && p != default_value) do_free(p)\<close>\<close>

fun free_unless_default :: "ptr \<Rightarrow> pb_heap \<Rightarrow> pb_heap res" where
  "free_unless_default (Heap b bs) h = free_ptr (Heap b bs) h"
| "free_unless_default _ h = Ok h"

section \<open>Initialising\<close>

text \<open>The member offsets a descriptor names, all of them zeroed by \<open>memset\<close>.\<close>

definition zero_members :: "message_desc \<Rightarrow> (nat \<times> slot) list" where
  "zero_members D = map (\<lambda>off. (off, Zero)) (remdups (concat (map (\<lambda>f.
     fd_offset f # (if fd_quantifier_offset f = 0 then [] else [fd_quantifier_offset f])) (md_fields D))))"

definition init_default :: "field_desc \<Rightarrow> message \<Rightarrow> message res" where
  "init_default f m = (case fd_default f of None \<Rightarrow> Ok m
   | Some dv \<Rightarrow> if fd_label f = LABEL_REPEATED then Ok m
     else let copy32 = (case dv of Def32 w \<Rightarrow> set_member m (fd_offset f) (V32 w) | _ \<Rightarrow> Fault);
              copy64 = (case dv of Def64 w \<Rightarrow> set_member m (fd_offset f) (V64 w) | _ \<Rightarrow> Fault) in
       case fd_type f of
         TYPE_INT32 \<Rightarrow> copy32 | TYPE_SINT32 \<Rightarrow> copy32 | TYPE_SFIXED32 \<Rightarrow> copy32 | TYPE_UINT32 \<Rightarrow> copy32
       | TYPE_FIXED32 \<Rightarrow> copy32 | TYPE_FLOAT \<Rightarrow> copy32 | TYPE_ENUM \<Rightarrow> copy32
       | TYPE_INT64 \<Rightarrow> copy64 | TYPE_SINT64 \<Rightarrow> copy64 | TYPE_SFIXED64 \<Rightarrow> copy64 | TYPE_UINT64 \<Rightarrow> copy64
       | TYPE_FIXED64 \<Rightarrow> copy64 | TYPE_DOUBLE \<Rightarrow> copy64
       | TYPE_BOOL \<Rightarrow> copy32
       | TYPE_BYTES \<Rightarrow> (case dv of DefBytes n _ \<Rightarrow> set_member m (fd_offset f) (VBytes n Dflt) | _ \<Rightarrow> Fault)
       | TYPE_STRING \<Rightarrow> set_member m (fd_offset f) (VStr Dflt)
       | TYPE_MESSAGE \<Rightarrow> Fault)"

fun init_defaults :: "field_desc list \<Rightarrow> message \<Rightarrow> message res" where
  "init_defaults [] m = Ok m"
| "init_defaults (f # fs) m = bindR (init_default f m) (init_defaults fs)"

definition message_init_generic :: "nat \<Rightarrow> message_desc \<Rightarrow> message res" where
  "message_init_generic desc D = init_defaults (md_fields D) (Message desc (zero_members D) None [])"

definition protobuf_c_message_init :: "nat \<Rightarrow> message_desc \<Rightarrow> message res" where
  "protobuf_c_message_init desc D = (case message_init D of None \<Rightarrow> Fault
   | Some init \<Rightarrow> Ok (Message desc init None []))"

section \<open>Freeing\<close>

text \<open>The descriptor pointer of the message has been set to null, so a quantifier at offset zero
  reads as zero.\<close>

definition free_field :: "(nat \<times> message \<Rightarrow> pb_heap \<Rightarrow> pb_heap res) \<Rightarrow> message_desc \<Rightarrow> message
    \<Rightarrow> field_desc \<Rightarrow> pb_heap \<Rightarrow> pb_heap res" where
  "free_field free_unpacked D m f h =
     bindR (if has_flag f FLAG_ONEOF
         then bindR (if fd_quantifier_offset f = 0 then Ok 0
           else bindR (STRUCT_MEMBER m (fd_quantifier_offset f)) as32) (\<lambda>c. Ok (fd_id f \<noteq> c))
         else Ok False) (\<lambda>skip.
     if skip then Ok h
     else if fd_label f = LABEL_REPEATED then
       bindR (quantifier_size m (fd_quantifier_offset f)) (\<lambda>n.
       bindR (bindR (STRUCT_MEMBER m (fd_offset f)) as_arr) (\<lambda>arr.
       case arr of None \<Rightarrow> Ok h
       | Some (b, _) \<Rightarrow>
           bindR (if fd_type f = TYPE_STRING then
               bindR (elements n arr) (\<lambda>vs. each_heap (\<lambda>v h. bindR (as_str v) (\<lambda>p. free_ptr p h)) vs h)
             else if fd_type f = TYPE_BYTES then
               bindR (elements n arr) (\<lambda>vs. each_heap (\<lambda>v h. bindR (as_bytes v) (\<lambda>(_, p). free_ptr p h)) vs h)
             else if fd_type f = TYPE_MESSAGE then
               bindR (elements n arr) (\<lambda>vs. each_heap (\<lambda>v h. bindR (as_msg v) (\<lambda>p.
                 case p of None \<Rightarrow> Ok h | Some bm \<Rightarrow> free_unpacked bm h)) vs h)
             else Ok h) (\<lambda>h. do_free (Some b) h)))
     else if fd_type f = TYPE_STRING then
       bindR (bindR (STRUCT_MEMBER m (fd_offset f)) as_str) (\<lambda>p. free_unless_default p h)
     else if fd_type f = TYPE_BYTES then
       bindR (bindR (STRUCT_MEMBER m (fd_offset f)) as_bytes) (\<lambda>(_, p). free_unless_default p h)
     else if fd_type f = TYPE_MESSAGE then
       bindR (bindR (STRUCT_MEMBER m (fd_offset f)) as_msg) (\<lambda>p.
         case p of None \<Rightarrow> Ok h | Some bm \<Rightarrow> free_unpacked bm h)
     else Ok h)"

fun protobuf_c_message_free_unpacked :: "schema \<Rightarrow> nat \<Rightarrow> nat \<times> message \<Rightarrow> pb_heap \<Rightarrow> pb_heap res" where
  "protobuf_c_message_free_unpacked S 0 bm h = Fault"
| "protobuf_c_message_free_unpacked S (Suc d) bm h = (let (b, m) = bm in
     bindR (get_desc S (descriptor m)) (\<lambda>D.
     bindR (guardR (md_magic D = MESSAGE_DESCRIPTOR_MAGIC)) (\<lambda>_.
     bindR (each_heap (free_field (protobuf_c_message_free_unpacked S d) D m) (md_fields D) h) (\<lambda>h.
     bindR (each_heap (\<lambda>u. free_ptr (uf_data u)) (unknown_fields m) h) (\<lambda>h.
     bindR (case unknown_block m of None \<Rightarrow> Ok h | Some (ub, _) \<Rightarrow> do_free (Some ub) h) (\<lambda>h.
     do_free (Some b) h))))))"

section \<open>Checking\<close>

text \<open>\<open>for (...) if (!ok(x)) return FALSE;\<close>\<close>

fun all_ok :: "('a \<Rightarrow> bool res) \<Rightarrow> 'a list \<Rightarrow> bool res" where
  "all_ok f [] = Ok True"
| "all_ok f (x # xs) = bindR (f x) (\<lambda>b. if b then all_ok f xs else Ok False)"

definition check_field :: "((nat \<times> message) option \<Rightarrow> bool res) \<Rightarrow> message_desc \<Rightarrow> message
    \<Rightarrow> field_desc \<Rightarrow> bool res" where
  "check_field check D m f =
     bindR (if has_flag f FLAG_ONEOF
         then bindR (quantifier32 D m (fd_quantifier_offset f)) (\<lambda>c. Ok (fd_id f \<noteq> c))
         else Ok False) (\<lambda>skip.
     if skip then Ok True
     else if fd_label f = LABEL_REPEATED then
       bindR (quantifier_size m (fd_quantifier_offset f)) (\<lambda>n.
       bindR (bindR (STRUCT_MEMBER m (fd_offset f)) as_arr) (\<lambda>arr.
       if 0 < n \<and> arr = None then Ok False
       else if fd_type f = TYPE_MESSAGE then
         bindR (elements n arr) (all_ok (\<lambda>v. bindR (as_msg v) check))
       else if fd_type f = TYPE_STRING then
         bindR (elements n arr) (all_ok (\<lambda>v. bindR (as_str v) (\<lambda>p. Ok (p \<noteq> Null))))
       else if fd_type f = TYPE_BYTES then
         bindR (elements n arr) (all_ok (\<lambda>v. bindR (as_bytes v) (\<lambda>(len, p). Ok (\<not> (0 < len \<and> p = Null)))))
       else Ok True))
     else if fd_type f = TYPE_MESSAGE then
       bindR (bindR (STRUCT_MEMBER m (fd_offset f)) as_msg) (\<lambda>p.
         if fd_label f = LABEL_REQUIRED \<or> p \<noteq> None then check p else Ok True)
     else if fd_type f = TYPE_STRING then
       bindR (bindR (STRUCT_MEMBER m (fd_offset f)) as_str) (\<lambda>p.
         Ok (\<not> (fd_label f = LABEL_REQUIRED \<and> p = Null)))
     else if fd_type f = TYPE_BYTES then
       bindR (if fd_label f = LABEL_REQUIRED then Ok True
         else bindR (quantifier32 D m (fd_quantifier_offset f)) (\<lambda>h. Ok (h = 1))) (\<lambda>present.
       if present then bindR (bindR (STRUCT_MEMBER m (fd_offset f)) as_bytes) (\<lambda>(len, p).
         Ok (\<not> (0 < len \<and> p = Null)))
       else Ok True)
     else Ok True)"

fun protobuf_c_message_check :: "schema \<Rightarrow> nat \<Rightarrow> (nat \<times> message) option \<Rightarrow> bool res" where
  "protobuf_c_message_check S 0 bm = Fault"
| "protobuf_c_message_check S (Suc d) bm = (case bm of None \<Rightarrow> Ok False
   | Some (_, m) \<Rightarrow> bindR (get_desc S (descriptor m)) (\<lambda>D.
       if md_magic D \<noteq> MESSAGE_DESCRIPTOR_MAGIC then Ok False
       else all_ok (check_field (protobuf_c_message_check S d) D m) (md_fields D)))"

section \<open>Merging\<close>

text \<open>Storing through a quantifier pointer; at offset zero that would be the descriptor pointer.\<close>

definition set_quantifier32 :: "message \<Rightarrow> nat \<Rightarrow> u32 \<Rightarrow> message res" where
  "set_quantifier32 m off w = (if off = 0 then Fault else set_member m off (V32 w))"

text \<open>\<open>p == def_val\<close> for a string: both may be null.\<close>

definition is_default_str :: "field_desc \<Rightarrow> ptr \<Rightarrow> bool" where
  "is_default_str f p \<longleftrightarrow> (if fd_default f = None then p = Null else p = Dflt)"

text \<open>The result of a step: whether to go on, the two messages and the heap.\<close>

type_synonym merged = "(bool \<times> message \<times> message \<times> pb_heap) res"

definition merge_repeated :: "field_desc \<Rightarrow> message \<Rightarrow> message \<Rightarrow> pb_heap \<Rightarrow> merged" where
  "merge_repeated f em lm h =
     bindR (quantifier_size em (fd_quantifier_offset f)) (\<lambda>n_earlier.
     bindR (bindR (STRUCT_MEMBER em (fd_offset f)) as_arr) (\<lambda>p_earlier.
     bindR (quantifier_size lm (fd_quantifier_offset f)) (\<lambda>n_latter.
     bindR (bindR (STRUCT_MEMBER lm (fd_offset f)) as_arr) (\<lambda>p_latter.
     if 0 < n_earlier then
       bindR (if 0 < n_latter then
           let el_size = sizeof_elt_in_repeated_array (fd_type f) in
           (case do_alloc ((n_earlier + n_latter) * el_size) h of
             (None, h) \<Rightarrow> Ok (None, h)
           | (Some blk, h) \<Rightarrow>
               bindR (elements n_earlier p_earlier) (\<lambda>es.
               bindR (elements n_latter p_latter) (\<lambda>ls.
               bindR (do_free (map_option fst p_latter) h) (\<lambda>h.
               bindR (do_free (map_option fst p_earlier) h) (\<lambda>h.
               Ok (Some (Some (blk, unat (n_earlier + n_latter), es @ ls), n_earlier + n_latter), h))))))
         else Ok (Some (p_earlier, n_earlier), h)) (\<lambda>(r, h).
       case r of None \<Rightarrow> Ok (False, em, lm, h)
       | Some (p, n) \<Rightarrow>
           bindR (set_member lm (fd_offset f) (VArr p)) (\<lambda>lm.
           bindR (set_member lm (fd_quantifier_offset f) (V64 n)) (\<lambda>lm.
           bindR (set_member em (fd_quantifier_offset f) (V64 0)) (\<lambda>em.
           bindR (set_member em (fd_offset f) (VArr None)) (\<lambda>em.
           Ok (True, em, lm, h))))))
     else Ok (True, em, lm, h)))))"

text \<open>Whether the element of the earlier message is to be moved into the latter; a nested message
  that both have is merged in place.\<close>

definition need_to_merge :: "(message \<Rightarrow> message \<Rightarrow> pb_heap \<Rightarrow> merged) \<Rightarrow> field_desc \<Rightarrow> u32 res \<Rightarrow> u32 res
    \<Rightarrow> message \<Rightarrow> message \<Rightarrow> pb_heap \<Rightarrow> (bool option \<times> message \<times> message \<times> pb_heap) res" where
  "need_to_merge merge f earlier_case latter_case em lm h =
     bindR (STRUCT_MEMBER em (fd_offset f)) (\<lambda>earlier_elem.
     bindR (STRUCT_MEMBER lm (fd_offset f)) (\<lambda>latter_elem.
     if fd_type f = TYPE_MESSAGE then
       bindR (as_msg earlier_elem) (\<lambda>e. bindR (as_msg latter_elem) (\<lambda>l.
       case (e, l) of
         (Some (eb, e), Some (lb, l)) \<Rightarrow>
           bindR (merge e l h) (\<lambda>(ok, e, l, h).
           bindR (set_member em (fd_offset f) (VMsg (Some (eb, e)))) (\<lambda>em.
           bindR (set_member lm (fd_offset f) (VMsg (Some (lb, l)))) (\<lambda>lm.
           Ok (if ok then Some False else None, em, lm, h))))
       | (Some _, None) \<Rightarrow> Ok (Some True, em, lm, h)
       | _ \<Rightarrow> Ok (Some False, em, lm, h)))
     else if fd_type f = TYPE_BYTES then
       bindR (as_bytes earlier_elem) (\<lambda>(_, e). bindR (as_bytes latter_elem) (\<lambda>(_, l).
       Ok (Some ((e \<noteq> Null \<and> (fd_default f = None \<or> e \<noteq> Dflt))
         \<and> (l = Null \<or> fd_default f \<noteq> None \<and> l = Dflt)), em, lm, h)))
     else if fd_type f = TYPE_STRING then
       bindR (as_str earlier_elem) (\<lambda>e. bindR (as_str latter_elem) (\<lambda>l.
       Ok (Some (\<not> is_default_str f e \<and> is_default_str f l), em, lm, h)))
     else bindR earlier_case (\<lambda>e. bindR latter_case (\<lambda>l.
       Ok (Some (e \<noteq> 0 \<and> l = 0), em, lm, h)))))"

definition merge_singular :: "(message \<Rightarrow> message \<Rightarrow> pb_heap \<Rightarrow> merged) \<Rightarrow> message_desc \<Rightarrow> message_desc
    \<Rightarrow> field_desc \<Rightarrow> message \<Rightarrow> message \<Rightarrow> pb_heap \<Rightarrow> merged" where
  "merge_singular merge ED LD fi em lm h = (let q = fd_quantifier_offset fi in
     bindR (if has_flag fi FLAG_ONEOF then
         bindR (quantifier32 LD lm q) (\<lambda>latter_case.
         if latter_case = 0 then
           bindR (quantifier32 ED em q) (\<lambda>earlier_case.
           bindR (int_range_lookup (n_field_ranges LD) (field_ranges LD) earlier_case) (\<lambda>field_index.
           if field_index < 0 then Ok (Inl False)
           else bindR (entry_at (md_fields LD) (nat field_index)) (\<lambda>f. Ok (Inr f))))
         else Ok (Inl True))
       else Ok (Inr fi)) (\<lambda>found. case found of
       Inl go \<Rightarrow> Ok (go, em, lm, h)
     | Inr f \<Rightarrow>
         bindR (need_to_merge merge f (quantifier32 ED em q) (quantifier32 LD lm q) em lm h)
           (\<lambda>(need, em, lm, h). case need of
             None \<Rightarrow> Ok (False, em, lm, h)
           | Some False \<Rightarrow> Ok (True, em, lm, h)
           | Some True \<Rightarrow>
               bindR (STRUCT_MEMBER em (fd_offset f)) (\<lambda>v.
               bindR (set_member lm (fd_offset f) v) (\<lambda>lm.
               bindR (set_member em (fd_offset f) Zero) (\<lambda>em.
               if fd_quantifier_offset f \<noteq> 0 then
                 bindR (quantifier32 ED em q) (\<lambda>c.
                 bindR (set_quantifier32 lm q c) (\<lambda>lm.
                 bindR (set_quantifier32 em q 0) (\<lambda>em. Ok (True, em, lm, h))))
               else Ok (True, em, lm, h)))))))"

fun merge_fields :: "(message \<Rightarrow> message \<Rightarrow> pb_heap \<Rightarrow> merged) \<Rightarrow> message_desc \<Rightarrow> message_desc
    \<Rightarrow> field_desc list \<Rightarrow> message \<Rightarrow> message \<Rightarrow> pb_heap \<Rightarrow> merged" where
  "merge_fields merge ED LD [] em lm h = Ok (True, em, lm, h)"
| "merge_fields merge ED LD (f # fs) em lm h =
     bindR (if fd_label f = LABEL_REPEATED then merge_repeated f em lm h
       else if fd_label f = LABEL_OPTIONAL \<or> fd_label f = LABEL_NONE then merge_singular merge ED LD f em lm h
       else Ok (True, em, lm, h)) (\<lambda>(go, em, lm, h).
     if go then merge_fields merge ED LD fs em lm h else Ok (False, em, lm, h))"

fun merge_messages :: "schema \<Rightarrow> nat \<Rightarrow> message \<Rightarrow> message \<Rightarrow> pb_heap \<Rightarrow> merged" where
  "merge_messages S 0 em lm h = Fault"
| "merge_messages S (Suc d) em lm h = bindR (get_desc S (descriptor em)) (\<lambda>ED.
     bindR (get_desc S (descriptor lm)) (\<lambda>LD.
     merge_fields (merge_messages S d) ED LD (md_fields LD) em lm h))"

end
