(* ===== verification/Pb_Parse.thy ===== *)
theory Pb_Parse
  imports Pb_Types Pb_Varint
begin

text \<open>
  Reading scalars, tags and length prefixes from the wire (\<^verbatim>\<open>protobuf-c/protobuf-c.c\<close>). A data
  pointer is the rest of the input from there on, and reading past its end is a fault; a routine
  that reports failure by returning zero or FALSE returns \<open>None\<close>.
\<close>

section \<open>Integers\<close>

text \<open>\<open>(T) (data[i] & 0x7f) << shift\<close>\<close>

definition septet :: "nat \<Rightarrow> u8 \<Rightarrow> 'a::len word" where
  "septet shift b = push_bit shift (ucast (b AND 0x7f))"

definition parse_uint32 :: "nat \<Rightarrow> bytes \<Rightarrow> u32 res" where
  "parse_uint32 len data = bindR (get 0 data) (\<lambda>d0.
     let rv = ucast (d0 AND 0x7f) in
     if 1 < len then bindR (get 1 data) (\<lambda>d1. let rv = rv OR septet 7 d1 in
       if 2 < len then bindR (get 2 data) (\<lambda>d2. let rv = rv OR septet 14 d2 in
         if 3 < len then bindR (get 3 data) (\<lambda>d3. let rv = rv OR septet 21 d3 in
           if 4 < len then bindR (get 4 data) (\<lambda>d4. Ok (rv OR push_bit 28 (ucast d4)))
           else Ok rv)
         else Ok rv)
       else Ok rv)
     else Ok rv)"

definition parse_int32 :: "nat \<Rightarrow> bytes \<Rightarrow> u32 res" where
  "parse_int32 len data = parse_uint32 len data"

definition unzigzag32 :: "u32 \<Rightarrow> u32" where
  "unzigzag32 v = drop_bit 1 v XOR - (v AND 1)"

text \<open>\<open>memcpy(&t, data, n)\<close> on a little-endian host.\<close>

fun le_value :: "bytes \<Rightarrow> 'a::len word" where
  "le_value [] = 0"
| "le_value (b # bs) = ucast b OR push_bit 8 (le_value bs)"

definition parse_fixed_uint32 :: "bytes \<Rightarrow> u32 res" where
  "parse_fixed_uint32 data = bindR (read_bytes 0 4 data) (\<lambda>bs. Ok (le_value bs))"

definition parse_fixed_uint64 :: "bytes \<Rightarrow> u64 res" where
  "parse_fixed_uint64 data = bindR (read_bytes 0 8 data) (\<lambda>bs. Ok (le_value bs))"

text \<open>\<open>for (i = 4; i < len; i++)\<close>, with \<open>n\<close> rounds to go.\<close>

fun parse_uint64_loop :: "nat \<Rightarrow> nat \<Rightarrow> nat \<Rightarrow> u64 \<Rightarrow> bytes \<Rightarrow> u64 res" where
  "parse_uint64_loop 0 i shift rv data = Ok rv"
| "parse_uint64_loop (Suc n) i shift rv data = bindR (get i data) (\<lambda>d.
     parse_uint64_loop n (i + 1) (shift + 7) (rv OR septet shift d) data)"

definition parse_uint64 :: "nat \<Rightarrow> bytes \<Rightarrow> u64 res" where
  "parse_uint64 len data =
     (if len < 5 then bindR (parse_uint32 len data) (\<lambda>w. Ok (ucast w))
      else bindR (get 0 data) (\<lambda>d0. bindR (get 1 data) (\<lambda>d1. bindR (get 2 data) (\<lambda>d2.
        bindR (get 3 data) (\<lambda>d3.
        parse_uint64_loop (len - 4) 4 28
          (ucast (d0 AND 0x7f) OR septet 7 d1 OR septet 14 d2 OR septet 21 d3) data)))))"

definition unzigzag64 :: "u64 \<Rightarrow> u64" where
  "unzigzag64 v = drop_bit 1 v XOR - (v AND 1)"

text \<open>\<open>for (i = 0; i < len; i++) if (data[i] & 0x7f) return TRUE;\<close>\<close>

fun parse_boolean_loop :: "nat \<Rightarrow> nat \<Rightarrow> bytes \<Rightarrow> bool res" where
  "parse_boolean_loop 0 i data = Ok False"
| "parse_boolean_loop (Suc n) i data = bindR (get i data) (\<lambda>d.
     if d AND 0x7f \<noteq> 0 then Ok True else parse_boolean_loop n (i + 1) data)"

definition parse_boolean :: "nat \<Rightarrow> bytes \<Rightarrow> bool res" where
  "parse_boolean len data = parse_boolean_loop len 0 data"

section \<open>Tags and lengths\<close>

text \<open>The bytes used, the field number and the wire type.\<close>

fun tag_loop :: "nat \<Rightarrow> nat \<Rightarrow> nat \<Rightarrow> u32 \<Rightarrow> nat \<Rightarrow> bytes \<Rightarrow> (nat \<times> u32 \<times> nat) option res" where
  "tag_loop 0 rv shift tag wt data = Ok None"
| "tag_loop (Suc n) rv shift tag wt data = bindR (get rv data) (\<lambda>d.
     if d AND 0x80 \<noteq> 0 then tag_loop n (rv + 1) (shift + 7) (tag OR septet shift d) wt data
     else Ok (Some (rv + 1, tag OR push_bit shift (ucast d), wt)))"

definition parse_tag_and_wiretype :: "nat \<Rightarrow> bytes \<Rightarrow> (nat \<times> u32 \<times> nat) option res" where
  "parse_tag_and_wiretype len data = (let max_rv = if 5 < len then 5 else len in
     bindR (get 0 data) (\<lambda>d0.
     let tag = drop_bit 3 (ucast (d0 AND 0x7f)) in
     if d0 AND 0xf8 = 0 then Ok None
     else let wiretype = unat (d0 AND 7) in
       if d0 AND 0x80 = 0 then Ok (Some (1, tag, wiretype))
       else tag_loop (max_rv - 1) 1 4 tag wiretype data))"

text \<open>The first byte without the top bit among the next \<open>n\<close>, or \<open>i\<close> advanced to the bound; and the
  value of the digits on the way.\<close>

fun scan_digits :: "nat \<Rightarrow> nat \<Rightarrow> nat \<Rightarrow> u64 \<Rightarrow> bytes \<Rightarrow> (nat \<times> u64) res" where
  "scan_digits 0 i shift val data = Ok (i, val)"
| "scan_digits (Suc n) i shift val data = bindR (get i data) (\<lambda>d.
     let val = val OR septet shift d in
     if d AND 0x80 = 0 then Ok (i, val) else scan_digits n (i + 1) (shift + 7) val data)"

definition INT_MAX :: u64 where "INT_MAX = 0x7fffffff"

text \<open>The total length and the length of the prefix.\<close>

definition scan_length_prefixed_data :: "nat \<Rightarrow> bytes \<Rightarrow> (nat \<times> nat) option res" where
  "scan_length_prefixed_data len data = (let hdr_max = if len < 5 then len else 5 in
     bindR (scan_digits hdr_max 0 0 0 data) (\<lambda>(i, val).
     if i = hdr_max then Ok None
     else let hdr_len = i + 1 in
       if INT_MAX < val then Ok None
       else if len < hdr_len + unat val then Ok None
       else Ok (Some (hdr_len + unat val, hdr_len))))"

text \<open>Where the first byte without the top bit is, among the next \<open>n\<close>.\<close>

fun find_end :: "nat \<Rightarrow> nat \<Rightarrow> bytes \<Rightarrow> nat res" where
  "find_end 0 i data = Ok i"
| "find_end (Suc n) i data = bindR (get i data) (\<lambda>d.
     if d AND 0x80 = 0 then Ok i else find_end n (i + 1) data)"

text \<open>Zero when no varint ends within ten bytes.\<close>

definition scan_varint :: "nat \<Rightarrow> bytes \<Rightarrow> nat res" where
  "scan_varint len data = (let len = if 10 < len then 10 else len in
     bindR (find_end len 0 data) (\<lambda>i. Ok (if i = len then 0 else i + 1)))"

fun max_b128_numbers :: "nat \<Rightarrow> bytes \<Rightarrow> nat res" where
  "max_b128_numbers 0 data = Ok 0"
| "max_b128_numbers (Suc len) data = bindR (get 0 data) (\<lambda>d.
     bindR (max_b128_numbers len (drop 1 data)) (\<lambda>rv.
     Ok (if d AND 0x80 = 0 then rv + 1 else rv)))"

definition count_packed_elements :: "ProtobufCType \<Rightarrow> nat \<Rightarrow> bytes \<Rightarrow> nat option res" where
  "count_packed_elements t len data =
     (let fixed = (\<lambda>k. if len mod k \<noteq> 0 then Ok None else Ok (Some (len div k)));
          varints = bindR (max_b128_numbers len data) (\<lambda>n. Ok (Some n)) in
     case t of
       TYPE_SFIXED32 \<Rightarrow> fixed 4 | TYPE_FIXED32 \<Rightarrow> fixed 4 | TYPE_FLOAT \<Rightarrow> fixed 4
     | TYPE_SFIXED64 \<Rightarrow> fixed 8 | TYPE_FIXED64 \<Rightarrow> fixed 8 | TYPE_DOUBLE \<Rightarrow> fixed 8
     | TYPE_ENUM \<Rightarrow> varints | TYPE_INT32 \<Rightarrow> varints | TYPE_SINT32 \<Rightarrow> varints
     | TYPE_UINT32 \<Rightarrow> varints | TYPE_INT64 \<Rightarrow> varints | TYPE_SINT64 \<Rightarrow> varints
     | TYPE_UINT64 \<Rightarrow> varints
     | TYPE_BOOL \<Rightarrow> Ok (Some len)
     | TYPE_STRING \<Rightarrow> Ok None | TYPE_BYTES \<Rightarrow> Ok None | TYPE_MESSAGE \<Rightarrow> Ok None)"

section \<open>The value of a string of digits\<close>

fun undigits :: "bytes \<Rightarrow> nat" where
  "undigits [] = 0"
| "undigits (b # bs) = unat b mod 128 + 128 * undigits bs"

lemma undigits_append: "undigits (xs @ ys) = undigits xs + 128 ^ length xs * undigits ys"
  by (induction xs) (simp_all add: algebra_simps)

lemma undigits_less: "undigits bs < 128 ^ length bs"
proof (induction bs)
  case (Cons b bs)
  have "unat b mod 128 < 128" by simp
  then show ?case using Cons by simp
qed simp

lemma unat_digit: "unat (of_nat (n mod 128 + 128) :: u8) = n mod 128 + 128"
proof -
  have "n mod 128 + 128 < 256" by (simp add: less_imp_add_positive trans_less_add1)
  then show ?thesis by (simp add: unat_of_nat del: of_nat_add)
qed

lemma undigits_varint: "undigits (varint n) = n"
proof (induction n rule: varint.induct)
  case (1 n)
  show ?case
  proof (cases "n < 128")
    case True then show ?thesis by (simp add: varint_small unat_of_nat)
  next
    case False
    then show ?thesis using 1 by (simp only: varint_step undigits.simps unat_digit) simp
  qed
qed

lemma bit_127: "bit (127 :: int) n \<longleftrightarrow> n < 7"
proof -
  have "(127 :: int) = mask 7" by (simp add: mask_eq_exp_minus_1)
  then show ?thesis by (simp only: bit_mask_iff) simp
qed

lemma and_7f: "ucast (b AND 0x7f :: u8) = (of_nat (unat b mod 128) :: 'a::len word)"
proof -
  have "unat b mod 128 = take_bit 7 (unat b)" by (simp add: take_bit_eq_mod)
  then show ?thesis
    by (auto intro!: bit_word_eqI simp: bit_simps bit_127 bit_of_nat_word_iff dest: bit_imp_le_length)
qed

lemma or_digit: "m < 2 ^ k \<Longrightarrow> (of_nat m OR push_bit k (of_nat d) :: 'a::len word) = of_nat (m + 2 ^ k * d)"
proof -
  assume m: "m < 2 ^ k"
  have "m OR push_bit k d = take_bit k m OR push_bit k d" using m by (simp add: take_bit_nat_eq_self)
  also have "\<dots> = take_bit k m + push_bit k d"
    by (rule disjunctive_add_eq_or [symmetric], rule bit_eqI) (auto simp: bit_simps)
  also have "\<dots> = m + 2 ^ k * d" using m by (simp add: take_bit_nat_eq_self push_bit_eq_mult mult.commute)
  finally have "of_nat (m + 2 ^ k * d) = (of_nat m OR of_nat (push_bit k d) :: 'a word)"
    by (metis of_nat_or_word)
  then show ?thesis by (simp add: push_bit_of_nat)
qed

lemma septet_0: "septet 0 b = of_nat (unat b mod 128)"
  by (simp add: septet_def and_7f)

text \<open>Adding the next digit.\<close>

lemma or_septet:
  "k = 7 * length bs \<Longrightarrow> (of_nat (undigits bs) OR septet k b :: 'a::len word) = of_nat (undigits (bs @ [b]))"
  using or_digit [of "undigits bs" k "unat b mod 128"] undigits_less [of bs]
  by (simp add: septet_def and_7f undigits_append power_mult)

lemma get_append: "get (length xs) (xs @ y # ys) = Ok y"
  by (simp add: get_def)

lemma get_in: "i < length bs \<Longrightarrow> get i (bs @ rest) = Ok (bs ! i)"
  by (simp add: get_def nth_append)

lemma first_septet: "ucast (b AND 0x7f :: u8) = (of_nat (undigits [b]) :: 'a::len word)"
  by (simp add: and_7f)

lemma fifth_byte: "push_bit 28 (ucast (b :: u8) :: u32) = septet 28 b"
  by (rule bit_word_eqI) (auto simp: septet_def bit_simps bit_127)

lemma or_septets:
  "(of_nat (undigits [a]) OR septet 7 b :: 'a::len word) = of_nat (undigits [a, b])"
  "(of_nat (undigits [a, b]) OR septet 14 c :: 'a::len word) = of_nat (undigits [a, b, c])"
  "(of_nat (undigits [a, b, c]) OR septet 21 d :: 'a::len word) = of_nat (undigits [a, b, c, d])"
  "(of_nat (undigits [a, b, c, d]) OR septet 28 e :: 'a::len word) = of_nat (undigits [a, b, c, d, e])"
  using or_septet [of 7 "[a]" b] or_septet [of 14 "[a, b]" c] or_septet [of 21 "[a, b, c]" d]
    or_septet [of 28 "[a, b, c, d]" e] by (simp_all del: undigits.simps)

lemma parse_uint32_value:
  assumes "bs \<noteq> []"
  shows "parse_uint32 (length bs) (bs @ rest) = Ok (of_nat (undigits bs))"
proof -
  note defs = parse_uint32_def get_def first_septet fifth_byte Let_def or_septets
  consider a where "bs = [a]" | a b where "bs = [a, b]" | a b c where "bs = [a, b, c]"
    | a b c d where "bs = [a, b, c, d]" | a b c d e tl where "bs = [a, b, c, d, e] @ tl"
    using assms by (cases bs; cases "tl bs"; cases "tl (tl bs)"; cases "tl (tl (tl bs))";
      cases "tl (tl (tl (tl bs)))") auto
  then show ?thesis
  proof cases
    case (5 a b c d e tl)
    have "(128 :: nat) ^ 5 * undigits tl = 2 ^ 32 * (8 * undigits tl)" by simp
    then have "(of_nat (128 ^ 5 * undigits tl) :: u32) = 0"
      by (simp only: word_unat_eq_iff unat_of_nat) simp
    then have "(of_nat (undigits bs) :: u32) = of_nat (undigits [a, b, c, d, e])"
      unfolding 5 undigits_append by (simp del: undigits.simps)
    moreover have "parse_uint32 (length bs) (bs @ rest) = Ok (of_nat (undigits [a, b, c, d, e]))"
      by (simp add: 5 defs del: undigits.simps)
    ultimately show ?thesis by simp
  qed (simp_all add: defs del: undigits.simps)
qed

lemma parse_uint64_loop_value:
  "parse_uint64_loop (length ys) (length xs) (7 * length xs) (of_nat (undigits xs)) (xs @ ys @ rest)
    = Ok (of_nat (undigits (xs @ ys)))"
proof (induction ys arbitrary: xs)
  case (Cons y ys)
  have "parse_uint64_loop (length (y # ys)) (length xs) (7 * length xs) (of_nat (undigits xs)) (xs @ (y # ys) @ rest)
    = parse_uint64_loop (length ys) (length (xs @ [y])) (7 * length (xs @ [y])) (of_nat (undigits (xs @ [y])))
      ((xs @ [y]) @ ys @ rest)"
    by (simp add: get_append or_septet add.commute [of 7])
  then show ?case using Cons [of "xs @ [y]"] by simp
qed simp

lemma parse_uint64_value:
  assumes "bs \<noteq> []"
  shows "parse_uint64 (length bs) (bs @ rest) = Ok (of_nat (undigits bs))"
proof (cases "length bs < 5")
  case True
  have "undigits bs < 2 ^ 28" if "length bs \<le> 4" using undigits_less [of bs] power_increasing [OF that, of "128::nat"] by simp
  then have "unat (of_nat (undigits bs) :: u32) = undigits bs" using True by (simp add: unat_of_nat)
  then have "ucast (of_nat (undigits bs) :: u32) = (of_nat (undigits bs) :: u64)" by (metis of_nat_unat)
  then show ?thesis using True parse_uint32_value [OF assms] by (simp add: parse_uint64_def)
next
  case False
  then obtain a b c d tl where bs: "bs = [a, b, c, d] @ tl"
    by (cases bs rule: list.exhaust; auto simp: Suc_le_length_iff numeral_eq_Suc not_less)
  have "parse_uint64_loop (length tl) 4 28 (of_nat (undigits [a, b, c, d])) ([a, b, c, d] @ tl @ rest)
      = Ok (of_nat (undigits ([a, b, c, d] @ tl)))"
    using parse_uint64_loop_value [of tl "[a, b, c, d]" rest] by (simp add: eval_nat_numeral del: undigits.simps)
  then show ?thesis
    using False
    by (simp add: bs parse_uint64_def get_def first_septet or_septets or.assoc [symmetric] del: undigits.simps)
qed

lemma unzigzag_word:
  assumes "n < 2 ^ LENGTH('a)"
  shows "drop_bit 1 (of_nat n) XOR - (of_nat n AND 1) = (if even n then of_nat (n div 2)
    else NOT (of_nat (n div 2)) :: 'a::len word)"
proof -
  have d: "drop_bit 1 (of_nat n :: 'a word) = of_nat (n div 2)"
    using assms by (cases "LENGTH('a) = 1") (auto simp: word_unat_eq_iff unat_of_nat drop_bit_eq_div unat_div)
  have "odd (of_nat n :: 'a word) \<longleftrightarrow> odd n"
    using bit_of_nat_word_iff [of n 0, where ?'a = 'a] by (simp add: bit_0)
  then have m: "(of_nat n AND 1 :: 'a word) = (if even n then 0 else 1)"
    by (auto simp only: and_one_eq mod2_eq_if)
  show ?thesis unfolding d m by simp
qed

lemma unzigzag_sint:
  assumes "zigzag (sint v) < 2 ^ LENGTH('a)"
  shows "drop_bit 1 (of_nat (zigzag (sint v))) XOR - (of_nat (zigzag (sint v)) AND 1) = (v :: 'a::len word)"
proof (cases "0 \<le> sint v")
  case True
  then have "zigzag (sint v) = 2 * nat (sint v)" by (simp add: zigzag_def nat_mult_distrib)
  then show ?thesis using unzigzag_word [OF assms] True by simp
next
  case False
  then have z: "zigzag (sint v) = 2 * nat (- sint v - 1) + 1" by (simp add: zigzag_def)
  have "of_nat (nat (- sint v - 1)) = (- v - 1 :: 'a word)" using False by simp
  then show ?thesis using unzigzag_word [OF assms] unfolding z by (simp add: not_eq_complement)
qed

lemma unzigzag32_zigzag: "unzigzag32 (of_nat (zigzag (sint v))) = v"
  using unzigzag_sint [of v] unsigned_less [of "zigzag32 v", where ?'a = nat]
  by (simp add: unzigzag32_def zigzag32_sint)

lemma unzigzag64_zigzag: "unzigzag64 (of_nat (zigzag (sint v))) = v"
  using unzigzag_sint [of v] unsigned_less [of "zigzag64 v", where ?'a = nat]
  by (simp add: unzigzag64_def zigzag64_sint)

section \<open>Where a number ends\<close>

lemma le_value_bytes: "le_value (le_bytes n w) = take_bit (8 * n) (w :: 'a::len word)"
proof (induction n arbitrary: w)
  case (Suc n)
  have "le_bytes (Suc n) w = ucast w # le_bytes n (drop_bit 8 w)"
    by (simp add: le_bytes_def upt_conv_Cons map_Suc_upt [symmetric] add.commute [of 8] del: upt_Suc)
  then show ?case unfolding le_bytes_def [symmetric]
    by (simp add: Suc.IH) (rule bit_word_eqI, auto simp: bit_simps)
qed (simp add: le_bytes_def)

lemma parse_fixed_uint32_value: "parse_fixed_uint32 (le_bytes 4 w @ rest) = Ok w"
  using le_value_bytes [of 4 w] take_bit_length_eq [of w] by (simp add: parse_fixed_uint32_def read_bytes_def length_le_bytes)

lemma parse_fixed_uint64_value: "parse_fixed_uint64 (le_bytes 8 w @ rest) = Ok w"
  using le_value_bytes [of 8 w] take_bit_length_eq [of w] by (simp add: parse_fixed_uint64_def read_bytes_def length_le_bytes)

lemma and_80: "(b :: u8) AND 0x80 = 0 \<longleftrightarrow> unat b < 128"
proof -
  have "unat b < 128 \<longleftrightarrow> drop_bit 7 b = 0" by (simp add: word_unat_eq_iff unat_drop div_eq_0_iff)
  also have "\<dots> \<longleftrightarrow> b AND 0x80 = 0"
  proof
    assume d: "drop_bit 7 b = 0"
    have "\<not> bit b n" if "7 \<le> n" for n
      using arg_cong [OF d, of "\<lambda>w. bit w (n - 7)"] that by (simp add: bit_drop_bit_eq)
    then show "b AND 0x80 = 0" by (intro bit_word_eqI) (auto simp: bit_simps bit_masks)
  next
    assume a: "b AND 0x80 = 0"
    have "\<not> bit b 7" using arg_cong [OF a, of "\<lambda>w. bit w 7"] by (simp add: bit_simps bit_masks)
    moreover have "bit b n \<Longrightarrow> n < 8" for n using bit_imp_le_length [of b n] by simp
    ultimately have "\<not> bit b (7 + n)" for n by (cases n) auto
    then show "drop_bit 7 b = 0" by (intro bit_word_eqI) (simp add: bit_drop_bit_eq)
  qed
  finally show ?thesis by simp
qed

lemma and_f8: "(b :: u8) AND 0xf8 = 0 \<longleftrightarrow> unat b < 8"
proof -
  have m: "bit (248 :: int) n \<longleftrightarrow> 3 \<le> n \<and> n < 8" for n
  proof -
    have "(248 :: int) = push_bit 3 (mask 5)" by (simp add: mask_eq_exp_minus_1 push_bit_eq_mult)
    then show ?thesis by (auto simp only: bit_push_bit_iff bit_mask_iff possible_bit_def) auto
  qed
  have "unat b < 8 \<longleftrightarrow> drop_bit 3 b = 0" by (simp add: word_unat_eq_iff unat_drop div_eq_0_iff)
  also have "\<dots> \<longleftrightarrow> b AND 0xf8 = 0"
  proof
    assume d: "drop_bit 3 b = 0"
    have "\<not> bit b n" if "3 \<le> n" for n
      using arg_cong [OF d, of "\<lambda>w. bit w (n - 3)"] that by (simp add: bit_drop_bit_eq)
    then show "b AND 0xf8 = 0" by (intro bit_word_eqI) (auto simp: bit_simps m)
  next
    assume a: "b AND 0xf8 = 0"
    have "\<not> bit b n" if "3 \<le> n" for n
      using arg_cong [OF a, of "\<lambda>w. bit w n"] that bit_imp_le_length [of b n] by (auto simp: bit_simps m)
    then show "drop_bit 3 b = 0" by (intro bit_word_eqI) (simp add: bit_drop_bit_eq)
  qed
  finally show ?thesis by simp
qed

lemma and_7: "unat ((b :: u8) AND 7) = unat b mod 8"
proof -
  have "b AND 7 = take_bit 3 b" by (rule bit_word_eqI) (auto simp: bit_simps bit_masks)
  then show ?thesis by (simp add: take_bit_eq_mod unat_mod)
qed

fun well_ended :: "bytes \<Rightarrow> bool" where
  "well_ended [] = False"
| "well_ended (b # bs) = (if b AND 0x80 = 0 then bs = [] else well_ended bs)"

lemma well_ended_varint: "well_ended (varint n)"
proof (induction n rule: varint.induct)
  case (1 n)
  show ?case
  proof (cases "n < 128")
    case True then show ?thesis by (simp add: varint_small and_80 unat_of_nat)
  next
    case False
    then show ?thesis using 1 by (simp only: varint_step well_ended.simps and_80 unat_digit) simp
  qed
qed

lemma find_end_value:
  "well_ended ys \<Longrightarrow> length ys \<le> n \<Longrightarrow> find_end n (length xs) (xs @ ys @ rest) = Ok (length xs + length ys - 1)"
proof (induction ys arbitrary: xs n)
  case (Cons y ys)
  then obtain k where n: "n = Suc k" by (cases n) auto
  show ?case
  proof (cases "y AND 0x80 = 0")
    case True
    then show ?thesis using Cons.prems n by (simp add: get_append)
  next
    case False
    then have "find_end k (length (xs @ [y])) ((xs @ [y]) @ ys @ rest) = Ok (length (xs @ [y]) + length ys - 1)"
      using Cons.prems n by (intro Cons.IH) simp_all
    then show ?thesis using False n by (simp add: get_append)
  qed
qed simp

lemma scan_varint_value:
  "well_ended bs \<Longrightarrow> length bs \<le> 10 \<Longrightarrow> length bs \<le> len \<Longrightarrow> scan_varint len (bs @ rest) = Ok (length bs)"
  using find_end_value [of bs "if 10 < len then 10 else len" "[]" rest]
  by (cases bs) (auto simp: scan_varint_def Let_def)

lemma scan_digits_value:
  "well_ended ys \<Longrightarrow> length ys \<le> n \<Longrightarrow>
    scan_digits n (length xs) (7 * length xs) (of_nat (undigits xs)) (xs @ ys @ rest)
      = Ok (length xs + length ys - 1, of_nat (undigits (xs @ ys)))"
proof (induction ys arbitrary: xs n)
  case (Cons y ys)
  then obtain k where n: "n = Suc k" by (cases n) auto
  show ?case
  proof (cases "y AND 0x80 = 0")
    case True
    then show ?thesis using Cons.prems n by (simp add: get_append or_septet)
  next
    case False
    then have "scan_digits k (length (xs @ [y])) (7 * length (xs @ [y])) (of_nat (undigits (xs @ [y]))) ((xs @ [y]) @ ys @ rest)
        = Ok (length (xs @ [y]) + length ys - 1, of_nat (undigits ((xs @ [y]) @ ys)))"
      using Cons.prems n by (intro Cons.IH) simp_all
    then show ?thesis using False n by (simp add: get_append or_septet add.commute [of 7])
  qed
qed simp

lemma scan_length_value:
  assumes "length body < 2 ^ 31"
  shows "scan_length_prefixed_data (length (varint (length body) @ body @ rest)) (varint (length body) @ body @ rest)
    = Ok (Some (length (varint (length body) @ body), length (varint (length body))))"
proof -
  let ?v = "varint (length body)"
  have l: "length ?v \<le> 5" using varint_length_le [of "length body" 4] assms by simp
  define m where "m = (if length (?v @ body @ rest) < 5 then length (?v @ body @ rest) else 5)"
  have m: "length ?v \<le> m" using l by (simp add: m_def)
  have "scan_digits m 0 0 0 (?v @ body @ rest) = Ok (length ?v - 1, of_nat (length body))"
    using scan_digits_value [OF well_ended_varint m, of "[]" "body @ rest"] by (simp add: undigits_varint)
  moreover have "length ?v - 1 < m" using m varint_nonempty [of "length body"] by (cases ?v) auto
  moreover have "unat (of_nat (length body) :: u64) = length body" using assms by (simp add: unat_of_nat)
  moreover from this have "\<not> INT_MAX < of_nat (length body)" using assms by (simp add: INT_MAX_def word_less_nat_alt)
  moreover have "Suc (length ?v - 1) = length ?v" by (cases ?v) auto
  ultimately show ?thesis unfolding scan_length_prefixed_data_def m_def [symmetric] Let_def by simp
qed


lemma or_tag_digit:
  assumes "xs \<noteq> []" and "k + 3 = 7 * length xs"
  shows "(of_nat (undigits xs div 8) OR septet k b :: 'a::len word) = of_nat (undigits (xs @ [b]) div 8)"
proof -
  obtain j where "length xs = Suc j" using assms(1) by (cases xs) auto
  then have k: "k = 7 * j + 4" using assms(2) by simp
  then have p: "(2 :: nat) ^ k * 8 = 128 ^ length xs" using \<open>length xs = Suc j\<close>
    by (simp add: power_add power_mult)
  then have less: "undigits xs div 8 < 2 ^ k"
    using undigits_less [of xs] by (simp add: less_mult_imp_div_less)
  have "undigits (xs @ [b]) = undigits xs + 8 * (2 ^ k * (unat b mod 128))"
    unfolding undigits_append p [symmetric] by simp
  then have "undigits (xs @ [b]) div 8 = undigits xs div 8 + 2 ^ k * (unat b mod 128)" by simp
  then show ?thesis using or_digit [OF less, of "unat b mod 128"] by (simp add: septet_def and_7f)
qed

lemma last_septet: "b AND 0x80 = 0 \<Longrightarrow> push_bit k (ucast (b :: u8)) = (septet k b :: 'a::len word)"
proof -
  assume "b AND 0x80 = 0"
  then have "unat b mod 128 = unat b" by (simp add: and_80)
  then show ?thesis by (simp add: septet_def and_7f)
qed

lemma tag_loop_value:
  "well_ended ys \<Longrightarrow> length ys \<le> n \<Longrightarrow> xs \<noteq> [] \<Longrightarrow> k + 3 = 7 * length xs \<Longrightarrow>
    tag_loop n (length xs) k (of_nat (undigits xs div 8)) wt (xs @ ys @ rest)
      = Ok (Some (length xs + length ys, of_nat (undigits (xs @ ys) div 8), wt))"
proof (induction ys arbitrary: xs n k)
  case (Cons y ys)
  then obtain m where n: "n = Suc m" by (cases n) auto
  show ?case
  proof (cases "y AND 0x80 = 0")
    case True
    then show ?thesis using Cons.prems n by (simp add: get_append or_tag_digit last_septet)
  next
    case False
    then have "tag_loop m (length (xs @ [y])) (k + 7) (of_nat (undigits (xs @ [y]) div 8)) wt ((xs @ [y]) @ ys @ rest)
        = Ok (Some (length (xs @ [y]) + length ys, of_nat (undigits ((xs @ [y]) @ ys) div 8), wt))"
      using Cons.prems n by (intro Cons.IH) simp_all
    then show ?thesis using False n Cons.prems by (simp add: get_append or_tag_digit)
  qed
qed simp

lemma parse_tag_value:
  assumes "i \<noteq> 0" and "wt < 8"
  shows "parse_tag_and_wiretype (length (tag_bytes i wt @ rest)) (tag_bytes i wt @ rest)
    = Ok (Some (length (tag_bytes i wt), i, wt))"
proof -
  define t where "t = unat i * 8 + wt"
  have i: "1 \<le> unat i" "unat i < 2 ^ 32"
    using assms(1) unsigned_less [of i, where ?'a = nat] by (simp_all add: unat_gt_0 Suc_leI)
  obtain d ds where v: "varint t = d # ds" by (cases "varint t") auto
  have l: "length (varint t) \<le> 5" using varint_length_le [of t 4] i assms(2) by (simp add: t_def)
  have u: "undigits (d # ds) = t" using undigits_varint [of t] v by simp
  have d7: "unat (d AND 7) = wt"
  proof -
    have "unat d mod 128 = t mod 128" using arg_cong [OF u, of "\<lambda>n. n mod 128"] by simp
    then have "unat d mod 128 mod 8 = t mod 128 mod 8" by simp
    then show ?thesis using assms(2) by (simp add: and_7 mod_mod_cancel t_def)
  qed
  have df8: "d AND 0xf8 \<noteq> 0"
  proof (cases "t < 128")
    case True
    then have "unat d = t" using v by (auto simp: varint_small unat_of_nat)
    then show ?thesis using i by (simp add: and_f8 t_def)
  next
    case False
    then have "unat d = t mod 128 + 128" using v by (auto simp: varint_step unat_digit simp del: of_nat_add)
    then show ?thesis by (simp add: and_f8)
  qed
  have first: "drop_bit 3 (ucast (d AND 0x7f)) = (of_nat (undigits [d] div 8) :: u32)"
  proof -
    have "unat d mod 128 < 2 ^ 32" using mod_less_divisor [of 128 "unat d"] by simp
    then show ?thesis by (simp add: and_7f word_unat_eq_iff unat_drop unat_of_nat)
  qed
  have fin: "of_nat (t div 8) = i" using assms(2) by (simp add: t_def)
  show ?thesis
  proof (cases "d AND 0x80 = 0")
    case True
    then have "ds = []" using well_ended_varint [of t] v by simp
    then have "t = unat d mod 128" using u by simp
    then show ?thesis using True d7 df8 first fin \<open>ds = []\<close> v
      by (simp add: parse_tag_and_wiretype_def tag_bytes_def t_def [symmetric] get_def Let_def)
  next
    case False
    then have w: "well_ended ds" using well_ended_varint [of t] v by simp
    define m where "m = (if 5 < length (varint t @ rest) then 5 else length (varint t @ rest))"
    have m: "length ds \<le> m - 1" using l v by (simp add: m_def)
    have "tag_loop (m - 1) 1 4 (of_nat (undigits [d] div 8)) wt ([d] @ ds @ rest)
        = Ok (Some (length [d] + length ds, of_nat (undigits ([d] @ ds) div 8), wt))"
      using tag_loop_value [OF w m, of "[d]" 4 wt rest] by simp
    then show ?thesis using False d7 df8 first fin v u
      unfolding parse_tag_and_wiretype_def tag_bytes_def t_def [symmetric] m_def [symmetric]
      by (simp add: get_def Let_def del: undigits.simps)
  qed
qed

section \<open>Reading back what was packed\<close>

text \<open>A codec with its reader: the reader finds the value at the start of the encoding, and the
  scanner finds where the encoding ends, whatever follows. \<open>val\<close> is what the reader keeps of a value.\<close>

locale scalar_reader = scalar_codec size_of pack enc
  for size_of :: "'v \<Rightarrow> u64" and pack :: "'v \<Rightarrow> packer" and enc :: "'v \<Rightarrow> bytes" +
  fixes scan :: "nat \<Rightarrow> bytes \<Rightarrow> nat res" and parse :: "nat \<Rightarrow> bytes \<Rightarrow> 'w res" and val :: "'v \<Rightarrow> 'w"
  assumes scan_enc: "length (enc v) \<le> len \<Longrightarrow> scan len (enc v @ rest) = Ok (length (enc v))"
    and parse_enc: "parse (length (enc v)) (enc v @ rest) = Ok (val v)"
begin

lemma reads_back:
  assumes "p \<le> length m" and "pack v p m = Ok (n, m')"
  shows "n = unat (size_of v) \<and> scan (length (drop p m')) (drop p m') = Ok n \<and> parse n (drop p m') = Ok (val v)"
proof -
  have w: "write_bytes p (enc v) m = Ok m'" and n: "n = length (enc v)"
    using assms(2) unfolding emitsD [OF pack_emits assms(1), of v] by (auto simp: bindR_Ok_iff)
  then have d: "drop p m' = enc v @ drop (p + length (enc v)) m" by (auto simp: write_Ok_iff)
  show ?thesis unfolding d n using scan_enc parse_enc unat_size by simp
qed

end

lemma scan_varint_enc:
  assumes "length (varint n) \<le> 10" and "length (varint n) \<le> len"
  shows "scan_varint len (varint n @ rest) = Ok (length (varint n))"
  using assms by (intro scan_varint_value) (simp_all add: well_ended_varint)

lemma sext_back: "ucast (scast (v :: u32) :: u64) = v"
  by (rule bit_word_eqI) (simp add: bit_sext bit_unsigned_iff)

lemma parse_boolean_byte:
  "parse_boolean (Suc 0) (1 # rest) = Ok True" "parse_boolean (Suc 0) (0 # rest) = Ok False"
  by (simp_all add: parse_boolean_def get_def)

lemma scan_varint_byte:
  assumes "Suc 0 \<le> len"
  shows "scan_varint len (1 # rest) = Ok (Suc 0)" "scan_varint len (0 # rest) = Ok (Suc 0)"
  using scan_varint_value [of "[1]" len rest] scan_varint_value [of "[0]" len rest] assms by simp_all

definition parse_sint32 :: "nat \<Rightarrow> bytes \<Rightarrow> u32 res" where
  "parse_sint32 len data = bindR (parse_uint32 len data) (\<lambda>w. Ok (unzigzag32 w))"

definition parse_sint64 :: "nat \<Rightarrow> bytes \<Rightarrow> u64 res" where
  "parse_sint64 len data = bindR (parse_uint64 len data) (\<lambda>w. Ok (unzigzag64 w))"

interpretation uint32_reader: scalar_reader uint32_size uint32_pack "\<lambda>v. varint (unat v)" scan_varint parse_uint32 "\<lambda>v. v"
  by unfold_locales (simp_all add: scan_varint_enc varint_length_32 parse_uint32_value undigits_varint)

interpretation int32_reader: scalar_reader int32_size int32_pack "\<lambda>v. varint (unat (scast v :: u64))" scan_varint parse_int32 "\<lambda>v. v"
  by unfold_locales
    (simp_all add: scan_varint_enc varint_length_64 parse_int32_def parse_uint32_value undigits_varint sext_back)

interpretation uint64_reader: scalar_reader uint64_size uint64_pack "\<lambda>v. varint (unat v)" scan_varint parse_uint64 "\<lambda>v. v"
  by unfold_locales (simp_all add: scan_varint_enc varint_length_64 parse_uint64_value undigits_varint)

interpretation sint32_reader: scalar_reader sint32_size sint32_pack "\<lambda>v. varint (zigzag (sint v))" scan_varint parse_sint32 "\<lambda>v. v"
  by unfold_locales
    (use sint32.enc_length in \<open>simp_all add: scan_varint_enc parse_sint32_def parse_uint32_value undigits_varint unzigzag32_zigzag\<close>)

interpretation sint64_reader: scalar_reader sint64_size sint64_pack "\<lambda>v. varint (zigzag (sint v))" scan_varint parse_sint64 "\<lambda>v. v"
  by unfold_locales
    (use sint64.enc_length in \<open>simp_all add: scan_varint_enc parse_sint64_def parse_uint64_value undigits_varint unzigzag64_zigzag\<close>)

interpretation boolean_reader: scalar_reader "\<lambda>_. 1" boolean_pack "\<lambda>v. [if v \<noteq> 0 then 1 else 0]" scan_varint parse_boolean "\<lambda>v. v \<noteq> 0"
  by unfold_locales (simp_all add: parse_boolean_byte scan_varint_byte)

interpretation fixed32_reader: scalar_reader "\<lambda>_. 4" fixed32_pack "\<lambda>v. le_bytes 4 v" "\<lambda>_ _. Ok 4" "\<lambda>_. parse_fixed_uint32" "\<lambda>v. v"
  by unfold_locales (simp_all add: parse_fixed_uint32_value byte_simps)

interpretation fixed64_reader: scalar_reader "\<lambda>_. 8" fixed64_pack "\<lambda>v. le_bytes 8 v" "\<lambda>_ _. Ok 8" "\<lambda>_. parse_fixed_uint64" "\<lambda>v. v"
  by unfold_locales (simp_all add: parse_fixed_uint64_value byte_simps)


section \<open>Properties\<close>

text \<open>C33: Parsing undoes packing: for each kind of number, wherever it was packed, the varint scanner
  (or the fixed size) finds exactly the bytes written and the parser returns the value, whatever bytes
  follow; a boolean is read back up to its truth value.\<close>

theorem scalar_roundtrip:
  fixes v :: u32 and w :: u64
  assumes "p \<le> length m"
  shows "(uint32_pack v p m = Ok (n, m') \<longrightarrow> scan_varint (length (drop p m')) (drop p m') = Ok n \<and> parse_uint32 n (drop p m') = Ok v)
    \<and> (int32_pack v p m = Ok (n, m') \<longrightarrow> scan_varint (length (drop p m')) (drop p m') = Ok n \<and> parse_int32 n (drop p m') = Ok v)
    \<and> (sint32_pack v p m = Ok (n, m') \<longrightarrow> scan_varint (length (drop p m')) (drop p m') = Ok n
          \<and> bindR (parse_uint32 n (drop p m')) (\<lambda>z. Ok (unzigzag32 z)) = Ok v)
    \<and> (uint64_pack w p m = Ok (n, m') \<longrightarrow> scan_varint (length (drop p m')) (drop p m') = Ok n \<and> parse_uint64 n (drop p m') = Ok w)
    \<and> (sint64_pack w p m = Ok (n, m') \<longrightarrow> scan_varint (length (drop p m')) (drop p m') = Ok n
          \<and> bindR (parse_uint64 n (drop p m')) (\<lambda>z. Ok (unzigzag64 z)) = Ok w)
    \<and> (fixed32_pack v p m = Ok (n, m') \<longrightarrow> parse_fixed_uint32 (drop p m') = Ok v)
    \<and> (fixed64_pack w p m = Ok (n, m') \<longrightarrow> parse_fixed_uint64 (drop p m') = Ok w)
    \<and> (boolean_pack v p m = Ok (n, m') \<longrightarrow> scan_varint (length (drop p m')) (drop p m') = Ok n \<and> parse_boolean n (drop p m') = Ok (v \<noteq> 0))"
  using uint32_reader.reads_back [OF assms, of v n m'] int32_reader.reads_back [OF assms, of v n m']
    sint32_reader.reads_back [OF assms, of v n m'] uint64_reader.reads_back [OF assms, of w n m']
    sint64_reader.reads_back [OF assms, of w n m'] fixed32_reader.reads_back [OF assms, of v n m']
    fixed64_reader.reads_back [OF assms, of w n m'] boolean_reader.reads_back [OF assms, of v n m']
  unfolding parse_sint32_def parse_sint64_def by meson

lemma scalar_roundtrip_witness:
  "sint32_pack (- 200) 1 [7, 0, 0, 9] = Ok (2, [7, 143, 3, 9])
    \<and> bindR (parse_uint32 2 [143, 3, 9]) (\<lambda>z. Ok (unzigzag32 z)) = Ok (- 200)"
proof -
  have "sint32_pack (- 200) 1 [7, 0, 0, 9] = Ok (2, [7, 143, 3, 9])" by code_simp
  then show ?thesis using scalar_roundtrip [of 1 "[7, 0, 0, 9]" "- 200" 2 "[7, 143, 3, 9]"] by simp
qed

text \<open>Only the first byte is looked at for the field number zero: spread over two bytes it is accepted.\<close>

lemma overlong_zero_tag: "parse_tag_and_wiretype 2 [0x80, 0] = Ok (Some (2, 0, 0))"
  by code_simp

text \<open>The header of a field reads back: a tag with any nonzero field number and any wire type,
  packed as \<open>required_field_pack\<close> does, is parsed to that number and wire type and its own length;
  and the length prefix written before a body below 2 GiB is scanned to the length of the prefix and
  of the two together.\<close>

theorem header_roundtrip:
  assumes "p \<le> length m" and "i \<noteq> 0" and "wt < 8"
    and "bindR (tag_pack i p m) (\<lambda>(n, m). bindR (or_byte p (of_nat wt) m) (\<lambda>m. Ok (n, m))) = Ok (n, m')"
  shows "parse_tag_and_wiretype (length (drop p m')) (drop p m') = Ok (Some (n, i, wt))
    \<and> (length body < 2 ^ 31 \<longrightarrow>
        (\<exists>k m''. uint32_pack (of_nat (length body)) 0 (replicate 5 0) = Ok (k, m'')
          \<and> scan_length_prefixed_data (length (take k m'' @ body @ rest)) (take k m'' @ body @ rest)
              = Ok (Some (k + length body, k))))"
proof (intro conjI impI)
  have w: "write_bytes p (tag_bytes i wt) m = Ok m'" and n: "n = length (tag_bytes i wt)"
    using assms(4) unfolding emitsD [OF emits_tag [OF assms(3)] assms(1), of i] by (auto simp: bindR_Ok_iff)
  then have d: "drop p m' = tag_bytes i wt @ drop (p + length (tag_bytes i wt)) m" by (auto simp: write_Ok_iff)
  show "parse_tag_and_wiretype (length (drop p m')) (drop p m') = Ok (Some (n, i, wt))"
    unfolding d n by (rule parse_tag_value [OF assms(2,3)])
next
  assume b: "length body < 2 ^ 31"
  let ?v = "varint (length body)"
  have "unat (of_nat (length body) :: u32) = length body" using b by (simp add: unat_of_nat)
  moreover have "length ?v \<le> 5" using varint_length_le [of "length body" 4] b by simp
  ultimately have "uint32_pack (of_nat (length body)) 0 (replicate 5 0) = Ok (length ?v, ?v @ drop (length ?v) (replicate 5 0))"
    using emits_fits [OF emits_uint32_pack, of 0 "of_nat (length body)" "replicate 5 0"] by simp
  then show "\<exists>k m''. uint32_pack (of_nat (length body)) 0 (replicate 5 0) = Ok (k, m'')
    \<and> scan_length_prefixed_data (length (take k m'' @ body @ rest)) (take k m'' @ body @ rest) = Ok (Some (k + length body, k))"
    using scan_length_value [OF b, of rest] by auto
qed

lemma header_roundtrip_witness:
  "parse_tag_and_wiretype 3 [229, 18, 9] = Ok (Some (2, 300, 5))"
proof -
  have "bindR (tag_pack 300 1 [7, 0, 0, 9]) (\<lambda>(n, m). bindR (or_byte 1 (of_nat 5) m) (\<lambda>m. Ok (n, m)))
      = Ok (2, [7, 229, 18, 9])"
    by code_simp
  then show ?thesis using header_roundtrip [of 1 "[7, 0, 0, 9]" 300 5 2 "[7, 229, 18, 9]"] by (simp add: numeral_3_eq_3)
qed

end
