(* ===== verification/Pb_Unpack.thy ===== *)
theory Pb_Unpack
  imports Pb_Message Pb_Parse Pb_Wire
begin

text \<open>
  \<^verbatim>\<open>protobuf_c_message_unpack\<close> (\<^verbatim>\<open>protobuf-c/protobuf-c.c\<close>): scanning the input into members,
  allocating the repeated fields, and parsing the members into a message. FALSE and NULL are values;
  a read outside the input, a write outside an array and a bad free are faults.
\<close>

section \<open>Members as they are scanned\<close>

record scanned_member =
  sm_tag :: u32
  sm_wire_type :: nat
  sm_length_prefix_len :: nat
  sm_field :: "field_desc option"
  sm_len :: nat
  sm_data :: bytes

text \<open>\<open>a - b\<close> on \<open>unsigned\<close>.\<close>

definition unsigned_sub :: "nat \<Rightarrow> nat \<Rightarrow> nat" where
  "unsigned_sub a b = (a + 2 ^ 32 - b) mod 2 ^ 32"

section \<open>Parsing a member\<close>

text \<open>The routines a nested message needs: unpacking, merging and freeing, one level down.\<close>

record nested =
  nested_unpack :: "nat \<Rightarrow> bytes \<Rightarrow> pb_heap \<Rightarrow> ((nat \<times> message) option \<times> pb_heap) res"
  nested_merge :: "message \<Rightarrow> message \<Rightarrow> pb_heap \<Rightarrow> merged"
  nested_free :: "nat \<times> message \<Rightarrow> pb_heap \<Rightarrow> pb_heap res"

text \<open>Success, the new contents of the member and the heap. A null pointer left in the member is zeroed
  memory, which the other members of a oneof may read.\<close>

definition parse_required_member :: "nested \<Rightarrow> scanned_member \<Rightarrow> field_desc \<Rightarrow> slot \<Rightarrow> bool \<Rightarrow> pb_heap
    \<Rightarrow> (bool \<times> slot \<times> pb_heap) res" where
  "parse_required_member nst sm f member maybe_clear h =
     (let len = sm_len sm mod 2 ^ 32; data = sm_data sm; wire_type = sm_wire_type sm;
          pref_len = sm_length_prefix_len sm;
          parse = (\<lambda>wt v. if wire_type \<noteq> wt then Ok (False, member, h)
            else bindR v (\<lambda>v. Ok (True, v, h)));
          int32 = parse WIRE_TYPE_VARINT (bindR (parse_int32 len data) (\<lambda>w. Ok (V32 w)));
          fixed32 = parse WIRE_TYPE_32BIT (bindR (parse_fixed_uint32 data) (\<lambda>w. Ok (V32 w)));
          uint64 = parse WIRE_TYPE_VARINT (bindR (parse_uint64 len data) (\<lambda>w. Ok (V64 w)));
          fixed64 = parse WIRE_TYPE_64BIT (bindR (parse_fixed_uint64 data) (\<lambda>w. Ok (V64 w))) in
     case fd_type f of
       TYPE_ENUM \<Rightarrow> int32 | TYPE_INT32 \<Rightarrow> int32
     | TYPE_UINT32 \<Rightarrow> parse WIRE_TYPE_VARINT (bindR (parse_uint32 len data) (\<lambda>w. Ok (V32 w)))
     | TYPE_SINT32 \<Rightarrow> parse WIRE_TYPE_VARINT (bindR (parse_uint32 len data) (\<lambda>w. Ok (V32 (unzigzag32 w))))
     | TYPE_SFIXED32 \<Rightarrow> fixed32 | TYPE_FIXED32 \<Rightarrow> fixed32 | TYPE_FLOAT \<Rightarrow> fixed32
     | TYPE_INT64 \<Rightarrow> uint64 | TYPE_UINT64 \<Rightarrow> uint64
     | TYPE_SINT64 \<Rightarrow> parse WIRE_TYPE_VARINT (bindR (parse_uint64 len data) (\<lambda>w. Ok (V64 (unzigzag64 w))))
     | TYPE_SFIXED64 \<Rightarrow> fixed64 | TYPE_FIXED64 \<Rightarrow> fixed64 | TYPE_DOUBLE \<Rightarrow> fixed64
     | TYPE_BOOL \<Rightarrow> bindR (parse_boolean len data) (\<lambda>b. Ok (True, V32 (if b then 1 else 0), h))
     | TYPE_STRING \<Rightarrow>
         if wire_type \<noteq> WIRE_TYPE_LENGTH_PREFIXED then Ok (False, member, h)
         else bindR (if maybe_clear then bindR (as_str member) (\<lambda>p. free_unless_default p h) else Ok h) (\<lambda>h.
           let n = unsigned_sub len pref_len in
           (case do_alloc (of_nat ((n + 1) mod 2 ^ 32)) h of
             (None, h) \<Rightarrow> Ok (False, Zero, h)
           | (Some blk, h) \<Rightarrow> bindR (read_bytes pref_len n data) (\<lambda>s. Ok (True, VStr (Heap blk (s @ [0])), h))))
     | TYPE_BYTES \<Rightarrow>
         if wire_type \<noteq> WIRE_TYPE_LENGTH_PREFIXED then Ok (False, member, h)
         else bindR (if maybe_clear then as_bytes member else Ok (0, Null)) (\<lambda>(old_len, p).
           bindR (free_unless_default p h) (\<lambda>h.
           let n = unsigned_sub len pref_len in
           if pref_len < len then
             (case do_alloc (of_nat n) h of
               (None, h) \<Rightarrow> Ok (False, if old_len = 0 then Zero else VBytes old_len Null, h)
             | (Some blk, h) \<Rightarrow> bindR (read_bytes pref_len n data) (\<lambda>s. Ok (True, VBytes (of_nat n) (Heap blk s), h)))
           else Ok (True, VBytes (of_nat n) Null, h)))
     | TYPE_MESSAGE \<Rightarrow>
         if wire_type \<noteq> WIRE_TYPE_LENGTH_PREFIXED then Ok (False, member, h)
         else bindR (if pref_len \<le> len then
             bindR (read_bytes pref_len (unsigned_sub len pref_len) data) (\<lambda>body.
               nested_unpack nst (fd_descriptor f) body h)
           else Ok (None, h)) (\<lambda>(subm, h).
           bindR (if maybe_clear then as_msg member else Ok None) (\<lambda>old.
           bindR (case old of None \<Rightarrow> Ok (True, subm, h)
             | Some (ob, em) \<Rightarrow>
                 bindR (case subm of None \<Rightarrow> Ok (True, em, None, h)
                   | Some (sb, lm) \<Rightarrow> bindR (nested_merge nst em lm h) (\<lambda>(ok, em, lm, h).
                       Ok (ok, em, Some (sb, lm), h))) (\<lambda>(ok, em, subm, h).
                 bindR (nested_free nst (ob, em) h) (\<lambda>h. Ok (ok, subm, h)))) (\<lambda>(merge_successful, subm, h).
           Ok (subm \<noteq> None \<and> merge_successful, if subm = None then Zero else VMsg subm, h)))))"

text \<open>Success, the message and the heap.\<close>

type_synonym parsed = "(bool \<times> message \<times> pb_heap) res"

text \<open>\<open>parse_required_member\<close> on a member of the message.\<close>

definition parse_in_place :: "nested \<Rightarrow> scanned_member \<Rightarrow> field_desc \<Rightarrow> message \<Rightarrow> pb_heap \<Rightarrow> parsed" where
  "parse_in_place nst sm f m h = bindR (STRUCT_MEMBER m (fd_offset f)) (\<lambda>old.
     bindR (parse_required_member nst sm f old True h) (\<lambda>(ok, v, h).
     bindR (set_member m (fd_offset f) v) (\<lambda>m. Ok (ok, m, h))))"

definition parse_oneof_member ::
  "nested \<Rightarrow> message_desc \<Rightarrow> scanned_member \<Rightarrow> field_desc \<Rightarrow> message \<Rightarrow> pb_heap \<Rightarrow> parsed" where
  "parse_oneof_member nst D sm f m h =
     bindR (quantifier32 D m (fd_quantifier_offset f)) (\<lambda>oneof_case.
     bindR (if oneof_case \<noteq> 0 then
         bindR (int_range_lookup (n_field_ranges D) (field_ranges D) oneof_case) (\<lambda>field_index.
         if field_index < 0 then Ok (False, m, h)
         else bindR (entry_at (md_fields D) (nat field_index)) (\<lambda>old_field.
           bindR (STRUCT_MEMBER m (fd_offset f)) (\<lambda>member.
           bindR (if fd_type old_field = TYPE_STRING then bindR (as_str member) (\<lambda>p. free_unless_default p h)
             else if fd_type old_field = TYPE_BYTES then
               bindR (as_bytes member) (\<lambda>(_, p). free_unless_default p h)
             else if fd_type old_field = TYPE_MESSAGE then bindR (as_msg member) (\<lambda>p.
               case p of None \<Rightarrow> Ok h | Some bm \<Rightarrow> nested_free nst bm h)
             else Ok h) (\<lambda>h.
           bindR (set_member m (fd_offset f) Zero) (\<lambda>m. Ok (True, m, h))))))
       else Ok (True, m, h)) (\<lambda>(go, m, h).
     if \<not> go then Ok (False, m, h)
     else bindR (parse_in_place nst sm f m h) (\<lambda>(ok, m, h).
       if \<not> ok then Ok (False, m, h)
       else bindR (set_quantifier32 m (fd_quantifier_offset f) (sm_tag sm)) (\<lambda>m. Ok (True, m, h)))))"

definition parse_optional_member ::
  "nested \<Rightarrow> scanned_member \<Rightarrow> field_desc \<Rightarrow> message \<Rightarrow> pb_heap \<Rightarrow> parsed" where
  "parse_optional_member nst sm f m h = bindR (parse_in_place nst sm f m h) (\<lambda>(ok, m, h).
     if \<not> ok then Ok (False, m, h)
     else if fd_quantifier_offset f \<noteq> 0 then
       bindR (set_member m (fd_quantifier_offset f) (V32 1)) (\<lambda>m. Ok (True, m, h))
     else Ok (True, m, h))"

text \<open>Storing element \<open>n\<close> of an array within its capacity.\<close>

fun store_element :: "(nat \<times> nat \<times> slot list) option \<Rightarrow> nat \<Rightarrow> slot \<Rightarrow> (nat \<times> nat \<times> slot list) option res" where
  "store_element None n v = Fault"
| "store_element (Some (b, cap, vs)) n v =
     (if cap \<le> n then Fault
      else if n < length vs then Ok (Some (b, cap, vs[n := v]))
      else if n = length vs then Ok (Some (b, cap, vs @ [v])) else Fault)"

definition parse_repeated_member ::
  "nested \<Rightarrow> scanned_member \<Rightarrow> field_desc \<Rightarrow> message \<Rightarrow> pb_heap \<Rightarrow> parsed" where
  "parse_repeated_member nst sm f m h = bindR (quantifier_size m (fd_quantifier_offset f)) (\<lambda>n.
     bindR (bindR (STRUCT_MEMBER m (fd_offset f)) as_arr) (\<lambda>arr.
     bindR (parse_required_member nst sm f Zero False h) (\<lambda>(ok, v, h).
     if \<not> ok then Ok (False, m, h)
     else bindR (store_element arr (unat n) v) (\<lambda>arr.
       bindR (set_member m (fd_offset f) (VArr arr)) (\<lambda>m.
       bindR (set_member m (fd_quantifier_offset f) (V64 (n + 1))) (\<lambda>m. Ok (True, m, h)))))))"

text \<open>\<open>while (rem > 0)\<close>: one varint at a time into the array, which starts at index \<open>n\<close>; the result
  is the array and the number of elements stored, or \<open>None\<close> for FALSE.\<close>

function unpack_varints :: "(nat \<Rightarrow> bytes \<Rightarrow> slot res) \<Rightarrow> nat \<Rightarrow> bytes \<Rightarrow> (nat \<times> nat \<times> slot list) option \<Rightarrow> nat
    \<Rightarrow> nat \<Rightarrow> ((nat \<times> nat \<times> slot list) option \<times> nat) option res" where
  "unpack_varints parse rem at arr n count =
     (if rem = 0 then Ok (Some (arr, count))
      else bindR (scan_varint (rem mod 2 ^ 32) at) (\<lambda>s.
        if s = 0 then Ok None
        else bindR (parse s at) (\<lambda>v.
          bindR (store_element arr (n + count) v) (\<lambda>arr.
          unpack_varints parse (rem - s) (drop s at) arr n (count + 1)))))"
  by auto
termination
  by (relation "measure (\<lambda>(parse, rem, at, arr, n, count). rem)") auto

declare unpack_varints.simps [simp del]

text \<open>\<open>memcpy(array, at, count * siz)\<close> into the array.\<close>

fun store_elements :: "(nat \<times> nat \<times> slot list) option \<Rightarrow> nat \<Rightarrow> slot list \<Rightarrow> (nat \<times> nat \<times> slot list) option res" where
  "store_elements arr n [] = Ok arr"
| "store_elements arr n (v # vs) = bindR (store_element arr n v) (\<lambda>arr. store_elements arr (n + 1) vs)"

fun fixed_elements :: "(bytes \<Rightarrow> slot res) \<Rightarrow> nat \<Rightarrow> nat \<Rightarrow> bytes \<Rightarrow> slot list res" where
  "fixed_elements parse siz 0 at = Ok []"
| "fixed_elements parse siz (Suc count) at = bindR (parse at) (\<lambda>v.
     bindR (fixed_elements parse siz count (drop siz at)) (\<lambda>vs. Ok (v # vs)))"

text \<open>The elements of the \<open>rem\<close> bytes at \<open>at\<close>, stored from index \<open>n\<close> on: the array and their number.\<close>

definition packed_values :: "ProtobufCType \<Rightarrow> nat \<Rightarrow> bytes \<Rightarrow> (nat \<times> nat \<times> slot list) option \<Rightarrow> nat
    \<Rightarrow> ((nat \<times> nat \<times> slot list) option \<times> nat) option res" where
  "packed_values t rem at arr n =
     (let copy = (\<lambda>siz parse. bindR (fixed_elements parse siz (rem div siz) at) (\<lambda>vs.
            bindR (store_elements arr n vs) (\<lambda>arr. Ok (Some (arr, rem div siz)))));
          copy32 = copy 4 (\<lambda>at. bindR (parse_fixed_uint32 at) (\<lambda>w. Ok (V32 w)));
          copy64 = copy 8 (\<lambda>at. bindR (parse_fixed_uint64 at) (\<lambda>w. Ok (V64 w)));
          varints = (\<lambda>parse. unpack_varints parse rem at arr n 0);
          int32 = varints (\<lambda>s at. bindR (parse_int32 s at) (\<lambda>w. Ok (V32 w)));
          uint64 = varints (\<lambda>s at. bindR (parse_uint64 s at) (\<lambda>w. Ok (V64 w))) in
     case t of
       TYPE_SFIXED32 \<Rightarrow> copy32 | TYPE_FIXED32 \<Rightarrow> copy32 | TYPE_FLOAT \<Rightarrow> copy32
     | TYPE_SFIXED64 \<Rightarrow> copy64 | TYPE_FIXED64 \<Rightarrow> copy64 | TYPE_DOUBLE \<Rightarrow> copy64
     | TYPE_ENUM \<Rightarrow> int32 | TYPE_INT32 \<Rightarrow> int32
     | TYPE_SINT32 \<Rightarrow> varints (\<lambda>s at. bindR (parse_uint32 s at) (\<lambda>w. Ok (V32 (unzigzag32 w))))
     | TYPE_UINT32 \<Rightarrow> varints (\<lambda>s at. bindR (parse_uint32 s at) (\<lambda>w. Ok (V32 w)))
     | TYPE_SINT64 \<Rightarrow> varints (\<lambda>s at. bindR (parse_uint64 s at) (\<lambda>w. Ok (V64 (unzigzag64 w))))
     | TYPE_INT64 \<Rightarrow> uint64 | TYPE_UINT64 \<Rightarrow> uint64
     | TYPE_BOOL \<Rightarrow> varints (\<lambda>s at. bindR (parse_boolean s at) (\<lambda>b. Ok (V32 (if b then 1 else 0))))
     | _ \<Rightarrow> Fault)"

definition parse_packed_repeated_member :: "scanned_member \<Rightarrow> field_desc \<Rightarrow> message \<Rightarrow> (bool \<times> message) res" where
  "parse_packed_repeated_member sm f m = bindR (quantifier_size m (fd_quantifier_offset f)) (\<lambda>n.
     bindR (bindR (STRUCT_MEMBER m (fd_offset f)) as_arr) (\<lambda>arr.
     bindR (packed_values (fd_type f) (sm_len sm - sm_length_prefix_len sm)
         (drop (sm_length_prefix_len sm) (sm_data sm)) arr (unat n)) (\<lambda>r. case r of
       None \<Rightarrow> Ok (False, m)
     | Some (arr, cnt) \<Rightarrow>
         bindR (set_member m (fd_offset f) (VArr arr)) (\<lambda>m.
         bindR (set_member m (fd_quantifier_offset f) (V64 (n + of_nat cnt))) (\<lambda>m. Ok (True, m))))))"

text \<open>The next entry of the block for unknown fields.\<close>

definition add_unknown :: "message \<Rightarrow> unknown_field \<Rightarrow> message res" where
  "add_unknown m u = (case unknown_block m of None \<Rightarrow> Fault
   | Some (_, cap) \<Rightarrow> if length (unknown_fields m) < cap
       then Ok (Message (descriptor m) (members m) (unknown_block m) (unknown_fields m @ [u])) else Fault)"

definition parse_member :: "nested \<Rightarrow> message_desc \<Rightarrow> scanned_member \<Rightarrow> message \<Rightarrow> pb_heap \<Rightarrow> parsed" where
  "parse_member nst D sm m h = (case sm_field sm of
     None \<Rightarrow>
       (case do_alloc (of_nat (sm_len sm)) h of
         (None, h) \<Rightarrow> bindR (add_unknown m \<lparr>uf_tag = sm_tag sm, uf_wire_type = sm_wire_type sm,
             uf_len = of_nat (sm_len sm), uf_data = Null\<rparr>) (\<lambda>m. Ok (False, m, h))
       | (Some blk, h) \<Rightarrow> bindR (read_bytes 0 (sm_len sm) (sm_data sm)) (\<lambda>bs.
           bindR (add_unknown m \<lparr>uf_tag = sm_tag sm, uf_wire_type = sm_wire_type sm,
             uf_len = of_nat (sm_len sm), uf_data = Heap blk bs\<rparr>) (\<lambda>m. Ok (True, m, h))))
   | Some f \<Rightarrow>
       if fd_label f = LABEL_REQUIRED then parse_in_place nst sm f m h
       else if fd_label f = LABEL_OPTIONAL \<or> fd_label f = LABEL_NONE then
         if has_flag f FLAG_ONEOF then parse_oneof_member nst D sm f m h
         else parse_optional_member nst sm f m h
       else if sm_wire_type sm = WIRE_TYPE_LENGTH_PREFIXED
           \<and> (has_flag f FLAG_PACKED \<or> is_packable_type (fd_type f)) then
         bindR (parse_packed_repeated_member sm f m) (\<lambda>(ok, m). Ok (ok, m, h))
       else parse_repeated_member nst sm f m h)"


section \<open>Scanning\<close>

definition MAX_SCANNED_MEMBER_SLAB :: nat where
  "MAX_SCANNED_MEMBER_SLAB = 32 - 1 - 5 - 4"

text \<open>The state of the scanning loop: the message so far, whose quantifiers count the elements of the
  repeated fields; the slabs, filled in order, as one list and the blocks of those allocated; the
  field last seen; the bitmap of required fields.\<close>

record scan =
  sc_message :: message
  sc_heap :: pb_heap
  sc_members :: "scanned_member list"
  sc_slab_blocks :: "nat list"
  sc_which_slab :: nat
  sc_in_slab_index :: nat
  sc_n_unknown :: nat
  sc_last_field :: "field_desc option"
  sc_last_field_index :: nat
  sc_bitmap :: bytes

definition REQUIRED_FIELD_BITMAP_SET :: "nat \<Rightarrow> bytes \<Rightarrow> bytes res" where
  "REQUIRED_FIELD_BITMAP_SET i bm = or_byte (i div 8) (push_bit (i mod 8) 1) bm"

definition REQUIRED_FIELD_BITMAP_IS_SET :: "nat \<Rightarrow> bytes \<Rightarrow> bool res" where
  "REQUIRED_FIELD_BITMAP_IS_SET i bm = bindR (get (i div 8) bm) (\<lambda>b. Ok (b AND push_bit (i mod 8) 1 \<noteq> 0))"

text \<open>The field a tag belongs to; a tag with no field is counted as unknown.\<close>

definition scan_field :: "message_desc \<Rightarrow> u32 \<Rightarrow> scan \<Rightarrow> (field_desc option \<times> scan) res" where
  "scan_field D tag sc =
     bindR (if (case sc_last_field sc of None \<Rightarrow> True | Some f \<Rightarrow> fd_id f \<noteq> tag) then
         bindR (int_range_lookup (n_field_ranges D) (field_ranges D) tag) (\<lambda>field_index.
         if field_index < 0 then Ok (None, sc\<lparr>sc_n_unknown := sc_n_unknown sc + 1\<rparr>)
         else bindR (entry_at (md_fields D) (nat field_index)) (\<lambda>f.
           Ok (Some f, sc\<lparr>sc_last_field := Some f, sc_last_field_index := nat field_index\<rparr>)))
       else Ok (sc_last_field sc, sc)) (\<lambda>(field, sc).
     case field of None \<Rightarrow> Ok (field, sc)
     | Some f \<Rightarrow> if fd_label f = LABEL_REQUIRED then
         bindR (REQUIRED_FIELD_BITMAP_SET (sc_last_field_index sc) (sc_bitmap sc)) (\<lambda>bm.
         Ok (field, sc\<lparr>sc_bitmap := bm\<rparr>))
       else Ok (field, sc))"

text \<open>The length of a member and of its prefix, or \<open>None\<close> for bad input.\<close>

definition scan_data :: "nat \<Rightarrow> nat \<Rightarrow> bytes \<Rightarrow> (nat \<times> nat) option res" where
  "scan_data wire_type rem at =
     (if wire_type = WIRE_TYPE_VARINT then
        let max_len = if rem < 10 then rem else 10 in
        bindR (find_end max_len 0 at) (\<lambda>i. Ok (if i = max_len then None else Some (i + 1, 0)))
      else if wire_type = WIRE_TYPE_64BIT then Ok (if rem < 8 then None else Some (8, 0))
      else if wire_type = WIRE_TYPE_LENGTH_PREFIXED then scan_length_prefixed_data rem at
      else if wire_type = WIRE_TYPE_32BIT then Ok (if rem < 4 then None else Some (4, 0))
      else Ok None)"

text \<open>A place for the member: a new slab, twice as large, when the current one is full.\<close>

definition scan_store :: "scanned_member \<Rightarrow> scan \<Rightarrow> (bool \<times> scan) res" where
  "scan_store tmp sc =
     bindR (if sc_in_slab_index sc = 2 ^ (sc_which_slab sc + 4) then
         if sc_which_slab sc = MAX_SCANNED_MEMBER_SLAB then Ok (False, sc\<lparr>sc_in_slab_index := 0\<rparr>)
         else let which = sc_which_slab sc + 1 in
           (case do_alloc (push_bit (which + 4) 32) (sc_heap sc) of
             (None, h) \<Rightarrow> Ok (False, sc\<lparr>sc_which_slab := which, sc_in_slab_index := 0, sc_heap := h\<rparr>)
           | (Some blk, h) \<Rightarrow> Ok (True, sc\<lparr>sc_which_slab := which, sc_in_slab_index := 0, sc_heap := h,
               sc_slab_blocks := sc_slab_blocks sc @ [blk]\<rparr>))
       else Ok (True, sc)) (\<lambda>(ok, sc).
     if \<not> ok then Ok (False, sc)
     else Ok (True, sc\<lparr>sc_members := sc_members sc @ [tmp], sc_in_slab_index := sc_in_slab_index sc + 1\<rparr>))"

text \<open>Counting the elements of a repeated field.\<close>

definition scan_count :: "scanned_member \<Rightarrow> message \<Rightarrow> message option res" where
  "scan_count tmp m = (case sm_field tmp of None \<Rightarrow> Ok (Some m)
   | Some f \<Rightarrow>
       if fd_label f = LABEL_REPEATED then
         bindR (quantifier_size m (fd_quantifier_offset f)) (\<lambda>n.
         bindR (if sm_wire_type tmp = WIRE_TYPE_LENGTH_PREFIXED
               \<and> (has_flag f FLAG_PACKED \<or> is_packable_type (fd_type f))
             then count_packed_elements (fd_type f) (sm_len tmp - sm_length_prefix_len tmp)
               (drop (sm_length_prefix_len tmp) (sm_data tmp))
             else Ok (Some 1)) (\<lambda>count. case count of
           None \<Rightarrow> Ok None
         | Some c \<Rightarrow> bindR (set_member m (fd_quantifier_offset f) (V64 (n + of_nat c))) (\<lambda>m. Ok (Some m))))
       else Ok (Some m))"

lemma tag_loop_used: "tag_loop n rv shift tag wt data = Ok (Some (used, t, w)) \<Longrightarrow> 0 < used"
  by (induction n arbitrary: rv shift tag) (auto simp: bindR_Ok_iff split: if_splits)

lemma tag_used: "parse_tag_and_wiretype len data = Ok (Some (used, t, w)) \<Longrightarrow> 0 < used"
  by (auto simp: parse_tag_and_wiretype_def bindR_Ok_iff Let_def dest: tag_loop_used split: if_splits)

text \<open>\<open>while (rem > 0)\<close>: FALSE stands for the jump to \<open>error_cleanup_during_scan\<close>.\<close>

function scan_members :: "message_desc \<Rightarrow> bytes \<Rightarrow> scan \<Rightarrow> (bool \<times> scan) res" where
  "scan_members D at sc =
     (if at = [] then Ok (True, sc)
      else bindR (parse_tag_and_wiretype (length at) at) (\<lambda>r. case r of
        None \<Rightarrow> Ok (False, sc)
      | Some (used, tag, wire_type) \<Rightarrow>
          bindR (scan_field D tag sc) (\<lambda>(field, sc).
          let at' = drop used at in
          bindR (scan_data wire_type (length at') at') (\<lambda>r. case r of
            None \<Rightarrow> Ok (False, sc)
          | Some (len, pref_len) \<Rightarrow>
              let tmp = \<lparr>sm_tag = tag, sm_wire_type = wire_type, sm_length_prefix_len = pref_len,
                sm_field = field, sm_len = len, sm_data = at'\<rparr> in
              bindR (scan_store tmp sc) (\<lambda>(ok, sc).
              if \<not> ok then Ok (False, sc)
              else bindR (scan_count tmp (sc_message sc)) (\<lambda>r. case r of
                None \<Rightarrow> Ok (False, sc)
              | Some m \<Rightarrow> scan_members D (drop len at') (sc\<lparr>sc_message := m\<rparr>)))))))"
  by auto
termination
  by (relation "measure (\<lambda>(D, at, sc). length at)") (auto dest: tag_used)

declare scan_members.simps [simp del]

section \<open>Allocating\<close>

text \<open>\<open>CLEAR_REMAINING_N_PTRS\<close>\<close>

fun clear_remaining :: "field_desc list \<Rightarrow> message \<Rightarrow> message res" where
  "clear_remaining [] m = Ok m"
| "clear_remaining (f # fs) m = bindR (if fd_label f = LABEL_REPEATED
     then set_member m (fd_quantifier_offset f) (V64 0) else Ok m) (clear_remaining fs)"

text \<open>The arrays of the repeated fields, and the check for required fields; \<open>i\<close> is the index of the
  first field of the list.\<close>

fun allocate_fields :: "field_desc list \<Rightarrow> nat \<Rightarrow> bytes \<Rightarrow> message \<Rightarrow> pb_heap \<Rightarrow> parsed" where
  "allocate_fields [] i bm m h = Ok (True, m, h)"
| "allocate_fields (f # fs) i bm m h =
     (if fd_label f = LABEL_REPEATED then
        let siz = sizeof_elt_in_repeated_array (fd_type f) in
        bindR (quantifier_size m (fd_quantifier_offset f)) (\<lambda>count.
        if count \<noteq> 0 then
          let n = unat (ucast count :: u32) in
          bindR (set_member m (fd_quantifier_offset f) (V64 0)) (\<lambda>m.
          case do_alloc (siz * of_nat n) h of
            (None, h) \<Rightarrow> bindR (clear_remaining fs m) (\<lambda>m. Ok (False, m, h))
          | (Some blk, h) \<Rightarrow>
              bindR (set_member m (fd_offset f) (VArr (Some (blk, n, [])))) (\<lambda>m.
              allocate_fields fs (i + 1) bm m h))
        else allocate_fields fs (i + 1) bm m h)
      else if fd_label f = LABEL_REQUIRED then
        bindR (if fd_default f = None then
            bindR (REQUIRED_FIELD_BITMAP_IS_SET i bm) (\<lambda>set. Ok (\<not> set))
          else Ok False) (\<lambda>missing.
        if missing then bindR (clear_remaining fs m) (\<lambda>m. Ok (False, m, h))
        else allocate_fields fs (i + 1) bm m h)
      else allocate_fields fs (i + 1) bm m h)"

definition allocate_unknown :: "nat \<Rightarrow> message \<Rightarrow> pb_heap \<Rightarrow> parsed" where
  "allocate_unknown n_unknown m h =
     (if n_unknown \<noteq> 0 then
        (case do_alloc (of_nat n_unknown * 24) h of
          (None, h) \<Rightarrow> Ok (False, m, h)
        | (Some blk, h) \<Rightarrow>
            Ok (True, Message (descriptor m) (members m) (Some (blk, n_unknown)) (unknown_fields m), h))
      else Ok (True, m, h))"

section \<open>Unpacking\<close>

fun parse_members :: "nested \<Rightarrow> message_desc \<Rightarrow> scanned_member list \<Rightarrow> message \<Rightarrow> pb_heap \<Rightarrow> parsed" where
  "parse_members nst D [] m h = Ok (True, m, h)"
| "parse_members nst D (sm # sms) m h = bindR (parse_member nst D sm m h) (\<lambda>(ok, m, h).
     if ok then parse_members nst D sms m h else Ok (False, m, h))"

text \<open>The message, the slabs and the bitmap given back, in this order.\<close>

definition free_scan :: "scan \<Rightarrow> nat option \<Rightarrow> pb_heap \<Rightarrow> pb_heap res" where
  "free_scan sc bitmap_block h = bindR (each_heap (\<lambda>b. do_free (Some b)) (sc_slab_blocks sc) h)
     (do_free bitmap_block)"

text \<open>The bitmap: sixteen bytes on the stack, or a block; its first bytes are cleared, the others are
  not used.\<close>

definition alloc_bitmap :: "nat \<Rightarrow> pb_heap \<Rightarrow> (bytes \<times> nat option) option \<times> pb_heap" where
  "alloc_bitmap n_fields h = (let len = (n_fields + 7) div 8 in
     if 16 < len then
       (case do_alloc (of_nat len) h of
         (None, h) \<Rightarrow> (None, h)
       | (Some b, h) \<Rightarrow> (Some (replicate len 0, Some b), h))
     else (Some (replicate 16 0, None), h))"

definition parse_scanned :: "(nat \<times> message \<Rightarrow> pb_heap \<Rightarrow> pb_heap res) \<Rightarrow> nested \<Rightarrow> message_desc \<Rightarrow> nat
    \<Rightarrow> scan \<Rightarrow> nat option \<Rightarrow> ((nat \<times> message) option \<times> pb_heap) res" where
  "parse_scanned free_unpacked nst D rv sc bitmap_block =
     bindR (allocate_fields (md_fields D) 0 (sc_bitmap sc) (sc_message sc) (sc_heap sc)) (\<lambda>(ok, m, h).
     bindR (if ok then allocate_unknown (sc_n_unknown sc) m h else Ok (False, m, h)) (\<lambda>(ok, m, h).
     bindR (if ok then parse_members nst D (sc_members sc) m h else Ok (False, m, h)) (\<lambda>(ok, m, h).
     if ok then bindR (free_scan sc bitmap_block h) (\<lambda>h. Ok (Some (rv, m), h))
     else bindR (free_unpacked (rv, m) h) (\<lambda>h.
       bindR (free_scan sc bitmap_block h) (\<lambda>h. Ok (None, h))))))"

fun protobuf_c_message_unpack ::
  "schema \<Rightarrow> nat \<Rightarrow> nat \<Rightarrow> bytes \<Rightarrow> pb_heap \<Rightarrow> ((nat \<times> message) option \<times> pb_heap) res" where
  "protobuf_c_message_unpack S 0 desc data h = Fault"
| "protobuf_c_message_unpack S (Suc d) desc data h = bindR (get_desc S desc) (\<lambda>D.
     bindR (guardR (md_magic D = MESSAGE_DESCRIPTOR_MAGIC)) (\<lambda>_.
     case do_alloc (sizeof_message D) h of
       (None, h) \<Rightarrow> Ok (None, h)
     | (Some rv, h) \<Rightarrow> (case alloc_bitmap (length (md_fields D)) h of
         (None, h) \<Rightarrow> bindR (do_free (Some rv) h) (\<lambda>h. Ok (None, h))
       | (Some (bitmap, bitmap_block), h) \<Rightarrow>
           bindR (if message_init D \<noteq> None then protobuf_c_message_init desc D
             else message_init_generic desc D) (\<lambda>m.
           bindR (scan_members D data \<lparr>sc_message = m, sc_heap = h, sc_members = [], sc_slab_blocks = [],
               sc_which_slab = 0, sc_in_slab_index = 0, sc_n_unknown = 0,
               sc_last_field = (case md_fields D of [] \<Rightarrow> None | f # _ \<Rightarrow> Some f), sc_last_field_index = 0,
               sc_bitmap = bitmap\<rparr>) (\<lambda>(ok, sc).
           if ok then
             parse_scanned (protobuf_c_message_free_unpacked S (Suc d))
               \<lparr>nested_unpack = protobuf_c_message_unpack S d, nested_merge = merge_messages S d,
                 nested_free = protobuf_c_message_free_unpacked S d\<rparr> D rv sc bitmap_block
           else bindR (do_free (Some rv) (sc_heap sc)) (\<lambda>h.
             bindR (free_scan sc bitmap_block h) (\<lambda>h. Ok (None, h))))))))"

end
