(* ===== verification/Pb_Resources.thy ===== *)
theory Pb_Resources
  imports Pb_Unpack "HOL-Library.Multiset"
begin

text \<open>
  Ownership of heap blocks by unpacked messages: a message owns the blocks in it, and every routine of
  \<^verbatim>\<open>protobuf-c/protobuf-c.c\<close> that allocates, moves or frees is specified by what the heap holds before and
  after.
\<close>

section \<open>Resources\<close>

text \<open>What a value owns: its blocks, and one token for each element of its arrays. The tokens bound
  the lengths of all arrays together.\<close>

type_synonym resources = "nat option multiset"

fun ptr_res :: "ptr \<Rightarrow> resources" where
  "ptr_res (Heap b _) = {#Some b#}"
| "ptr_res _ = {#}"

primrec slot_res :: "slot \<Rightarrow> resources" and message_res :: "message \<Rightarrow> resources" where
  "slot_res Zero = {#}"
| "slot_res (V32 w) = {#}"
| "slot_res (V64 w) = {#}"
| "slot_res (VStr p) = ptr_res p"
| "slot_res (VBytes n p) = ptr_res p"
| "slot_res (VMsg p) = (case map_option (map_prod id message_res) p of None \<Rightarrow> {#} | Some (b, r) \<Rightarrow> add_mset (Some b) r)"
| "slot_res (VArr a) = (case map_option (map_prod id (map_prod id (map slot_res))) a of None \<Rightarrow> {#}
     | Some (b, cap, rs) \<Rightarrow> add_mset (Some b) (sum_list (map (add_mset None) rs)))"
| "message_res (Message desc mem ub us) = sum_list (map snd (map (map_prod id slot_res) mem))
     + (case ub of None \<Rightarrow> {#} | Some (b, cap) \<Rightarrow> {#Some b#}) + sum_list (map (\<lambda>u. ptr_res (uf_data u)) us)"

definition members_res :: "(nat \<times> slot) list \<Rightarrow> resources" where
  "members_res ms = (\<Sum>(_, s)\<leftarrow>ms. slot_res s)"

definition unknown_res :: "message \<Rightarrow> resources" where
  "unknown_res m = (case unknown_block m of None \<Rightarrow> {#} | Some (b, cap) \<Rightarrow> {#Some b#})
     + (\<Sum>u\<leftarrow>unknown_fields m. ptr_res (uf_data u))"

definition elements_res :: "slot list \<Rightarrow> resources" where
  "elements_res vs = (\<Sum>v\<leftarrow>vs. add_mset None (slot_res v))"

lemma slot_res_msg: "slot_res (VMsg p) = (case p of None \<Rightarrow> {#} | Some (b, m) \<Rightarrow> add_mset (Some b) (message_res m))"
  by (cases p) auto

lemma slot_res_arr: "slot_res (VArr a) = (case a of None \<Rightarrow> {#} | Some (b, cap, vs) \<Rightarrow> add_mset (Some b) (elements_res vs))"
  by (cases a) (auto simp: elements_res_def comp_def)

lemma message_res_split: "message_res m = members_res (members m) + unknown_res m"
  by (cases m) (simp add: members_res_def unknown_res_def comp_def split_def ac_simps)

declare slot_res.simps(6,7) [simp del] message_res.simps [simp del]
declare slot_res_msg [simp] slot_res_arr [simp]

lemma members_res_Cons [simp]: "members_res ((o', s) # ms) = slot_res s + members_res ms"
  by (simp add: members_res_def)

lemma members_res_Nil [simp]: "members_res [] = {#}"
  by (simp add: members_res_def)

lemma elements_res_append [simp]: "elements_res (vs @ ws) = elements_res vs + elements_res ws"
  by (simp add: elements_res_def)

lemma elements_res_simps [simp]: "elements_res [] = {#}" "elements_res (v # vs) = add_mset None (slot_res v + elements_res vs)"
  by (simp_all add: elements_res_def)

lemma count_elements: "length vs \<le> count (elements_res vs) None"
  by (induction vs) auto

section \<open>Heaps that hold resources\<close>

definition holds :: "pb_heap \<Rightarrow> resources \<Rightarrow> bool" where
  "holds h R \<longleftrightarrow> heap_ok h \<and> mset_set (Some ` live h) = filter_mset (\<lambda>x. x \<noteq> None) R \<and> count R None < 2 ^ 32"

lemma holds_eq: "holds h R \<Longrightarrow> R = R' \<Longrightarrow> holds h R'"
  by simp

lemma holds_finite: "heap_ok h \<Longrightarrow> finite (live h)"
  by (auto simp: heap_ok_def intro: finite_subset)

lemma holds_token: "holds h (add_mset None R) \<Longrightarrow> holds h R"
  by (simp add: holds_def)

lemma holds_weaken: "holds h (R + replicate_mset n None) \<Longrightarrow> holds h R"
  by (auto simp: holds_def)

lemma holds_bound: "holds h R \<Longrightarrow> R = elements_res vs + R' \<Longrightarrow> length vs < 2 ^ 32"
  using count_elements [of vs] by (simp add: holds_def)

lemma holds_alloc: "holds h R \<Longrightarrow> do_alloc n h = (Some b, h') \<Longrightarrow> holds h' (add_mset (Some b) R)"
  using heap_ok_alloc [of h n "Some b" h'] heap_ok_fresh [of h n b h'] holds_finite [of h]
  by (auto simp: holds_def do_alloc_def Let_def image_iff split: if_splits)

lemma holds_alloc_fails: "holds h R \<Longrightarrow> do_alloc n h = (None, h') \<Longrightarrow> holds h' R"
  using heap_ok_alloc [of h n None h'] by (auto simp: holds_def do_alloc_def Let_def split: if_splits)

lemma gives_free:
  assumes "holds h (add_mset (Some b) R)"
  shows "gives (\<lambda>h'. holds h' R) (do_free (Some b) h)"
proof -
  have f: "finite (Some ` live h)" using assms holds_finite by (auto simp: holds_def)
  have e: "mset_set (Some ` live h) = add_mset (Some b) (filter_mset (\<lambda>x. x \<noteq> None) R)"
    using assms by (simp add: holds_def)
  have "Some b \<in># mset_set (Some ` live h)" unfolding e by simp
  then have b: "b \<in> live h" using f by auto
  then have "do_free (Some b) h = Ok (h\<lparr>live := live h - {b}\<rparr>)" by (simp add: do_free_def)
  moreover have "Some ` (live h - {b}) = Some ` live h - {Some b}" by auto
  moreover have "heap_ok (h\<lparr>live := live h - {b}\<rparr>)" using assms by (auto simp: holds_def heap_ok_def)
  ultimately show ?thesis using assms b f e by (simp add: holds_def mset_set_Diff)
qed

lemma gives_free_ptr:
  "p \<noteq> Dflt \<Longrightarrow> holds h (R + ptr_res p) \<Longrightarrow> gives (\<lambda>h'. holds h' R) (free_ptr p h)"
  by (cases p) (auto intro: gives_free)

lemma gives_free_unless_default:
  "holds h (R + ptr_res p) \<Longrightarrow> gives (\<lambda>h'. holds h' R) (free_unless_default p h)"
  by (cases p) (auto intro: gives_free)

lemma gives_each_heap:
  assumes "\<And>x R h. x \<in> set xs \<Longrightarrow> holds h (R + res x) \<Longrightarrow> gives (\<lambda>h'. holds h' R) (f x h)"
    and "holds h (R + (\<Sum>x\<leftarrow>xs. res x))"
  shows "gives (\<lambda>h'. holds h' R) (each_heap f xs h)"
  using assms
proof (induction xs arbitrary: h)
  case (Cons x xs)
  have "holds h ((R + (\<Sum>x\<leftarrow>xs. res x)) + res x)" using Cons.prems(2) by (simp add: ac_simps)
  then have "gives (\<lambda>h'. holds h' (R + (\<Sum>x\<leftarrow>xs. res x))) (f x h)" using Cons.prems(1) by simp
  then show ?case using Cons.IH Cons.prems(1) by (auto intro!: gives_bind)
qed simp

section \<open>Members as a map\<close>

text \<open>A message with one member per offset, its members as a map.\<close>

definition members_map :: "message \<Rightarrow> (nat \<Rightarrow> slot option) \<Rightarrow> bool" where
  "members_map m g \<longleftrightarrow> distinct (map fst (members m)) \<and> map_of (members m) = g"

lemma STRUCT_MEMBER_map: "members_map m g \<Longrightarrow> STRUCT_MEMBER m off = of_opt (g off)"
  by (simp add: members_map_def STRUCT_MEMBER_def)

definition with_members :: "message \<Rightarrow> (nat \<times> slot) list \<Rightarrow> message" where
  "with_members m ms = Message (descriptor m) ms (unknown_block m) (unknown_fields m)"

lemma with_members_simps [simp]:
  "descriptor (with_members m ms) = descriptor m" "members (with_members m ms) = ms"
  "unknown_block (with_members m ms) = unknown_block m" "unknown_fields (with_members m ms) = unknown_fields m"
  "unknown_res (with_members m ms) = unknown_res m"
  by (simp_all add: with_members_def unknown_res_def)

definition upd :: "nat \<Rightarrow> slot \<Rightarrow> (nat \<times> slot) list \<Rightarrow> (nat \<times> slot) list" where
  "upd off v ms = map (\<lambda>(o', w). (o', if o' = off then v else w)) ms"

lemma fst_upd: "map fst (upd off v ms) = map fst ms"
  by (simp add: upd_def comp_def split_def)

lemma map_of_upd: "off \<in> fst ` set ms \<Longrightarrow> map_of (upd off v ms) = (map_of ms)(off \<mapsto> v)"
proof
  fix x
  have "map_of (upd off v ms) x = (if x = off then map_option (\<lambda>_. v) (map_of ms x) else map_of ms x)"
    by (induction ms) (auto simp: upd_def)
  moreover assume "off \<in> fst ` set ms"
  then have "map_of ms off \<noteq> None" by (simp add: map_of_eq_None_iff)
  ultimately show "map_of (upd off v ms) x = ((map_of ms)(off \<mapsto> v)) x" by auto
qed

lemma upd_other: "off \<notin> fst ` set ms \<Longrightarrow> upd off v ms = ms"
  by (induction ms) (auto simp: upd_def)

lemma members_res_upd:
  "distinct (map fst ms) \<Longrightarrow> map_of ms off = Some w \<Longrightarrow> members_res (upd off v ms) + slot_res w = members_res ms + slot_res v"
proof (induction ms)
  case (Cons x ms)
  obtain k s where x: "x = (k, s)" by (cases x)
  show ?case
  proof (cases "k = off")
    case True
    then have "upd off v ms = ms" using Cons.prems x by (intro upd_other) auto
    then show ?thesis using True Cons.prems x by (simp add: upd_def ac_simps)
  next
    case False
    then show ?thesis using Cons x by (simp add: upd_def ac_simps)
  qed
qed simp

lemma members_res_in: "map_of ms off = Some w \<Longrightarrow> slot_res w \<subseteq># members_res ms"
proof (induction ms)
  case (Cons x ms)
  then show ?case by (cases x) (auto split: if_splits intro: subset_mset.trans)
qed simp

text \<open>Two messages that differ in their members only.\<close>

definition same_but_members :: "message \<Rightarrow> message \<Rightarrow> bool" where
  "same_but_members m m' \<longleftrightarrow> descriptor m' = descriptor m \<and> unknown_block m' = unknown_block m
     \<and> unknown_fields m' = unknown_fields m"

lemma same_but_members_refl: "same_but_members m m"
  by (simp add: same_but_members_def)

lemma same_but_members_trans: "same_but_members m m' \<Longrightarrow> same_but_members m' m'' \<Longrightarrow> same_but_members m m''"
  by (simp add: same_but_members_def)

text \<open>Storing a member: the map is updated, and the resources of the old value are replaced.\<close>

lemma gives_set_member:
  assumes "members_map m g" and "g off = Some w"
  shows "gives (\<lambda>m'. members_map m' (g(off \<mapsto> v)) \<and> same_but_members m m'
    \<and> (\<exists>X. message_res m = X + slot_res w \<and> message_res m' = X + slot_res v)) (set_member m off v)"
proof -
  have k: "off \<in> fst ` set (members m)" using assms by (auto simp: members_map_def dest!: map_of_SomeD intro: rev_image_eqI)
  then have s: "set_member m off v = Ok (with_members m (upd off v (members m)))"
    by (simp add: set_member_def with_members_def upd_def)
  have w: "map_of (members m) off = Some w" "distinct (map fst (members m))" using assms by (auto simp: members_map_def)
  obtain X where X: "members_res (members m) = X + slot_res w"
    using members_res_in [OF w(1)] by (metis subset_mset.diff_add)
  then have "members_res (upd off v (members m)) = X + slot_res v"
    using members_res_upd [OF w(2,1), of v] by (simp add: ac_simps)
  then show ?thesis using assms map_of_upd [OF k] X s
    by (auto simp: members_map_def fst_upd message_res_split same_but_members_def ac_simps intro!: exI [of _ "X + unknown_res m"])
qed

lemma message_res_two:
  assumes "members_map m g" and "g o1 = Some w1" and "g o2 = Some w2" and "o1 \<noteq> o2"
  shows "\<exists>X. message_res m = X + slot_res w1 + slot_res w2"
proof -
  let ?ms = "upd o1 Zero (members m)"
  have w: "map_of (members m) o1 = Some w1" "distinct (map fst (members m))" "o1 \<in> fst ` set (members m)"
    using assms by (auto simp: members_map_def dest!: map_of_SomeD intro: rev_image_eqI)
  have "map_of ?ms o2 = Some w2" using assms map_of_upd [OF w(3)] by (simp add: members_map_def)
  then obtain X where "members_res ?ms = X + slot_res w2" using members_res_in by (metis subset_mset.diff_add)
  then have "members_res (members m) = X + slot_res w1 + slot_res w2"
    using members_res_upd [OF w(2,1), of Zero] by (simp add: ac_simps)
  then show ?thesis by (auto simp: message_res_split intro!: exI [of _ "X + unknown_res m"])
qed

lemma gives_set_two:
  assumes "members_map m g" and "g o1 = Some w1" and "g o2 = Some w2" and "o1 \<noteq> o2"
  shows "gives (\<lambda>m'. members_map m' (g(o1 \<mapsto> v1, o2 \<mapsto> v2)) \<and> same_but_members m m'
    \<and> (\<exists>X. message_res m = X + slot_res w1 + slot_res w2 \<and> message_res m' = X + slot_res v1 + slot_res v2))
    (bindR (set_member m o1 v1) (\<lambda>m'. set_member m' o2 v2))"
proof (rule gives_bind [OF gives_set_member [OF assms(1,2), of v1]], elim conjE exE)
  fix m' X assume m': "members_map m' (g(o1 \<mapsto> v1))" "same_but_members m m'" "message_res m = X + slot_res w1" "message_res m' = X + slot_res v1"
  have w2: "(g(o1 \<mapsto> v1)) o2 = Some w2" using assms(3,4) by simp
  show "gives (\<lambda>m'. members_map m' (g(o1 \<mapsto> v1, o2 \<mapsto> v2)) \<and> same_but_members m m'
    \<and> (\<exists>X. message_res m = X + slot_res w1 + slot_res w2 \<and> message_res m' = X + slot_res v1 + slot_res v2)) (set_member m' o2 v2)"
  proof (rule gives_mono [OF gives_set_member [OF m'(1) w2, of v2]], elim conjE exE, intro conjI)
    fix m'' Y assume m'': "same_but_members m' m''" "message_res m' = Y + slot_res w2" "message_res m'' = Y + slot_res v2"
    show "same_but_members m m''" using same_but_members_trans m'(2) m''(1) .
    obtain Z where "message_res m = Z + slot_res w1 + slot_res w2" using message_res_two [OF assms] by blast
    then have "message_res m = Z + slot_res w1 + slot_res w2 \<and> message_res m'' = Z + slot_res v1 + slot_res v2"
      using m' m'' by (simp add: ac_simps)
    then show "\<exists>X. message_res m = X + slot_res w1 + slot_res w2 \<and> message_res m'' = X + slot_res v1 + slot_res v2" by blast
  qed
qed

text \<open>The resources of a message by offsets.\<close>

lemma members_res_offsets:
  assumes "members_map m g" and "distinct offs" and "set offs \<subseteq> dom g"
    and "\<And>off v. g off = Some v \<Longrightarrow> off \<notin> set offs \<Longrightarrow> slot_res v = {#}"
  shows "members_res (members m) = (\<Sum>off\<leftarrow>offs. slot_res (the (g off)))"
proof -
  let ?ks = "map fst (members m)"
  have d: "distinct ?ks" "map_of (members m) = g" using assms(1) by (auto simp: members_map_def)
  have k: "set ?ks = dom g" using dom_map_of_conv_image_fst [of "members m"] d(2) by simp
  have f: "finite (dom g)" using k by (metis List.finite_set)
  have "members_res (members m) = (\<Sum>off\<leftarrow>?ks. slot_res (the (g off)))"
    unfolding members_res_def map_map
    using d by (intro arg_cong [where f = sum_list] map_cong) (auto simp: split_def)
  also have "\<dots> = (\<Sum>off\<in>dom g. slot_res (the (g off)))"
    using d(1) k by (simp add: sum_list_distinct_conv_sum_set del: map_map)
  also have "\<dots> = (\<Sum>off\<in>set offs. slot_res (the (g off)))"
    using assms(3,4) f by (intro sum.mono_neutral_right) auto
  also have "\<dots> = (\<Sum>off\<leftarrow>offs. slot_res (the (g off)))"
    using assms(2) by (simp add: sum_list_distinct_conv_sum_set)
  finally show ?thesis .
qed

end
