(* ===== verification/Pb_Shape.thy ===== *)
theory Pb_Shape imports Pb_Resources begin

text \<open>
  Well-formed schemas and the messages of a schema: what the code generator promises of a descriptor
  (\<open>schema_ok\<close>), what unpacking maintains of a message (\<open>message_inv\<close>, \<open>message_ok\<close>), and that
  \<open>protobuf_c_message_free_unpacked\<close> gives back exactly what such a message owns.
\<close>

section \<open>Descriptors\<close>

definition same_oneof :: "field_desc \<Rightarrow> field_desc \<Rightarrow> bool" where
  "same_oneof f g \<longleftrightarrow> has_flag f FLAG_ONEOF \<and> has_flag g FLAG_ONEOF
     \<and> fd_quantifier_offset f = fd_quantifier_offset g"

text \<open>Two fields have different numbers and do not overlap, unless they are members of one oneof,
  which share their place.\<close>

definition fields_apart :: "field_desc \<Rightarrow> field_desc \<Rightarrow> bool" where
  "fields_apart f g \<longleftrightarrow> fd_id f \<noteq> fd_id g
     \<and> (if same_oneof f g then fd_offset f = fd_offset g
        else fd_offset f \<noteq> fd_offset g
          \<and> (fd_quantifier_offset f \<noteq> fd_quantifier_offset g \<or> fd_quantifier_offset f = 0))
     \<and> fd_offset f \<noteq> fd_quantifier_offset g \<and> fd_quantifier_offset f \<noteq> fd_offset g"

text \<open>Offset zero is the descriptor pointer; counts and cases have a place of their own.\<close>

definition field_ok :: "schema \<Rightarrow> field_desc \<Rightarrow> bool" where
  "field_ok S f \<longleftrightarrow> fd_id f \<noteq> 0 \<and> fd_offset f \<noteq> 0 \<and> fd_offset f \<noteq> fd_quantifier_offset f
     \<and> (fd_label f = LABEL_REPEATED \<longrightarrow> fd_quantifier_offset f \<noteq> 0)
     \<and> (has_flag f FLAG_ONEOF \<longrightarrow> fd_quantifier_offset f \<noteq> 0
          \<and> (fd_label f = LABEL_OPTIONAL \<or> fd_label f = LABEL_NONE))
     \<and> (fd_type f = TYPE_MESSAGE \<longrightarrow> fd_descriptor f < length S)"

text \<open>The default value a field without generated initialisation may have.\<close>

definition default_ok :: "field_desc \<Rightarrow> bool" where
  "default_ok f \<longleftrightarrow> (case fd_default f of None \<Rightarrow> True | Some dv \<Rightarrow>
     fd_label f = LABEL_REPEATED \<or> \<not> has_flag f FLAG_ONEOF \<and> (case fd_type f of
       TYPE_STRING \<Rightarrow> True
     | TYPE_BYTES \<Rightarrow> (case dv of DefBytes _ _ \<Rightarrow> True | _ \<Rightarrow> False)
     | TYPE_MESSAGE \<Rightarrow> False
     | t \<Rightarrow> (case dv of Def32 _ \<Rightarrow> sizeof_elt_in_repeated_array t = 4
         | Def64 _ \<Rightarrow> sizeof_elt_in_repeated_array t = 8 | _ \<Rightarrow> False)))"

text \<open>A value of a field's type that owns nothing.\<close>

definition plain_ok :: "field_desc \<Rightarrow> slot \<Rightarrow> bool" where
  "plain_ok f v \<longleftrightarrow> (case fd_type f of
     TYPE_STRING \<Rightarrow> v = Zero \<or> v = VStr Null \<or> v = VStr Dflt
   | TYPE_BYTES \<Rightarrow> (case v of Zero \<Rightarrow> True | VBytes _ (Heap _ _) \<Rightarrow> False | VBytes _ _ \<Rightarrow> True | _ \<Rightarrow> False)
   | TYPE_MESSAGE \<Rightarrow> v = Zero \<or> v = VMsg None
   | t \<Rightarrow> if sizeof_elt_in_repeated_array t = 4 then is_Ok (as32 v) else is_Ok (as64 v))"

text \<open>The initial members, generated or zeroed.\<close>

definition initial_field :: "(nat \<Rightarrow> slot option) \<Rightarrow> field_desc \<Rightarrow> bool" where
  "initial_field g f \<longleftrightarrow>
     (case g (fd_offset f) of None \<Rightarrow> False
      | Some v \<Rightarrow> if fd_label f = LABEL_REPEATED then v = Zero \<or> v = VArr None
          else if has_flag f FLAG_ONEOF then v = Zero else plain_ok f v)
     \<and> (fd_quantifier_offset f \<noteq> 0 \<longrightarrow>
         (case g (fd_quantifier_offset f) of None \<Rightarrow> False
          | Some v \<Rightarrow> if fd_label f = LABEL_REPEATED then v = Zero \<or> v = V64 0
              else if has_flag f FLAG_ONEOF then v = Zero \<or> v = V32 0
              else is_Ok (as32 v)))"

definition initial_ok :: "message_desc \<Rightarrow> (nat \<times> slot) list \<Rightarrow> bool" where
  "initial_ok D ms \<longleftrightarrow> distinct (map fst ms) \<and> list_all (initial_field (map_of ms)) (md_fields D)
     \<and> list_all (\<lambda>(_, v). slot_res v = {#}) ms"

text \<open>The ranges list the field numbers in order.\<close>

definition ranges_match :: "message_desc \<Rightarrow> bool" where
  "ranges_match D \<longleftrightarrow> ranges_ok (n_field_ranges D) (field_ranges D)
     \<and> range_index (field_ranges D) (n_field_ranges D) = int (length (md_fields D))
     \<and> range_index (field_ranges D) 0 = 0
     \<and> list_all (\<lambda>i. range_map (n_field_ranges D) (field_ranges D) (sint (fd_id (md_fields D ! i))) = Some i)
         [0..<length (md_fields D)]"

definition desc_ok :: "schema \<Rightarrow> message_desc \<Rightarrow> bool" where
  "desc_ok S D \<longleftrightarrow> md_magic D = MESSAGE_DESCRIPTOR_MAGIC
     \<and> list_all (field_ok S) (md_fields D) \<and> sorted_wrt fields_apart (md_fields D) \<and> ranges_match D
     \<and> (case message_init D of None \<Rightarrow> list_all default_ok (md_fields D) | Some ms \<Rightarrow> initial_ok D ms)"

definition schema_ok :: "schema \<Rightarrow> bool" where
  "schema_ok S \<longleftrightarrow> list_all (desc_ok S) S"

lemma schema_okD: "schema_ok S \<Longrightarrow> i < length S \<Longrightarrow> desc_ok S (S ! i)"
  by (simp add: schema_ok_def list_all_length)

lemma fields_apart_sym: "fields_apart f g \<longleftrightarrow> fields_apart g f"
  by (auto simp: fields_apart_def same_oneof_def)

lemma desc_field_ok: "desc_ok S D \<Longrightarrow> f \<in> set (md_fields D) \<Longrightarrow> field_ok S f"
  by (simp add: desc_ok_def list_all_iff)

lemma desc_apart:
  assumes "desc_ok S D" and "f \<in> set (md_fields D)" and "g \<in> set (md_fields D)" and "f \<noteq> g"
  shows "fields_apart f g"
proof -
  have s: "sorted_wrt fields_apart (md_fields D)" using assms(1) by (simp add: desc_ok_def)
  obtain i j where "i < length (md_fields D)" "j < length (md_fields D)" "f = md_fields D ! i" "g = md_fields D ! j"
    using assms(2,3) by (auto simp: in_set_conv_nth)
  then show ?thesis using sorted_wrt_nth_less [OF s] assms(4) fields_apart_sym
    by (cases i j rule: linorder_cases) auto
qed

lemma desc_distinct: "desc_ok S D \<Longrightarrow> distinct (md_fields D)"
proof -
  have "sorted_wrt fields_apart fs \<Longrightarrow> distinct fs" for fs by (induction fs) (auto simp: fields_apart_def)
  then show "desc_ok S D \<Longrightarrow> distinct (md_fields D)" by (simp add: desc_ok_def)
qed

text \<open>A number that is found is the number of the field found.\<close>

lemma range_map_index:
  assumes "ranges_ok n rs" and "range_map n rs v = Some i"
  obtains k where "k < n" "in_range rs v k" "int i = range_index rs k + (v - range_start rs k)"
    "range_index rs k \<le> int i" "int i < range_index rs (Suc k)"
proof -
  obtain k ks where k: "filter (in_range rs v) [0..<n] = k # ks"
    using assms(2) by (cases "filter (in_range rs v) [0..<n]") (auto simp: range_map_def)
  then have "k \<in> set (filter (in_range rs v) [0..<n])" by simp
  then have "k < n" "in_range rs v k" by auto
  moreover have "0 \<le> range_index rs k" by (simp add: range_index_def)
  moreover have "i = nat (range_index rs k + (v - range_start rs k))" using assms(2) k by (simp add: range_map_def)
  ultimately show ?thesis by (intro that [of k]) (auto simp: in_range_def range_size_def)
qed

lemma range_map_inj:
  assumes "ranges_ok n rs" and "range_map n rs v = Some i" and "range_map n rs w = Some i"
  shows "v = w"
proof -
  obtain k where k: "k < n" "int i = range_index rs k + (v - range_start rs k)" "range_index rs k \<le> int i" "int i < range_index rs (Suc k)"
    using range_map_index [OF assms(1,2)] by metis
  obtain l where l: "l < n" "int i = range_index rs l + (w - range_start rs l)" "range_index rs l \<le> int i" "int i < range_index rs (Suc l)"
    using range_map_index [OF assms(1,3)] by metis
  have "k = l"
    using range_index_mono [OF assms(1), of "Suc k" l] range_index_mono [OF assms(1), of "Suc l" k] k l
    by (cases k l rule: linorder_cases) auto
  then show ?thesis using k l by simp
qed

lemma field_lookup:
  assumes "desc_ok S D"
  shows "\<exists>r. int_range_lookup (n_field_ranges D) (field_ranges D) v = Ok r
    \<and> (r < 0 \<or> (\<exists>i < length (md_fields D). r = int i \<and> fd_id (md_fields D ! i) = v))"
proof -
  let ?n = "n_field_ranges D" and ?rs = "field_ranges D"
  have m: "ranges_ok ?n ?rs" "range_index ?rs ?n = int (length (md_fields D))"
    "\<And>i. i < length (md_fields D) \<Longrightarrow> range_map ?n ?rs (sint (fd_id (md_fields D ! i))) = Some i"
    using assms by (auto simp: desc_ok_def ranges_match_def list_all_iff)
  have l: "int_range_lookup ?n ?rs v = Ok (lookup_result (range_map ?n ?rs (sint v)))"
    using range_loop_map [OF m(1), of 0 ?n v] range_map_miss [of ?n ?rs "sint v"]
    by (auto simp: int_range_lookup_def lookup_result_def)
  show ?thesis
  proof (cases "range_map ?n ?rs (sint v)")
    case (Some i)
    obtain k where "k < ?n" "int i < range_index ?rs (Suc k)" using range_map_index [OF m(1) Some] by metis
    then have i: "i < length (md_fields D)" using range_index_mono [OF m(1), of "Suc k" ?n] m(2) by simp
    then have "sint (fd_id (md_fields D ! i)) = sint v" using range_map_inj [OF m(1) m(3) Some] by simp
    then have "fd_id (md_fields D ! i) = v" by (rule signed_word_eqI)
    then show ?thesis using i l Some by (auto simp: lookup_result_def)
  qed (simp add: l lookup_result_def)
qed

section \<open>Messages\<close>

text \<open>A value of a field's type; \<open>sub i m\<close> says that the nested message \<open>m\<close> is one of descriptor \<open>i\<close>.\<close>

definition val_ok :: "(nat \<Rightarrow> message \<Rightarrow> bool) \<Rightarrow> field_desc \<Rightarrow> slot \<Rightarrow> bool" where
  "val_ok sub f v \<longleftrightarrow> (case fd_type f of
     TYPE_STRING \<Rightarrow> is_Ok (as_str v)
   | TYPE_BYTES \<Rightarrow> is_Ok (as_bytes v)
   | TYPE_MESSAGE \<Rightarrow> (\<exists>p. as_msg v = Ok p \<and> (\<forall>b m. p = Some (b, m) \<longrightarrow> sub (fd_descriptor f) m))
   | t \<Rightarrow> if sizeof_elt_in_repeated_array t = 4 then is_Ok (as32 v) else is_Ok (as64 v))"

fun no_default :: "slot \<Rightarrow> bool" where
  "no_default (VStr Dflt) = False"
| "no_default (VBytes _ Dflt) = False"
| "no_default _ = True"

definition elem_ok :: "(nat \<Rightarrow> message \<Rightarrow> bool) \<Rightarrow> field_desc \<Rightarrow> slot \<Rightarrow> bool" where
  "elem_ok sub f v \<longleftrightarrow> val_ok sub f v \<and> no_default v"

fun elems_ok :: "(nat \<Rightarrow> message \<Rightarrow> bool) \<Rightarrow> field_desc \<Rightarrow> (nat \<times> nat \<times> slot list) option \<Rightarrow> bool" where
  "elems_ok sub f None = True"
| "elems_ok sub f (Some (b, cap, vs)) = (\<forall>x\<in>set vs. elem_ok sub f x)"

text \<open>A repeated field: its count and its array, whose elements are values of the field; \<open>R\<close> says how
  count and array are related.\<close>

type_synonym count_inv = "field_desc \<Rightarrow> u64 \<Rightarrow> (nat \<times> nat \<times> slot list) option \<Rightarrow> bool"

definition repeated_inv :: "(nat \<Rightarrow> message \<Rightarrow> bool) \<Rightarrow> count_inv \<Rightarrow> (nat \<Rightarrow> slot option) \<Rightarrow> field_desc \<Rightarrow> bool" where
  "repeated_inv sub R g f \<longleftrightarrow> (\<exists>s n w arr. g (fd_quantifier_offset f) = Some s \<and> as64 s = Ok n
     \<and> g (fd_offset f) = Some w \<and> as_arr w = Ok arr \<and> R f n arr
     \<and> elems_ok sub f arr)"

text \<open>A member of a oneof is a value of the field the case names; when it names none, it is zeroed.\<close>

definition oneof_inv :: "field_desc list \<Rightarrow> (nat \<Rightarrow> message \<Rightarrow> bool) \<Rightarrow> (nat \<Rightarrow> slot option) \<Rightarrow> field_desc \<Rightarrow> bool" where
  "oneof_inv fs sub g f \<longleftrightarrow> (\<exists>s c v. g (fd_quantifier_offset f) = Some s \<and> as32 s = Ok c \<and> g (fd_offset f) = Some v
     \<and> (c = fd_id f \<longrightarrow> val_ok sub f v) \<and> (c = 0 \<longrightarrow> v = Zero)
     \<and> (c \<noteq> 0 \<longrightarrow> (\<exists>f'\<in>set fs. same_oneof f f' \<and> fd_id f' = c)))"

definition singular_inv :: "(nat \<Rightarrow> message \<Rightarrow> bool) \<Rightarrow> (nat \<Rightarrow> slot option) \<Rightarrow> field_desc \<Rightarrow> bool" where
  "singular_inv sub g f \<longleftrightarrow> (\<exists>v. g (fd_offset f) = Some v \<and> val_ok sub f v)
     \<and> (fd_quantifier_offset f \<noteq> 0 \<longrightarrow> (\<exists>s. g (fd_quantifier_offset f) = Some s \<and> is_Ok (as32 s)))"

definition field_inv :: "field_desc list \<Rightarrow> (nat \<Rightarrow> message \<Rightarrow> bool) \<Rightarrow> count_inv \<Rightarrow> (nat \<Rightarrow> slot option)
    \<Rightarrow> field_desc \<Rightarrow> bool" where
  "field_inv fs sub R g f \<longleftrightarrow> (if fd_label f = LABEL_REPEATED then repeated_inv sub R g f
     else if has_flag f FLAG_ONEOF then oneof_inv fs sub g f else singular_inv sub g f)"

definition message_inv :: "message_desc \<Rightarrow> (nat \<Rightarrow> message \<Rightarrow> bool) \<Rightarrow> count_inv \<Rightarrow> (nat \<Rightarrow> slot option) \<Rightarrow> bool" where
  "message_inv D sub R g \<longleftrightarrow> (\<forall>f\<in>set (md_fields D). field_inv (md_fields D) sub R g f)
     \<and> (\<forall>off v. g off = Some v \<longrightarrow> slot_res v \<noteq> {#} \<longrightarrow> (\<exists>f\<in>set (md_fields D). fd_offset f = off))"

definition unknown_ok :: "message \<Rightarrow> bool" where
  "unknown_ok m \<longleftrightarrow> (\<forall>u\<in>set (unknown_fields m). uf_data u \<noteq> Dflt)"

text \<open>Count and array of a message that can be freed, and of one that is complete.\<close>

fun count_freeable :: count_inv where
  "count_freeable f n None = True"
| "count_freeable f n (Some (b, cap, vs)) = (n = of_nat (length vs))"

fun count_complete :: count_inv where
  "count_complete f n None = (n = 0)"
| "count_complete f n (Some (b, cap, vs)) = (n = of_nat (length vs) \<and> vs \<noteq> [])"

definition freeable :: "message_desc \<Rightarrow> (nat \<Rightarrow> message \<Rightarrow> bool) \<Rightarrow> message \<Rightarrow> bool" where
  "freeable D sub m \<longleftrightarrow> (\<exists>g. members_map m g \<and> message_inv D sub count_freeable g) \<and> unknown_ok m"

definition complete :: "message_desc \<Rightarrow> (nat \<Rightarrow> message \<Rightarrow> bool) \<Rightarrow> message \<Rightarrow> bool" where
  "complete D sub m \<longleftrightarrow> (\<exists>g. members_map m g \<and> message_inv D sub count_complete g) \<and> unknown_ok m"

text \<open>A complete message of descriptor \<open>i\<close>, nested less than \<open>d\<close> deep.\<close>

fun message_ok :: "schema \<Rightarrow> nat \<Rightarrow> nat \<Rightarrow> message \<Rightarrow> bool" where
  "message_ok S 0 i m = False"
| "message_ok S (Suc d) i m = (descriptor m = i \<and> i < length S \<and> complete (S ! i) (message_ok S d) m)"

lemma field_inv_mono: "(\<And>n arr. R f n arr \<Longrightarrow> R' f n arr) \<Longrightarrow> field_inv fs sub R g f \<Longrightarrow> field_inv fs sub R' g f"
  unfolding field_inv_def repeated_inv_def by (auto; metis)

lemma message_inv_mono:
  assumes "\<And>f n arr. f \<in> set (md_fields D) \<Longrightarrow> R f n arr \<Longrightarrow> R' f n arr" and "message_inv D sub R g"
  shows "message_inv D sub R' g"
  using assms(2) field_inv_mono [of R _ R'] assms(1) unfolding message_inv_def by meson

text \<open>Only the counts of repeated fields matter.\<close>

lemma message_inv_counts:
  assumes "\<And>f n arr. f \<in> set (md_fields D) \<Longrightarrow> fd_label f = LABEL_REPEATED \<Longrightarrow> R f n arr \<Longrightarrow> R' f n arr"
    and "message_inv D sub R g"
  shows "message_inv D sub R' g"
proof -
  have "field_inv (md_fields D) sub R g f \<Longrightarrow> field_inv (md_fields D) sub R' g f" if "f \<in> set (md_fields D)" for f
    using assms(1) [OF that] by (fastforce simp: field_inv_def repeated_inv_def)
  then show ?thesis using assms(2) unfolding message_inv_def by blast
qed

lemma count_complete_freeable: "count_complete f n arr \<Longrightarrow> count_freeable f n arr"
  by (cases "(f, n, arr)" rule: count_complete.cases) auto

lemma complete_freeable: "complete D sub m \<Longrightarrow> freeable D sub m"
  unfolding complete_def freeable_def using message_inv_mono [of D count_complete count_freeable] count_complete_freeable by meson

text \<open>The value of a field depends on its place only.\<close>

lemma field_inv_cong:
  assumes "g (fd_offset f) = g' (fd_offset f)" "g (fd_quantifier_offset f) = g' (fd_quantifier_offset f)"
  shows "field_inv fs sub R g f = field_inv fs sub R g' f"
  using assms by (simp add: field_inv_def repeated_inv_def oneof_inv_def singular_inv_def)

lemma singular_cong:
  assumes "g (fd_offset f) = g' (fd_offset f)" "fd_quantifier_offset f \<noteq> 0 \<Longrightarrow> g (fd_quantifier_offset f) = g' (fd_quantifier_offset f)"
  shows "singular_inv sub g f = singular_inv sub g' f"
  using assms by (auto simp: singular_inv_def)

text \<open>Changing the place of one field, or of one oneof, leaves the other fields alone.\<close>

lemma message_inv_frame:
  assumes ok: "desc_ok S D" and f: "f \<in> set (md_fields D)" and inv: "message_inv D sub R g"
    and same: "\<And>off. off \<noteq> fd_offset f \<Longrightarrow> off \<noteq> fd_quantifier_offset f \<or> off = 0 \<Longrightarrow> g' off = g off"
    and here: "\<And>f'. f' \<in> set (md_fields D) \<Longrightarrow> f' = f \<or> same_oneof f f' \<Longrightarrow> field_inv (md_fields D) sub R' g' f'"
    and mono: "\<And>f' n arr. f' \<in> set (md_fields D) \<Longrightarrow> f' \<noteq> f \<Longrightarrow> R f' n arr \<Longrightarrow> R' f' n arr"
    and plain: "\<And>v. fd_quantifier_offset f \<noteq> 0 \<Longrightarrow> g' (fd_quantifier_offset f) = Some v \<Longrightarrow> slot_res v = {#}"
  shows "message_inv D sub R' g'"
  unfolding message_inv_def
proof (intro conjI ballI allI impI)
  fix f' assume f': "f' \<in> set (md_fields D)"
  show "field_inv (md_fields D) sub R' g' f'"
  proof (cases "f' = f \<or> same_oneof f f'")
    case False
    have a: "fields_apart f f'" using desc_apart [OF ok f f'] False by blast
    have o1: "fd_offset f' \<noteq> fd_offset f" "fd_offset f' \<noteq> fd_quantifier_offset f" "fd_quantifier_offset f' \<noteq> fd_offset f"
      "fd_quantifier_offset f' \<noteq> fd_quantifier_offset f \<or> fd_quantifier_offset f' = 0"
      using a False by (auto simp: fields_apart_def)
    then have "g' (fd_offset f') = g (fd_offset f')" "g' (fd_quantifier_offset f') = g (fd_quantifier_offset f')"
      using same by auto
    then have "field_inv (md_fields D) sub R g' f'"
      using field_inv_cong [of g' f' g] inv f' by (simp add: message_inv_def)
    then show ?thesis using field_inv_mono mono [OF f'] False by blast
  qed (use here f' in blast)
next
  fix off v assume v: "g' off = Some v" "slot_res v \<noteq> {#}"
  show "\<exists>f\<in>set (md_fields D). fd_offset f = off"
  proof (cases "off = fd_offset f")
    case False
    then have "off \<noteq> fd_quantifier_offset f \<or> off = 0" using v plain by auto
    then have "g off = Some v" using same False v by simp
    then show ?thesis using inv v by (simp add: message_inv_def)
  qed (use f in blast)
qed

section \<open>Freeing a message\<close>

definition selected :: "(nat \<Rightarrow> slot option) \<Rightarrow> field_desc \<Rightarrow> bool" where
  "selected g f \<longleftrightarrow> (has_flag f FLAG_ONEOF \<longrightarrow>
     (\<exists>s. g (fd_quantifier_offset f) = Some s \<and> as32 s = Ok (fd_id f)))"

lemma as32_plain: "as32 s = Ok c \<Longrightarrow> slot_res s = {#}"
  by (cases s) auto

lemma as64_plain: "as64 s = Ok c \<Longrightarrow> slot_res s = {#}"
  by (cases s) auto

lemma as_arr_res: "as_arr w = Ok arr \<Longrightarrow> slot_res w = slot_res (VArr arr)"
  by (cases w) auto

lemma as_str_res: "as_str v = Ok p \<Longrightarrow> slot_res v = ptr_res p"
  by (cases v) auto

lemma as_bytes_res: "as_bytes v = Ok (n, p) \<Longrightarrow> slot_res v = ptr_res p"
  by (cases v) auto

lemma as_msg_res: "as_msg v = Ok p \<Longrightarrow> slot_res v = slot_res (VMsg p)"
  by (cases v) auto

text \<open>The blocks of a message are those of its selected fields and of its unknown fields.\<close>

lemma message_res_fields:
  assumes ok: "desc_ok S D" and g: "members_map m g" and inv: "message_inv D sub R g"
  shows "message_res m = (\<Sum>f\<leftarrow>filter (selected g) (md_fields D). slot_res (the (g (fd_offset f)))) + unknown_res m"
proof -
  let ?fs = "filter (selected g) (md_fields D)"
  have field: "field_inv (md_fields D) sub R g f" if "f \<in> set (md_fields D)" for f
    using inv that by (simp add: message_inv_def)
  have "inj_on fd_offset (set ?fs)"
  proof (rule inj_onI, rule ccontr)
    fix f f' assume f: "f \<in> set ?fs" "f' \<in> set ?fs" "fd_offset f = fd_offset f'" "f \<noteq> f'"
    then have "fields_apart f f'" using desc_apart [OF ok] by auto
    then have "same_oneof f f'" "fd_id f \<noteq> fd_id f'" using f(3) by (auto simp: fields_apart_def split: if_splits)
    then show False using f by (auto simp: selected_def same_oneof_def)
  qed
  then have d: "distinct (map fd_offset ?fs)" using desc_distinct [OF ok] by (simp add: distinct_map)
  have s: "set (map fd_offset ?fs) \<subseteq> dom g"
  proof -
    have "fd_offset f \<in> dom g" if "f \<in> set (md_fields D)" for f
      using field [OF that] by (auto simp: field_inv_def repeated_inv_def oneof_inv_def singular_inv_def split: if_splits)
    then show ?thesis by auto
  qed
  have "members_res (members m) = (\<Sum>off\<leftarrow>map fd_offset ?fs. slot_res (the (g off)))"
  proof (rule members_res_offsets [OF g d s], rule ccontr)
    fix off v assume v: "g off = Some v" "off \<notin> set (map fd_offset ?fs)" "slot_res v \<noteq> {#}"
    then obtain f where f: "f \<in> set (md_fields D)" "fd_offset f = off" using inv unfolding message_inv_def by blast
    then have "\<not> selected g f" using v(2) by auto
    then have o1: "has_flag f FLAG_ONEOF" by (simp add: selected_def)
    then have "oneof_inv (md_fields D) sub g f"
      using field [OF f(1)] desc_field_ok [OF ok f(1)] by (auto simp: field_inv_def field_ok_def)
    then obtain s c where c: "g (fd_quantifier_offset f) = Some s" "as32 s = Ok c"
      "c = 0 \<longrightarrow> v = Zero" "c \<noteq> 0 \<longrightarrow> (\<exists>f'\<in>set (md_fields D). same_oneof f f' \<and> fd_id f' = c)"
      using v(1) f(2) by (auto simp: oneof_inv_def)
    then obtain f' where f': "f' \<in> set (md_fields D)" "same_oneof f f'" "fd_id f' = c" using v(3) by auto
    then have "selected g f'" using c by (auto simp: selected_def same_oneof_def)
    moreover have "fd_offset f' = off"
      using desc_apart [OF ok f(1) f'(1)] f' f(2) by (cases "f = f'") (auto simp: fields_apart_def)
    ultimately show False using v(2) f'(1) by force
  qed
  then show ?thesis by (simp add: message_res_split comp_def)
qed

text \<open>What nested messages need: freeing one gives back what it owns.\<close>

definition frees :: "(nat \<Rightarrow> message \<Rightarrow> bool) \<Rightarrow> (nat \<times> message \<Rightarrow> pb_heap \<Rightarrow> pb_heap res) \<Rightarrow> bool" where
  "frees sub free \<longleftrightarrow> (\<forall>i b m R h. sub i m \<longrightarrow> holds h (add_mset (Some b) (R + message_res m))
     \<longrightarrow> gives (\<lambda>h'. holds h' R) (free (b, m) h))"

lemma freesD: "frees sub free \<Longrightarrow> sub i m \<Longrightarrow> holds h (add_mset (Some b) (R + message_res m))
    \<Longrightarrow> gives (\<lambda>h'. holds h' R) (free (b, m) h)"
  by (auto simp: frees_def)

lemma gives_free_msg:
  assumes "frees sub free" and "val_ok sub f v" and "fd_type f = TYPE_MESSAGE" and "holds h (R + slot_res v)"
  shows "gives (\<lambda>h'. holds h' R) (bindR (as_msg v) (\<lambda>p. case p of None \<Rightarrow> Ok h | Some bm \<Rightarrow> free bm h))"
proof -
  obtain p where p: "as_msg v = Ok p" "\<And>b m. p = Some (b, m) \<Longrightarrow> sub (fd_descriptor f) m"
    using assms(2,3) by (auto simp: val_ok_def)
  then show ?thesis using assms(1,4) as_msg_res [OF p(1)]
    by (cases p) (auto intro!: freesD [OF assms(1) p(2)])
qed

lemma elements_Ok:
  assumes "holds h (R + slot_res (VArr (Some (b, cap, vs))))"
  shows "unat (of_nat (length vs) :: u64) = length vs"
    and "elements (of_nat (length vs)) (Some (b, cap, vs)) = Ok vs"
proof -
  have "length vs < 2 ^ 32"
    using holds_bound [OF assms, of vs "add_mset (Some b) R"] by (simp add: ac_simps)
  moreover from this show "unat (of_nat (length vs) :: u64) = length vs" by (simp add: unat_of_nat)
  ultimately show "elements (of_nat (length vs)) (Some (b, cap, vs)) = Ok vs" by (simp add: elements_def)
qed

lemma elements_tokens: "holds h (R + elements_res vs) \<Longrightarrow> holds h (R + (\<Sum>v\<leftarrow>vs. slot_res v))"
proof -
  have "elements_res vs = (\<Sum>v\<leftarrow>vs. slot_res v) + replicate_mset (length vs) None"
    by (induction vs) (simp_all add: ac_simps)
  then show "holds h (R + elements_res vs) \<Longrightarrow> holds h (R + (\<Sum>v\<leftarrow>vs. slot_res v))"
    using holds_weaken [of h "R + (\<Sum>v\<leftarrow>vs. slot_res v)" "length vs"] by (simp add: ac_simps)
qed

lemma gives_free_elements:
  assumes "holds h (R + slot_res (VArr (Some (b, cap, vs))))"
    and "\<And>v R h. v \<in> set vs \<Longrightarrow> holds h (R + slot_res v) \<Longrightarrow> gives (\<lambda>h'. holds h' R) (free v h)"
  shows "gives (\<lambda>h'. holds h' (add_mset (Some b) R)) (bindR (elements (of_nat (length vs)) (Some (b, cap, vs))) (\<lambda>vs. each_heap free vs h))"
  unfolding elements_Ok(2) [OF assms(1)] bindR.simps
proof (rule gives_each_heap [where res = slot_res])
  show "holds h (add_mset (Some b) R + (\<Sum>v\<leftarrow>vs. slot_res v))"
    using assms(1) elements_tokens [of h "add_mset (Some b) R" vs] by (simp add: ac_simps)
qed (use assms(2) in blast)

lemma gives_free_array:
  assumes fr: "frees sub free" and h: "holds h (R + slot_res (VArr arr))"
    and c: "count_freeable f n arr" and vs: "elems_ok sub f arr"
  shows "gives (\<lambda>h'. holds h' R) (case arr of None \<Rightarrow> Ok h
    | Some (b, _) \<Rightarrow>
        bindR (if fd_type f = TYPE_STRING then
            bindR (elements n arr) (\<lambda>vs. each_heap (\<lambda>v h. bindR (as_str v) (\<lambda>p. free_ptr p h)) vs h)
          else if fd_type f = TYPE_BYTES then
            bindR (elements n arr) (\<lambda>vs. each_heap (\<lambda>v h. bindR (as_bytes v) (\<lambda>(_, p). free_ptr p h)) vs h)
          else if fd_type f = TYPE_MESSAGE then
            bindR (elements n arr) (\<lambda>vs. each_heap (\<lambda>v h. bindR (as_msg v) (\<lambda>p.
              case p of None \<Rightarrow> Ok h | Some bm \<Rightarrow> free bm h)) vs h)
          else Ok h) (\<lambda>h. do_free (Some b) h))"
proof (cases arr)
  case (Some a)
  obtain b cap vs where arr: "arr = Some (b, cap, vs)" using Some by (cases a) auto
  have n: "n = of_nat (length vs)" using c by (simp add: arr)
  note el = gives_free_elements [OF h [unfolded arr]]
  have el_ok: "x \<in> set vs \<Longrightarrow> elem_ok sub f x" for x using vs arr by simp
  have plain: "holds h (add_mset (Some b) R)" if "fd_type f \<notin> {TYPE_STRING, TYPE_BYTES, TYPE_MESSAGE}"
  proof -
    have "slot_res x = {#}" if "x \<in> set vs" for x
      using el_ok [OF that] \<open>fd_type f \<notin> _\<close>
      by (cases "fd_type f") (auto simp: elem_ok_def val_ok_def is_Ok_iff dest: as32_plain as64_plain split: if_splits)
    then have "(\<Sum>v\<leftarrow>vs. slot_res v) = {#}" by (induction vs) auto
    then show ?thesis using h elements_tokens [of h "add_mset (Some b) R" vs] by (simp add: arr ac_simps)
  qed
  have str: "gives (\<lambda>h'. holds h' R') (bindR (as_str v) (\<lambda>p. free_ptr p h'))"
    if "fd_type f = TYPE_STRING" "v \<in> set vs" "holds h' (R' + slot_res v)" for v R' h'
    using that el_ok [OF that(2)]
    by (cases v) (auto simp: elem_ok_def val_ok_def split: ptr.splits intro!: gives_free_ptr elim: no_default.elims)
  have byt: "gives (\<lambda>h'. holds h' R') (bindR (as_bytes v) (\<lambda>(_, p). free_ptr p h'))"
    if "fd_type f = TYPE_BYTES" "v \<in> set vs" "holds h' (R' + slot_res v)" for v R' h'
    using that el_ok [OF that(2)]
    by (cases v) (auto simp: elem_ok_def val_ok_def split: ptr.splits intro!: gives_free_ptr elim: no_default.elims)
  have msg: "gives (\<lambda>h'. holds h' R') (bindR (as_msg v) (\<lambda>p. case p of None \<Rightarrow> Ok h' | Some bm \<Rightarrow> free bm h'))"
    if "fd_type f = TYPE_MESSAGE" "v \<in> set vs" "holds h' (R' + slot_res v)" for v R' h'
    using that el_ok [OF that(2)] gives_free_msg [OF fr] by (auto simp: elem_ok_def)
  show ?thesis unfolding arr option.case prod.case n
  proof (rule gives_bind [where P = "\<lambda>h'. holds h' (add_mset (Some b) R)"])
    consider "fd_type f = TYPE_STRING" | "fd_type f = TYPE_BYTES" | "fd_type f = TYPE_MESSAGE"
      | "fd_type f \<notin> {TYPE_STRING, TYPE_BYTES, TYPE_MESSAGE}" by blast
    then show "gives (\<lambda>h'. holds h' (add_mset (Some b) R)) (if fd_type f = TYPE_STRING then
            bindR (elements (of_nat (length vs)) (Some (b, cap, vs))) (\<lambda>vs. each_heap (\<lambda>v h. bindR (as_str v) (\<lambda>p. free_ptr p h)) vs h)
          else if fd_type f = TYPE_BYTES then
            bindR (elements (of_nat (length vs)) (Some (b, cap, vs))) (\<lambda>vs. each_heap (\<lambda>v h. bindR (as_bytes v) (\<lambda>(_, p). free_ptr p h)) vs h)
          else if fd_type f = TYPE_MESSAGE then
            bindR (elements (of_nat (length vs)) (Some (b, cap, vs))) (\<lambda>vs. each_heap (\<lambda>v h. bindR (as_msg v) (\<lambda>p.
              case p of None \<Rightarrow> Ok h | Some bm \<Rightarrow> free bm h)) vs h)
          else Ok h)"
    proof cases
      case 1 then show ?thesis using el [OF str] by simp
    next
      case 2 then show ?thesis using el [OF byt] by simp
    next
      case 3 then show ?thesis using el [OF msg] by simp
    next
      case 4 then show ?thesis using plain by simp
    qed
  qed (rule gives_free)
qed (use h in simp)

text \<open>The value of a singular field is freed.\<close>

lemma gives_free_value:
  assumes fr: "frees sub free" and v: "val_ok sub f v" and hv: "holds h (R + slot_res v)"
  shows "gives (\<lambda>h'. holds h' R) (if fd_type f = TYPE_STRING then bindR (as_str v) (\<lambda>p. free_unless_default p h)
      else if fd_type f = TYPE_BYTES then bindR (as_bytes v) (\<lambda>(_, p). free_unless_default p h)
      else if fd_type f = TYPE_MESSAGE then bindR (as_msg v) (\<lambda>p. case p of None \<Rightarrow> Ok h | Some bm \<Rightarrow> free bm h)
      else Ok h)"
proof -
  have scalar: "slot_res v = {#}" if "fd_type f \<notin> {TYPE_STRING, TYPE_BYTES, TYPE_MESSAGE}"
    using v that by (cases "fd_type f") (auto simp: val_ok_def is_Ok_iff dest: as32_plain as64_plain split: if_splits)
  have str: "fd_type f = TYPE_STRING \<Longrightarrow> gives (\<lambda>h'. holds h' R) (bindR (as_str v) (\<lambda>p. free_unless_default p h))"
    using v hv by (cases v) (auto simp: val_ok_def intro: gives_free_unless_default)
  have byt: "fd_type f = TYPE_BYTES \<Longrightarrow> gives (\<lambda>h'. holds h' R) (bindR (as_bytes v) (\<lambda>(_, p). free_unless_default p h))"
    using v hv by (cases v) (auto simp: val_ok_def intro: gives_free_unless_default)
  show ?thesis using str byt gives_free_msg [OF fr v _ hv] scalar hv by auto
qed

lemma gives_free_field:
  assumes ok: "desc_ok S D" and f: "f \<in> set (md_fields D)" and g: "members_map m g"
    and inv: "message_inv D sub count_freeable g" and fr: "frees sub free"
    and h: "holds h (R + (if selected g f then slot_res (the (g (fd_offset f))) else {#}))"
  shows "gives (\<lambda>h'. holds h' R) (free_field free D m f h)"
proof -
  have fi: "field_inv (md_fields D) sub count_freeable g f" using inv f by (simp add: message_inv_def)
  have fo: "field_ok S f" by (rule desc_field_ok [OF ok f])
  note sm = STRUCT_MEMBER_map [OF g]
  have skip: "(if has_flag f FLAG_ONEOF
         then bindR (if fd_quantifier_offset f = 0 then Ok 0
           else bindR (STRUCT_MEMBER m (fd_quantifier_offset f)) as32) (\<lambda>c. Ok (fd_id f \<noteq> c))
         else Ok False) = Ok (\<not> selected g f)"
    using fi fo by (auto simp: field_inv_def oneof_inv_def field_ok_def selected_def sm)
  show ?thesis
  proof (cases "selected g f")
    case False
    then show ?thesis using h unfolding free_field_def skip by simp
  next
    case True
    have h': "holds h (R + slot_res (the (g (fd_offset f))))" using h True by simp
    show ?thesis
    proof (cases "fd_label f = LABEL_REPEATED")
      case rep: True
      then obtain s n w arr where r: "g (fd_quantifier_offset f) = Some s" "as64 s = Ok n" "g (fd_offset f) = Some w" "as_arr w = Ok arr"
        "count_freeable f n arr" "elems_ok sub f arr"
        using fi by (auto simp: field_inv_def repeated_inv_def)
      have "holds h (R + slot_res (VArr arr))" using h' r(3) as_arr_res [OF r(4)] by simp
      then show ?thesis
        using gives_free_array [OF fr _ r(5,6)] True rep r unfolding free_field_def skip by (simp add: quantifier_size_def sm)
    next
      case False
      have "\<exists>v. g (fd_offset f) = Some v \<and> val_ok sub f v"
        using fi True False by (auto simp: field_inv_def oneof_inv_def singular_inv_def selected_def split: if_splits)
      then obtain v where v: "g (fd_offset f) = Some v" "val_ok sub f v" by blast
      have hv: "holds h (R + slot_res v)" using h' v(1) by simp
      show ?thesis
        using True False gives_free_value [OF fr v(2) hv] v(1)
        unfolding free_field_def skip by (auto simp: sm)
    qed
  qed
qed

lemma sum_list_if: "(\<Sum>x\<leftarrow>xs. if P x then r x else {#}) = (\<Sum>x\<leftarrow>filter P xs. r x)"
  by (induction xs) auto

text \<open>The body of \<open>protobuf_c_message_free_unpacked\<close> on a message being built or complete.\<close>

lemma gives_free_freeable:
  assumes ok: "desc_ok S' D" and d: "get_desc S (descriptor m) = Ok D" and m: "freeable D sub m"
    and fr: "frees sub (protobuf_c_message_free_unpacked S d)" and h: "holds h (add_mset (Some b) (R + message_res m))"
  shows "gives (\<lambda>h'. holds h' R) (protobuf_c_message_free_unpacked S (Suc d) (b, m) h)"
proof -
  obtain g where g: "members_map m g" "message_inv D sub count_freeable g" using m by (auto simp: freeable_def)
  define res where "res f = (if selected g f then slot_res (the (g (fd_offset f))) else {#})" for f
  let ?ub = "case unknown_block m of None \<Rightarrow> {#} | Some (b, cap) \<Rightarrow> {#Some b#}"
  have r: "message_res m = (\<Sum>f\<leftarrow>md_fields D. res f) + (\<Sum>u\<leftarrow>unknown_fields m. ptr_res (uf_data u)) + ?ub"
    unfolding message_res_fields [OF ok g] res_def sum_list_if unknown_res_def by (simp add: ac_simps)
  have fields: "gives (\<lambda>h'. holds h' (add_mset (Some b) (R + (\<Sum>u\<leftarrow>unknown_fields m. ptr_res (uf_data u)) + ?ub)))
      (each_heap (free_field (protobuf_c_message_free_unpacked S d) D m) (md_fields D) h)"
  proof (rule gives_each_heap [where res = res])
    show "holds h (add_mset (Some b) (R + (\<Sum>u\<leftarrow>unknown_fields m. ptr_res (uf_data u)) + ?ub) + (\<Sum>f\<leftarrow>md_fields D. res f))"
      using h unfolding r by (simp add: ac_simps)
  qed (use gives_free_field [OF ok _ g fr] in \<open>simp add: res_def\<close>)
  have unknown: "gives (\<lambda>h'. holds h' (add_mset (Some b) (R + ?ub))) (each_heap (\<lambda>u. free_ptr (uf_data u)) (unknown_fields m) h')"
    if "holds h' (add_mset (Some b) (R + (\<Sum>u\<leftarrow>unknown_fields m. ptr_res (uf_data u)) + ?ub))" for h'
    using that m by (intro gives_each_heap [where res = "\<lambda>u. ptr_res (uf_data u)"] gives_free_ptr)
      (auto simp: freeable_def unknown_ok_def ac_simps)
  have block: "gives (\<lambda>h'. holds h' (add_mset (Some b) R)) (case unknown_block m of None \<Rightarrow> Ok h' | Some (ub, _) \<Rightarrow> do_free (Some ub) h')"
    if "holds h' (add_mset (Some b) (R + ?ub))" for h'
    using that by (cases "unknown_block m") (auto intro: gives_free simp: add_mset_commute)
  have mg: "md_magic D = MESSAGE_DESCRIPTOR_MAGIC" using ok by (simp add: desc_ok_def)
  have e: "protobuf_c_message_free_unpacked S (Suc d) (b, m) h =
    bindR (each_heap (free_field (protobuf_c_message_free_unpacked S d) D m) (md_fields D) h) (\<lambda>h.
    bindR (each_heap (\<lambda>u. free_ptr (uf_data u)) (unknown_fields m) h) (\<lambda>h.
    bindR (case unknown_block m of None \<Rightarrow> Ok h | Some (ub, _) \<Rightarrow> do_free (Some ub) h) (do_free (Some b))))"
    by (simp add: d mg)
  show ?thesis unfolding e
    by (intro gives_bind [OF fields] gives_bind [OF unknown] gives_bind [OF block] gives_free)
qed

lemma frees_message_ok:
  assumes "schema_ok S"
  shows "frees (message_ok S d) (protobuf_c_message_free_unpacked S d)"
proof (induction d)
  case (Suc d)
  show ?case unfolding frees_def
  proof (intro allI impI)
    fix i b m R h
    assume m: "message_ok S (Suc d) i m" and h: "holds h (add_mset (Some b) (R + message_res m))"
    then have "get_desc S (descriptor m) = Ok (S ! i)" "freeable (S ! i) (message_ok S d) m" "i < length S"
      by (auto simp: get_desc_def complete_freeable)
    then show "gives (\<lambda>h'. holds h' R) (protobuf_c_message_free_unpacked S (Suc d) (b, m) h)"
      using gives_free_freeable [OF schema_okD [OF assms] _ _ Suc h] by blast
  qed
qed (simp add: frees_def)

section \<open>Storing into a field\<close>

lemma inv_repeatedE:
  assumes "message_inv D sub R g" and "f \<in> set (md_fields D)" and "fd_label f = LABEL_REPEATED"
  obtains s n w arr where "g (fd_quantifier_offset f) = Some s" "as64 s = Ok n" "g (fd_offset f) = Some w"
    "as_arr w = Ok arr" "R f n arr" "elems_ok sub f arr"
    "slot_res s = {#}" "slot_res w = slot_res (VArr arr)"
proof -
  have "repeated_inv sub R g f" using assms by (simp add: message_inv_def field_inv_def)
  then show thesis unfolding repeated_inv_def using that as64_plain as_arr_res by metis
qed

lemma inv_singularE:
  assumes "message_inv D sub R g" and "f \<in> set (md_fields D)" and "fd_label f \<noteq> LABEL_REPEATED" and "\<not> has_flag f FLAG_ONEOF"
  obtains v where "g (fd_offset f) = Some v" "val_ok sub f v"
    "fd_quantifier_offset f \<noteq> 0 \<Longrightarrow> \<exists>s c. g (fd_quantifier_offset f) = Some s \<and> as32 s = Ok c \<and> slot_res s = {#}"
proof -
  have "singular_inv sub g f" using assms by (simp add: message_inv_def field_inv_def)
  then show thesis unfolding singular_inv_def is_Ok_iff using that as32_plain by metis
qed

lemma inv_oneofE:
  assumes "message_inv D sub R g" and "f \<in> set (md_fields D)" and "fd_label f \<noteq> LABEL_REPEATED" and "has_flag f FLAG_ONEOF"
  obtains s c v where "g (fd_quantifier_offset f) = Some s" "as32 s = Ok c" "g (fd_offset f) = Some v" "slot_res s = {#}"
    "c = fd_id f \<Longrightarrow> val_ok sub f v" "c = 0 \<Longrightarrow> v = Zero"
    "c \<noteq> 0 \<Longrightarrow> \<exists>f'\<in>set (md_fields D). same_oneof f f' \<and> fd_id f' = c"
proof -
  have "oneof_inv (md_fields D) sub g f" using assms by (simp add: message_inv_def field_inv_def)
  then show thesis unfolding oneof_inv_def using that as32_plain by metis
qed

lemma repeated_not_oneof: "desc_ok S D \<Longrightarrow> f \<in> set (md_fields D) \<Longrightarrow> fd_label f = LABEL_REPEATED \<Longrightarrow>
    \<not> has_flag f FLAG_ONEOF \<and> fd_quantifier_offset f \<noteq> 0 \<and> fd_offset f \<noteq> fd_quantifier_offset f"
  using desc_field_ok [of S D f] by (auto simp: field_ok_def)

lemma inv_set_repeated:
  assumes ok: "desc_ok S D" and f: "f \<in> set (md_fields D)" "fd_label f = LABEL_REPEATED" and inv: "message_inv D sub R g"
    and r: "R' f n arr" "elems_ok sub f arr"
    and mono: "\<And>f' n arr. f' \<in> set (md_fields D) \<Longrightarrow> f' \<noteq> f \<Longrightarrow> R f' n arr \<Longrightarrow> R' f' n arr"
  shows "message_inv D sub R' (g(fd_offset f \<mapsto> VArr arr, fd_quantifier_offset f \<mapsto> V64 n))"
proof (rule message_inv_frame [OF ok f(1) inv])
  note o' = repeated_not_oneof [OF ok f]
  show "field_inv (md_fields D) sub R' (g(fd_offset f \<mapsto> VArr arr, fd_quantifier_offset f \<mapsto> V64 n)) f'"
    if "f' = f \<or> same_oneof f f'" for f'
    using that o' f(2) r by (auto simp: field_inv_def repeated_inv_def same_oneof_def)
qed (use repeated_not_oneof [OF ok f] mono in auto)

lemma inv_set_count:
  assumes ok: "desc_ok S D" and f: "f \<in> set (md_fields D)" "fd_label f = LABEL_REPEATED" and inv: "message_inv D sub R g"
    and r: "\<And>n' arr. R f n' arr \<Longrightarrow> R' f n arr"
    and mono: "\<And>f' n arr. f' \<in> set (md_fields D) \<Longrightarrow> f' \<noteq> f \<Longrightarrow> R f' n arr \<Longrightarrow> R' f' n arr"
  shows "message_inv D sub R' (g(fd_quantifier_offset f \<mapsto> V64 n))"
proof (rule message_inv_frame [OF ok f(1) inv])
  note o' = repeated_not_oneof [OF ok f]
  obtain w n' arr where w: "g (fd_offset f) = Some w" "as_arr w = Ok arr" "R f n' arr"
    "elems_ok sub f arr"
    using inv_repeatedE [OF inv f] by metis
  have "R' f n arr" using r w(3) .
  then show "field_inv (md_fields D) sub R' (g(fd_quantifier_offset f \<mapsto> V64 n)) f'"
    if "f' = f \<or> same_oneof f f'" for f'
    using that o' f(2) w by (auto simp: field_inv_def repeated_inv_def same_oneof_def)
qed (use repeated_not_oneof [OF ok f] mono in auto)

lemma inv_set_singular:
  assumes ok: "desc_ok S D" and f: "f \<in> set (md_fields D)" "fd_label f \<noteq> LABEL_REPEATED" "\<not> has_flag f FLAG_ONEOF"
    and inv: "message_inv D sub R g" and v: "val_ok sub f v"
  shows "message_inv D sub R (g(fd_offset f \<mapsto> v))"
proof (rule message_inv_frame [OF ok f(1) inv])
  have o': "fd_offset f \<noteq> fd_quantifier_offset f" using desc_field_ok [OF ok f(1)] by (simp add: field_ok_def)
  obtain x where x: "fd_quantifier_offset f \<noteq> 0 \<Longrightarrow> \<exists>s c. g (fd_quantifier_offset f) = Some s \<and> as32 s = Ok c \<and> slot_res s = {#}"
    using inv_singularE [OF inv f] by metis
  show "field_inv (md_fields D) sub R (g(fd_offset f \<mapsto> v)) f'" if "f' = f \<or> same_oneof f f'" for f'
    using that f o' v x by (auto simp: field_inv_def singular_inv_def same_oneof_def is_Ok_iff)
  show "slot_res s = {#}" if "fd_quantifier_offset f \<noteq> 0" "(g(fd_offset f \<mapsto> v)) (fd_quantifier_offset f) = Some s" for s
    using that x o' by auto
qed auto

lemma inv_set_has:
  assumes ok: "desc_ok S D" and f: "f \<in> set (md_fields D)" "fd_label f \<noteq> LABEL_REPEATED" "\<not> has_flag f FLAG_ONEOF"
    and inv: "message_inv D sub R g" and q: "fd_quantifier_offset f \<noteq> 0"
  shows "message_inv D sub R (g(fd_quantifier_offset f \<mapsto> V32 c))"
proof (rule message_inv_frame [OF ok f(1) inv])
  have o': "fd_offset f \<noteq> fd_quantifier_offset f" using desc_field_ok [OF ok f(1)] by (simp add: field_ok_def)
  obtain v where v: "g (fd_offset f) = Some v" "val_ok sub f v" using inv_singularE [OF inv f] by metis
  show "field_inv (md_fields D) sub R (g(fd_quantifier_offset f \<mapsto> V32 c)) f'" if "f' = f \<or> same_oneof f f'" for f'
    using that f o' v by (auto simp: field_inv_def singular_inv_def same_oneof_def)
qed (use q in auto)

lemma oneof_place:
  assumes "desc_ok S D" "f \<in> set (md_fields D)" "f' \<in> set (md_fields D)" "same_oneof f f'"
  shows "fd_offset f' = fd_offset f" "fd_quantifier_offset f' = fd_quantifier_offset f" "has_flag f' FLAG_ONEOF"
    "fd_label f' \<noteq> LABEL_REPEATED"
proof -
  show "fd_offset f' = fd_offset f"
  proof (cases "f' = f")
    case False
    then have "fields_apart f f'" using desc_apart [OF assms(1-3)] by blast
    then show ?thesis using assms(4) by (simp add: fields_apart_def)
  qed simp
  show "fd_quantifier_offset f' = fd_quantifier_offset f" "has_flag f' FLAG_ONEOF" using assms(4) by (simp_all add: same_oneof_def)
  then show "fd_label f' \<noteq> LABEL_REPEATED" using desc_field_ok [OF assms(1,3)] by (auto simp: field_ok_def)
qed

lemma inv_set_oneof:
  assumes ok: "desc_ok S D" and f: "f \<in> set (md_fields D)" "has_flag f FLAG_ONEOF"
    and inv: "message_inv D sub R g" and v: "c = fd_id f \<and> val_ok sub f v \<or> c = 0 \<and> v = Zero"
  shows "message_inv D sub R (g(fd_offset f \<mapsto> v, fd_quantifier_offset f \<mapsto> V32 c))"
proof (rule message_inv_frame [OF ok f(1) inv])
  have o': "fd_offset f \<noteq> fd_quantifier_offset f" "fd_id f \<noteq> 0" "fd_quantifier_offset f \<noteq> 0"
    using desc_field_ok [OF ok f(1)] f(2) by (auto simp: field_ok_def)
  fix f' assume f': "f' \<in> set (md_fields D)" "f' = f \<or> same_oneof f f'"
  then have "same_oneof f f'" "same_oneof f' f" using f(2) by (auto simp: same_oneof_def)
  note p = oneof_place [OF ok f(1) f'(1) this(1)] this(2)
  have "fd_id f' = fd_id f \<longrightarrow> f' = f" using desc_apart [OF ok f(1) f'(1)] by (metis fields_apart_def)
  moreover have "fd_id f' \<noteq> 0" using desc_field_ok [OF ok f'(1)] p(3) by (simp add: field_ok_def)
  ultimately show "field_inv (md_fields D) sub R (g(fd_offset f \<mapsto> v, fd_quantifier_offset f \<mapsto> V32 c)) f'"
    using p o' v f by (auto simp: field_inv_def oneof_inv_def)
qed (use desc_field_ok [OF ok f(1)] f(2) in \<open>auto simp: field_ok_def\<close>)

end
