(* ===== verification/Pb_Merge.thy ===== *)
theory Pb_Merge imports Pb_Shape begin

text \<open>
  \<open>merge_messages\<close> (\<^verbatim>\<open>protobuf-c/protobuf-c.c\<close>): it keeps both messages well formed, and what the two
  own together does not change but for the arrays it replaces, whether it succeeds or not.
\<close>

section \<open>What a merge keeps\<close>

definition merging :: "message_desc \<Rightarrow> (nat \<Rightarrow> message \<Rightarrow> bool) \<Rightarrow> resources \<Rightarrow> message \<Rightarrow> message \<Rightarrow> pb_heap \<Rightarrow> bool" where
  "merging D sub R em lm h \<longleftrightarrow> complete D sub em \<and> complete D sub lm \<and> holds h (R + message_res em + message_res lm)"

definition merged :: "message_desc \<Rightarrow> (nat \<Rightarrow> message \<Rightarrow> bool) \<Rightarrow> resources \<Rightarrow> message \<Rightarrow> message
    \<Rightarrow> bool \<times> message \<times> message \<times> pb_heap \<Rightarrow> bool" where
  "merged D sub R em0 lm0 = (\<lambda>(ok, em, lm, h). merging D sub R em lm h \<and> same_but_members em0 em \<and> same_but_members lm0 lm)"

lemma merged_refl: "merging D sub R em lm h \<Longrightarrow> merged D sub R em lm (ok, em, lm, h)"
  by (simp add: merged_def same_but_members_refl)

lemma completeI: "members_map m g \<Longrightarrow> message_inv D sub count_complete g \<Longrightarrow> unknown_ok m \<Longrightarrow> complete D sub m"
  by (auto simp: complete_def)

lemma complete_unknown: "complete D sub m \<Longrightarrow> same_but_members m m' \<Longrightarrow> unknown_ok m'"
  by (auto simp: complete_def unknown_ok_def same_but_members_def)

text \<open>Storing into a complete message.\<close>

lemma complete_set_repeated:
  assumes ok: "desc_ok S D" and f: "f \<in> set (md_fields D)" "fd_label f = LABEL_REPEATED" and m: "complete D sub m"
    and old: "bindR (STRUCT_MEMBER m (fd_offset f)) as_arr = Ok arr0" and new: "count_complete f n arr"
      "elems_ok sub f arr"
  shows "gives (\<lambda>m'. complete D sub m' \<and> same_but_members m m'
    \<and> (\<exists>X. message_res m = X + slot_res (VArr arr0) \<and> message_res m' = X + slot_res (VArr arr)))
    (bindR (set_member m (fd_offset f) (VArr arr)) (\<lambda>m. set_member m (fd_quantifier_offset f) (V64 n)))"
proof -
  obtain g where g: "members_map m g" "message_inv D sub count_complete g" using m by (auto simp: complete_def)
  obtain s n0 w arr1 where w: "g (fd_quantifier_offset f) = Some s" "g (fd_offset f) = Some w" "as_arr w = Ok arr1" "slot_res s = {#}"
    "slot_res w = slot_res (VArr arr1)"
    by (rule inv_repeatedE [OF g(2) f])
  then have "arr1 = arr0" using old by (simp add: STRUCT_MEMBER_map [OF g(1)])
  have o': "fd_offset f \<noteq> fd_quantifier_offset f" using repeated_not_oneof [OF ok f] by simp
  note inv = inv_set_repeated [OF ok f g(2), of count_complete n arr, OF new(1) new(2)]
  show ?thesis
    using gives_set_two [OF g(1) w(2) w(1) o', of "VArr arr" "V64 n"] w(4,5) inv \<open>arr1 = arr0\<close>
    by (elim gives_mono) (auto intro: completeI complete_unknown [OF m])
qed

lemma set_two_twist:
  assumes "a \<noteq> b"
  shows "bindR (set_member m a v) (\<lambda>m. set_member m b w) = bindR (set_member m b w) (\<lambda>m. set_member m a v)"
proof -
  have k: "fst ` (\<lambda>(o', x). (o', if o' = c then u else x)) ` A = fst ` A" for c u and A :: "(nat \<times> slot) set"
    by (simp add: image_image split_def)
  show ?thesis using assms by (auto simp: set_member_def k)
qed


text \<open>The array given to the latter message, and taken from the earlier one.\<close>

lemma merge_store:
  assumes ok: "desc_ok S D" and f: "f \<in> set (md_fields D)" "fd_label f = LABEL_REPEATED"
    and e: "complete D sub em" "bindR (STRUCT_MEMBER em (fd_offset f)) as_arr = Ok ea" "message_res em = Xe + slot_res (VArr ea)"
    and l: "complete D sub lm" "bindR (STRUCT_MEMBER lm (fd_offset f)) as_arr = Ok la" "message_res lm = Xl + slot_res (VArr la)"
    and new: "count_complete f n arr" "elems_ok sub f arr" and h: "holds h (R + Xe + Xl + slot_res (VArr arr))"
  shows "gives (merged D sub R em lm) (bindR (set_member lm (fd_offset f) (VArr arr)) (\<lambda>lm.
      bindR (set_member lm (fd_quantifier_offset f) (V64 n)) (\<lambda>lm.
      bindR (set_member em (fd_quantifier_offset f) (V64 0)) (\<lambda>em.
      bindR (set_member em (fd_offset f) (VArr None)) (\<lambda>em. Ok (True, em, lm, h))))))"
proof -
  have o': "fd_offset f \<noteq> fd_quantifier_offset f" using repeated_not_oneof [OF ok f] by simp
  note lm = complete_set_repeated [OF ok f l(1,2) new]
  have em: "gives (\<lambda>m'. complete D sub m' \<and> same_but_members em m'
    \<and> (\<exists>X. message_res em = X + slot_res (VArr ea) \<and> message_res m' = X + slot_res (VArr None)))
    (bindR (set_member em (fd_quantifier_offset f) (V64 0)) (\<lambda>em. set_member em (fd_offset f) (VArr None)))"
    unfolding set_two_twist [OF o' [symmetric]] by (rule complete_set_repeated [OF ok f e(1,2)]) simp_all
  have assoc: "bindR (set_member m a v) (\<lambda>m. bindR (set_member m b w) k) = bindR (bindR (set_member m a v) (\<lambda>m. set_member m b w)) k"
    for m a v b w and k :: "message \<Rightarrow> (bool \<times> message \<times> message \<times> pb_heap) res"
    by (simp add: bindR_assoc)
  show ?thesis unfolding assoc
  proof (rule gives_bind [OF lm], rule gives_bind [OF em], elim conjE exE)
    fix lm' em' X Y
    assume "complete D sub lm'" "same_but_members lm lm'" "message_res lm = X + slot_res (VArr la)" "message_res lm' = X + slot_res (VArr arr)"
      "complete D sub em'" "same_but_members em em'" "message_res em = Y + slot_res (VArr ea)" "message_res em' = Y + slot_res (VArr None)"
    moreover from this have "X = Xl" "Y = Xe" using e(3) l(3) by auto
    ultimately show "gives (merged D sub R em lm) (Ok (True, em', lm', h))"
      using h by (simp add: merged_def merging_def ac_simps)
  qed
qed

lemma merge_repeated_ok:
  assumes ok: "desc_ok S D" and f: "f \<in> set (md_fields D)" "fd_label f = LABEL_REPEATED" and m: "merging D sub R em lm h"
  shows "gives (merged D sub R em lm) (merge_repeated f em lm h)"
proof -
  have c: "complete D sub em" "complete D sub lm" and h: "holds h (R + message_res em + message_res lm)"
    using m by (auto simp: merging_def)
  obtain g where g: "members_map em g" "message_inv D sub count_complete g" using c(1) by (auto simp: complete_def)
  obtain g' where g': "members_map lm g'" "message_inv D sub count_complete g'" using c(2) by (auto simp: complete_def)
  obtain s ne w ea where e: "g (fd_quantifier_offset f) = Some s" "as64 s = Ok ne" "g (fd_offset f) = Some w" "as_arr w = Ok ea"
    "count_complete f ne ea" "elems_ok sub f ea"
    by (rule inv_repeatedE [OF g(2) f])
  obtain s' nl w' la where l: "g' (fd_quantifier_offset f) = Some s'" "as64 s' = Ok nl" "g' (fd_offset f) = Some w'" "as_arr w' = Ok la"
    "count_complete f nl la" "elems_ok sub f la"
    by (rule inv_repeatedE [OF g'(2) f])
  have reads: "quantifier_size em (fd_quantifier_offset f) = Ok ne" "bindR (STRUCT_MEMBER em (fd_offset f)) as_arr = Ok ea"
    "quantifier_size lm (fd_quantifier_offset f) = Ok nl" "bindR (STRUCT_MEMBER lm (fd_offset f)) as_arr = Ok la"
    using e l by (simp_all add: quantifier_size_def STRUCT_MEMBER_map [OF g(1)] STRUCT_MEMBER_map [OF g'(1)])
  have o': "fd_offset f \<noteq> fd_quantifier_offset f" using repeated_not_oneof [OF ok f] by simp
  show ?thesis
  proof (cases ea)
    case None
    then show ?thesis using e(5) merged_refl [OF m] by (simp add: merge_repeated_def reads)
  next
    case (Some x)
    then obtain be ce es where ea: "ea = Some (be, ce, es)" "es \<noteq> []" "ne = of_nat (length es)" using e(5) by (cases x) auto
    obtain Xe where Xe: "message_res em = Xe + slot_res (VArr ea)"
      using members_res_in g(1) e(3) as_arr_res [OF e(4)] by (metis members_map_def message_res_split subset_mset.diff_add add.assoc add.commute)
    obtain Xl where Xl: "message_res lm = Xl + slot_res (VArr la)"
      using members_res_in g'(1) l(3) as_arr_res [OF l(4)] by (metis members_map_def message_res_split subset_mset.diff_add add.assoc add.commute)
    have he: "holds h (R + Xe + message_res lm + slot_res (VArr (Some (be, ce, es))))" using h Xe ea(1) by (simp add: ac_simps)
    have ne: "unat ne = length es" "elements ne (Some (be, ce, es)) = Ok es" "0 < ne"
      using elements_Ok [OF he] ea by (auto simp: word_greater_zero_iff unat_eq_0)
    note store = merge_store [OF ok f c(1) reads(2) Xe c(2) reads(4) Xl]
    show ?thesis
    proof (cases la)
      case None
      then show ?thesis using l(5) ne(3) store [of ne ea h R] e(5,6) h Xe Xl
        by (simp add: merge_repeated_def reads ac_simps)
    next
      case (Some y)
      then obtain bl cl ls where la: "la = Some (bl, cl, ls)" "ls \<noteq> []" "nl = of_nat (length ls)" using l(5) by (cases y) auto
      have hl: "holds h (R + Xl + message_res em + slot_res (VArr (Some (bl, cl, ls))))" using h Xl la(1) by (simp add: ac_simps)
      have nl: "unat nl = length ls" "elements nl (Some (bl, cl, ls)) = Ok ls" "0 < nl"
        using elements_Ok [OF hl] la by (auto simp: word_greater_zero_iff unat_eq_0)
      have res: "R + message_res em + message_res lm
          = add_mset (Some bl) (add_mset (Some be) (R + Xe + Xl + elements_res (es @ ls)))"
        using Xe Xl ea(1) la(1) by (simp add: ac_simps)
      show ?thesis
      proof (cases "do_alloc ((ne + nl) * sizeof_elt_in_repeated_array (fd_type f)) h")
        case (Pair p h1)
        show ?thesis
        proof (cases p)
          case None
          then show ?thesis using Pair holds_alloc_fails [OF h] c ne nl
            by (simp add: merge_repeated_def reads Let_def merged_def merging_def same_but_members_refl)
        next
          case (Some blk)
          have h1: "holds h1 (add_mset (Some bl) (add_mset (Some be) (add_mset (Some blk) (R + Xe + Xl + elements_res (es @ ls)))))"
            using holds_alloc [OF h Pair [unfolded Some]] by (simp add: res add_mset_commute)
          obtain h2 where h2: "do_free (Some bl) h1 = Ok h2" "holds h2 (add_mset (Some be) (add_mset (Some blk) (R + Xe + Xl + elements_res (es @ ls))))"
            using gives_free [OF h1] by (auto simp: gives_def)
          obtain h3 where h3: "do_free (Some be) h2 = Ok h3" "holds h3 (add_mset (Some blk) (R + Xe + Xl + elements_res (es @ ls)))"
            using gives_free [OF h2(2)] by (auto simp: gives_def)
          have "gives (merged D sub R em lm) (bindR (set_member lm (fd_offset f) (VArr (Some (blk, unat (ne + nl), es @ ls)))) (\<lambda>lm.
              bindR (set_member lm (fd_quantifier_offset f) (V64 (ne + nl))) (\<lambda>lm.
              bindR (set_member em (fd_quantifier_offset f) (V64 0)) (\<lambda>em.
              bindR (set_member em (fd_offset f) (VArr None)) (\<lambda>em. Ok (True, em, lm, h3))))))"
            using ea la e(6) l(6) h3(2) by (intro store) auto
          then show ?thesis using Pair Some h2(1) h3(1) ne nl ea la
            by (simp add: merge_repeated_def reads Let_def)
        qed
      qed
    qed
  qed
qed

section \<open>Singular fields\<close>

definition merges :: "(nat \<Rightarrow> message \<Rightarrow> bool) \<Rightarrow> (message \<Rightarrow> message \<Rightarrow> pb_heap \<Rightarrow> merged) \<Rightarrow> bool" where
  "merges sub merge \<longleftrightarrow> (\<forall>i e l R h. sub i e \<longrightarrow> sub i l \<longrightarrow> holds h (R + message_res e + message_res l)
     \<longrightarrow> gives (\<lambda>(ok, e', l', h'). sub i e' \<and> sub i l' \<and> holds h' (R + message_res e' + message_res l')) (merge e l h))"

lemma mergesD: "merges sub merge \<Longrightarrow> sub i e \<Longrightarrow> sub i l \<Longrightarrow> holds h (R + message_res e + message_res l)
    \<Longrightarrow> gives (\<lambda>(ok, e', l', h'). sub i e' \<and> sub i l' \<and> holds h' (R + message_res e' + message_res l')) (merge e l h)"
  by (simp add: merges_def)

lemma val_ok_Zero: "val_ok sub f Zero"
  by (cases "fd_type f") (simp_all add: val_ok_def)

lemma complete_set_singular:
  assumes ok: "desc_ok S D" and f: "f \<in> set (md_fields D)" "fd_label f \<noteq> LABEL_REPEATED" "\<not> has_flag f FLAG_ONEOF"
    and m: "complete D sub m" and v: "val_ok sub f v" and old: "STRUCT_MEMBER m (fd_offset f) = Ok w"
  shows "gives (\<lambda>m'. complete D sub m' \<and> same_but_members m m'
    \<and> (\<exists>X. message_res m = X + slot_res w \<and> message_res m' = X + slot_res v)) (set_member m (fd_offset f) v)"
proof -
  obtain g where g: "members_map m g" "message_inv D sub count_complete g" using m by (auto simp: complete_def)
  have w: "g (fd_offset f) = Some w" using old by (simp add: STRUCT_MEMBER_map [OF g(1)] of_opt_Ok_iff)
  show ?thesis
    using gives_set_member [OF g(1) w, of v] inv_set_singular [OF ok f g(2) v]
    by (elim gives_mono) (auto intro: completeI complete_unknown [OF m])
qed

lemma message_res_slot: "members_map m g \<Longrightarrow> g off = Some w \<Longrightarrow> \<exists>X. message_res m = X + slot_res w"
  using members_res_in by (metis members_map_def message_res_split subset_mset.diff_add add.assoc add.commute)

text \<open>A nested message that both messages have is merged in place.\<close>

lemma merge_nested:
  assumes ok: "desc_ok S D" and f: "f \<in> set (md_fields D)" "fd_label f \<noteq> LABEL_REPEATED" "\<not> has_flag f FLAG_ONEOF" "fd_type f = TYPE_MESSAGE"
    and c: "complete D sub em" "complete D sub lm" and h: "holds h (R + message_res em + message_res lm)" and mg: "merges sub merge"
    and e: "STRUCT_MEMBER em (fd_offset f) = Ok ve" "as_msg ve = Ok (Some (eb, e))" "sub (fd_descriptor f) e"
    and l: "STRUCT_MEMBER lm (fd_offset f) = Ok vl" "as_msg vl = Ok (Some (lb, l))" "sub (fd_descriptor f) l"
  shows "gives (\<lambda>(need, r). need \<noteq> Some True \<and> merged D sub R em lm (True, r))
    (bindR (merge e l h) (\<lambda>(ok, e, l, h).
      bindR (set_member em (fd_offset f) (VMsg (Some (eb, e)))) (\<lambda>em.
      bindR (set_member lm (fd_offset f) (VMsg (Some (lb, l)))) (\<lambda>lm.
      Ok (if ok then Some False else None, em, lm, h)))))"
proof -
  obtain ge gl where g: "members_map em ge" "members_map lm gl" using c by (auto simp: complete_def)
  obtain Xe where Xe: "message_res em = Xe + slot_res ve"
    using message_res_slot [OF g(1)] e(1) by (auto simp: STRUCT_MEMBER_map [OF g(1)] of_opt_Ok_iff)
  obtain Xl where Xl: "message_res lm = Xl + slot_res vl"
    using message_res_slot [OF g(2)] l(1) by (auto simp: STRUCT_MEMBER_map [OF g(2)] of_opt_Ok_iff)
  let ?R = "add_mset (Some eb) (add_mset (Some lb) (R + Xe + Xl))"
  have "holds h (?R + message_res e + message_res l)"
    using h Xe Xl as_msg_res [OF e(2)] as_msg_res [OF l(2)] by (simp add: ac_simps)
  then show ?thesis
  proof (rule gives_bind [OF mergesD [OF mg e(3) l(3)]])
    fix r :: "bool \<times> message \<times> message \<times> pb_heap"
    obtain go e' l' h' where r: "r = (go, e', l', h')" by (cases r)
    assume "case r of (ok, e', l', h') \<Rightarrow> sub (fd_descriptor f) e' \<and> sub (fd_descriptor f) l'
      \<and> holds h' (?R + message_res e' + message_res l')"
    then have n: "sub (fd_descriptor f) e'" "sub (fd_descriptor f) l'"
      and h': "holds h' (add_mset (Some eb) (add_mset (Some lb) (R + Xe + Xl + message_res e' + message_res l')))"
      by (simp_all add: r)
    have v: "val_ok sub f (VMsg (Some (eb, e')))" "val_ok sub f (VMsg (Some (lb, l')))" using n f(4) by (auto simp: val_ok_def)
    show "gives (\<lambda>(need, r). need \<noteq> Some True \<and> merged D sub R em lm (True, r))
      (case r of (ok, e, l, h) \<Rightarrow> bindR (set_member em (fd_offset f) (VMsg (Some (eb, e)))) (\<lambda>em.
       bindR (set_member lm (fd_offset f) (VMsg (Some (lb, l)))) (\<lambda>lm. Ok (if ok then Some False else None, em, lm, h))))"
      unfolding r prod.case
    proof (rule gives_bind [OF complete_set_singular [OF ok f(1-3) c(1) v(1) e(1)]], elim conjE exE)
      fix em' X assume em': "complete D sub em'" "same_but_members em em'" "message_res em = X + slot_res ve"
        "message_res em' = X + slot_res (VMsg (Some (eb, e')))"
      show "gives (\<lambda>(need, r). need \<noteq> Some True \<and> merged D sub R em lm (True, r))
        (bindR (set_member lm (fd_offset f) (VMsg (Some (lb, l')))) (\<lambda>lm. Ok (if go then Some False else None, em', lm, h')))"
        by (rule gives_bind [OF complete_set_singular [OF ok f(1-3) c(2) v(2) l(1)]])
          (use h' Xe Xl em' in \<open>auto simp: merged_def merging_def ac_simps add_mset_commute\<close>)
    qed
  qed
qed

text \<open>Moving a value from the earlier message to the latter.\<close>

definition merge_move :: "message_desc \<Rightarrow> field_desc \<Rightarrow> message \<Rightarrow> message \<Rightarrow> pb_heap \<Rightarrow> merged" where
  "merge_move D f em lm h =
     bindR (STRUCT_MEMBER em (fd_offset f)) (\<lambda>v.
     bindR (set_member lm (fd_offset f) v) (\<lambda>lm.
     bindR (set_member em (fd_offset f) Zero) (\<lambda>em.
     if fd_quantifier_offset f \<noteq> 0 then
       bindR (quantifier32 D em (fd_quantifier_offset f)) (\<lambda>c.
       bindR (set_quantifier32 lm (fd_quantifier_offset f) c) (\<lambda>lm.
       bindR (set_quantifier32 em (fd_quantifier_offset f) 0) (\<lambda>em. Ok (True, em, lm, h))))
     else Ok (True, em, lm, h))))"

lemma merge_move_ok:
  assumes ok: "desc_ok S D" and f: "f \<in> set (md_fields D)" "fd_label f \<noteq> LABEL_REPEATED" and m: "merging D sub R em lm h"
    and e: "STRUCT_MEMBER em (fd_offset f) = Ok ve" "val_ok sub f ve"
    and l: "STRUCT_MEMBER lm (fd_offset f) = Ok vl" "slot_res vl = {#}"
    and o1: "has_flag f FLAG_ONEOF \<Longrightarrow> quantifier32 D em (fd_quantifier_offset f) = Ok (fd_id f)"
  shows "gives (merged D sub R em lm) (merge_move D f em lm h)"
proof -
  have c: "complete D sub em" "complete D sub lm" and h: "holds h (R + message_res em + message_res lm)"
    using m by (auto simp: merging_def)
  obtain ge where g: "members_map em ge" "message_inv D sub count_complete ge" using c(1) by (auto simp: complete_def)
  obtain gl where g': "members_map lm gl" "message_inv D sub count_complete gl" using c(2) by (auto simp: complete_def)
  have ve: "ge (fd_offset f) = Some ve" and vl: "gl (fd_offset f) = Some vl"
    using e(1) l(1) by (simp_all add: STRUCT_MEMBER_map [OF g(1)] STRUCT_MEMBER_map [OF g'(1)] of_opt_Ok_iff)
  have o': "fd_offset f \<noteq> fd_quantifier_offset f" using desc_field_ok [OF ok f(1)] by (simp add: field_ok_def)
  let ?q = "fd_quantifier_offset f" and ?off = "fd_offset f"
  have inv: "message_inv D sub count_complete (gl(?off \<mapsto> ve))" "message_inv D sub count_complete (ge(?off \<mapsto> Zero))"
    if "\<not> has_flag f FLAG_ONEOF"
    using that inv_set_singular [OF ok f that] g(2) g'(2) e(2) val_ok_Zero by blast+
  have q: "\<exists>s c. ge ?q = Some s \<and> as32 s = Ok c \<and> slot_res s = {#} \<and> (has_flag f FLAG_ONEOF \<longrightarrow> c = fd_id f)"
    "\<exists>s c. gl ?q = Some s \<and> as32 s = Ok c \<and> slot_res s = {#}" if "?q \<noteq> 0"
  proof -
    show "\<exists>s c. ge ?q = Some s \<and> as32 s = Ok c \<and> slot_res s = {#} \<and> (has_flag f FLAG_ONEOF \<longrightarrow> c = fd_id f)"
    proof (cases "has_flag f FLAG_ONEOF")
      case True
      then show ?thesis using inv_oneofE [OF g(2) f] o1 that
        by (metis STRUCT_MEMBER_map [OF g(1)] bindR.simps(1) of_opt.simps(1) quantifier32_def res.inject)
    next
      case False then show ?thesis using inv_singularE [OF g(2) f] that by metis
    qed
    show "\<exists>s c. gl ?q = Some s \<and> as32 s = Ok c \<and> slot_res s = {#}"
    proof (cases "has_flag f FLAG_ONEOF")
      case True then show ?thesis using inv_oneofE [OF g'(2) f] by metis
    next
      case False then show ?thesis using inv_singularE [OF g'(2) f] that by metis
    qed
  qed
  have start: "merge_move D f em lm h = bindR (set_member lm ?off ve) (\<lambda>lm.
     bindR (set_member em ?off Zero) (\<lambda>em.
     if ?q \<noteq> 0 then
       bindR (quantifier32 D em ?q) (\<lambda>c.
       bindR (set_quantifier32 lm ?q c) (\<lambda>lm.
       bindR (set_quantifier32 em ?q 0) (\<lambda>em. Ok (True, em, lm, h))))
     else Ok (True, em, lm, h)))"
    by (simp add: merge_move_def e(1))
  show ?thesis unfolding start
  proof (rule gives_bind [OF gives_set_member [OF g'(1) vl, of ve]], rule gives_bind [OF gives_set_member [OF g(1) ve, of Zero]],
      elim conjE exE)
    fix lm1 em1 Xl Xe
    assume lm1: "members_map lm1 (gl(?off \<mapsto> ve))" "same_but_members lm lm1" "message_res lm = Xl + slot_res vl" "message_res lm1 = Xl + slot_res ve"
      and em1: "members_map em1 (ge(?off \<mapsto> Zero))" "same_but_members em em1" "message_res em = Xe + slot_res ve" "message_res em1 = Xe + slot_res Zero"
    have h1: "holds h (R + message_res em1 + message_res lm1)" using h lm1 em1 l(2) by (simp add: ac_simps)
    show "gives (merged D sub R em lm) (if ?q \<noteq> 0 then
       bindR (quantifier32 D em1 ?q) (\<lambda>c.
       bindR (set_quantifier32 lm1 ?q c) (\<lambda>lm.
       bindR (set_quantifier32 em1 ?q 0) (\<lambda>em. Ok (True, em, lm, h))))
     else Ok (True, em1, lm1, h))"
    proof (cases "?q = 0")
      case True
      then have "\<not> has_flag f FLAG_ONEOF" using desc_field_ok [OF ok f(1)] by (auto simp: field_ok_def)
      then show ?thesis using True inv lm1(1,2) em1(1,2) h1
        by (auto simp: merged_def merging_def intro: completeI complete_unknown [OF c(1)] complete_unknown [OF c(2)])
    next
      case False
      obtain s cc where s: "ge ?q = Some s" "as32 s = Ok cc" "slot_res s = {#}" "has_flag f FLAG_ONEOF \<longrightarrow> cc = fd_id f"
        using q(1) [OF False] by blast
      obtain s' c' where s': "gl ?q = Some s'" "slot_res s' = {#}" using q(2) [OF False] by blast
      have r: "quantifier32 D em1 ?q = Ok cc" using False o' s by (simp add: quantifier32_def STRUCT_MEMBER_map [OF em1(1)])
      have k: "(gl(?off \<mapsto> ve)) ?q = Some s'" "(ge(?off \<mapsto> Zero)) ?q = Some s" using s s' o' by simp_all
      have inv2: "message_inv D sub count_complete (gl(?off \<mapsto> ve, ?q \<mapsto> V32 cc))"
        "message_inv D sub count_complete (ge(?off \<mapsto> Zero, ?q \<mapsto> V32 0))"
        using inv inv_set_has [OF ok f _ _ False] inv_set_oneof [OF ok f(1)] g(2) g'(2) e(2) s(4)
        by (cases "has_flag f FLAG_ONEOF"; blast)+
      show ?thesis using False r
        unfolding set_quantifier32_def
      proof (simp, rule_tac gives_bind [OF gives_set_member [OF lm1(1) k(1), of "V32 cc"]],
          rule_tac gives_bind [OF gives_set_member [OF em1(1) k(2), of "V32 0"]])
        fix lm2 em2
        assume "members_map lm2 (gl(?off \<mapsto> ve, ?q \<mapsto> V32 cc)) \<and> same_but_members lm1 lm2
          \<and> (\<exists>X. message_res lm1 = X + slot_res s' \<and> message_res lm2 = X + slot_res (V32 cc))"
          "members_map em2 (ge(?off \<mapsto> Zero, ?q \<mapsto> V32 0)) \<and> same_but_members em1 em2
          \<and> (\<exists>X. message_res em1 = X + slot_res s \<and> message_res em2 = X + slot_res (V32 0))"
        then have "members_map lm2 (gl(?off \<mapsto> ve, ?q \<mapsto> V32 cc))" "members_map em2 (ge(?off \<mapsto> Zero, ?q \<mapsto> V32 0))"
          "same_but_members lm lm2" "same_but_members em em2" "holds h (R + message_res em2 + message_res lm2)"
          using h1 lm1(2) em1(2) s(3) s'(2) by (auto intro: same_but_members_trans)
        then show "gives (merged D sub R em lm) (Ok (True, em2, lm2, h))"
          using inv2 by (auto simp: merged_def merging_def intro: completeI complete_unknown [OF c(1)] complete_unknown [OF c(2)])
      qed
    qed
  qed
qed

lemma need_to_merge_ok:
  assumes ok: "desc_ok S D" and f: "f \<in> set (md_fields D)" "fd_label f \<noteq> LABEL_REPEATED" and m: "merging D sub R em lm h"
    and mg: "merges sub merge" and e: "STRUCT_MEMBER em (fd_offset f) = Ok ve" "val_ok sub f ve"
    and l: "STRUCT_MEMBER lm (fd_offset f) = Ok vl" "val_ok sub f vl" "has_flag f FLAG_ONEOF \<Longrightarrow> vl = Zero"
  shows "gives (\<lambda>(need, r). if need = Some True then r = (em, lm, h) \<and> slot_res vl = {#}
      else merged D sub R em lm (True, r))
    (need_to_merge merge f (Ok ec) (Ok lc) em lm h)"
proof -
  let ?P = "\<lambda>(need, r). if need = Some True then r = (em, lm, h) \<and> slot_res vl = {#} else merged D sub R em lm (True, r)"
  have c: "complete D sub em" "complete D sub lm" and h: "holds h (R + message_res em + message_res lm)"
    using m by (auto simp: merging_def)
  have stay: "?P (Some b, em, lm, h)" if "b \<Longrightarrow> slot_res vl = {#}" for b
    using that merged_refl [OF m] by auto
  consider "fd_type f = TYPE_MESSAGE" | "fd_type f = TYPE_BYTES" | "fd_type f = TYPE_STRING"
    | "fd_type f \<notin> {TYPE_MESSAGE, TYPE_BYTES, TYPE_STRING}" by blast
  then show ?thesis
  proof cases
    case 1
    obtain pe where pe: "as_msg ve = Ok pe" "\<And>b m. pe = Some (b, m) \<Longrightarrow> sub (fd_descriptor f) m"
      using e(2) 1 by (auto simp: val_ok_def)
    obtain pl where pl: "as_msg vl = Ok pl" "\<And>b m. pl = Some (b, m) \<Longrightarrow> sub (fd_descriptor f) m"
      using l(2) 1 by (auto simp: val_ok_def)
    show ?thesis
    proof (cases "pe = None \<or> pl = None")
      case True
      have "pl = None \<Longrightarrow> slot_res vl = {#}" using as_msg_res [OF pl(1)] by simp
      moreover have "need_to_merge merge f (Ok ec) (Ok lc) em lm h = Ok (Some (pe \<noteq> None), em, lm, h)"
        using True by (cases pe; cases pl) (simp_all add: need_to_merge_def 1 e(1) l(1) pe(1) pl(1) split_paired_all)
      moreover have "pl = None" if "pe \<noteq> None" using that True by blast
      ultimately show ?thesis using stay [of "pe \<noteq> None"] by simp
    next
      case False
      then obtain eb e' lb l' where p: "pe = Some (eb, e')" "pl = Some (lb, l')" by auto
      then have "\<not> has_flag f FLAG_ONEOF" using l(3) pl(1) by auto
      note nested = merge_nested [OF ok f this 1 c h mg e(1) _ _ l(1)]
      have eq: "need_to_merge merge f (Ok ec) (Ok lc) em lm h = bindR (merge e' l' h) (\<lambda>(ok, e, l, h).
          bindR (set_member em (fd_offset f) (VMsg (Some (eb, e)))) (\<lambda>em.
          bindR (set_member lm (fd_offset f) (VMsg (Some (lb, l)))) (\<lambda>lm.
          Ok (if ok then Some False else None, em, lm, h))))"
        by (simp add: need_to_merge_def 1 e(1) l(1) pe(1) pl(1) p)
      show ?thesis unfolding eq using nested [OF pe(1) [unfolded p] pe(2) [OF p(1)] pl(1) [unfolded p] pl(2) [OF p(2)]]
        by (rule gives_mono) auto
    qed
  next
    case 2
    obtain ne pe nl pl where p: "as_bytes ve = Ok (ne, pe)" "as_bytes vl = Ok (nl, pl)"
      using e(2) l(2) 2 by (auto simp: val_ok_def is_Ok_iff)
    have plain: "slot_res vl = {#}" if "pl = Null \<or> fd_default f \<noteq> None \<and> pl = Dflt" using as_bytes_res [OF p(2)] that by auto
    have eq: "need_to_merge merge f (Ok ec) (Ok lc) em lm h = Ok (Some ((pe \<noteq> Null \<and> (fd_default f = None \<or> pe \<noteq> Dflt))
         \<and> (pl = Null \<or> fd_default f \<noteq> None \<and> pl = Dflt)), em, lm, h)"
      using 2 e(1) l(1) p by (simp add: need_to_merge_def)
    show ?thesis unfolding eq gives_Ok by (rule stay) (use plain in blast)
  next
    case 3
    obtain pe pl where p: "as_str ve = Ok pe" "as_str vl = Ok pl"
      using e(2) l(2) 3 by (auto simp: val_ok_def is_Ok_iff)
    have plain: "slot_res vl = {#}" if "is_default_str f pl" using as_str_res [OF p(2)] that by (auto simp: is_default_str_def split: if_splits)
    have eq: "need_to_merge merge f (Ok ec) (Ok lc) em lm h = Ok (Some (\<not> is_default_str f pe \<and> is_default_str f pl), em, lm, h)"
      using 3 e(1) l(1) p by (simp add: need_to_merge_def)
    show ?thesis unfolding eq gives_Ok by (rule stay) (use plain in blast)
  next
    case 4
    then have "slot_res vl = {#}"
      using l(2) by (cases "fd_type f") (auto simp: val_ok_def is_Ok_iff dest: as32_plain as64_plain split: if_splits)
    moreover have "need_to_merge merge f (Ok ec) (Ok lc) em lm h = Ok (Some (ec \<noteq> 0 \<and> lc = 0), em, lm, h)"
      using 4 e(1) l(1) by (simp add: need_to_merge_def)
    ultimately show ?thesis using stay [of "ec \<noteq> 0 \<and> lc = 0"] by simp
  qed
qed

text \<open>The value is moved when it is to be.\<close>

lemma merge_found_ok:
  assumes ok: "desc_ok S D" and f: "f \<in> set (md_fields D)" "fd_label f \<noteq> LABEL_REPEATED" and m: "merging D sub R em lm h"
    and mg: "merges sub merge" and e: "STRUCT_MEMBER em (fd_offset f) = Ok ve" "val_ok sub f ve"
    and l: "STRUCT_MEMBER lm (fd_offset f) = Ok vl" "val_ok sub f vl" "has_flag f FLAG_ONEOF \<Longrightarrow> vl = Zero"
    and o1: "has_flag f FLAG_ONEOF \<Longrightarrow> quantifier32 D em (fd_quantifier_offset f) = Ok (fd_id f)"
  shows "gives (merged D sub R em lm)
    (bindR (need_to_merge merge f (Ok ec) (Ok lc) em lm h) (\<lambda>(need, em, lm, h). case need of
       None \<Rightarrow> Ok (False, em, lm, h)
     | Some False \<Rightarrow> Ok (True, em, lm, h)
     | Some True \<Rightarrow> merge_move D f em lm h))"
proof (rule gives_bind [OF need_to_merge_ok [OF ok f m mg e l]], assumption)
  fix x assume x: "case x of (need, r) \<Rightarrow> if need = Some True then r = (em, lm, h) \<and> slot_res vl = {#}
      else merged D sub R em lm (True, r)"
  obtain need em' lm' h' where r: "x = (need, em', lm', h')" by (cases x)
  show "gives (merged D sub R em lm) (case x of (need, em, lm, h) \<Rightarrow> case need of None \<Rightarrow> Ok (False, em, lm, h)
     | Some True \<Rightarrow> merge_move D f em lm h | Some False \<Rightarrow> Ok (True, em, lm, h))"
  proof (cases "need = Some True")
    case True
    then show ?thesis using x r merge_move_ok [OF ok f m e l(1) _ o1] by simp
  next
    case False
    then show ?thesis using x r by (auto simp: merged_def split: option.splits bool.splits)
  qed
qed


lemma merge_singular_ok:
  assumes ok: "desc_ok S D" and f: "fi \<in> set (md_fields D)" "fd_label fi \<noteq> LABEL_REPEATED" and m: "merging D sub R em lm h"
    and mg: "merges sub merge"
  shows "gives (merged D sub R em lm) (merge_singular merge D D fi em lm h)"
proof -
  let ?q = "fd_quantifier_offset fi"
  have c: "complete D sub em" "complete D sub lm" using m by (auto simp: merging_def)
  obtain ge where g: "members_map em ge" "message_inv D sub count_complete ge" using c(1) by (auto simp: complete_def)
  obtain gl where g': "members_map lm gl" "message_inv D sub count_complete gl" using c(2) by (auto simp: complete_def)
  note reads = STRUCT_MEMBER_map [OF g(1)] STRUCT_MEMBER_map [OF g'(1)] quantifier32_def
  have tail: "merge_singular merge D D fi em lm h = (bindR (need_to_merge merge f (quantifier32 D em ?q) (quantifier32 D lm ?q) em lm h)
      (\<lambda>(need, em, lm, h). case need of None \<Rightarrow> Ok (False, em, lm, h) | Some False \<Rightarrow> Ok (True, em, lm, h)
       | Some True \<Rightarrow> merge_move D f em lm h))"
    if "(if has_flag fi FLAG_ONEOF then bindR (quantifier32 D lm ?q) (\<lambda>latter_case.
         if latter_case = 0 then
           bindR (quantifier32 D em ?q) (\<lambda>earlier_case.
           bindR (int_range_lookup (n_field_ranges D) (field_ranges D) earlier_case) (\<lambda>field_index.
           if field_index < 0 then Ok (Inl False)
           else bindR (entry_at (md_fields D) (nat field_index)) (\<lambda>f. Ok (Inr f))))
         else Ok (Inl True)) else Ok (Inr fi)) = Ok (Inr f)"
      and "fd_quantifier_offset f = ?q" for f
    unfolding merge_singular_def Let_def that(1) merge_move_def bindR.simps sum.case that(2) by (rule refl)
  show ?thesis
  proof (cases "has_flag fi FLAG_ONEOF")
    case False
    obtain ve where ve: "ge (fd_offset fi) = Some ve" "val_ok sub fi ve"
      "?q \<noteq> 0 \<Longrightarrow> \<exists>s c. ge ?q = Some s \<and> as32 s = Ok c \<and> slot_res s = {#}"
      using inv_singularE [OF g(2) f False] by metis
    obtain vl where vl: "gl (fd_offset fi) = Some vl" "val_ok sub fi vl"
      "?q \<noteq> 0 \<Longrightarrow> \<exists>s c. gl ?q = Some s \<and> as32 s = Ok c \<and> slot_res s = {#}"
      using inv_singularE [OF g'(2) f False] by metis
    obtain ec lc where "quantifier32 D em ?q = Ok ec" "quantifier32 D lm ?q = Ok lc"
      using ve(3) vl(3) by (cases "?q = 0") (auto simp: reads)
    then show ?thesis
      using tail [of fi] False merge_found_ok [OF ok f m mg _ ve(2) _ vl(2)] ve(1) vl(1)
      by (simp add: reads(1,2))
  next
    case o1: True
    obtain s c v where e: "ge ?q = Some s" "as32 s = Ok c" "ge (fd_offset fi) = Some v"
      "c \<noteq> 0 \<Longrightarrow> \<exists>f'\<in>set (md_fields D). same_oneof fi f' \<and> fd_id f' = c"
      using inv_oneofE [OF g(2) f o1] by metis
    obtain s' c' v' where l: "gl ?q = Some s'" "as32 s' = Ok c'" "gl (fd_offset fi) = Some v'" "c' = 0 \<Longrightarrow> v' = Zero"
      using inv_oneofE [OF g'(2) f o1] by metis
    have q0: "?q \<noteq> 0" using desc_field_ok [OF ok f(1)] o1 by (simp add: field_ok_def)
    have qs: "quantifier32 D em ?q = Ok c" "quantifier32 D lm ?q = Ok c'" using e l q0 by (simp_all add: reads)
    obtain r where r: "int_range_lookup (n_field_ranges D) (field_ranges D) c = Ok r"
      "r < 0 \<or> (\<exists>i < length (md_fields D). r = int i \<and> fd_id (md_fields D ! i) = c)"
      using field_lookup [OF ok, of c] by blast
    show ?thesis
    proof (cases "c' = 0 \<and> \<not> r < 0")
      case False
      then show ?thesis using o1 qs r(1) merged_refl [OF m] by (auto simp: merge_singular_def Let_def)
    next
      case True
      then obtain i where i: "i < length (md_fields D)" "r = int i" "fd_id (md_fields D ! i) = c" using r(2) by auto
      let ?f = "md_fields D ! i"
      have fin: "?f \<in> set (md_fields D)" using i(1) by simp
      have "same_oneof fi ?f"
      proof -
        have "c \<noteq> 0" using i(3) desc_field_ok [OF ok fin] by (auto simp: field_ok_def)
        then obtain f' where f': "f' \<in> set (md_fields D)" "same_oneof fi f'" "fd_id f' = c" using e(4) by blast
        then have "f' = ?f" using desc_apart [OF ok f'(1) fin] i(3) by (metis fields_apart_def)
        then show ?thesis using f'(2) by simp
      qed
      note place = oneof_place [OF ok f(1) fin this]
      obtain v2 where v2: "ge (fd_offset ?f) = Some v2" "val_ok sub ?f v2"
        using inv_oneofE [OF g(2) fin place(4,3)] e(1,2) i(3) place(2) by (metis option.inject res.inject)
      have vl: "gl (fd_offset ?f) = Some Zero" using l True place(1) by simp
      have "bindR (quantifier32 D lm ?q) (\<lambda>latter_case.
         if latter_case = 0 then
           bindR (quantifier32 D em ?q) (\<lambda>earlier_case.
           bindR (int_range_lookup (n_field_ranges D) (field_ranges D) earlier_case) (\<lambda>field_index.
           if field_index < 0 then Ok (Inl False)
           else bindR (entry_at (md_fields D) (nat field_index)) (\<lambda>f. Ok (Inr f))))
         else Ok (Inl True)) = Ok (Inr ?f)"
        using qs r(1) True i(1,2) by (simp add: entry_at_def)
      then show ?thesis
        using tail [of ?f] o1 merge_found_ok [OF ok fin place(4) m mg _ v2(2) _ val_ok_Zero] v2(1) vl qs i(3) place(2)
        by (simp add: reads(1,2))
    qed
  qed
qed

section \<open>Whole messages\<close>

lemma merge_fields_ok:
  assumes ok: "desc_ok S D" and mg: "merges sub merge"
  shows "set fs \<subseteq> set (md_fields D) \<Longrightarrow> merging D sub R em lm h \<Longrightarrow> gives (merged D sub R em lm) (merge_fields merge D D fs em lm h)"
proof (induction fs arbitrary: em lm h)
  case (Cons f fs)
  have f: "f \<in> set (md_fields D)" "set fs \<subseteq> set (md_fields D)" using Cons.prems(1) by auto
  have step: "gives (merged D sub R em lm) (if fd_label f = LABEL_REPEATED then merge_repeated f em lm h
       else if fd_label f = LABEL_OPTIONAL \<or> fd_label f = LABEL_NONE then merge_singular merge D D f em lm h
       else Ok (True, em, lm, h))"
    using merge_repeated_ok [OF ok f(1) _ Cons.prems(2)] merge_singular_ok [OF ok f(1) _ Cons.prems(2) mg]
      merged_refl [OF Cons.prems(2)] by auto
  show ?case unfolding merge_fields.simps
  proof (rule gives_bind [OF step])
    fix x assume x: "merged D sub R em lm x"
    obtain go em' lm' h' where r: "x = (go, em', lm', h')" by (cases x)
    then have m: "merging D sub R em' lm' h'" "same_but_members em em'" "same_but_members lm lm'" using x by (auto simp: merged_def)
    have "merged D sub R em' lm' y \<Longrightarrow> merged D sub R em lm y" for y
      using m(2,3) by (auto simp: merged_def intro: same_but_members_trans)
    then show "gives (merged D sub R em lm) (case x of (go, em, lm, h) \<Rightarrow> if go then merge_fields merge D D fs em lm h else Ok (False, em, lm, h))"
      using gives_mono [OF Cons.IH [OF f(2) m(1)]] m by (auto simp: r merged_def)
  qed
qed (simp add: merged_refl)

lemma merges_message_ok:
  assumes "schema_ok S"
  shows "merges (message_ok S d) (merge_messages S d)"
proof (induction d)
  case (Suc d)
  show ?case unfolding merges_def
  proof (intro allI impI)
    fix i e l R h
    assume e: "message_ok S (Suc d) i e" and l: "message_ok S (Suc d) i l" and h: "holds h (R + message_res e + message_res l)"
    then have i: "i < length S" "descriptor e = i" "descriptor l = i" by auto
    have "merging (S ! i) (message_ok S d) R e l h" using e l h by (simp add: merging_def)
    from merge_fields_ok [OF schema_okD [OF assms i(1)] Suc.IH subset_refl this]
    show "gives (\<lambda>(ok, e', l', h'). message_ok S (Suc d) i e' \<and> message_ok S (Suc d) i l'
        \<and> holds h' (R + message_res e' + message_res l')) (merge_messages S (Suc d) e l h)"
      using i by (auto simp: get_desc_def merged_def merging_def same_but_members_def elim!: gives_mono)
  qed
qed (simp add: merges_def)

end
