(* ===== verification/Pb_Member.thy ===== *)
theory Pb_Member imports Pb_Merge begin

text \<open>
  Parsing a scanned member (\<^verbatim>\<open>protobuf-c/protobuf-c.c\<close>): whatever the input, the message stays
  well formed and owns exactly what the heap holds for it, whether the member is accepted or not.
\<close>

section \<open>Members as the scanner leaves them\<close>

definition scanned_ok :: "scanned_member \<Rightarrow> bool" where
  "scanned_ok sm \<longleftrightarrow> sm_len sm \<le> length (sm_data sm) \<and> 0 < sm_len sm \<and> sm_len sm < 2 ^ 32
     \<and> (sm_wire_type sm = WIRE_TYPE_64BIT \<longrightarrow> sm_len sm = 8)
     \<and> (sm_wire_type sm = WIRE_TYPE_32BIT \<longrightarrow> sm_len sm = 4)
     \<and> (sm_wire_type sm = WIRE_TYPE_LENGTH_PREFIXED \<longrightarrow>
          0 < sm_length_prefix_len sm \<and> sm_length_prefix_len sm \<le> sm_len sm)"

lemma parse_uint32_Ok: "0 < len \<Longrightarrow> len \<le> length data \<Longrightarrow> \<exists>w. parse_uint32 len data = Ok w"
  using parse_uint32_value [of "take len data" "drop len data"] by (cases "data = []") (auto simp: min_absorb2)

lemma parse_uint64_Ok: "0 < len \<Longrightarrow> len \<le> length data \<Longrightarrow> \<exists>w. parse_uint64 len data = Ok w"
  using parse_uint64_value [of "take len data" "drop len data"] by (cases "data = []") (auto simp: min_absorb2)

lemma parse_boolean_Ok: "len \<le> length data \<Longrightarrow> \<exists>b. parse_boolean len data = Ok b"
proof -
  have "n + i \<le> length data \<Longrightarrow> \<exists>b. parse_boolean_loop n i data = Ok b" for n i
    by (induction n arbitrary: i) (auto simp: get_def)
  from this [of len 0] show "len \<le> length data \<Longrightarrow> \<exists>b. parse_boolean len data = Ok b" by (simp add: parse_boolean_def)
qed

lemma read_bytes_Ok: "p + n \<le> length m \<Longrightarrow> read_bytes p n m = Ok (take n (drop p m))"
  by (simp add: read_bytes_def)

lemma unsigned_sub_le: "b \<le> a \<Longrightarrow> a < 2 ^ 32 \<Longrightarrow> unsigned_sub a b = a - b"
proof -
  assume "b \<le> a" "a < 2 ^ 32"
  then have "a + 2 ^ 32 - b = (a - b) + 2 ^ 32" "a - b < 2 ^ 32" by simp_all
  then show ?thesis unfolding unsigned_sub_def by (simp only: mod_add_self2 mod_less)
qed

text \<open>A message unpacked, or nothing and the heap as before.\<close>

definition unpacked :: "(nat \<Rightarrow> message \<Rightarrow> bool) \<Rightarrow> resources \<Rightarrow> nat \<Rightarrow> (nat \<times> message) option \<times> pb_heap \<Rightarrow> bool" where
  "unpacked sub R desc = (\<lambda>(r, h). case r of None \<Rightarrow> holds h R
     | Some (b, m) \<Rightarrow> sub desc m \<and> holds h (add_mset (Some b) (R + message_res m)))"

text \<open>What parsing a member relies on: the routines for nested messages, on bodies shorter than \<open>len\<close>.\<close>

locale nested_ops =
  fixes S :: schema and sub :: "nat \<Rightarrow> message \<Rightarrow> bool" and nst :: nested and bound :: nat
  assumes unpack_ok: "schema_ok S \<Longrightarrow> desc < length S \<Longrightarrow> length body < bound
      \<Longrightarrow> holds h (R + replicate_mset (length body) None) \<Longrightarrow> gives (unpacked sub R desc) (nested_unpack nst desc body h)"
    and merge_ok: "schema_ok S \<Longrightarrow> merges sub (nested_merge nst)"
    and free_ok: "schema_ok S \<Longrightarrow> frees sub (nested_free nst)"

text \<open>The result of parsing a value into a place.\<close>

definition parsed_value :: "(nat \<Rightarrow> message \<Rightarrow> bool) \<Rightarrow> resources \<Rightarrow> field_desc \<Rightarrow> slot \<Rightarrow> bool \<times> slot \<times> pb_heap \<Rightarrow> bool" where
  "parsed_value sub R f old = (\<lambda>(ok, v, h). val_ok sub f v \<and> holds h (R + slot_res v)
     \<and> (ok \<longrightarrow> no_default v) \<and> (\<not> ok \<longrightarrow> old = Zero \<longrightarrow> v = Zero))"

lemma holds_drop: "holds h (R + X + replicate_mset n None) \<Longrightarrow> holds h (R + X)"
  using holds_weaken .

lemma holds_fewer: "holds h (R + replicate_mset n None) \<Longrightarrow> m \<le> n \<Longrightarrow> holds h (R + replicate_mset m None)"
proof -
  assume h: "holds h (R + replicate_mset n None)" and "m \<le> n"
  then have "replicate_mset n None = replicate_mset m None + replicate_mset (n - m) (None :: nat option)"
    by (intro multiset_eqI) auto
  then show ?thesis using h holds_weaken [of h "R + replicate_mset m None" "n - m"] by (simp add: ac_simps)
qed

lemma parsed_stays:
  "val_ok sub f old \<Longrightarrow> holds h (R + slot_res old + replicate_mset n None) \<Longrightarrow> parsed_value sub R f old (False, old, h)"
  using holds_weaken by (auto simp: parsed_value_def)

lemma parse_scalar:
  assumes "holds h (R + slot_res old + replicate_mset n None)" and "val_ok sub f old"
    and "wt = w \<Longrightarrow> \<exists>v. r = Ok v \<and> val_ok sub f v \<and> slot_res v = {#} \<and> no_default v" and "slot_res old = {#}"
  shows "gives (parsed_value sub R f old) (if wt \<noteq> w then Ok (False, old, h) else bindR r (\<lambda>v. Ok (True, v, h)))"
  using assms parsed_stays [OF assms(2,1)] holds_weaken [OF assms(1)] by (auto simp: parsed_value_def)


lemma parse_string:
  assumes f: "fd_type f = TYPE_STRING" and h: "holds h (R + slot_res old)" and old: "val_ok sub f old" "\<not> clear \<Longrightarrow> old = Zero"
    and data: "pref + n \<le> length data"
  shows "gives (parsed_value sub R f old)
    (bindR (if clear then bindR (as_str old) (\<lambda>p. free_unless_default p h) else Ok h) (\<lambda>h.
      case do_alloc sz h of
        (None, h) \<Rightarrow> Ok (False, Zero, h)
      | (Some blk, h) \<Rightarrow> bindR (read_bytes pref n data) (\<lambda>s. Ok (True, VStr (Heap blk (s @ [0])), h))))"
proof (rule gives_bind [where P = "\<lambda>h. holds h R"])
  show "gives (\<lambda>h. holds h R) (if clear then bindR (as_str old) (\<lambda>p. free_unless_default p h) else Ok h)"
    using old h f by (cases old) (auto simp: val_ok_def intro: gives_free_unless_default)
next
  fix h assume h: "holds h R"
  show "gives (parsed_value sub R f old) (case do_alloc sz h of (None, h) \<Rightarrow> Ok (False, Zero, h)
      | (Some blk, h) \<Rightarrow> bindR (read_bytes pref n data) (\<lambda>s. Ok (True, VStr (Heap blk (s @ [0])), h)))"
    using h f read_bytes_Ok [OF data]
    by (auto simp: parsed_value_def val_ok_Zero val_ok_def holds_alloc_fails split: prod.splits option.splits dest: holds_alloc)
qed

lemma parse_bytes:
  assumes f: "fd_type f = TYPE_BYTES" and h: "holds h (R + slot_res old)" and old: "val_ok sub f old" "\<not> clear \<Longrightarrow> old = Zero"
    and data: "pref + n \<le> length data"
  shows "gives (parsed_value sub R f old)
    (bindR (if clear then as_bytes old else Ok (0, Null)) (\<lambda>(old_len, p). bindR (free_unless_default p h) (\<lambda>h.
      if some then
        (case do_alloc sz h of
          (None, h) \<Rightarrow> Ok (False, if old_len = 0 then Zero else VBytes old_len Null, h)
        | (Some blk, h) \<Rightarrow> bindR (read_bytes pref n data) (\<lambda>s. Ok (True, VBytes m (Heap blk s), h)))
      else Ok (True, VBytes m Null, h))))"
proof -
  obtain k p where kp: "(if clear then as_bytes old else Ok (0, Null)) = Ok (k, p)" "slot_res old = ptr_res p" "old = Zero \<longrightarrow> k = 0"
  proof (cases clear)
    case True
    obtain k p where "as_bytes old = Ok (k, p)" using old(1) f by (auto simp: val_ok_def is_Ok_iff)
    then show thesis using that [of k p] True as_bytes_res [of old k p] by (cases "old = Zero") auto
  next
    case False
    then show thesis using that [of 0 Null] old(2) by auto
  qed
  show ?thesis unfolding kp(1) bindR.simps prod.case
  proof (rule gives_bind [where P = "\<lambda>h. holds h R"])
    show "gives (\<lambda>h. holds h R) (free_unless_default p h)" using h kp(2) by (simp add: gives_free_unless_default)
  next
    fix h assume h: "holds h R"
    show "gives (parsed_value sub R f old) (if some then
        (case do_alloc sz h of
          (None, h) \<Rightarrow> Ok (False, if k = 0 then Zero else VBytes k Null, h)
        | (Some blk, h) \<Rightarrow> bindR (read_bytes pref n data) (\<lambda>s. Ok (True, VBytes m (Heap blk s), h)))
      else Ok (True, VBytes m Null, h))"
      using h f read_bytes_Ok [OF data] kp(3)
      by (auto simp: parsed_value_def val_ok_Zero val_ok_def holds_alloc_fails split: prod.splits option.splits dest: holds_alloc)
  qed
qed


context nested_ops
begin

text \<open>The old message is merged into the new one and freed.\<close>

lemma replace_message:
  assumes S: "schema_ok S" and po: "\<And>b m. po = Some (b, m) \<Longrightarrow> sub i m"
    and x: "unpacked sub (R + slot_res (VMsg po)) i (subm, h)"
  shows "gives (\<lambda>(ok, subm, h). holds h (R + slot_res (VMsg subm)) \<and> (\<forall>b m. subm = Some (b, m) \<longrightarrow> sub i m)
      \<and> (\<not> ok \<longrightarrow> po \<noteq> None))
    (case po of None \<Rightarrow> Ok (True, subm, h)
     | Some (ob, em) \<Rightarrow>
         bindR (case subm of None \<Rightarrow> Ok (True, em, None, h)
           | Some (sb, lm) \<Rightarrow> bindR (nested_merge nst em lm h) (\<lambda>(ok, em, lm, h). Ok (ok, em, Some (sb, lm), h)))
           (\<lambda>(ok, em, subm, h). bindR (nested_free nst (ob, em) h) (\<lambda>h. Ok (ok, subm, h))))"
proof (cases po)
  case None
  then show ?thesis using x by (auto simp: unpacked_def split: option.splits)
next
  case (Some o')
  obtain ob em where o': "po = Some (ob, em)" using Some by (cases o') auto
  have mrg: "gives (\<lambda>(ok, em, subm, h). sub i em \<and> (\<forall>b m. subm = Some (b, m) \<longrightarrow> sub i m)
      \<and> holds h (add_mset (Some ob) (R + slot_res (VMsg subm) + message_res em)))
    (case subm of None \<Rightarrow> Ok (True, em, None, h)
     | Some (sb, lm) \<Rightarrow> bindR (nested_merge nst em lm h) (\<lambda>(ok, em, lm, h). Ok (ok, em, Some (sb, lm), h)))"
  proof (cases subm)
    case None
    then show ?thesis using x po o' by (auto simp: unpacked_def)
  next
    case (Some s)
    obtain sb lm where s: "subm = Some (sb, lm)" using Some by (cases s) auto
    have lm: "sub i lm" "holds h (add_mset (Some sb) (add_mset (Some ob) R) + message_res em + message_res lm)"
      using x o' by (auto simp: s unpacked_def ac_simps add_mset_commute)
    show ?thesis unfolding s option.case prod.case
      by (rule gives_bind [OF mergesD [OF merge_ok [OF S] po [OF o'] lm]]) (auto simp: ac_simps add_mset_commute)
  qed
  show ?thesis unfolding o' option.case prod.case
  proof (rule gives_bind [OF mrg])
    fix y :: "bool \<times> message \<times> (nat \<times> message) option \<times> pb_heap"
    obtain ok em' subm' h2 where y: "y = (ok, em', subm', h2)" by (cases y)
    assume "case y of (ok, em, subm, h) \<Rightarrow> sub i em \<and> (\<forall>b m. subm = Some (b, m) \<longrightarrow> sub i m)
      \<and> holds h (add_mset (Some ob) (R + slot_res (VMsg subm) + message_res em))"
    then have p: "sub i em'" "\<forall>b m. subm' = Some (b, m) \<longrightarrow> sub i m" "holds h2 (add_mset (Some ob) (R + slot_res (VMsg subm') + message_res em'))"
      by (simp_all add: y)
    show "gives (\<lambda>(ok, subm, h). holds h (R + slot_res (VMsg subm)) \<and> (\<forall>b m. subm = Some (b, m) \<longrightarrow> sub i m) \<and> (\<not> ok \<longrightarrow> Some (ob, em) \<noteq> None))
      (case y of (ok, em, subm, h) \<Rightarrow> bindR (nested_free nst (ob, em) h) (\<lambda>h. Ok (ok, subm, h)))"
      unfolding y prod.case by (rule gives_bind [OF freesD [OF free_ok [OF S] p(1,3)]]) (use p(2) in simp)
  qed
qed

lemma parse_message:
  assumes S: "schema_ok S" and f: "fd_type f = TYPE_MESSAGE" "fd_descriptor f < length S"
    and h: "holds h (R + slot_res old + replicate_mset n None)" and old: "val_ok sub f old" "\<not> clear \<Longrightarrow> old = Zero"
    and data: "pref + n \<le> length data" "n < bound"
  shows "gives (parsed_value sub R f old)
    (bindR (bindR (read_bytes pref n data) (\<lambda>body. nested_unpack nst (fd_descriptor f) body h)) (\<lambda>(subm, h).
           bindR (if clear then as_msg old else Ok None) (\<lambda>old.
           bindR (case old of None \<Rightarrow> Ok (True, subm, h)
             | Some (ob, em) \<Rightarrow>
                 bindR (case subm of None \<Rightarrow> Ok (True, em, None, h)
                   | Some (sb, lm) \<Rightarrow> bindR (nested_merge nst em lm h) (\<lambda>(ok, em, lm, h).
                       Ok (ok, em, Some (sb, lm), h))) (\<lambda>(ok, em, subm, h).
                 bindR (nested_free nst (ob, em) h) (\<lambda>h. Ok (ok, subm, h)))) (\<lambda>(merge_successful, subm, h).
           Ok (subm \<noteq> None \<and> merge_successful, if subm = None then Zero else VMsg subm, h)))))"
proof -
  let ?body = "take n (drop pref data)" and ?sub = "sub (fd_descriptor f)"
  have len: "length ?body = n" using data(1) by simp
  obtain po where po: "(if clear then as_msg old else Ok None) = Ok po" "slot_res old = slot_res (VMsg po)" "old = Zero \<longrightarrow> po = None"
    "\<And>b m. po = Some (b, m) \<Longrightarrow> ?sub m"
  proof (cases clear)
    case True
    obtain p where p: "as_msg old = Ok p" "\<forall>b m. p = Some (b, m) \<longrightarrow> ?sub m" using old(1) f(1) by (auto simp: val_ok_def)
    then show thesis using that [of p] True as_msg_res [OF p(1)] by (cases "old = Zero") auto
  next
    case False
    then show thesis using that [of None] old(2) by auto
  qed
  have un: "gives (unpacked sub (R + slot_res (VMsg po)) (fd_descriptor f)) (bindR (read_bytes pref n data) (\<lambda>body. nested_unpack nst (fd_descriptor f) body h))"
    using unpack_ok [OF S f(2), of ?body h "R + slot_res old"] h data(2) len po(2) by (simp add: read_bytes_Ok [OF data(1)])
  have result: "gives (parsed_value sub R f old) (bindR y (\<lambda>(merge_successful, subm, h).
      Ok (subm \<noteq> None \<and> merge_successful, if subm = None then Zero else VMsg subm, h)))"
    if "gives (\<lambda>(ok, subm, h). holds h (R + slot_res (VMsg subm)) \<and> (\<forall>b m. subm = Some (b, m) \<longrightarrow> ?sub m) \<and> (\<not> ok \<longrightarrow> po \<noteq> None)) y" for y
    by (rule gives_bind [OF that]) (use f(1) po(3) in \<open>auto simp: parsed_value_def val_ok_Zero val_ok_def split: if_splits\<close>)
  show ?thesis unfolding po(1) bindR.simps
  proof (rule gives_bind [OF un])
    fix x assume x: "unpacked sub (R + slot_res (VMsg po)) (fd_descriptor f) x"
    obtain subm h1 where r: "x = (subm, h1)" by (cases x)
    note replace = replace_message [OF S po(4) x [unfolded r]]
    show "gives (parsed_value sub R f old) (case x of (subm, h) \<Rightarrow>
           bindR (case po of None \<Rightarrow> Ok (True, subm, h)
             | Some (ob, em) \<Rightarrow>
                 bindR (case subm of None \<Rightarrow> Ok (True, em, None, h)
                   | Some (sb, lm) \<Rightarrow> bindR (nested_merge nst em lm h) (\<lambda>(ok, em, lm, h).
                       Ok (ok, em, Some (sb, lm), h))) (\<lambda>(ok, em, subm, h).
                 bindR (nested_free nst (ob, em) h) (\<lambda>h. Ok (ok, subm, h)))) (\<lambda>(merge_successful, subm, h).
           Ok (subm \<noteq> None \<and> merge_successful, if subm = None then Zero else VMsg subm, h)))"
      unfolding r prod.case by (rule result, rule replace)
  qed
qed

end

context nested_ops
begin

lemma parse_required_member_ok:
  assumes S: "schema_ok S" and f: "field_ok S f" and sm: "scanned_ok sm" "sm_len sm \<le> bound"
    and h: "holds h (R + slot_res old + replicate_mset (sm_len sm) None)" and old: "val_ok sub f old" "\<not> clear \<Longrightarrow> old = Zero"
  shows "gives (parsed_value sub R f old) (parse_required_member nst sm f old clear h)"
proof -
  let ?len = "sm_len sm" and ?data = "sm_data sm" and ?wt = "sm_wire_type sm" and ?pref = "sm_length_prefix_len sm"
  have len: "?len mod 2 ^ 32 = ?len" "0 < ?len" "?len \<le> length ?data" using sm by (auto simp: scanned_ok_def)
  have sub: "unsigned_sub ?len ?pref = ?len - ?pref" "?pref + (?len - ?pref) \<le> length ?data" "?len - ?pref < bound" "?pref \<le> ?len"
    if "?wt = WIRE_TYPE_LENGTH_PREFIXED"
    using that sm by (auto simp: scanned_ok_def unsigned_sub_le)
  note h' = holds_weaken [OF h]
  have u32: "\<exists>w. parse_uint32 ?len ?data = Ok w" and u64: "\<exists>w. parse_uint64 ?len ?data = Ok w"
    using parse_uint32_Ok parse_uint64_Ok len by blast+
  have f32: "?wt = WIRE_TYPE_32BIT \<Longrightarrow> parse_fixed_uint32 ?data = Ok (le_value (take 4 ?data))"
    and f64: "?wt = WIRE_TYPE_64BIT \<Longrightarrow> parse_fixed_uint64 ?data = Ok (le_value (take 8 ?data))"
    using sm(1) by (auto simp: parse_fixed_uint32_def parse_fixed_uint64_def read_bytes_def scanned_ok_def)
  have bl: "\<exists>b. parse_boolean ?len ?data = Ok b" using parse_boolean_Ok len(3) by blast
  note stays = parsed_stays [OF old(1) h]
  consider "fd_type f = TYPE_STRING" | "fd_type f = TYPE_BYTES" | "fd_type f = TYPE_MESSAGE"
    | "fd_type f \<notin> {TYPE_MESSAGE, TYPE_BYTES, TYPE_STRING}" by blast
  then show ?thesis
  proof cases
    case 1
    show ?thesis unfolding parse_required_member_def Let_def len(1) 1 ProtobufCType.case
    proof (rule gives_if)
      assume "\<not> ?wt \<noteq> WIRE_TYPE_LENGTH_PREFIXED"
      then have w: "?wt = WIRE_TYPE_LENGTH_PREFIXED" by simp
      show "gives (parsed_value sub R f old) (bindR (if clear then bindR (as_str old) (\<lambda>p. free_unless_default p h) else Ok h) (\<lambda>h.
          case do_alloc (of_nat ((unsigned_sub ?len ?pref + 1) mod 2 ^ 32)) h of (None, h) \<Rightarrow> Ok (False, Zero, h)
          | (Some blk, h) \<Rightarrow> bindR (read_bytes ?pref (unsigned_sub ?len ?pref) ?data) (\<lambda>s. Ok (True, VStr (Heap blk (s @ [0])), h))))"
        unfolding sub(1) [OF w] by (rule parse_string [OF 1 h' old sub(2) [OF w]])
    qed (simp add: stays)
  next
    case 2
    show ?thesis unfolding parse_required_member_def Let_def len(1) 2 ProtobufCType.case
    proof (rule gives_if)
      assume "\<not> ?wt \<noteq> WIRE_TYPE_LENGTH_PREFIXED"
      then have w: "?wt = WIRE_TYPE_LENGTH_PREFIXED" by simp
      show "gives (parsed_value sub R f old) (bindR (if clear then as_bytes old else Ok (0, Null)) (\<lambda>(old_len, p).
          bindR (free_unless_default p h) (\<lambda>h. if ?pref < ?len then
            (case do_alloc (of_nat (unsigned_sub ?len ?pref)) h of
              (None, h) \<Rightarrow> Ok (False, if old_len = 0 then Zero else VBytes old_len Null, h)
            | (Some blk, h) \<Rightarrow> bindR (read_bytes ?pref (unsigned_sub ?len ?pref) ?data) (\<lambda>s.
                Ok (True, VBytes (of_nat (unsigned_sub ?len ?pref)) (Heap blk s), h)))
          else Ok (True, VBytes (of_nat (unsigned_sub ?len ?pref)) Null, h))))"
        unfolding sub(1) [OF w] by (rule parse_bytes [OF 2 h' old sub(2) [OF w]])
    qed (simp add: stays)
  next
    case 3
    have d: "fd_descriptor f < length S" using f 3 by (simp add: field_ok_def)
    show ?thesis
    proof (cases "?wt = WIRE_TYPE_LENGTH_PREFIXED")
      case True
      have "gives (parsed_value sub R f old) (bindR (bindR (read_bytes ?pref (?len - ?pref) ?data) (\<lambda>body. nested_unpack nst (fd_descriptor f) body h)) (\<lambda>(subm, h).
           bindR (if clear then as_msg old else Ok None) (\<lambda>old.
           bindR (case old of None \<Rightarrow> Ok (True, subm, h)
             | Some (ob, em) \<Rightarrow>
                 bindR (case subm of None \<Rightarrow> Ok (True, em, None, h)
                   | Some (sb, lm) \<Rightarrow> bindR (nested_merge nst em lm h) (\<lambda>(ok, em, lm, h).
                       Ok (ok, em, Some (sb, lm), h))) (\<lambda>(ok, em, subm, h).
                 bindR (nested_free nst (ob, em) h) (\<lambda>h. Ok (ok, subm, h)))) (\<lambda>(merge_successful, subm, h).
           Ok (subm \<noteq> None \<and> merge_successful, if subm = None then Zero else VMsg subm, h)))))"
        using sub [OF True] by (intro parse_message [OF S 3 d holds_fewer [OF h]] old) auto
      then show ?thesis using sub(4) [OF True]
        unfolding parse_required_member_def Let_def len(1) 3 ProtobufCType.case sub(1) [OF True] True by simp
    qed (use stays in \<open>simp add: parse_required_member_def Let_def 3\<close>)
  next
    case 4
    have plain: "slot_res old = {#}"
      using old(1) 4 by (cases "fd_type f") (auto simp: val_ok_def is_Ok_iff dest: as32_plain as64_plain split: if_splits)
    note scalar = parse_scalar [OF h old(1) _ plain, of ?wt]
    note defs = parse_required_member_def Let_def len(1) parse_int32_def
    show ?thesis
    proof (cases "fd_type f")
      case TYPE_BOOL
      then show ?thesis using bl h' plain unfolding defs by (auto simp: parsed_value_def val_ok_def sizeof_elt_in_repeated_array_def)
    qed ((use 4 in \<open>simp; fail\<close>) | (simp only: defs ProtobufCType.case, rule scalar,
        use 4 u32 u64 f32 f64 in \<open>auto simp: val_ok_def sizeof_elt_in_repeated_array_def\<close>))+
  qed
qed

end

section \<open>Packed elements\<close>

text \<open>How many varints end in a string of bytes.\<close>

definition ends :: "bytes \<Rightarrow> nat" where
  "ends bs = length (filter (\<lambda>b. b AND 0x80 = 0) bs)"

lemma ends_simps [simp]: "ends [] = 0" "ends (b # bs) = (if b AND 0x80 = 0 then 1 else 0) + ends bs"
  "ends (xs @ ys) = ends xs + ends ys"
  by (simp_all add: ends_def)

lemma ends_le: "ends bs \<le> length bs"
  by (simp add: ends_def)

lemma max_b128_ends: "len \<le> length data \<Longrightarrow> max_b128_numbers len data = Ok (ends (take len data))"
proof (induction len arbitrary: data)
  case (Suc len)
  then obtain b bs where data: "data = b # bs" by (cases data) auto
  then have "max_b128_numbers len bs = Ok (ends (take len bs))" using Suc by simp
  then show ?case by (simp add: data get_def)
qed simp

lemma find_end_ends:
  "n + i \<le> length data \<Longrightarrow> \<exists>j. find_end n i data = Ok j \<and> i \<le> j \<and> j \<le> i + n
    \<and> (j < i + n \<longrightarrow> data ! j AND 0x80 = 0)"
proof (induction n arbitrary: i)
  case (Suc n)
  have g: "get i data = Ok (data ! i)" using Suc.prems by (simp add: get_def)
  show ?case
  proof (cases "data ! i AND 0x80 = 0")
    case False
    obtain j where "find_end n (i + 1) data = Ok j" "i + 1 \<le> j" "j \<le> i + 1 + n" "j < i + 1 + n \<longrightarrow> data ! j AND 0x80 = 0"
      using Suc.IH [of "i + 1"] Suc.prems by auto
    then show ?thesis using g False by (intro exI [of _ j]) simp
  qed (use g in auto)
qed simp

lemma scan_varint_ends:
  assumes "len \<le> length data"
  shows "\<exists>s. scan_varint len data = Ok s \<and> s \<le> len \<and> s \<le> 10 \<and> (s \<noteq> 0 \<longrightarrow> 1 \<le> ends (take s data))"
proof -
  define n where "n = (if 10 < len then 10 else len)"
  have n: "n \<le> len" "n \<le> 10" by (auto simp: n_def)
  obtain j where j: "find_end n 0 data = Ok j" "j \<le> n" "j < n \<longrightarrow> data ! j AND 0x80 = 0"
    using find_end_ends [of n 0 data] assms n by auto
  have "1 \<le> ends (take (Suc j) data)" if "j < n"
    using j(3) that assms n by (simp add: take_Suc_conv_app_nth)
  then show ?thesis using j n by (auto simp: scan_varint_def n_def [symmetric] Let_def)
qed

text \<open>A list of scalars.\<close>

definition scalars_ok :: "(nat \<Rightarrow> message \<Rightarrow> bool) \<Rightarrow> field_desc \<Rightarrow> slot list \<Rightarrow> bool" where
  "scalars_ok sub f ws \<longleftrightarrow> (\<forall>w\<in>set ws. elem_ok sub f w \<and> slot_res w = {#})"

lemma scalars_res: "scalars_ok sub f ws \<Longrightarrow> elements_res ws = replicate_mset (length ws) None"
  by (induction ws) (auto simp: scalars_ok_def)

definition scalar_parser :: "(nat \<Rightarrow> message \<Rightarrow> bool) \<Rightarrow> field_desc \<Rightarrow> (nat \<Rightarrow> bytes \<Rightarrow> slot res) \<Rightarrow> bool" where
  "scalar_parser sub f parse \<longleftrightarrow> (\<forall>s at. 0 < s \<longrightarrow> s \<le> length at \<longrightarrow>
     (\<exists>w. parse s at = Ok w \<and> elem_ok sub f w \<and> slot_res w = {#}))"

text \<open>What storing the packed elements of \<open>rem\<close> bytes leaves: at most \<open>k\<close> more of them, and some
  unless there were no bytes.\<close>

definition packed_stored :: "(nat \<Rightarrow> message \<Rightarrow> bool) \<Rightarrow> field_desc \<Rightarrow> nat \<Rightarrow> nat \<Rightarrow> nat \<Rightarrow> nat \<Rightarrow> slot list \<Rightarrow> nat
    \<Rightarrow> ((nat \<times> nat \<times> slot list) option \<times> nat) option \<Rightarrow> bool" where
  "packed_stored sub f rem k b cap vs cnt r \<longleftrightarrow> (case r of None \<Rightarrow> True
     | Some (arr, c) \<Rightarrow> \<exists>ws. arr = Some (b, cap, vs @ ws) \<and> c = cnt + length ws \<and> scalars_ok sub f ws
         \<and> length ws \<le> k \<and> (0 < rem \<longrightarrow> ws \<noteq> []))"

lemma packed_stored_Cons:
  assumes "packed_stored sub f rem' k' b cap (vs @ [w]) (cnt + 1) r" and "elem_ok sub f w" "slot_res w = {#}" and "Suc k' \<le> k"
  shows "packed_stored sub f rem k b cap vs cnt r"
proof (cases r)
  case (Some p)
  obtain arr c where p: "p = (arr, c)" by (cases p)
  obtain ws where "arr = Some (b, cap, vs @ w # ws)" "c = cnt + length (w # ws)" "scalars_ok sub f (w # ws)" "length (w # ws) \<le> k"
    using assms Some p by (auto simp: packed_stored_def scalars_ok_def)
  then show ?thesis unfolding packed_stored_def Some p option.case prod.case by blast
qed (simp add: packed_stored_def)

lemma unpack_varints_ok:
  assumes "scalar_parser sub f parse"
  shows "rem \<le> length at \<Longrightarrow> rem < 2 ^ 32 \<Longrightarrow> length vs = n + cnt \<Longrightarrow> length vs + ends (take rem at) \<le> cap \<Longrightarrow>
    gives (packed_stored sub f rem (ends (take rem at)) b cap vs cnt) (unpack_varints parse rem at (Some (b, cap, vs)) n cnt)"
proof (induction rem arbitrary: at vs cnt rule: less_induct)
  case (less rem)
  show ?case
  proof (cases "rem = 0")
    case True
    then show ?thesis by (simp add: unpack_varints.simps scalars_ok_def packed_stored_def)
  next
    case False
    have rm: "rem mod 2 ^ 32 = rem" using less.prems by simp
    obtain s where s: "scan_varint rem at = Ok s" "s \<le> rem" "s \<noteq> 0 \<longrightarrow> 1 \<le> ends (take s at)"
      using scan_varint_ends [OF less.prems(1)] by auto
    show ?thesis
    proof (cases "s = 0")
      case True
      then show ?thesis using False s(1) rm by (subst unpack_varints.simps) (simp add: packed_stored_def)
    next
      case s0: False
      obtain w where w: "parse s at = Ok w" "elem_ok sub f w" "slot_res w = {#}"
        using assms s0 s(2) less.prems(1) unfolding scalar_parser_def by (meson le_trans neq0_conv)
      have e: "ends (take rem at) = ends (take s at) + ends (take (rem - s) (drop s at))"
        using s(2) by (metis ends_simps(3) le_add_diff_inverse take_add)
      have st: "store_element (Some (b, cap, vs)) (n + cnt) w = Ok (Some (b, cap, vs @ [w]))"
        using less.prems e s s0 by simp
      have "gives (packed_stored sub f (rem - s) (ends (take (rem - s) (drop s at))) b cap (vs @ [w]) (cnt + 1))
          (unpack_varints parse (rem - s) (drop s at) (Some (b, cap, vs @ [w])) n (cnt + 1))"
        using less.prems e s s0 False by (intro less.IH) auto
      then have "gives (packed_stored sub f rem (ends (take rem at)) b cap vs cnt)
          (unpack_varints parse (rem - s) (drop s at) (Some (b, cap, vs @ [w])) n (cnt + 1))"
        by (rule gives_mono) (rule packed_stored_Cons [OF _ w(2,3)], use e s s0 in auto)
      then show ?thesis using False s(1) s0 rm w(1) st by (subst unpack_varints.simps) simp
    qed
  qed
qed

lemma store_elements_ok:
  "length vs = n \<Longrightarrow> n + length ws \<le> cap \<Longrightarrow> store_elements (Some (b, cap, vs)) n ws = Ok (Some (b, cap, vs @ ws))"
  by (induction ws arbitrary: n vs) simp_all

lemma fixed_elements_ok:
  assumes "\<And>at. siz \<le> length at \<Longrightarrow> \<exists>w. parse at = Ok w \<and> elem_ok sub f w \<and> slot_res w = {#}"
  shows "cnt * siz \<le> length at \<Longrightarrow> \<exists>ws. fixed_elements parse siz cnt at = Ok ws \<and> length ws = cnt \<and> scalars_ok sub f ws"
proof (induction cnt arbitrary: at)
  case (Suc cnt)
  obtain w where "parse at = Ok w" "elem_ok sub f w" "slot_res w = {#}" using assms [of at] Suc.prems by auto
  moreover have "cnt * siz \<le> length (drop siz at)" using Suc.prems by simp
  then obtain ws where "fixed_elements parse siz cnt (drop siz at) = Ok ws" "length ws = cnt" "scalars_ok sub f ws"
    using Suc.IH by blast
  ultimately show ?case by (auto simp: scalars_ok_def)
qed (simp add: scalars_ok_def)

section \<open>A message while its members are parsed\<close>

text \<open>The elements the scanner counted for a member of a repeated field.\<close>

definition packed_member :: "scanned_member \<Rightarrow> field_desc \<Rightarrow> bool" where
  "packed_member sm f \<longleftrightarrow> sm_wire_type sm = WIRE_TYPE_LENGTH_PREFIXED
     \<and> (has_flag f FLAG_PACKED \<or> is_packable_type (fd_type f))"

definition packed_count :: "scanned_member \<Rightarrow> field_desc \<Rightarrow> nat option res" where
  "packed_count sm f = count_packed_elements (fd_type f) (sm_len sm - sm_length_prefix_len sm)
     (drop (sm_length_prefix_len sm) (sm_data sm))"

definition member_count :: "scanned_member \<Rightarrow> field_desc \<Rightarrow> nat" where
  "member_count sm f = (if packed_member sm f then (case packed_count sm f of Ok (Some k) \<Rightarrow> k | _ \<Rightarrow> 0) else 1)"

text \<open>A member of the message \<open>D\<close>, counted if it belongs to a repeated field.\<close>

definition member_ok :: "message_desc \<Rightarrow> scanned_member \<Rightarrow> bool" where
  "member_ok D sm \<longleftrightarrow> scanned_ok sm \<and> (\<forall>f. sm_field sm = Some f \<longrightarrow> f \<in> set (md_fields D) \<and> sm_tag sm = fd_id f
     \<and> (fd_label f = LABEL_REPEATED \<longrightarrow> packed_member sm f \<longrightarrow> (\<exists>k. packed_count sm f = Ok (Some k))))"

definition remaining :: "scanned_member list \<Rightarrow> field_desc \<Rightarrow> nat" where
  "remaining sms f = (\<Sum>sm\<leftarrow>filter (\<lambda>sm. sm_field sm = Some f) sms. member_count sm f)"

lemma remaining_simps [simp]: "remaining [] f = 0"
  "remaining (sm # sms) f = (if sm_field sm = Some f then member_count sm f else 0) + remaining sms f"
  by (simp_all add: remaining_def)

fun count_parsing :: "(field_desc \<Rightarrow> nat) \<Rightarrow> count_inv" where
  "count_parsing c f n None = (n = 0 \<and> c f = 0)"
| "count_parsing c f n (Some (b, cap, vs)) =
     (n = of_nat (length vs) \<and> length vs + c f \<le> cap \<and> (vs \<noteq> [] \<or> 0 < c f))"

definition unknowns :: "scanned_member list \<Rightarrow> nat" where
  "unknowns sms = length (filter (\<lambda>sm. sm_field sm = None) sms)"

definition unknown_room :: "nat \<Rightarrow> message \<Rightarrow> bool" where
  "unknown_room k m \<longleftrightarrow> (case unknown_block m of None \<Rightarrow> k = 0 | Some (_, cap) \<Rightarrow> length (unknown_fields m) + k \<le> cap)"

definition parsing :: "message_desc \<Rightarrow> (nat \<Rightarrow> message \<Rightarrow> bool) \<Rightarrow> scanned_member list \<Rightarrow> message \<Rightarrow> bool" where
  "parsing D sub sms m \<longleftrightarrow> (\<exists>g. members_map m g \<and> message_inv D sub (count_parsing (remaining sms)) g)
     \<and> unknown_ok m \<and> unknown_room (unknowns sms) m"

text \<open>The message after a member: still to be parsed, or to be freed.\<close>

definition member_parsed :: "message_desc \<Rightarrow> (nat \<Rightarrow> message \<Rightarrow> bool) \<Rightarrow> resources \<Rightarrow> nat \<Rightarrow> scanned_member list
    \<Rightarrow> bool \<times> message \<times> pb_heap \<Rightarrow> bool" where
  "member_parsed D sub R desc sms = (\<lambda>(ok, m, h). descriptor m = desc \<and> holds h (R + message_res m) \<and> freeable D sub m
     \<and> (ok \<longrightarrow> parsing D sub sms m))"

lemma count_parsing_freeable: "count_parsing c f n arr \<Longrightarrow> count_freeable f n arr"
  by (cases "(f, n, arr)" rule: count_complete.cases) auto

lemma freeableI: "members_map m g \<Longrightarrow> message_inv D sub (count_parsing c) g \<Longrightarrow> unknown_ok m \<Longrightarrow> freeable D sub m"
  unfolding freeable_def using message_inv_mono [of D "count_parsing c" count_freeable] count_parsing_freeable by meson

lemma parsing_freeable: "parsing D sub sms m \<Longrightarrow> freeable D sub m"
  unfolding parsing_def using freeableI by blast

lemma same_unknown: "same_but_members m m' \<Longrightarrow> unknown_ok m \<Longrightarrow> unknown_ok m'"
  "same_but_members m m' \<Longrightarrow> unknown_room k m \<Longrightarrow> unknown_room k m'"
  by (auto simp: same_but_members_def unknown_ok_def unknown_room_def split: option.splits)

text \<open>A message is complete when nothing remains.\<close>

lemma parsing_complete: "parsing D sub [] m \<Longrightarrow> complete D sub m"
proof -
  have "count_parsing (remaining []) f n arr \<Longrightarrow> count_complete f n arr" for f n arr
    by (cases "(f, n, arr)" rule: count_complete.cases) auto
  then show "parsing D sub [] m \<Longrightarrow> complete D sub m"
    unfolding parsing_def complete_def using message_inv_mono [of D "count_parsing (remaining [])" count_complete] by meson
qed

text \<open>Counting decides the size of the array: what is stored is at most what was counted.\<close>

definition varint_type :: "ProtobufCType \<Rightarrow> bool" where
  "varint_type t \<longleftrightarrow> t \<in> {TYPE_ENUM, TYPE_INT32, TYPE_SINT32, TYPE_UINT32, TYPE_INT64, TYPE_SINT64, TYPE_UINT64, TYPE_BOOL}"

definition fixed_size :: "ProtobufCType \<Rightarrow> nat option" where
  "fixed_size t = (if t \<in> {TYPE_SFIXED32, TYPE_FIXED32, TYPE_FLOAT} then Some 4
     else if t \<in> {TYPE_SFIXED64, TYPE_FIXED64, TYPE_DOUBLE} then Some 8 else None)"

lemma counted_kinds:
  assumes "count_packed_elements t rem at = Ok (Some k)" and "rem \<le> length at"
  shows "varint_type t \<and> ends (take rem at) \<le> k \<and> k \<le> rem
    \<or> (\<exists>siz. fixed_size t = Some siz \<and> 0 < siz \<and> rem = k * siz)"
  using assms ends_le [of "take rem at"] max_b128_ends [OF assms(2)]
  by (cases t) (auto simp: count_packed_elements_def varint_type_def fixed_size_def split: if_splits)

lemma scalar_parserI:
  assumes "\<And>s at. 0 < s \<Longrightarrow> s \<le> length at \<Longrightarrow> \<exists>w. p s at = Ok w" and "\<And>w. elem_ok sub f (c w) \<and> slot_res (c w) = {#}"
  shows "scalar_parser sub f (\<lambda>s at. bindR (p s at) (\<lambda>w. Ok (c w)))"
  unfolding scalar_parser_def
proof (intro allI impI)
  fix s and at :: bytes assume "0 < s" "s \<le> length at"
  then obtain w where "p s at = Ok w" using assms(1) by blast
  then show "\<exists>w. bindR (p s at) (\<lambda>w. Ok (c w)) = Ok w \<and> elem_ok sub f w \<and> slot_res w = {#}" using assms(2) by simp
qed

lemma scalar_parsers:
  "fd_type f \<in> {TYPE_ENUM, TYPE_INT32} \<Longrightarrow> scalar_parser sub f (\<lambda>s at. bindR (parse_int32 s at) (\<lambda>w. Ok (V32 w)))"
  "fd_type f = TYPE_SINT32 \<Longrightarrow> scalar_parser sub f (\<lambda>s at. bindR (parse_uint32 s at) (\<lambda>w. Ok (V32 (unzigzag32 w))))"
  "fd_type f = TYPE_UINT32 \<Longrightarrow> scalar_parser sub f (\<lambda>s at. bindR (parse_uint32 s at) (\<lambda>w. Ok (V32 w)))"
  "fd_type f = TYPE_SINT64 \<Longrightarrow> scalar_parser sub f (\<lambda>s at. bindR (parse_uint64 s at) (\<lambda>w. Ok (V64 (unzigzag64 w))))"
  "fd_type f \<in> {TYPE_INT64, TYPE_UINT64} \<Longrightarrow> scalar_parser sub f (\<lambda>s at. bindR (parse_uint64 s at) (\<lambda>w. Ok (V64 w)))"
  "fd_type f = TYPE_BOOL \<Longrightarrow> scalar_parser sub f (\<lambda>s at. bindR (parse_boolean s at) (\<lambda>b. Ok (V32 (if b then 1 else 0))))"
  unfolding parse_int32_def
  by (rule scalar_parserI, use parse_uint32_Ok parse_uint64_Ok parse_boolean_Ok in blast,
      auto simp: elem_ok_def val_ok_def sizeof_elt_in_repeated_array_def)+

lemma fixed_parsers:
  "fixed_size (fd_type f) = Some 4 \<Longrightarrow> 4 \<le> length at
    \<Longrightarrow> \<exists>w. bindR (parse_fixed_uint32 at) (\<lambda>w. Ok (V32 w)) = Ok w \<and> elem_ok sub f w \<and> slot_res w = {#}"
  "fixed_size (fd_type f) = Some 8 \<Longrightarrow> 8 \<le> length at
    \<Longrightarrow> \<exists>w. bindR (parse_fixed_uint64 at) (\<lambda>w. Ok (V64 w)) = Ok w \<and> elem_ok sub f w \<and> slot_res w = {#}"
  by (auto simp: fixed_size_def parse_fixed_uint32_def parse_fixed_uint64_def read_bytes_def elem_ok_def val_ok_def
      sizeof_elt_in_repeated_array_def split: if_splits)

lemma packed_values_ok:
  assumes k: "count_packed_elements (fd_type f) rem at = Ok (Some k)" and rem: "rem \<le> length at" "rem < 2 ^ 32"
    and cap: "length vs + k \<le> cap"
  shows "gives (packed_stored sub f rem k b cap vs 0) (packed_values (fd_type f) rem at (Some (b, cap, vs)) (length vs))"
proof -
  have whole: "gives (packed_stored sub f rem k b cap vs 0) (bindR (fixed_elements parse siz (rem div siz) at) (\<lambda>ws.
      bindR (store_elements (Some (b, cap, vs)) (length vs) ws) (\<lambda>arr. Ok (Some (arr, rem div siz)))))"
    if siz: "rem = k * siz" "0 < siz"
      and p: "\<And>at. siz \<le> length at \<Longrightarrow> \<exists>w. parse at = Ok w \<and> elem_ok sub f w \<and> slot_res w = {#}" for siz parse
  proof -
    have "rem div siz = k" using siz by simp
    obtain ws where "fixed_elements parse siz k at = Ok ws" "length ws = k" "scalars_ok sub f ws"
      using fixed_elements_ok [of siz parse sub f k at, OF p] rem siz(1) by auto
    then show ?thesis using store_elements_ok [of vs "length vs" ws cap b] cap siz
      by (auto simp: \<open>rem div siz = k\<close> packed_stored_def)
  qed
  show ?thesis using counted_kinds [OF k rem(1)]
  proof (elim disjE conjE exE)
    fix siz assume s: "fixed_size (fd_type f) = Some siz" "0 < siz" "rem = k * siz"
    then show ?thesis using whole [OF s(3,2)] fixed_parsers [of f _ sub]
      by (cases "fd_type f") (auto simp: packed_values_def Let_def fixed_size_def)
  next
    assume v: "varint_type (fd_type f)" "ends (take rem at) \<le> k"
    have var: "gives (packed_stored sub f rem k b cap vs 0) (unpack_varints parse rem at (Some (b, cap, vs)) (length vs) 0)"
      if "scalar_parser sub f parse" for parse
      by (rule gives_mono [OF unpack_varints_ok [OF that rem]])
        (use v(2) cap in \<open>auto simp: packed_stored_def split: option.splits\<close>)
    show ?thesis using v(1) var [OF scalar_parsers(1)] var [OF scalar_parsers(2)] var [OF scalar_parsers(3)]
        var [OF scalar_parsers(4)] var [OF scalar_parsers(5)] var [OF scalar_parsers(6)]
      by (cases "fd_type f") (simp_all add: packed_values_def Let_def varint_type_def)
  qed
qed

text \<open>Without an array there is nothing to store.\<close>

lemma packed_values_none:
  assumes k: "count_packed_elements (fd_type f) rem at = Ok (Some 0)" and rem: "rem \<le> length at" "rem < 2 ^ 32"
  shows "packed_values (fd_type f) rem at None 0 = Ok (if rem = 0 then Some (None, 0) else None)"
proof -
  have var: "unpack_varints parse rem at None 0 0 = Ok (if rem = 0 then Some (None, 0) else None)" if "ends (take rem at) = 0" for parse
  proof -
    obtain s where s: "scan_varint rem at = Ok s" "s \<le> rem" "s \<noteq> 0 \<longrightarrow> 1 \<le> ends (take s at)"
      using scan_varint_ends [OF rem(1)] by auto
    have "ends (take s at) \<le> ends (take rem at)" using s(2) by (metis ends_simps(3) le_add1 le_add_diff_inverse take_add)
    then show ?thesis using s that rem by (subst unpack_varints.simps) (cases "s = 0"; simp)
  qed
  show ?thesis using counted_kinds [OF k rem(1)] var
    by (cases "fd_type f") (auto simp: packed_values_def Let_def varint_type_def fixed_size_def)
qed

section \<open>Parsing a member\<close>

context nested_ops
begin

lemma parse_in_place_ok:
  assumes S: "schema_ok S" and f: "field_ok S f" and sm: "scanned_ok sm" "sm_len sm \<le> bound"
    and g: "members_map m g" "g (fd_offset f) = Some old" and old: "val_ok sub f old"
    and h: "holds h (R + message_res m + replicate_mset (sm_len sm) None)"
  shows "gives (\<lambda>(ok, m', h'). \<exists>v. members_map m' (g(fd_offset f \<mapsto> v)) \<and> same_but_members m m' \<and> val_ok sub f v
      \<and> holds h' (R + message_res m') \<and> (\<not> ok \<longrightarrow> old = Zero \<longrightarrow> v = Zero)) (parse_in_place nst sm f m h)"
proof -
  obtain X where X: "message_res m = X + slot_res old" using message_res_slot [OF g] by blast
  have h': "holds h ((R + X) + slot_res old + replicate_mset (sm_len sm) None)" using h X by (simp add: ac_simps)
  have s: "STRUCT_MEMBER m (fd_offset f) = Ok old" using g by (simp add: STRUCT_MEMBER_map)
  show ?thesis unfolding parse_in_place_def s bindR.simps
  proof (rule gives_bind [OF parse_required_member_ok [OF S f sm h' old]], simp)
    fix x assume x: "parsed_value sub (R + X) f old x"
    obtain ok v h1 where r: "x = (ok, v, h1)" by (cases x)
    then have v: "val_ok sub f v" "holds h1 (R + X + slot_res v)" "\<not> ok \<longrightarrow> old = Zero \<longrightarrow> v = Zero"
      using x by (auto simp: parsed_value_def)
    show "gives (\<lambda>(ok, m', h'). \<exists>v. members_map m' (g(fd_offset f \<mapsto> v)) \<and> same_but_members m m' \<and> val_ok sub f v
        \<and> holds h' (R + message_res m') \<and> (\<not> ok \<longrightarrow> old = Zero \<longrightarrow> v = Zero))
      (case x of (ok, v, h) \<Rightarrow> bindR (set_member m (fd_offset f) v) (\<lambda>m. Ok (ok, m, h)))"
      unfolding r prod.case
      by (rule gives_bind [OF gives_set_member [OF g, of v]]) (use v X in \<open>auto simp: ac_simps\<close>)
  qed
qed

text \<open>What a member has at its disposal: its bytes, and one more for its tag.\<close>

definition member_holds :: "pb_heap \<Rightarrow> resources \<Rightarrow> message \<Rightarrow> scanned_member \<Rightarrow> bool" where
  "member_holds h R m sm \<longleftrightarrow> holds h (R + message_res m + replicate_mset (sm_len sm + 1) None)"

lemma member_holds_len: "member_holds h R m sm \<Longrightarrow> holds h (R + message_res m + replicate_mset (sm_len sm) None)"
  unfolding member_holds_def by (erule holds_fewer) simp

lemma parsing_other:
  assumes "parsing D sub (sm # sms) m" and "sm_field sm = Some f" and "fd_label f \<noteq> LABEL_REPEATED"
  shows "\<exists>g. members_map m g \<and> message_inv D sub (count_parsing (remaining (sm # sms))) g"
  using assms by (auto simp: parsing_def)

text \<open>A field that is not repeated does not count.\<close>

lemma message_inv_remaining:
  assumes "message_inv D sub (count_parsing (remaining (sm # sms))) g" and "sm_field sm = Some f" and "fd_label f \<noteq> LABEL_REPEATED"
  shows "message_inv D sub (count_parsing (remaining sms)) g"
proof (rule message_inv_counts [OF _ assms(1)])
  fix f' n arr assume "fd_label f' = LABEL_REPEATED" and c: "count_parsing (remaining (sm # sms)) f' n arr"
  then have "remaining (sm # sms) f' = remaining sms f'" using assms(2,3) by auto
  then show "count_parsing (remaining sms) f' n arr"
    using c by (cases "(f', n, arr)" rule: count_complete.cases) (auto simp del: remaining_simps)
qed

text \<open>The outcome for a message given by its map.\<close>

lemma member_parsedI:
  assumes "members_map m' g'" and "message_inv D sub (count_parsing (remaining sms)) g'" and "same_but_members m m'"
    and "unknown_ok m" and "unknown_room (unknowns sms) m" and "holds h' (R + message_res m')"
  shows "member_parsed D sub R (descriptor m) sms (ok, m', h')"
  using assms same_unknown [OF assms(3)] freeableI [OF assms(1,2)]
  by (auto simp: member_parsed_def parsing_def same_but_members_def)

lemma parse_singular_ok:
  assumes S: "schema_ok S" and D: "desc_ok S D" and f: "sm_field sm = Some f" "f \<in> set (md_fields D)" "fd_label f \<noteq> LABEL_REPEATED"
      "\<not> has_flag f FLAG_ONEOF"
    and sm: "scanned_ok sm" "sm_len sm \<le> bound" and m: "parsing D sub (sm # sms) m" and h: "member_holds h R m sm"
  shows "gives (member_parsed D sub R (descriptor m) sms) (parse_in_place nst sm f m h)"
    and "gives (member_parsed D sub R (descriptor m) sms) (parse_optional_member nst sm f m h)"
proof -
  let ?q = "fd_quantifier_offset f"
  obtain g where g: "members_map m g" "message_inv D sub (count_parsing (remaining (sm # sms))) g" using m by (auto simp: parsing_def)
  have inv: "message_inv D sub (count_parsing (remaining sms)) g" by (rule message_inv_remaining [OF g(2) f(1,3)])
  have u: "unknown_ok m" "unknown_room (unknowns sms) m" using m f(1) by (auto simp: parsing_def unknowns_def)
  obtain old where old: "g (fd_offset f) = Some old" "val_ok sub f old"
    "?q \<noteq> 0 \<Longrightarrow> \<exists>s c. g ?q = Some s \<and> as32 s = Ok c \<and> slot_res s = {#}"
    using inv_singularE [OF inv f(2-4)] by metis
  note set = inv_set_singular [OF D f(2-4) inv]
  note place = parse_in_place_ok [OF S desc_field_ok [OF D f(2)] sm g(1) old(1,2) member_holds_len [OF h]]
  show "gives (member_parsed D sub R (descriptor m) sms) (parse_in_place nst sm f m h)"
    by (rule gives_mono [OF place]) (auto intro: member_parsedI set u)
  show "gives (member_parsed D sub R (descriptor m) sms) (parse_optional_member nst sm f m h)"
    unfolding parse_optional_member_def
  proof (rule gives_bind [OF place])
    fix x :: "bool \<times> message \<times> pb_heap"
    obtain ok m' h' where r: "x = (ok, m', h')" by (cases x)
    assume "case x of (ok, m', h') \<Rightarrow> \<exists>v. members_map m' (g(fd_offset f \<mapsto> v)) \<and> same_but_members m m' \<and> val_ok sub f v
        \<and> holds h' (R + message_res m') \<and> (\<not> ok \<longrightarrow> old = Zero \<longrightarrow> v = Zero)"
    then obtain v where v: "members_map m' (g(fd_offset f \<mapsto> v))" "same_but_members m m'" "val_ok sub f v" "holds h' (R + message_res m')"
      using r by auto
    have o': "fd_offset f \<noteq> ?q" using desc_field_ok [OF D f(2)] by (simp add: field_ok_def)
    have fin: "member_parsed D sub R (descriptor m) sms (b, m', h')" for b using member_parsedI [OF v(1) set v(2) u] v(3,4) by blast
    show "gives (member_parsed D sub R (descriptor m) sms) (case x of (ok, m, h) \<Rightarrow> if \<not> ok then Ok (False, m, h)
     else if ?q \<noteq> 0 then bindR (set_member m ?q (V32 1)) (\<lambda>m. Ok (True, m, h)) else Ok (True, m, h))"
    proof (cases "ok \<and> ?q \<noteq> 0")
      case True
      then obtain s c where s: "g ?q = Some s" "slot_res s = {#}" using old(3) by auto
      have s': "(g(fd_offset f \<mapsto> v)) ?q = Some s" using s(1) o' by simp
      have "gives (member_parsed D sub R (descriptor m) sms) (bindR (set_member m' ?q (V32 1)) (\<lambda>m. Ok (True, m, h')))"
      proof (rule gives_bind [OF gives_set_member [OF v(1) s', of "V32 1"]], elim conjE exE)
        fix m'' X assume "members_map m'' (g(fd_offset f \<mapsto> v, ?q \<mapsto> V32 1))" "same_but_members m' m''"
          "message_res m' = X + slot_res s" "message_res m'' = X + slot_res (V32 1)"
        then show "gives (member_parsed D sub R (descriptor m) sms) (Ok (True, m'', h'))"
          using inv_set_has [OF D f(2-4) set [OF v(3)], of 1] True v s(2)
          by (auto intro!: member_parsedI u intro: same_but_members_trans)
      qed
      then show ?thesis using True by (simp add: r)
    qed (use fin r in auto)
  qed
qed

end

lemma inv_zero_oneof:
  assumes ok: "desc_ok S D" and f: "f \<in> set (md_fields D)" "has_flag f FLAG_ONEOF" and inv: "message_inv D sub R g"
  shows "message_inv D sub R (g(fd_offset f \<mapsto> Zero))"
proof (rule message_inv_frame [OF ok f(1) inv])
  have o': "fd_offset f \<noteq> fd_quantifier_offset f" "fd_quantifier_offset f \<noteq> 0" "fd_label f \<noteq> LABEL_REPEATED"
    using desc_field_ok [OF ok f(1)] f(2) by (auto simp: field_ok_def)
  obtain s c v where s: "g (fd_quantifier_offset f) = Some s" "as32 s = Ok c" "slot_res s = {#}"
    "c \<noteq> 0 \<Longrightarrow> \<exists>f'\<in>set (md_fields D). same_oneof f f' \<and> fd_id f' = c"
    using inv_oneofE [OF inv f(1) o'(3) f(2)] by metis
  fix f' assume f': "f' \<in> set (md_fields D)" "f' = f \<or> same_oneof f f'"
  have "same_oneof f f" using f(2) by (simp add: same_oneof_def)
  then have so: "same_oneof f f'" using f'(2) by blast
  note p = oneof_place [OF ok f(1) f'(1) so]
  have "same_oneof f' f2 = same_oneof f f2" for f2 using so by (auto simp: same_oneof_def)
  then show "field_inv (md_fields D) sub R (g(fd_offset f \<mapsto> Zero)) f'"
    using p o' s f(2) val_ok_Zero by (auto simp: field_inv_def oneof_inv_def)
next
  have o': "fd_offset f \<noteq> fd_quantifier_offset f" "fd_label f \<noteq> LABEL_REPEATED"
    using desc_field_ok [OF ok f(1)] f(2) by (auto simp: field_ok_def)
  fix v assume "(g(fd_offset f \<mapsto> Zero)) (fd_quantifier_offset f) = Some v"
  then have "g (fd_quantifier_offset f) = Some v" using o' by simp
  then show "slot_res v = {#}" using inv_oneofE [OF inv f(1) o'(2) f(2)] by (metis option.inject)
qed auto

context nested_ops
begin

text \<open>A member of the oneof that was there before is freed and zeroed.\<close>

lemma clear_oneof_ok:
  assumes S: "schema_ok S" and D: "desc_ok S D" and f: "f \<in> set (md_fields D)" "has_flag f FLAG_ONEOF"
    and g: "members_map m g" "message_inv D sub Q g" and h: "holds h (R + message_res m + T)"
    and c: "g (fd_quantifier_offset f) = Some s" "as32 s = Ok c"
  shows "gives (\<lambda>(go, m', h'). same_but_members m m' \<and> holds h' (R + message_res m' + T)
      \<and> (if go then members_map m' (g(fd_offset f \<mapsto> Zero)) else m' = m))
    (if c \<noteq> 0 then
         bindR (int_range_lookup (n_field_ranges D) (field_ranges D) c) (\<lambda>field_index.
         if field_index < 0 then Ok (False, m, h)
         else bindR (entry_at (md_fields D) (nat field_index)) (\<lambda>old_field.
           bindR (STRUCT_MEMBER m (fd_offset f)) (\<lambda>member.
           bindR (if fd_type old_field = TYPE_STRING then bindR (as_str member) (\<lambda>p. free_unless_default p h)
             else if fd_type old_field = TYPE_BYTES then
               bindR (as_bytes member) (\<lambda>(_, p). free_unless_default p h)
             else if fd_type old_field = TYPE_MESSAGE then bindR (as_msg member) (\<lambda>p.
               case p of None \<Rightarrow> Ok h | Some bm \<Rightarrow> nested_free nst bm h)
             else Ok h) (\<lambda>h.
           bindR (set_member m (fd_offset f) Zero) (\<lambda>m. Ok (True, m, h))))))
       else Ok (True, m, h))"
proof -
  let ?P = "\<lambda>(go, m', h'). same_but_members m m' \<and> holds h' (R + message_res m' + T)
      \<and> (if go then members_map m' (g(fd_offset f \<mapsto> Zero)) else m' = m)"
  have nr: "fd_label f \<noteq> LABEL_REPEATED" using desc_field_ok [OF D f(1)] f(2) by (auto simp: field_ok_def)
  obtain v where v: "g (fd_offset f) = Some v" "c = 0 \<Longrightarrow> v = Zero"
    "c \<noteq> 0 \<Longrightarrow> \<exists>f'\<in>set (md_fields D). same_oneof f f' \<and> fd_id f' = c"
    using inv_oneofE [OF g(2) f(1) nr f(2)] c by (metis option.inject res.inject)
  obtain X where X: "message_res m = X + slot_res v" using message_res_slot [OF g(1) v(1)] by blast
  obtain r where r: "int_range_lookup (n_field_ranges D) (field_ranges D) c = Ok r"
    "r < 0 \<or> (\<exists>i < length (md_fields D). r = int i \<and> fd_id (md_fields D ! i) = c)"
    using field_lookup [OF D, of c] by blast
  show ?thesis
  proof (cases "c = 0 \<or> r < 0")
    case True
    then show ?thesis using r(1) v g(1) h same_but_members_refl by (auto simp: fun_upd_idem)
  next
    case False
    then obtain i where i: "i < length (md_fields D)" "r = int i" "fd_id (md_fields D ! i) = c" using r(2) by auto
    let ?f = "md_fields D ! i"
    have fin: "?f \<in> set (md_fields D)" using i(1) by simp
    obtain f' where f': "f' \<in> set (md_fields D)" "same_oneof f f'" "fd_id f' = c" using v(3) False by blast
    then have "f' = ?f" using desc_apart [OF D f'(1) fin] i(3) by (metis fields_apart_def)
    then have so: "same_oneof f ?f" using f'(2) by simp
    note place = oneof_place [OF D f(1) fin so]
    have val: "val_ok sub ?f v"
      using inv_oneofE [OF g(2) fin place(4,3)] c v(1) i(3) place(1,2) by (metis option.inject res.inject)
    have hv: "holds h (R + X + T + slot_res v)" using h X by (simp add: ac_simps)
    have fr: "gives (\<lambda>h. holds h (R + X + T)) (if fd_type ?f = TYPE_STRING then bindR (as_str v) (\<lambda>p. free_unless_default p h)
             else if fd_type ?f = TYPE_BYTES then bindR (as_bytes v) (\<lambda>(_, p). free_unless_default p h)
             else if fd_type ?f = TYPE_MESSAGE then bindR (as_msg v) (\<lambda>p. case p of None \<Rightarrow> Ok h | Some bm \<Rightarrow> nested_free nst bm h)
             else Ok h)"
      by (rule gives_free_value [OF free_ok [OF S] val hv])
    have "gives ?P (bindR (if fd_type ?f = TYPE_STRING then bindR (as_str v) (\<lambda>p. free_unless_default p h)
             else if fd_type ?f = TYPE_BYTES then bindR (as_bytes v) (\<lambda>(_, p). free_unless_default p h)
             else if fd_type ?f = TYPE_MESSAGE then bindR (as_msg v) (\<lambda>p. case p of None \<Rightarrow> Ok h | Some bm \<Rightarrow> nested_free nst bm h)
             else Ok h) (\<lambda>h. bindR (set_member m (fd_offset f) Zero) (\<lambda>m. Ok (True, m, h))))"
    proof (rule gives_bind [OF fr])
      fix h1 assume h1: "holds h1 (R + X + T)"
      show "gives ?P (bindR (set_member m (fd_offset f) Zero) (\<lambda>m. Ok (True, m, h1)))"
        by (rule gives_bind [OF gives_set_member [OF g(1) v(1), of Zero]]) (use h1 X in auto)
    qed
    then show ?thesis using False r(1) i v(1) by (simp add: entry_at_def STRUCT_MEMBER_map [OF g(1)])
  qed
qed

end

context nested_ops
begin

lemma parse_oneof_ok:
  assumes S: "schema_ok S" and D: "desc_ok S D" and f: "sm_field sm = Some f" "f \<in> set (md_fields D)" "has_flag f FLAG_ONEOF"
    and sm: "scanned_ok sm" "sm_len sm \<le> bound" "sm_tag sm = fd_id f" and m: "parsing D sub (sm # sms) m" and h: "member_holds h R m sm"
  shows "gives (member_parsed D sub R (descriptor m) sms) (parse_oneof_member nst D sm f m h)"
proof -
  let ?q = "fd_quantifier_offset f" and ?off = "fd_offset f"
  obtain g where g: "members_map m g" "message_inv D sub (count_parsing (remaining (sm # sms))) g" using m by (auto simp: parsing_def)
  have fo: "fd_label f \<noteq> LABEL_REPEATED" "?q \<noteq> 0" "?off \<noteq> ?q" using desc_field_ok [OF D f(2)] f(3) by (auto simp: field_ok_def)
  have inv: "message_inv D sub (count_parsing (remaining sms)) g" by (rule message_inv_remaining [OF g(2) f(1) fo(1)])
  have u: "unknown_ok m" "unknown_room (unknowns sms) m" using m f(1) by (auto simp: parsing_def unknowns_def)
  obtain s c where s: "g ?q = Some s" "as32 s = Ok c" "slot_res s = {#}" using inv_oneofE [OF inv f(2) fo(1) f(3)] by metis
  have q: "quantifier32 D m ?q = Ok c" using fo s by (simp add: quantifier32_def STRUCT_MEMBER_map [OF g(1)])
  let ?g = "g(?off \<mapsto> Zero)"
  have zero: "message_inv D sub (count_parsing (remaining sms)) ?g" by (rule inv_zero_oneof [OF D f(2,3) inv])
  show ?thesis unfolding parse_oneof_member_def q bindR.simps
  proof (rule gives_bind [OF clear_oneof_ok [OF S D f(2,3) g(1) inv member_holds_len [OF h] s(1,2)]])
    fix x :: "bool \<times> message \<times> pb_heap"
    obtain go m1 h1 where r: "x = (go, m1, h1)" by (cases x)
    assume "case x of (go, m', h') \<Rightarrow> same_but_members m m' \<and> holds h' (R + message_res m' + replicate_mset (sm_len sm) None)
        \<and> (if go then members_map m' ?g else m' = m)"
    then have x: "same_but_members m m1" "holds h1 (R + message_res m1 + replicate_mset (sm_len sm) None)"
      "if go then members_map m1 ?g else m1 = m" by (auto simp: r)
    show "gives (member_parsed D sub R (descriptor m) sms) (case x of (go, m, h) \<Rightarrow>
       if \<not> go then Ok (False, m, h)
       else bindR (parse_in_place nst sm f m h) (\<lambda>(ok, m, h).
         if \<not> ok then Ok (False, m, h)
         else bindR (set_quantifier32 m ?q (sm_tag sm)) (\<lambda>m. Ok (True, m, h))))"
    proof (cases go)
      case False
      then show ?thesis using x g(1) inv u holds_weaken [OF x(2)] by (auto simp: r intro!: member_parsedI same_but_members_refl)
    next
      case True
      then have m1: "members_map m1 ?g" using x by simp
      have "gives (member_parsed D sub R (descriptor m) sms) (bindR (parse_in_place nst sm f m1 h1) (\<lambda>(ok, m, h).
         if \<not> ok then Ok (False, m, h) else bindR (set_quantifier32 m ?q (sm_tag sm)) (\<lambda>m. Ok (True, m, h))))"
      proof (rule gives_bind [OF parse_in_place_ok [OF S desc_field_ok [OF D f(2)] sm(1,2) m1 _ val_ok_Zero x(2)]], simp)
        fix y :: "bool \<times> message \<times> pb_heap"
        obtain ok m2 h2 where y: "y = (ok, m2, h2)" by (cases y)
        assume "case y of (ok, m', h') \<Rightarrow> \<exists>v. members_map m' (?g(?off \<mapsto> v)) \<and> same_but_members m1 m' \<and> val_ok sub f v
            \<and> holds h' (R + message_res m') \<and> (\<not> ok \<longrightarrow> Zero = Zero \<longrightarrow> v = Zero)"
        then obtain v where v: "members_map m2 (g(?off \<mapsto> v))" "same_but_members m1 m2" "val_ok sub f v" "holds h2 (R + message_res m2)"
          "\<not> ok \<longrightarrow> v = Zero" by (auto simp: y)
        have same: "same_but_members m m2" using x(1) v(2) same_but_members_trans by blast
        show "gives (member_parsed D sub R (descriptor m) sms) (case y of (ok, m, h) \<Rightarrow>
           if \<not> ok then Ok (False, m, h) else bindR (set_quantifier32 m ?q (sm_tag sm)) (\<lambda>m. Ok (True, m, h)))"
        proof (cases ok)
          case False
          then show ?thesis using v zero u same by (auto simp: y intro!: member_parsedI)
        next
          case True
          have s': "(g(?off \<mapsto> v)) ?q = Some s" using s(1) fo(3) by simp
          have "gives (member_parsed D sub R (descriptor m) sms) (bindR (set_member m2 ?q (V32 (sm_tag sm))) (\<lambda>m. Ok (True, m, h2)))"
          proof (rule gives_bind [OF gives_set_member [OF v(1) s', of "V32 (sm_tag sm)"]], elim conjE exE)
            fix m3 X assume "members_map m3 (g(?off \<mapsto> v, ?q \<mapsto> V32 (sm_tag sm)))" "same_but_members m2 m3"
              "message_res m2 = X + slot_res s" "message_res m3 = X + slot_res (V32 (sm_tag sm))"
            then show "gives (member_parsed D sub R (descriptor m) sms) (Ok (True, m3, h2))"
              using inv_set_oneof [OF D f(2,3) inv, of "fd_id f" v] v s(3) sm(3) same
              by (auto intro!: member_parsedI u intro: same_but_members_trans)
          qed
          then show ?thesis using True fo(2) by (simp add: y set_quantifier32_def)
        qed
      qed
      then show ?thesis using True by (simp add: r)
    qed
  qed
qed

text \<open>An element appended to the array of a repeated field.\<close>

lemma remaining_member: "sm_field sm = Some f \<Longrightarrow> remaining (sm # sms) f = member_count sm f + remaining sms f"
  by simp

lemma append_elements:
  assumes D: "desc_ok S D" and f: "sm_field sm = Some f" "f \<in> set (md_fields D)" "fd_label f = LABEL_REPEATED"
    and g: "members_map m g" "message_inv D sub (count_parsing (remaining (sm # sms))) g"
    and u: "unknown_ok m" "unknown_room (unknowns sms) m"
    and old: "g (fd_quantifier_offset f) = Some s" "slot_res s = {#}" "g (fd_offset f) = Some w" "as_arr w = Ok arr"
    and new: "count_parsing (remaining sms) f n arr'" "elems_ok sub f arr'"
    and h: "\<And>X. message_res m = X + slot_res (VArr arr) \<Longrightarrow> holds h (R + X + slot_res (VArr arr'))"
  shows "gives (member_parsed D sub R (descriptor m) sms)
    (bindR (set_member m (fd_offset f) (VArr arr')) (\<lambda>m. bindR (set_member m (fd_quantifier_offset f) (V64 n)) (\<lambda>m. Ok (True, m, h))))"
proof -
  have o': "fd_offset f \<noteq> fd_quantifier_offset f" using repeated_not_oneof [OF D f(2,3)] by simp
  have mono: "count_parsing (remaining sms) f' n arr" if "f' \<noteq> f" "count_parsing (remaining (sm # sms)) f' n arr" for f' n arr
    using that f(1) by (cases "(f', n, arr)" rule: count_complete.cases) auto
  have inv: "message_inv D sub (count_parsing (remaining sms)) (g(fd_offset f \<mapsto> VArr arr', fd_quantifier_offset f \<mapsto> V64 n))"
    by (rule inv_set_repeated [OF D f(2,3) g(2)]) (use new mono in blast)+
  have assoc: "bindR (set_member m (fd_offset f) (VArr arr')) (\<lambda>m. bindR (set_member m (fd_quantifier_offset f) (V64 n)) (\<lambda>m. Ok (True, m, h)))
    = bindR (bindR (set_member m (fd_offset f) (VArr arr')) (\<lambda>m. set_member m (fd_quantifier_offset f) (V64 n))) (\<lambda>m. Ok (True, m, h))"
    by (simp add: bindR_assoc)
  show ?thesis unfolding assoc
  proof (rule gives_bind [OF gives_set_two [OF g(1) old(3,1) o', of "VArr arr'" "V64 n"]], elim conjE exE)
    fix m' X assume m': "members_map m' (g(fd_offset f \<mapsto> VArr arr', fd_quantifier_offset f \<mapsto> V64 n))" "same_but_members m m'"
      "message_res m = X + slot_res w + slot_res s" "message_res m' = X + slot_res (VArr arr') + slot_res (V64 n)"
    then have "holds h (R + message_res m')" using h [of X] as_arr_res [OF old(4)] old(2) by (simp add: ac_simps)
    then show "gives (member_parsed D sub R (descriptor m) sms) (Ok (True, m', h))"
      using member_parsedI [OF m'(1) inv m'(2) u] by simp
  qed
qed

end

lemma stored_length:
  assumes "members_map m g" and "g off = Some w" and "as_arr w = Ok (Some (b, cap, vs))" and "holds h (R + message_res m)"
  shows "length vs < 2 ^ 32" "unat (of_nat (length vs) :: u64) = length vs"
proof -
  obtain X where "message_res m = X + slot_res (VArr (Some (b, cap, vs)))"
    using message_res_slot [OF assms(1,2)] as_arr_res [OF assms(3)] by auto
  then have "R + message_res m = elements_res vs + (add_mset (Some b) (R + X))" by simp
  from holds_bound [OF assms(4) this] show "length vs < 2 ^ 32" .
  then show "unat (of_nat (length vs) :: u64) = length vs" by (simp add: unat_of_nat)
qed

context nested_ops
begin

lemma member_stays:
  assumes "parsing D sub (sm # sms) m" and "holds h (R + message_res m)"
  shows "member_parsed D sub R (descriptor m) sms (False, m, h)"
  using assms parsing_freeable by (auto simp: member_parsed_def)

lemma parse_repeated_ok:
  assumes S: "schema_ok S" and D: "desc_ok S D" and f: "sm_field sm = Some f" "f \<in> set (md_fields D)" "fd_label f = LABEL_REPEATED"
      "\<not> packed_member sm f"
    and sm: "scanned_ok sm" "sm_len sm \<le> bound" and m: "parsing D sub (sm # sms) m" and h: "member_holds h R m sm"
  shows "gives (member_parsed D sub R (descriptor m) sms) (parse_repeated_member nst sm f m h)"
proof -
  obtain g where g: "members_map m g" "message_inv D sub (count_parsing (remaining (sm # sms))) g" using m by (auto simp: parsing_def)
  have u: "unknown_ok m" "unknown_room (unknowns sms) m" using m f(1) by (auto simp: parsing_def unknowns_def)
  obtain s n w arr where r: "g (fd_quantifier_offset f) = Some s" "as64 s = Ok n" "g (fd_offset f) = Some w" "as_arr w = Ok arr"
    "count_parsing (remaining (sm # sms)) f n arr" "elems_ok sub f arr" "slot_res s = {#}"
    by (rule inv_repeatedE [OF g(2) f(2,3)])
  have c: "remaining (sm # sms) f = Suc (remaining sms f)" using f by (simp add: member_count_def)
  then obtain b cap vs where arr: "arr = Some (b, cap, vs)" "n = of_nat (length vs)" "length vs + Suc (remaining sms f) \<le> cap"
    using r(5) by (cases "(f, n, arr)" rule: count_complete.cases) (auto simp del: remaining_simps)
  have h0: "holds h (R + message_res m)" using h holds_weaken unfolding member_holds_def by blast
  note len = stored_length [OF g(1) r(3) r(4) [unfolded arr(1)] h0]
  have h1: "holds h (add_mset None (R + message_res m) + slot_res Zero + replicate_mset (sm_len sm) None)"
    using h by (simp add: member_holds_def)
  have reads: "quantifier_size m (fd_quantifier_offset f) = Ok n" "bindR (STRUCT_MEMBER m (fd_offset f)) as_arr = Ok arr"
    using r by (simp_all add: quantifier_size_def STRUCT_MEMBER_map [OF g(1)])
  show ?thesis unfolding parse_repeated_member_def reads bindR.simps
  proof (rule gives_bind [OF parse_required_member_ok [OF S desc_field_ok [OF D f(2)] sm h1 val_ok_Zero]], simp)
    fix x assume x: "parsed_value sub (add_mset None (R + message_res m)) f Zero x"
    obtain ok v h2 where y: "x = (ok, v, h2)" by (cases x)
    then have v: "val_ok sub f v" "holds h2 (add_mset None (R + message_res m + slot_res v))" "ok \<longrightarrow> no_default v" "\<not> ok \<longrightarrow> v = Zero"
      using x by (auto simp: parsed_value_def)
    show "gives (member_parsed D sub R (descriptor m) sms) (case x of (ok, v, h) \<Rightarrow>
       if \<not> ok then Ok (False, m, h) else bindR (store_element arr (unat n) v) (\<lambda>arr.
         bindR (set_member m (fd_offset f) (VArr arr)) (\<lambda>m.
         bindR (set_member m (fd_quantifier_offset f) (V64 (n + 1))) (\<lambda>m. Ok (True, m, h)))))"
    proof (cases ok)
      case False
      then show ?thesis using v member_stays [OF m] holds_token by (simp add: y)
    next
      case True
      let ?arr = "Some (b, cap, vs @ [v])"
      have st: "store_element arr (unat n) v = Ok ?arr" using arr len(2) by simp
      have "gives (member_parsed D sub R (descriptor m) sms) (bindR (set_member m (fd_offset f) (VArr ?arr)) (\<lambda>m.
         bindR (set_member m (fd_quantifier_offset f) (V64 (n + 1))) (\<lambda>m. Ok (True, m, h2))))"
      proof (rule append_elements [OF D f(1-3) g u r(1,7,3,4)])
        show "count_parsing (remaining sms) f (n + 1) ?arr" using arr by simp
        show "elems_ok sub f ?arr" using r(6) v True by (simp add: arr elem_ok_def)
        show "holds h2 (R + X + slot_res (VArr ?arr))" if "message_res m = X + slot_res (VArr arr)" for X
          using v(2) that by (simp add: arr ac_simps add_mset_commute)
      qed
      then show ?thesis using True by (simp add: y st)
    qed
  qed
qed

lemma parse_packed_ok:
  assumes S: "schema_ok S" and D: "desc_ok S D" and f: "sm_field sm = Some f" "f \<in> set (md_fields D)" "fd_label f = LABEL_REPEATED"
      "packed_member sm f"
    and sm: "member_ok D sm" and m: "parsing D sub (sm # sms) m" and h: "member_holds h R m sm"
  shows "gives (member_parsed D sub R (descriptor m) sms) (bindR (parse_packed_repeated_member sm f m) (\<lambda>(ok, m). Ok (ok, m, h)))"
proof -
  let ?rem = "sm_len sm - sm_length_prefix_len sm" and ?at = "drop (sm_length_prefix_len sm) (sm_data sm)"
  obtain g where g: "members_map m g" "message_inv D sub (count_parsing (remaining (sm # sms))) g" using m by (auto simp: parsing_def)
  have u: "unknown_ok m" "unknown_room (unknowns sms) m" using m f(1) by (auto simp: parsing_def unknowns_def)
  obtain s n w arr where r: "g (fd_quantifier_offset f) = Some s" "as64 s = Ok n" "g (fd_offset f) = Some w" "as_arr w = Ok arr"
    "count_parsing (remaining (sm # sms)) f n arr" "elems_ok sub f arr" "slot_res s = {#}"
    by (rule inv_repeatedE [OF g(2) f(2,3)])
  obtain k where k: "packed_count sm f = Ok (Some k)" using sm f by (auto simp: member_ok_def)
  then have k': "count_packed_elements (fd_type f) ?rem ?at = Ok (Some k)" by (simp add: packed_count_def)
  have rem: "?rem \<le> length ?at" "?rem < 2 ^ 32" using sm f(4) by (auto simp: member_ok_def scanned_ok_def packed_member_def)
  have c: "remaining (sm # sms) f = k + remaining sms f" using f k by (simp add: member_count_def)
  have h0: "holds h (R + message_res m)" using h holds_weaken unfolding member_holds_def by blast
  have reads: "quantifier_size m (fd_quantifier_offset f) = Ok n" "bindR (STRUCT_MEMBER m (fd_offset f)) as_arr = Ok arr"
    using r by (simp_all add: quantifier_size_def STRUCT_MEMBER_map [OF g(1)])
  note append = append_elements [OF D f(1-3) g u r(1,7,3,4)]
  show ?thesis
  proof (cases arr)
    case None
    then have "k = 0" "n = 0" "remaining sms f = 0" using r(5) c by simp_all
    then have pv: "packed_values (fd_type f) ?rem ?at arr 0 = Ok (if ?rem = 0 then Some (None, 0) else None)"
      using packed_values_none [of f ?rem ?at] k' rem None by simp
    have "gives (member_parsed D sub R (descriptor m) sms) (bindR (set_member m (fd_offset f) (VArr None)) (\<lambda>m.
         bindR (set_member m (fd_quantifier_offset f) (V64 0)) (\<lambda>m. Ok (True, m, h))))"
      using append [of 0 None h R] \<open>remaining sms f = 0\<close> h0 None by simp
    then show ?thesis using \<open>n = 0\<close> member_stays [OF m h0]
      by (simp add: parse_packed_repeated_member_def reads pv bindR_assoc del: diff_is_0_eq)
  next
    case (Some a)
    then obtain b cap vs where arr: "arr = Some (b, cap, vs)" "n = of_nat (length vs)" "length vs + (k + remaining sms f) \<le> cap"
        "vs \<noteq> [] \<or> 0 < k + remaining sms f"
      using r(5) c by (cases a) auto
    note len = stored_length [OF g(1) r(3) r(4) [unfolded arr(1)] h0]
    have pv: "gives (packed_stored sub f ?rem k b cap vs 0) (packed_values (fd_type f) ?rem ?at arr (unat n))"
      using packed_values_ok [OF k' rem, of vs cap sub b] arr len(2) by simp
    show ?thesis unfolding parse_packed_repeated_member_def reads bindR.simps bindR_assoc
    proof (rule gives_bind [OF pv])
      fix y assume y: "packed_stored sub f ?rem k b cap vs 0 y"
      show "gives (member_parsed D sub R (descriptor m) sms) (bindR (case y of None \<Rightarrow> Ok (False, m)
         | Some (arr, cnt) \<Rightarrow> bindR (set_member m (fd_offset f) (VArr arr)) (\<lambda>m.
             bindR (set_member m (fd_quantifier_offset f) (V64 (n + of_nat cnt))) (\<lambda>m. Ok (True, m)))) (\<lambda>(ok, m). Ok (ok, m, h)))"
      proof (cases y)
        case None
        then show ?thesis using member_stays [OF m h0] by simp
      next
        case (Some p)
        obtain arr' j where p: "p = (arr', j)" by (cases p)
        obtain ws where ws: "arr' = Some (b, cap, vs @ ws)" "j = length ws" "scalars_ok sub f ws" "length ws \<le> k" "0 < ?rem \<longrightarrow> ws \<noteq> []"
          using y Some p by (auto simp: packed_stored_def)
        have kr: "k \<le> ?rem"
        proof -
          have "k \<le> k * siz" if "0 < siz" for siz using that by simp
          then show ?thesis using counted_kinds [OF k' rem(1)] by auto
        qed
        have "gives (member_parsed D sub R (descriptor m) sms) (bindR (set_member m (fd_offset f) (VArr arr')) (\<lambda>m.
             bindR (set_member m (fd_quantifier_offset f) (V64 (n + of_nat j))) (\<lambda>m. Ok (True, m, h))))"
        proof (rule append)
          show "count_parsing (remaining sms) f (n + of_nat j) arr'" using arr ws kr by auto
          show "elems_ok sub f arr'" using r(6) ws(3) by (auto simp: arr ws(1) scalars_ok_def)
          show "holds h (R + X + slot_res (VArr arr'))" if X: "message_res m = X + slot_res (VArr arr)" for X
          proof -
            have "holds h (R + message_res m + replicate_mset (length ws) None)"
              using h ws(4) kr unfolding member_holds_def by (elim holds_fewer) auto
            then show ?thesis using X scalars_res [OF ws(3)] by (simp add: arr ws(1) ac_simps)
          qed
        qed
        then show ?thesis by (simp add: Some p bindR_assoc)
      qed
    qed
  qed
qed

end

lemma add_unknown_ok:
  assumes m: "parsing D sub (sm # sms) m" and f: "sm_field sm = None" and p: "uf_data u \<noteq> Dflt"
    and h: "holds h (R + message_res m + ptr_res (uf_data u))"
  shows "gives (member_parsed D sub R (descriptor m) sms) (bindR (add_unknown m u) (\<lambda>m. Ok (ok, m, h)))"
proof -
  have "unknown_room (Suc (unknowns sms)) m" using m f by (simp add: parsing_def unknowns_def)
  then obtain b cap where ub: "unknown_block m = Some (b, cap)" "length (unknown_fields m) + Suc (unknowns sms) \<le> cap"
    by (auto simp: unknown_room_def split: option.splits)
  define m' where "m' = Message (descriptor m) (members m) (unknown_block m) (unknown_fields m @ [u])"
  have add: "add_unknown m u = Ok m'" using ub by (simp add: add_unknown_def m'_def)
  have rem: "remaining (sm # sms) = remaining sms" using f by (auto simp: fun_eq_iff)
  obtain g where g: "members_map m g" "message_inv D sub (count_parsing (remaining sms)) g" using m by (auto simp: parsing_def rem)
  have g': "members_map m' g" using g(1) by (simp add: members_map_def m'_def)
  have u: "unknown_ok m'" "unknown_room (unknowns sms) m'" using m p ub by (auto simp: parsing_def unknown_ok_def unknown_room_def m'_def)
  have "message_res m' = message_res m + ptr_res (uf_data u)"
    by (simp add: message_res_split unknown_res_def m'_def ac_simps)
  then have "holds h (R + message_res m')" using h by (simp add: ac_simps)
  moreover have "freeable D sub m'" "parsing D sub sms m'" using freeableI [OF g' g(2) u(1)] g' g(2) u by (auto simp: parsing_def)
  ultimately show ?thesis by (simp add: add member_parsed_def) (simp add: m'_def)
qed

context nested_ops
begin

lemma parse_member_ok:
  assumes S: "schema_ok S" and D: "desc_ok S D" and sm: "member_ok D sm" "sm_len sm \<le> bound"
    and m: "parsing D sub (sm # sms) m" and h: "member_holds h R m sm"
  shows "gives (member_parsed D sub R (descriptor m) sms) (parse_member nst D sm m h)"
proof (cases "sm_field sm")
  case None
  have h0: "holds h (R + message_res m)" using h holds_weaken unfolding member_holds_def by blast
  have read: "read_bytes 0 (sm_len sm) (sm_data sm) = Ok (take (sm_len sm) (sm_data sm))"
    using sm(1) by (simp add: member_ok_def scanned_ok_def read_bytes_def)
  note add = add_unknown_ok [OF m None]
  show ?thesis
  proof (cases "do_alloc (of_nat (sm_len sm)) h")
    case (Pair p h1)
    show ?thesis
    proof (cases p)
      case (Some blk)
      have "holds h1 (R + message_res m + {#Some blk#})" using holds_alloc [OF h0 Pair [unfolded Some]] by simp
      then show ?thesis using add Pair Some by (simp add: parse_member_def None read)
    qed (use add holds_alloc_fails [OF h0] Pair in \<open>simp add: parse_member_def None\<close>)
  qed
next
  case (Some f)
  have f: "f \<in> set (md_fields D)" "sm_tag sm = fd_id f" "scanned_ok sm" using sm(1) Some by (auto simp: member_ok_def)
  have fo: "has_flag f FLAG_ONEOF \<longrightarrow> fd_label f = LABEL_OPTIONAL \<or> fd_label f = LABEL_NONE"
    using desc_field_ok [OF D f(1)] by (simp add: field_ok_def)
  note singular = parse_singular_ok [OF S D Some f(1) _ _ f(3) sm(2) m h]
  note oneof = parse_oneof_ok [OF S D Some f(1) _ f(3) sm(2) f(2) m h]
  note repeated = parse_repeated_ok [OF S D Some f(1) _ _ f(3) sm(2) m h]
  note packed = parse_packed_ok [OF S D Some f(1) _ _ sm(1) m h]
  show ?thesis using singular oneof repeated packed fo
    by (cases "fd_label f") (auto simp: parse_member_def Some packed_member_def)
qed

lemma parse_members_ok:
  assumes S: "schema_ok S" and D: "desc_ok S D"
  shows "(\<forall>sm\<in>set sms. member_ok D sm \<and> sm_len sm \<le> bound) \<Longrightarrow> parsing D sub sms m
    \<Longrightarrow> holds h (R + message_res m + replicate_mset (\<Sum>sm\<leftarrow>sms. sm_len sm + 1) None)
    \<Longrightarrow> gives (member_parsed D sub R (descriptor m) []) (parse_members nst D sms m h)"
proof (induction sms arbitrary: m h)
  case Nil
  then show ?case using parsing_freeable by (simp add: member_parsed_def)
next
  case (Cons sm sms)
  let ?T = "replicate_mset (\<Sum>sm\<leftarrow>sms. sm_len sm + 1) (None :: nat option)"
  have "replicate_mset (\<Sum>sm\<leftarrow>sm # sms. sm_len sm + 1) (None :: nat option) = ?T + replicate_mset (sm_len sm + 1) None"
    by (intro multiset_eqI) simp
  then have h: "member_holds h (R + ?T) m sm" using Cons.prems(3) by (simp add: member_holds_def ac_simps)
  show ?case unfolding parse_members.simps
  proof (rule gives_bind [OF parse_member_ok [OF S D _ _ Cons.prems(2) h]])
    fix x assume x: "member_parsed D sub (R + ?T) (descriptor m) sms x"
    obtain ok m' h' where r: "x = (ok, m', h')" by (cases x)
    have p: "descriptor m' = descriptor m" "holds h' (R + message_res m' + ?T)" "freeable D sub m'" "ok \<Longrightarrow> parsing D sub sms m'"
      using x by (auto simp: r member_parsed_def ac_simps)
    show "gives (member_parsed D sub R (descriptor m) []) (case x of (ok, m, h) \<Rightarrow> if ok then parse_members nst D sms m h else Ok (False, m, h))"
      using Cons.IH [OF _ p(4,2)] Cons.prems(1) p holds_weaken [OF p(2)] by (cases ok) (auto simp: r member_parsed_def)
  qed (use Cons.prems(1) in auto)
qed

end

end
