(* ===== verification/Pb_Scan.thy ===== *)
theory Pb_Scan imports Pb_Member begin

text \<open>
  The scanner and the allocations of \<^verbatim>\<open>protobuf_c_message_unpack\<close> (\<^verbatim>\<open>protobuf-c/protobuf-c.c\<close>): on any
  input the scanner stays within it and leaves members that can be parsed, and the arrays allocated
  have room for all elements that were counted.
\<close>

section \<open>Initial messages\<close>

text \<open>The counts of the scanner, before any array is allocated.\<close>

definition count_blank :: "(field_desc \<Rightarrow> nat) \<Rightarrow> count_inv" where
  "count_blank c f n arr \<longleftrightarrow> arr = None \<and> n = of_nat (c f)"

definition blank :: "message_desc \<Rightarrow> (nat \<Rightarrow> message \<Rightarrow> bool) \<Rightarrow> (field_desc \<Rightarrow> nat) \<Rightarrow> nat \<Rightarrow> message \<Rightarrow> bool" where
  "blank D sub c desc m \<longleftrightarrow> descriptor m = desc \<and> unknown_block m = None \<and> unknown_fields m = [] \<and> message_res m = {#}
     \<and> (\<exists>g. members_map m g \<and> message_inv D sub (count_blank c) g)"

lemma plain_val_ok: "plain_ok f v \<Longrightarrow> val_ok sub f v"
  by (cases "fd_type f") (auto simp: plain_ok_def val_ok_def split: slot.splits)

lemma init_generated:
  assumes "desc_ok S D" and "message_init D = Some ms"
  shows "blank D sub (\<lambda>_. 0) desc (Message desc ms None [])"
proof -
  have i: "distinct (map fst ms)" "\<And>f. f \<in> set (md_fields D) \<Longrightarrow> initial_field (map_of ms) f" "\<And>off v. (off, v) \<in> set ms \<Longrightarrow> slot_res v = {#}"
    using assms by (auto simp: desc_ok_def initial_ok_def list_all_iff)
  have r: "members_res ms = {#}" using i(3) by (induction ms) (auto simp: members_res_def)
  have "field_inv (md_fields D) sub (count_blank (\<lambda>_. 0)) (map_of ms) f" if f: "f \<in> set (md_fields D)" for f
    using i(2) [OF f] desc_field_ok [OF assms(1) f] plain_val_ok
    by (auto simp: field_inv_def repeated_inv_def oneof_inv_def singular_inv_def initial_field_def field_ok_def count_blank_def
        val_ok_Zero split: option.splits if_splits)
  then have "message_inv D sub (count_blank (\<lambda>_. 0)) (map_of ms)"
    using i(3) by (auto simp: message_inv_def dest: map_of_SomeD)
  then show ?thesis using i(1) r by (auto simp: blank_def members_map_def message_res_split unknown_res_def)
qed

lemma init_default_ok:
  assumes D: "desc_ok S D" and f: "f \<in> set (md_fields D)" "default_ok f" and m: "blank D sub c desc m"
  shows "gives (blank D sub c desc) (init_default f m)"
proof (cases "fd_default f = None \<or> fd_label f = LABEL_REPEATED")
  case True
  then show ?thesis using m by (auto simp: init_default_def split: option.splits)
next
  case False
  then obtain dv where dv: "fd_default f = Some dv" "fd_label f \<noteq> LABEL_REPEATED" "\<not> has_flag f FLAG_ONEOF"
    using f(2) by (auto simp: default_ok_def)
  obtain g where g: "members_map m g" "message_inv D sub (count_blank c) g" using m by (auto simp: blank_def)
  obtain w where w: "g (fd_offset f) = Some w" using inv_singularE [OF g(2) f(1) dv(2,3)] by metis
  have set: "gives (blank D sub c desc) (set_member m (fd_offset f) v)" if "val_ok sub f v" "slot_res v = {#}" for v
    using gives_set_member [OF g(1) w, of v] inv_set_singular [OF D f(1) dv(2,3) g(2) that(1)] m that(2)
    by (elim gives_mono) (auto simp: blank_def same_but_members_def)
  show ?thesis using f(2) dv set
    by (cases "fd_type f"; cases dv)
      (auto simp: init_default_def default_ok_def val_ok_def sizeof_elt_in_repeated_array_def)
qed

lemma init_defaults_ok:
  assumes D: "desc_ok S D"
  shows "set fs \<subseteq> set (md_fields D) \<Longrightarrow> list_all default_ok fs \<Longrightarrow> blank D sub c desc m \<Longrightarrow> gives (blank D sub c desc) (init_defaults fs m)"
proof (induction fs arbitrary: m)
  case (Cons f fs)
  then show ?case by (auto intro!: gives_bind [OF init_default_ok [OF D]])
qed simp

lemma zero_members_blank:
  assumes D: "desc_ok S D"
  shows "blank D sub (\<lambda>_. 0) desc (Message desc (zero_members D) None [])"
proof -
  let ?offs = "remdups (concat (map (\<lambda>f. fd_offset f # (if fd_quantifier_offset f = 0 then [] else [fd_quantifier_offset f])) (md_fields D)))"
  let ?g = "map_of (zero_members D)"
  have z: "zero_members D = map (\<lambda>off. (off, Zero)) ?offs" by (simp add: zero_members_def)
  have gen: "map_of (map (\<lambda>off. (off, Zero)) xs) off = (if off \<in> set xs then Some Zero else None)" for off :: nat and xs
    by (induction xs) auto
  have g: "?g off = (if off \<in> set ?offs then Some Zero else None)" for off
    unfolding z by (rule gen)
  have at: "?g (fd_offset f) = Some Zero" "fd_quantifier_offset f \<noteq> 0 \<Longrightarrow> ?g (fd_quantifier_offset f) = Some Zero"
    if "f \<in> set (md_fields D)" for f
    using that by (auto simp: g intro!: bexI [of _ f])
  have "field_inv (md_fields D) sub (count_blank (\<lambda>_. 0)) ?g f" if f: "f \<in> set (md_fields D)" for f
    using at [OF f] desc_field_ok [OF D f]
    by (auto simp: field_inv_def repeated_inv_def oneof_inv_def singular_inv_def field_ok_def count_blank_def val_ok_Zero)
  then have "message_inv D sub (count_blank (\<lambda>_. 0)) ?g" by (auto simp: message_inv_def g split: if_splits)
  moreover have "members_res (zero_members D) = {#}"
  proof -
    have "members_res (map (\<lambda>off. (off, Zero)) xs) = {#}" for xs by (induction xs) auto
    then show ?thesis by (simp add: z)
  qed
  moreover have "distinct (map fst (zero_members D))" by (simp add: z comp_def)
  ultimately show ?thesis by (auto simp: blank_def members_map_def message_res_split unknown_res_def)
qed

lemma init_ok:
  assumes "desc_ok S D"
  shows "gives (blank D sub (\<lambda>_. 0) desc) (if message_init D \<noteq> None then protobuf_c_message_init desc D else message_init_generic desc D)"
proof (cases "message_init D")
  case None
  then have "list_all default_ok (md_fields D)" using assms by (simp add: desc_ok_def)
  then show ?thesis using None init_defaults_ok [OF assms subset_refl _ zero_members_blank [OF assms]]
    by (simp add: message_init_generic_def)
next
  case (Some ms)
  then show ?thesis using init_generated [OF assms Some] by (simp add: protobuf_c_message_init_def)
qed

section \<open>Scanning\<close>

lemma tag_loop_Ok:
  "rv + n \<le> length data \<Longrightarrow> \<exists>r. tag_loop n rv shift tag wt data = Ok r
    \<and> (\<forall>used t w. r = Some (used, t, w) \<longrightarrow> used \<le> rv + n)"
proof (induction n arbitrary: rv shift tag)
  case (Suc n)
  have g: "get rv data = Ok (data ! rv)" using Suc.prems by (simp add: get_def)
  show ?case using Suc.IH [of "rv + 1"] Suc.prems g by fastforce
qed simp

lemma tag_Ok:
  assumes "at \<noteq> []"
  shows "\<exists>r. parse_tag_and_wiretype (length at) at = Ok r
    \<and> (\<forall>used t w. r = Some (used, t, w) \<longrightarrow> 0 < used \<and> used \<le> length at)"
proof -
  define n where "n = (if 5 < length at then 5 else length at)"
  have g: "get 0 at = Ok (at ! 0)" and l: "0 < length at" using assms by (simp_all add: get_def)
  have n: "n \<le> length at" "0 < n" using l by (auto simp: n_def)
  have lp: "\<exists>r. tag_loop (n - 1) 1 4 tag wt at = Ok r \<and> (\<forall>used t w. r = Some (used, t, w) \<longrightarrow> used \<le> length at)" for tag wt
    using tag_loop_Ok [of 1 "n - 1" at 4 tag wt] n by fastforce
  have "\<exists>r. parse_tag_and_wiretype (length at) at = Ok r \<and> (\<forall>used t w. r = Some (used, t, w) \<longrightarrow> used \<le> length at)"
    using lp l unfolding parse_tag_and_wiretype_def g n_def [symmetric] Let_def by (cases at) auto
  then show ?thesis using tag_used by blast
qed

lemma scan_digits_Ok:
  "i + n \<le> length data \<Longrightarrow> \<exists>j v. scan_digits n i shift val data = Ok (j, v) \<and> i \<le> j \<and> j \<le> i + n"
proof (induction n arbitrary: i shift val)
  case (Suc n)
  have g: "get i data = Ok (data ! i)" using Suc.prems by (simp add: get_def)
  show ?case using Suc.IH [of "i + 1" "shift + 7" "val OR septet shift (data ! i)"] Suc.prems g
    by (cases "data ! i AND 0x80 = 0") (auto simp: Let_def intro: le_trans [OF Suc_leD])
qed simp

lemma scan_length_Ok:
  "\<exists>r. scan_length_prefixed_data (length at) at = Ok r
    \<and> (\<forall>len p. r = Some (len, p) \<longrightarrow> 0 < p \<and> p \<le> len \<and> len \<le> length at)"
proof -
  define n where "n = (if length at < 5 then length at else 5)"
  have "n \<le> length at" by (simp add: n_def)
  then obtain j v where j: "scan_digits n 0 0 0 at = Ok (j, v)" "j \<le> n" using scan_digits_Ok [of 0 n at 0 0] by auto
  show ?thesis using j unfolding scan_length_prefixed_data_def n_def [symmetric] Let_def by auto
qed

text \<open>The length of a member.\<close>

lemma scan_data_ok:
  assumes "length at < 2 ^ 32"
  shows "gives (\<lambda>r. \<forall>len p. r = Some (len, p) \<longrightarrow> scanned_ok \<lparr>sm_tag = tag, sm_wire_type = wt, sm_length_prefix_len = p,
      sm_field = field, sm_len = len, sm_data = at\<rparr>) (scan_data wt (length at) at)"
proof -
  consider "wt = WIRE_TYPE_VARINT" | "wt = WIRE_TYPE_64BIT" | "wt = WIRE_TYPE_LENGTH_PREFIXED" | "wt = WIRE_TYPE_32BIT"
    | "wt \<notin> {WIRE_TYPE_VARINT, WIRE_TYPE_64BIT, WIRE_TYPE_LENGTH_PREFIXED, WIRE_TYPE_32BIT}" by blast
  then show ?thesis
  proof cases
    case 1
    define n where "n = (if length at < 10 then length at else 10)"
    have "n \<le> length at" by (simp add: n_def)
    then obtain j where "find_end n 0 at = Ok j" "j \<le> n" using find_end_ends [of n 0 at] by auto
    then show ?thesis using 1 assms unfolding scan_data_def n_def [symmetric] Let_def
      by (auto simp: scanned_ok_def wire_type_defs n_def split: if_splits)
  next
    case 3
    then show ?thesis using scan_length_Ok [of at] assms by (auto simp: scan_data_def scanned_ok_def wire_type_defs)
  qed (use assms in \<open>auto simp: scan_data_def scanned_ok_def wire_type_defs\<close>)
qed

text \<open>What the scanner keeps of the descriptor: the field last seen and room in the bitmap.\<close>

definition scan_env :: "message_desc \<Rightarrow> scan \<Rightarrow> bool" where
  "scan_env D sc \<longleftrightarrow> length (md_fields D) \<le> 8 * length (sc_bitmap sc)
     \<and> (\<forall>f. sc_last_field sc = Some f \<longrightarrow> sc_last_field_index sc < length (md_fields D)
          \<and> md_fields D ! sc_last_field_index sc = f)"

definition same_scan :: "scan \<Rightarrow> scan \<Rightarrow> bool" where
  "same_scan sc sc' \<longleftrightarrow> sc_message sc' = sc_message sc \<and> sc_heap sc' = sc_heap sc \<and> sc_members sc' = sc_members sc
     \<and> sc_slab_blocks sc' = sc_slab_blocks sc"

lemma scan_field_ok:
  assumes D: "desc_ok S D" and env: "scan_env D sc"
  shows "gives (\<lambda>(field, sc'). same_scan sc sc' \<and> scan_env D sc'
      \<and> sc_n_unknown sc' = sc_n_unknown sc + (if field = None then 1 else 0)
      \<and> (\<forall>f. field = Some f \<longrightarrow> f \<in> set (md_fields D) \<and> fd_id f = tag)) (scan_field D tag sc)"
proof -
  let ?found = "\<lambda>(field, sc'). same_scan sc sc' \<and> scan_env D sc'
      \<and> sc_n_unknown sc' = sc_n_unknown sc + (if field = None then 1 else 0)
      \<and> (\<forall>f. field = Some f \<longrightarrow> f \<in> set (md_fields D) \<and> fd_id f = tag \<and> sc_last_field sc' = Some f)"
  obtain r where r: "int_range_lookup (n_field_ranges D) (field_ranges D) tag = Ok r"
    "r < 0 \<or> (\<exists>i < length (md_fields D). r = int i \<and> fd_id (md_fields D ! i) = tag)"
    using field_lookup [OF D] by blast
  have "gives ?found (if (case sc_last_field sc of None \<Rightarrow> True | Some f \<Rightarrow> fd_id f \<noteq> tag) then
         bindR (int_range_lookup (n_field_ranges D) (field_ranges D) tag) (\<lambda>field_index.
         if field_index < 0 then Ok (None, sc\<lparr>sc_n_unknown := sc_n_unknown sc + 1\<rparr>)
         else bindR (entry_at (md_fields D) (nat field_index)) (\<lambda>f.
           Ok (Some f, sc\<lparr>sc_last_field := Some f, sc_last_field_index := nat field_index\<rparr>)))
       else Ok (sc_last_field sc, sc))"
    using r env by (auto simp: same_scan_def scan_env_def entry_at_def split: option.splits)
  then show ?thesis unfolding scan_field_def
  proof (rule gives_bind)
    fix x assume x: "?found x"
    obtain field sc' where y: "x = (field, sc')" by (cases x)
    have bm: "get (sc_last_field_index sc' div 8) (sc_bitmap sc') = Ok (sc_bitmap sc' ! (sc_last_field_index sc' div 8))"
      "sc_last_field_index sc' div 8 < length (sc_bitmap sc')" if "field = Some f" for f
      using x that by (auto simp: y scan_env_def get_def)
    show "gives (\<lambda>(field, sc'). same_scan sc sc' \<and> scan_env D sc'
        \<and> sc_n_unknown sc' = sc_n_unknown sc + (if field = None then 1 else 0)
        \<and> (\<forall>f. field = Some f \<longrightarrow> f \<in> set (md_fields D) \<and> fd_id f = tag))
      (case x of (field, sc) \<Rightarrow> case field of None \<Rightarrow> Ok (field, sc)
       | Some f \<Rightarrow> if fd_label f = LABEL_REQUIRED then
           bindR (REQUIRED_FIELD_BITMAP_SET (sc_last_field_index sc) (sc_bitmap sc)) (\<lambda>bm. Ok (field, sc\<lparr>sc_bitmap := bm\<rparr>))
         else Ok (field, sc))"
      using x bm by (cases field) (auto simp: y REQUIRED_FIELD_BITMAP_SET_def or_byte_def put_def same_scan_def scan_env_def)
  qed
qed

lemma scan_store_ok:
  assumes "holds (sc_heap sc) (R + mset (map Some (sc_slab_blocks sc)))"
  shows "gives (\<lambda>(ok, sc'). holds (sc_heap sc') (R + mset (map Some (sc_slab_blocks sc')))
      \<and> sc_message sc' = sc_message sc \<and> sc_n_unknown sc' = sc_n_unknown sc \<and> (scan_env D sc \<longrightarrow> scan_env D sc')
      \<and> (ok \<longrightarrow> sc_members sc' = sc_members sc @ [tmp])) (scan_store tmp sc)"
proof (cases "sc_in_slab_index sc = 2 ^ (sc_which_slab sc + 4) \<and> sc_which_slab sc \<noteq> MAX_SCANNED_MEMBER_SLAB")
  case True
  then show ?thesis
  proof (cases "do_alloc (push_bit (sc_which_slab sc + 1 + 4) 32) (sc_heap sc)")
    case (Pair p h)
    show ?thesis
    proof (cases p)
      case None
      then show ?thesis using True Pair holds_alloc_fails [OF assms Pair [unfolded None]]
        by (auto simp: scan_store_def Let_def scan_env_def)
    next
      case (Some b)
      then show ?thesis using True Pair holds_alloc [OF assms Pair [unfolded Some]]
        by (auto simp: scan_store_def Let_def scan_env_def)
    qed
  qed
qed (use assms in \<open>auto simp: scan_store_def scan_env_def Let_def\<close>)

lemma count_packed_Ok: "len \<le> length data \<Longrightarrow> \<exists>r. count_packed_elements t len data = Ok r"
  using max_b128_ends by (cases t) (auto simp: count_packed_elements_def Let_def)

lemma remaining_append [simp]: "remaining (xs @ ys) f = remaining xs f + remaining ys f"
  by (simp add: remaining_def)

lemma unknowns_append [simp]: "unknowns (xs @ ys) = unknowns xs + unknowns ys"
  by (simp add: unknowns_def)

lemma blank_cong:
  assumes "\<And>f. f \<in> set (md_fields D) \<Longrightarrow> fd_label f = LABEL_REPEATED \<Longrightarrow> c f = c' f" and "blank D sub c desc m"
  shows "blank D sub c' desc m"
proof -
  have "message_inv D sub (count_blank c) g \<Longrightarrow> message_inv D sub (count_blank c') g" for g
    by (rule message_inv_counts) (use assms(1) in \<open>auto simp: count_blank_def\<close>)
  then show ?thesis using assms(2) by (auto simp: blank_def)
qed

lemma scan_count_ok:
  assumes D: "desc_ok S D" and tmp: "scanned_ok tmp" "\<And>f. sm_field tmp = Some f \<Longrightarrow> f \<in> set (md_fields D) \<and> sm_tag tmp = fd_id f"
    and m: "blank D sub (remaining sms) desc m"
  shows "gives (\<lambda>r. \<forall>m'. r = Some m' \<longrightarrow> member_ok D tmp \<and> blank D sub (remaining (sms @ [tmp])) desc m') (scan_count tmp m)"
proof -
  have skip: "gives (\<lambda>r. \<forall>m'. r = Some m' \<longrightarrow> member_ok D tmp \<and> blank D sub (remaining (sms @ [tmp])) desc m') (Ok (Some m))"
    if "\<And>f. sm_field tmp = Some f \<Longrightarrow> fd_label f \<noteq> LABEL_REPEATED"
  proof -
    have "blank D sub (remaining (sms @ [tmp])) desc m" by (rule blank_cong [OF _ m]) (use that in auto)
    moreover have "member_ok D tmp" using tmp that by (auto simp: member_ok_def)
    ultimately show ?thesis by simp
  qed
  show ?thesis
  proof (cases "\<exists>f. sm_field tmp = Some f \<and> fd_label f = LABEL_REPEATED")
    case False
    then show ?thesis using skip by (auto simp: scan_count_def split: option.split)
  next
    case True
    then obtain f where f: "sm_field tmp = Some f" "fd_label f = LABEL_REPEATED" "f \<in> set (md_fields D)" using tmp(2) by blast
    obtain g where g: "members_map m g" "message_inv D sub (count_blank (remaining sms)) g" using m by (auto simp: blank_def)
    obtain s n w arr where r: "g (fd_quantifier_offset f) = Some s" "as64 s = Ok n" "slot_res s = {#}" "count_blank (remaining sms) f n arr"
      by (rule inv_repeatedE [OF g(2) f(3,2)])
    have n: "n = of_nat (remaining sms f)" using r(4) by (simp add: count_blank_def)
    have q: "quantifier_size m (fd_quantifier_offset f) = Ok n" using r by (simp add: quantifier_size_def STRUCT_MEMBER_map [OF g(1)])
    have cnt: "gives (\<lambda>r. \<forall>k. r = Some k \<longrightarrow> k = member_count tmp f \<and> member_ok D tmp)
        (if packed_member tmp f then packed_count tmp f else Ok (Some 1))"
    proof -
      have "packed_member tmp f \<Longrightarrow> \<exists>r. packed_count tmp f = Ok r"
        using tmp(1) unfolding packed_count_def by (intro count_packed_Ok) (auto simp: scanned_ok_def packed_member_def)
      then show ?thesis using f tmp by (auto simp: member_count_def member_ok_def)
    qed
    have e: "scan_count tmp m = bindR (if packed_member tmp f then packed_count tmp f else Ok (Some 1)) (\<lambda>cnt. case cnt of
           None \<Rightarrow> Ok None
         | Some c \<Rightarrow> bindR (set_member m (fd_quantifier_offset f) (V64 (n + of_nat c))) (\<lambda>m. Ok (Some m)))"
      by (simp only: scan_count_def f q packed_member_def packed_count_def option.case bindR.simps if_True refl)
    show ?thesis unfolding e
    proof (rule gives_bind [OF cnt])
      fix y assume y: "\<forall>k. y = Some k \<longrightarrow> k = member_count tmp f \<and> member_ok D tmp"
      show "gives (\<lambda>r. \<forall>m'. r = Some m' \<longrightarrow> member_ok D tmp \<and> blank D sub (remaining (sms @ [tmp])) desc m')
        (case y of None \<Rightarrow> Ok None | Some c \<Rightarrow> bindR (set_member m (fd_quantifier_offset f) (V64 (n + of_nat c))) (\<lambda>m. Ok (Some m)))"
      proof (cases y)
        case (Some c)
        then have c: "c = member_count tmp f" "member_ok D tmp" using y by auto
        have other: "count_blank (remaining (sms @ [tmp])) f' n' arr'" if "f' \<noteq> f" "count_blank (remaining sms) f' n' arr'" for f' n' arr'
          using that f(1) by (auto simp: count_blank_def)
        have inv: "message_inv D sub (count_blank (remaining (sms @ [tmp]))) (g(fd_quantifier_offset f \<mapsto> V64 (n + of_nat c)))"
          by (rule inv_set_count [OF D f(3,2) g(2)]) (use other n c(1) f(1) in \<open>auto simp: count_blank_def\<close>)
        have "gives (\<lambda>r. \<forall>m'. r = Some m' \<longrightarrow> member_ok D tmp \<and> blank D sub (remaining (sms @ [tmp])) desc m')
          (bindR (set_member m (fd_quantifier_offset f) (V64 (n + of_nat c))) (\<lambda>m. Ok (Some m)))"
          by (rule gives_bind [OF gives_set_member [OF g(1) r(1)]])
            (use inv c(2) m r(3) in \<open>auto simp: blank_def same_but_members_def\<close>)
        then show ?thesis by (simp add: Some)
      qed simp
    qed
  qed
qed

text \<open>The loop: the members found so far, with the bytes they stand for.\<close>

definition scanning :: "message_desc \<Rightarrow> (nat \<Rightarrow> message \<Rightarrow> bool) \<Rightarrow> resources \<Rightarrow> nat \<Rightarrow> nat \<Rightarrow> scan \<Rightarrow> bool" where
  "scanning D sub R desc avail sc \<longleftrightarrow> scan_env D sc
     \<and> holds (sc_heap sc) (R + mset (map Some (sc_slab_blocks sc)))
     \<and> blank D sub (remaining (sc_members sc)) desc (sc_message sc)
     \<and> sc_n_unknown sc = unknowns (sc_members sc)
     \<and> (\<forall>sm\<in>set (sc_members sc). member_ok D sm)
     \<and> (\<Sum>sm\<leftarrow>sc_members sc. sm_len sm + 1) \<le> avail"

text \<open>The end of the loop: on failure the slabs are still to be freed.\<close>

definition scanned :: "message_desc \<Rightarrow> (nat \<Rightarrow> message \<Rightarrow> bool) \<Rightarrow> resources \<Rightarrow> nat \<Rightarrow> nat \<Rightarrow> bool \<times> scan \<Rightarrow> bool" where
  "scanned D sub R desc avail = (\<lambda>(ok, sc). holds (sc_heap sc) (R + mset (map Some (sc_slab_blocks sc)))
     \<and> (ok \<longrightarrow> scanning D sub R desc avail sc))"

text \<open>One member, when its tag is read and its field known.\<close>

lemma scan_member_ok:
  assumes D: "desc_ok S D" and at: "length at < 2 ^ 32" and sc: "scanning D sub R desc used sc"
    and sc1: "same_scan sc sc1" "scan_env D sc1" "sc_n_unknown sc1 = sc_n_unknown sc + (if field = None then 1 else 0)"
    and field: "\<And>f. field = Some f \<Longrightarrow> f \<in> set (md_fields D) \<and> fd_id f = tag"
    and k: "\<And>len sc'. 0 < len \<Longrightarrow> len \<le> length at \<Longrightarrow> scanning D sub R desc (used + len + 1) sc'
      \<Longrightarrow> gives (scanned D sub R desc avail) (k len sc')"
  shows "gives (scanned D sub R desc avail) (bindR (scan_data wt (length at) at) (\<lambda>r. case r of
            None \<Rightarrow> Ok (False, sc1)
          | Some (len, pref_len) \<Rightarrow>
              bindR (scan_store \<lparr>sm_tag = tag, sm_wire_type = wt, sm_length_prefix_len = pref_len,
                sm_field = field, sm_len = len, sm_data = at\<rparr> sc1) (\<lambda>(ok, sc).
              if \<not> ok then Ok (False, sc)
              else bindR (scan_count \<lparr>sm_tag = tag, sm_wire_type = wt, sm_length_prefix_len = pref_len,
                sm_field = field, sm_len = len, sm_data = at\<rparr> (sc_message sc)) (\<lambda>r. case r of
                None \<Rightarrow> Ok (False, sc)
              | Some m \<Rightarrow> k len (sc\<lparr>sc_message := m\<rparr>)))))"
proof (rule gives_bind [OF scan_data_ok [OF at, where tag = tag and field = field]])
  let ?h = "\<lambda>sc. holds (sc_heap sc) (R + mset (map Some (sc_slab_blocks sc)))"
  have h: "?h sc1" using sc sc1(1) by (simp add: scanning_def same_scan_def)
  fix r assume r: "\<forall>len p. r = Some (len, p) \<longrightarrow> scanned_ok \<lparr>sm_tag = tag, sm_wire_type = wt,
      sm_length_prefix_len = p, sm_field = field, sm_len = len, sm_data = at\<rparr>"
  show "gives (scanned D sub R desc avail) (case r of
            None \<Rightarrow> Ok (False, sc1)
          | Some (len, pref_len) \<Rightarrow>
              bindR (scan_store \<lparr>sm_tag = tag, sm_wire_type = wt, sm_length_prefix_len = pref_len,
                sm_field = field, sm_len = len, sm_data = at\<rparr> sc1) (\<lambda>(ok, sc).
              if \<not> ok then Ok (False, sc)
              else bindR (scan_count \<lparr>sm_tag = tag, sm_wire_type = wt, sm_length_prefix_len = pref_len,
                sm_field = field, sm_len = len, sm_data = at\<rparr> (sc_message sc)) (\<lambda>r. case r of
                None \<Rightarrow> Ok (False, sc)
              | Some m \<Rightarrow> k len (sc\<lparr>sc_message := m\<rparr>))))"
  proof (cases r)
    case None
    then show ?thesis using h by (simp add: scanned_def)
  next
    case (Some x)
    obtain len p where x: "x = (len, p)" by (cases x)
    define tmp where "tmp = \<lparr>sm_tag = tag, sm_wire_type = wt, sm_length_prefix_len = p, sm_field = field, sm_len = len, sm_data = at\<rparr>"
    have tmp: "scanned_ok tmp" "sm_field tmp = field" "sm_len tmp = len" "sm_tag tmp = tag" using r Some x by (auto simp: tmp_def)
    have len: "0 < len" "len \<le> length at" using tmp(1) by (auto simp: scanned_ok_def tmp_def)
    have tf: "sm_field tmp = Some f \<Longrightarrow> f \<in> set (md_fields D) \<and> sm_tag tmp = fd_id f" for f using field tmp by simp
    show ?thesis unfolding Some x option.case prod.case tmp_def [symmetric]
    proof (rule gives_bind [OF scan_store_ok [OF h, of D]])
      fix y assume y: "case y of (ok, sc') \<Rightarrow> ?h sc' \<and> sc_message sc' = sc_message sc1 \<and> sc_n_unknown sc' = sc_n_unknown sc1
        \<and> (scan_env D sc1 \<longrightarrow> scan_env D sc') \<and> (ok \<longrightarrow> sc_members sc' = sc_members sc1 @ [tmp])"
      obtain ok sc2 where y': "y = (ok, sc2)" by (cases y)
      have sc2: "?h sc2" "sc_message sc2 = sc_message sc" "sc_n_unknown sc2 = sc_n_unknown sc1" "scan_env D sc2"
        "ok \<Longrightarrow> sc_members sc2 = sc_members sc @ [tmp]" using y sc1(1,2) by (auto simp: y' same_scan_def)
      have m: "blank D sub (remaining (sc_members sc)) desc (sc_message sc2)" using sc sc2(2) by (simp add: scanning_def)
      have "gives (scanned D sub R desc avail) (bindR (scan_count tmp (sc_message sc2)) (\<lambda>r. case r of
          None \<Rightarrow> Ok (False, sc2) | Some m \<Rightarrow> k len (sc2\<lparr>sc_message := m\<rparr>)))" if ok
      proof (rule gives_bind [OF scan_count_ok [OF D tmp(1) tf m]])
        fix z assume z: "\<forall>m'. z = Some m' \<longrightarrow> member_ok D tmp \<and> blank D sub (remaining (sc_members sc @ [tmp])) desc m'"
        show "gives (scanned D sub R desc avail) (case z of None \<Rightarrow> Ok (False, sc2) | Some m \<Rightarrow> k len (sc2\<lparr>sc_message := m\<rparr>))"
        proof (cases z)
          case (Some m')
          have "scanning D sub R desc (used + len + 1) (sc2\<lparr>sc_message := m'\<rparr>)"
            using sc sc1(3) sc2 \<open>ok\<close> z Some tmp by (auto simp: scanning_def scan_env_def unknowns_def)
          then show ?thesis using k len Some by simp
        qed (use sc2(1) in \<open>simp add: scanned_def\<close>)
      qed
      then show "gives (scanned D sub R desc avail) (case y of (ok, sc) \<Rightarrow> if \<not> ok then Ok (False, sc)
          else bindR (scan_count tmp (sc_message sc)) (\<lambda>r. case r of
            None \<Rightarrow> Ok (False, sc) | Some m \<Rightarrow> k len (sc\<lparr>sc_message := m\<rparr>)))"
        using sc2(1) by (simp add: y' scanned_def)
    qed
  qed
qed

lemma scan_members_ok:
  assumes D: "desc_ok S D"
  shows "length at < 2 ^ 32 \<Longrightarrow> scanning D sub R desc used sc \<Longrightarrow> used + length at \<le> avail
    \<Longrightarrow> gives (scanned D sub R desc avail) (scan_members D at sc)"
proof (induction "length at" arbitrary: at sc used rule: less_induct)
  case less
  show ?case
  proof (cases "at = []")
    case True
    then show ?thesis using less.prems by (subst scan_members.simps) (auto simp: scanned_def scanning_def)
  next
    case False
    let ?h = "\<lambda>sc. holds (sc_heap sc) (R + mset (map Some (sc_slab_blocks sc)))"
    have h: "?h sc" and env: "scan_env D sc" using less.prems(2) by (simp_all add: scanning_def)
    obtain r where r: "parse_tag_and_wiretype (length at) at = Ok r"
      "\<And>used t w. r = Some (used, t, w) \<Longrightarrow> 0 < used \<and> used \<le> length at" using tag_Ok [OF False] by blast
    show ?thesis
    proof (cases r)
      case None
      then show ?thesis using False r(1) h by (subst scan_members.simps) (simp add: scanned_def)
    next
      case (Some x)
      obtain n tag wt where x: "r = Some (n, tag, wt)" using Some by (cases x) auto
      define at' where "at' = drop n at"
      have n: "0 < n" "length at = n + length at'" using r(2) [OF x] by (auto simp: at'_def)
      have at': "length at' < 2 ^ 32" using n less.prems(1) by simp
      show ?thesis
        unfolding scan_members.simps [of D at sc] if_not_P [OF False] r(1) x bindR.simps option.case prod.case Let_def at'_def [symmetric]
      proof (rule gives_bind [OF scan_field_ok [OF D env]])
        fix y assume y: "case y of (field, sc') \<Rightarrow> same_scan sc sc' \<and> scan_env D sc'
          \<and> sc_n_unknown sc' = sc_n_unknown sc + (if field = None then 1 else 0)
          \<and> (\<forall>f. field = Some f \<longrightarrow> f \<in> set (md_fields D) \<and> fd_id f = tag)"
        obtain field sc1 where y': "y = (field, sc1)" by (cases y)
        have k: "gives (scanned D sub R desc avail) (scan_members D (drop len at') sc')"
          if "0 < len" "len \<le> length at'" "scanning D sub R desc (used + len + 1) sc'" for len sc'
          using less.hyps [of "drop len at'" "used + len + 1" sc'] that n less.prems by simp
        have y1: "same_scan sc sc1" "scan_env D sc1" "sc_n_unknown sc1 = sc_n_unknown sc + (if field = None then 1 else 0)"
          "\<And>f. field = Some f \<Longrightarrow> f \<in> set (md_fields D) \<and> fd_id f = tag" using y by (auto simp: y')
        show "gives (scanned D sub R desc avail) (case y of (field, sc) \<Rightarrow>
            bindR (scan_data wt (length at') at') (\<lambda>r. case r of
            None \<Rightarrow> Ok (False, sc)
          | Some (len, pref_len) \<Rightarrow>
              bindR (scan_store \<lparr>sm_tag = tag, sm_wire_type = wt, sm_length_prefix_len = pref_len,
                sm_field = field, sm_len = len, sm_data = at'\<rparr> sc) (\<lambda>(ok, sc).
              if \<not> ok then Ok (False, sc)
              else bindR (scan_count \<lparr>sm_tag = tag, sm_wire_type = wt, sm_length_prefix_len = pref_len,
                sm_field = field, sm_len = len, sm_data = at'\<rparr> (sc_message sc)) (\<lambda>r. case r of
                None \<Rightarrow> Ok (False, sc)
              | Some m \<Rightarrow> scan_members D (drop len at') (sc\<lparr>sc_message := m\<rparr>)))))"
          unfolding y' prod.case by (rule scan_member_ok [OF D at' less.prems(2) y1 k])
      qed
    qed
  qed
qed

end
