(* ===== verification/Pb_Unpack_Props.thy ===== *)
theory Pb_Unpack_Props imports Pb_Scan begin

text \<open>
  \<^verbatim>\<open>protobuf_c_message_unpack\<close> (\<^verbatim>\<open>protobuf-c/protobuf-c.c\<close>) as a whole: on any input, and whichever
  allocations fail, it returns nothing and leaves no block behind, or a well-formed message that owns
  every block allocated for it.
\<close>

section \<open>Allocating the arrays\<close>

lemma member_count_le: "member_ok D sm \<Longrightarrow> sm_field sm = Some f \<Longrightarrow> fd_label f = LABEL_REPEATED \<Longrightarrow> member_count sm f \<le> sm_len sm"
proof (cases "packed_member sm f")
  case True
  assume sm: "member_ok D sm" "sm_field sm = Some f" "fd_label f = LABEL_REPEATED"
  then obtain k where k: "packed_count sm f = Ok (Some k)" using True by (auto simp: member_ok_def)
  let ?rem = "sm_len sm - sm_length_prefix_len sm" and ?at = "drop (sm_length_prefix_len sm) (sm_data sm)"
  have "?rem \<le> length ?at" using sm(1) by (auto simp: member_ok_def scanned_ok_def)
  then have "k \<le> ?rem"
    using counted_kinds [of "fd_type f" ?rem ?at k] k by (auto simp: packed_count_def)
  then show ?thesis using True k by (simp add: member_count_def)
qed (auto simp: member_count_def member_ok_def scanned_ok_def)

lemma remaining_le:
  assumes "\<forall>sm\<in>set sms. member_ok D sm" and "fd_label f = LABEL_REPEATED"
  shows "remaining sms f \<le> (\<Sum>sm\<leftarrow>sms. sm_len sm + 1)"
  using assms(1)
proof (induction sms)
  case (Cons sm sms)
  then show ?case using member_count_le [of D sm f] assms(2) by auto
qed simp

text \<open>The counts while the fields \<open>fs\<close> are still to be looked at.\<close>

definition allocating :: "(field_desc \<Rightarrow> nat) \<Rightarrow> field_desc list \<Rightarrow> count_inv" where
  "allocating c fs f n arr \<longleftrightarrow> (if f \<in> set fs then count_blank c f n arr else count_parsing c f n arr)"

definition clearing :: "field_desc list \<Rightarrow> count_inv" where
  "clearing fs f n arr \<longleftrightarrow> (if f \<in> set fs then arr = None else count_freeable f n arr)"

lemma clearing_freeable: "clearing fs f n arr \<Longrightarrow> count_freeable f n arr"
  by (auto simp: clearing_def split: if_splits)

lemma allocating_clearing: "allocating c fs f n arr \<Longrightarrow> clearing fs f n arr"
  using count_parsing_freeable by (auto simp: allocating_def clearing_def count_blank_def split: if_splits)

text \<open>A message of fields not yet parsed.\<close>

definition prepared :: "message_desc \<Rightarrow> (nat \<Rightarrow> message \<Rightarrow> bool) \<Rightarrow> resources \<Rightarrow> count_inv \<Rightarrow> message \<Rightarrow> message \<Rightarrow> pb_heap \<Rightarrow> bool" where
  "prepared D sub R Q m0 m h \<longleftrightarrow> same_but_members m0 m \<and> holds h (R + message_res m)
     \<and> (\<exists>g. members_map m g \<and> message_inv D sub Q g)"

lemma prepared_mono:
  assumes "\<And>f n arr. f \<in> set (md_fields D) \<Longrightarrow> fd_label f = LABEL_REPEATED \<Longrightarrow> Q f n arr \<Longrightarrow> Q' f n arr" and "prepared D sub R Q m0 m h"
  shows "prepared D sub R Q' m0 m h"
  using assms(2) message_inv_counts [OF assms(1)] by (auto simp: prepared_def)

lemma set_count_ok:
  assumes D: "desc_ok S D" and f: "f \<in> set (md_fields D)" "fd_label f = LABEL_REPEATED" and m: "prepared D sub R Q m0 m h"
    and q: "\<And>n' arr. Q f n' arr \<Longrightarrow> Q' f n arr" "\<And>f' n arr. f' \<in> set (md_fields D) \<Longrightarrow> f' \<noteq> f \<Longrightarrow> Q f' n arr \<Longrightarrow> Q' f' n arr"
  shows "gives (\<lambda>m'. prepared D sub R Q' m0 m' h) (set_member m (fd_quantifier_offset f) (V64 n))"
proof -
  obtain g where g: "members_map m g" "message_inv D sub Q g" using m by (auto simp: prepared_def)
  obtain s where s: "g (fd_quantifier_offset f) = Some s" "slot_res s = {#}" using inv_repeatedE [OF g(2) f] by metis
  have "message_inv D sub Q' (g(fd_quantifier_offset f \<mapsto> V64 n))" by (rule inv_set_count [OF D f g(2)]) (use q in blast)+
  then show ?thesis using gives_set_member [OF g(1) s(1), of "V64 n"] m s(2)
    by (elim gives_mono) (auto simp: prepared_def same_but_members_def)
qed

lemma clear_remaining_ok:
  assumes D: "desc_ok S D"
  shows "set fs \<subseteq> set fs' \<Longrightarrow> set fs \<subseteq> set (md_fields D) \<Longrightarrow> prepared D sub R (clearing fs') m0 m h
    \<Longrightarrow> gives (\<lambda>m'. prepared D sub R (clearing fs') m0 m' h) (clear_remaining fs m)"
proof (induction fs arbitrary: m)
  case (Cons f fs)
  have "gives (\<lambda>m'. prepared D sub R (clearing fs') m0 m' h)
      (if fd_label f = LABEL_REPEATED then set_member m (fd_quantifier_offset f) (V64 0) else Ok m)"
  proof (cases "fd_label f = LABEL_REPEATED")
    case True
    have "clearing fs' f n' arr \<Longrightarrow> clearing fs' f 0 arr" for n' arr using Cons.prems(1) by (simp add: clearing_def)
    then show ?thesis using True Cons.prems(2) by (auto intro!: set_count_ok [OF D _ _ Cons.prems(3)])
  qed (use Cons.prems(3) in simp)
  then show ?case using Cons by (auto intro: gives_bind)
qed simp

text \<open>The outcome: every array has room for what was counted, or the message can be freed.\<close>

definition allocated :: "message_desc \<Rightarrow> (nat \<Rightarrow> message \<Rightarrow> bool) \<Rightarrow> resources \<Rightarrow> (field_desc \<Rightarrow> nat) \<Rightarrow> message
    \<Rightarrow> bool \<times> message \<times> pb_heap \<Rightarrow> bool" where
  "allocated D sub R c m0 = (\<lambda>(ok, m, h). prepared D sub R (if ok then count_parsing c else count_freeable) m0 m h)"

lemma allocate_fails:
  assumes "desc_ok S D" and "set fs \<subseteq> set (md_fields D)" and m: "prepared D sub R (clearing fs) m0 m h"
  shows "gives (allocated D sub R c m0) (bindR (clear_remaining fs m) (\<lambda>m. Ok (False, m, h)))"
proof (rule gives_bind [OF clear_remaining_ok [OF assms(1) subset_refl assms(2) m]])
  fix m' assume "prepared D sub R (clearing fs) m0 m' h"
  then show "gives (allocated D sub R c m0) (Ok (False, m', h))"
    using clearing_freeable prepared_mono [of D "clearing fs" count_freeable] by (auto simp: allocated_def)
qed

text \<open>The array of one field.\<close>

lemma allocate_array_ok:
  assumes D: "desc_ok S D" and f: "f \<in> set (md_fields D)" "fd_label f = LABEL_REPEATED" "f \<notin> set fs" "set fs \<subseteq> set (md_fields D)"
    and c: "0 < c f" and m: "prepared D sub R (allocating c (f # fs)) m0 m h"
    and k: "\<And>m h. prepared D sub R (allocating c fs) m0 m h \<Longrightarrow> gives (allocated D sub R c m0) (k m h)"
  shows "gives (allocated D sub R c m0) (bindR (set_member m (fd_quantifier_offset f) (V64 0)) (\<lambda>m.
          case do_alloc sz h of
            (None, h) \<Rightarrow> bindR (clear_remaining fs m) (\<lambda>m. Ok (False, m, h))
          | (Some blk, h) \<Rightarrow> bindR (set_member m (fd_offset f) (VArr (Some (blk, c f, [])))) (\<lambda>m. k m h)))"
proof -
  define Q where "Q f' n arr \<longleftrightarrow> (if f' = f then n = 0 \<and> arr = None else allocating c fs f' n arr)" for f' n arr
  have Q: "gives (\<lambda>m'. prepared D sub R Q m0 m' h) (set_member m (fd_quantifier_offset f) (V64 0))"
    by (rule set_count_ok [OF D f(1,2) m]) (auto simp: Q_def allocating_def count_blank_def)
  show ?thesis
  proof (rule gives_bind [OF Q])
    fix m1 assume m1: "prepared D sub R Q m0 m1 h"
    obtain g where g: "members_map m1 g" "message_inv D sub Q g" using m1 by (auto simp: prepared_def)
    have h: "holds h (R + message_res m1)" "same_but_members m0 m1" using m1 by (simp_all add: prepared_def)
    show "gives (allocated D sub R c m0) (case do_alloc sz h of
            (None, h) \<Rightarrow> bindR (clear_remaining fs m1) (\<lambda>m. Ok (False, m, h))
          | (Some blk, h) \<Rightarrow> bindR (set_member m1 (fd_offset f) (VArr (Some (blk, c f, [])))) (\<lambda>m. k m h))"
    proof (cases "do_alloc sz h")
      case (Pair p h1)
      show ?thesis
      proof (cases p)
        case None
        have "Q f' n arr \<Longrightarrow> clearing fs f' n arr" for f' n arr
          using f(3) allocating_clearing by (auto simp: Q_def clearing_def split: if_splits)
        then have "message_inv D sub (clearing fs) g" using message_inv_counts g(2) by metis
        then have "prepared D sub R (clearing fs) m0 m1 h1"
          using holds_alloc_fails [OF h(1) Pair [unfolded None]] h(2) g(1) by (auto simp: prepared_def)
        then show ?thesis using allocate_fails [OF D f(4)] Pair None by simp
      next
        case (Some blk)
        have h1: "holds h1 (add_mset (Some blk) (R + message_res m1))" using holds_alloc [OF h(1) Pair [unfolded Some]] .
        obtain s n w arr where r: "g (fd_quantifier_offset f) = Some s" "as64 s = Ok n" "g (fd_offset f) = Some w"
          "Q f n arr" "slot_res w = slot_res (VArr arr)"
          using inv_repeatedE [OF g(2) f(1,2)] by metis
        have w: "slot_res w = {#}" "n = 0" using r(4,5) by (auto simp: Q_def)
        let ?arr = "Some (blk, c f, []) :: (nat \<times> nat \<times> slot list) option"
        have inv: "message_inv D sub (allocating c fs) (g(fd_offset f \<mapsto> VArr ?arr))"
        proof (rule message_inv_frame [OF D f(1) g(2)])
          show "field_inv (md_fields D) sub (allocating c fs) (g(fd_offset f \<mapsto> VArr ?arr)) f'" if "f' = f \<or> same_oneof f f'" for f'
            using that repeated_not_oneof [OF D f(1,2)] f(2,3) r w(2) c
            by (auto simp: field_inv_def repeated_inv_def same_oneof_def allocating_def)
          show "slot_res v = {#}" if "(g(fd_offset f \<mapsto> VArr ?arr)) (fd_quantifier_offset f) = Some v" for v
            using that r(1,2) repeated_not_oneof [OF D f(1,2)] as64_plain by auto
        qed (auto simp: Q_def)
        have "gives (allocated D sub R c m0) (bindR (set_member m1 (fd_offset f) (VArr ?arr)) (\<lambda>m. k m h1))"
        proof (rule gives_bind [OF gives_set_member [OF g(1) r(3)]], elim conjE exE, rule k)
          fix m' X assume "members_map m' (g(fd_offset f \<mapsto> VArr ?arr))" "same_but_members m1 m'"
            "message_res m1 = X + slot_res w" "message_res m' = X + slot_res (VArr ?arr)"
          then show "prepared D sub R (allocating c fs) m0 m' h1"
            using inv h(2) h1 w(1) by (auto simp: prepared_def same_but_members_def)
        qed
        then show ?thesis by (simp add: Pair Some)
      qed
    qed
  qed
qed

lemma required_bit: "i < length (md_fields D) \<Longrightarrow> length (md_fields D) \<le> 8 * length bm \<Longrightarrow> \<exists>b. REQUIRED_FIELD_BITMAP_IS_SET i bm = Ok b"
  by (auto simp: REQUIRED_FIELD_BITMAP_IS_SET_def get_def)

lemma allocate_fields_ok:
  assumes D: "desc_ok S D" and c: "\<And>f. fd_label f = LABEL_REPEATED \<Longrightarrow> c f < 2 ^ 32" and bm: "length (md_fields D) \<le> 8 * length bm"
  shows "distinct fs \<Longrightarrow> set fs \<subseteq> set (md_fields D) \<Longrightarrow> i + length fs = length (md_fields D)
    \<Longrightarrow> prepared D sub R (allocating c fs) m0 m h \<Longrightarrow> gives (allocated D sub R c m0) (allocate_fields fs i bm m h)"
proof (induction fs arbitrary: i m h)
  case Nil
  then show ?case by (simp add: allocated_def allocating_def [abs_def])
next
  case (Cons f fs)
  have f: "f \<in> set (md_fields D)" "f \<notin> set fs" "distinct fs" "set fs \<subseteq> set (md_fields D)" using Cons.prems by auto
  have IH: "gives (allocated D sub R c m0) (allocate_fields fs (i + 1) bm m h)" if "prepared D sub R (allocating c fs) m0 m h" for m h
    using Cons.IH [OF f(3,4) _ that] Cons.prems(3) by simp
  show ?case
  proof (cases "fd_label f = LABEL_REPEATED")
    case True
    obtain g where g: "members_map m g" "message_inv D sub (allocating c (f # fs)) g" using Cons.prems(4) by (auto simp: prepared_def)
    obtain s n arr where r: "g (fd_quantifier_offset f) = Some s" "as64 s = Ok n" "allocating c (f # fs) f n arr"
      using inv_repeatedE [OF g(2) f(1) True] by metis
    have n: "n = of_nat (c f)" using r(3) by (simp add: allocating_def count_blank_def)
    have q: "quantifier_size m (fd_quantifier_offset f) = Ok n" using r by (simp add: quantifier_size_def STRUCT_MEMBER_map [OF g(1)])
    have n32: "unat (ucast n :: u32) = c f" using c [OF True] by (simp add: n unsigned_ucast_eq unat_of_nat take_bit_eq_mod)
    have n0: "n = 0 \<longleftrightarrow> c f = 0" using n32 n by auto
    show ?thesis
    proof (cases "c f = 0")
      case z: True
      have "prepared D sub R (allocating c fs) m0 m h"
        by (rule prepared_mono [OF _ Cons.prems(4)]) (use f(2) z in \<open>auto simp: allocating_def count_blank_def split: if_splits\<close>)
      then show ?thesis using IH True n0 z by (simp add: q)
    next
      case False
      then show ?thesis
        using allocate_array_ok [OF D f(1) True f(2,4) _ Cons.prems(4) IH] True n0 by (simp add: q n32 Let_def)
    qed
  next
    case False
    have m: "prepared D sub R (allocating c fs) m0 m h"
      by (rule prepared_mono [OF _ Cons.prems(4)]) (use False in \<open>auto simp: allocating_def split: if_splits\<close>)
    have "prepared D sub R (clearing fs) m0 m h" using prepared_mono [OF _ m] allocating_clearing by metis
    note fails = allocate_fails [OF D f(4) this]
    obtain b where "REQUIRED_FIELD_BITMAP_IS_SET i bm = Ok b" using required_bit [of i D bm] bm Cons.prems(3) by auto
    then show ?thesis using False IH [OF m] fails by simp
  qed
qed

lemma allocate_unknown_ok:
  assumes m: "prepared D sub R (count_parsing (remaining sms)) m0 m h" and m0: "unknown_block m0 = None" "unknown_fields m0 = []"
    and D: "descriptor m0 = desc"
  shows "gives (member_parsed D sub R desc sms) (allocate_unknown (unknowns sms) m h)"
proof -
  obtain g where g: "members_map m g" "message_inv D sub (count_parsing (remaining sms)) g" using m by (auto simp: prepared_def)
  have u: "unknown_block m = None" "unknown_fields m = []" "descriptor m = desc" and h: "holds h (R + message_res m)"
    using m m0 D by (auto simp: prepared_def same_but_members_def)
  have um: "unknown_ok m" using u(2) by (simp add: unknown_ok_def)
  have fr: "freeable D sub m" by (rule freeableI [OF g um])
  show ?thesis
  proof (cases "unknowns sms = 0")
    case True
    then show ?thesis using g u um fr h by (auto simp: allocate_unknown_def member_parsed_def parsing_def unknown_room_def)
  next
    case False
    show ?thesis
    proof (cases "do_alloc (of_nat (unknowns sms) * 24) h")
      case (Pair p h1)
      show ?thesis
      proof (cases p)
        case None
        then show ?thesis using Pair False u(3) fr holds_alloc_fails [OF h Pair [unfolded None]]
          by (simp add: allocate_unknown_def member_parsed_def)
      next
        case (Some blk)
        define m' where "m' = Message (descriptor m) (members m) (Some (blk, unknowns sms)) (unknown_fields m)"
        have g': "members_map m' g" using g(1) by (simp add: m'_def members_map_def)
        have um': "unknown_ok m'" using um by (simp add: m'_def unknown_ok_def)
        have "parsing D sub sms m'" using g' g(2) um' u(2) by (auto simp: parsing_def unknown_room_def m'_def)
        moreover have "message_res m' = add_mset (Some blk) (message_res m)"
          by (simp add: message_res_split unknown_res_def m'_def u)
        ultimately have "member_parsed D sub R desc sms (True, m', h1)"
          using holds_alloc [OF h Pair [unfolded Some]] freeableI [OF g' g(2) um'] u(3)
          by (simp add: member_parsed_def m'_def)
        then show ?thesis using Pair Some False by (simp add: allocate_unknown_def m'_def)
      qed
    qed
  qed
qed

section \<open>The bitmap and the slabs\<close>

lemma alloc_bitmap_ok:
  assumes "holds h R" and "alloc_bitmap n h = (r, h')"
  shows "case r of None \<Rightarrow> holds h' R
    | Some (bm, blk) \<Rightarrow> n \<le> 8 * length bm \<and> holds h' (R + (case blk of None \<Rightarrow> {#} | Some b \<Rightarrow> {#Some b#}))"
proof (cases "16 < (n + 7) div 8")
  case True
  show ?thesis
  proof (cases "do_alloc (of_nat ((n + 7) div 8)) h")
    case (Pair p h1)
    then show ?thesis using assms True holds_alloc [OF assms(1), of "of_nat ((n + 7) div 8)" _ h1] holds_alloc_fails [OF assms(1), of "of_nat ((n + 7) div 8)" h1]
      by (cases p) (auto simp: alloc_bitmap_def Let_def)
  qed
next
  case False
  then show ?thesis using assms by (auto simp: alloc_bitmap_def Let_def)
qed

lemma free_scan_ok:
  assumes "holds h (R + (case blk of None \<Rightarrow> {#} | Some b \<Rightarrow> {#Some b#}) + mset (map Some (sc_slab_blocks sc)))"
  shows "gives (\<lambda>h'. holds h' R) (free_scan sc blk h)"
  unfolding free_scan_def
proof (rule gives_bind)
  have "mset (map Some bs) = (\<Sum>b\<leftarrow>bs. {#Some b#})" for bs :: "nat list" by (induction bs) auto
  then show "gives (\<lambda>h'. holds h' (R + (case blk of None \<Rightarrow> {#} | Some b \<Rightarrow> {#Some b#})))
      (each_heap (\<lambda>b. do_free (Some b)) (sc_slab_blocks sc) h)"
    using assms by (intro gives_each_heap [where res = "\<lambda>b. {#Some b#}"] gives_free) auto
next
  fix h' assume "holds h' (R + (case blk of None \<Rightarrow> {#} | Some b \<Rightarrow> {#Some b#}))"
  then show "gives (\<lambda>h'. holds h' R) (do_free blk h')" by (cases blk) (auto intro: gives_free)
qed

section \<open>The whole\<close>

definition unpack_ops :: "schema \<Rightarrow> nat \<Rightarrow> nested" where
  "unpack_ops S d = \<lparr>nested_unpack = protobuf_c_message_unpack S d, nested_merge = merge_messages S d,
     nested_free = protobuf_c_message_free_unpacked S d\<rparr>"

definition block_res :: "nat option \<Rightarrow> resources" where
  "block_res blk = (case blk of None \<Rightarrow> {#} | Some b \<Rightarrow> {#Some b#})"

text \<open>What is left when the members are parsed: giving back the slabs and the bitmap, and the message
  when parsing failed.\<close>

definition scratch_res :: "scan \<Rightarrow> nat option \<Rightarrow> resources" where
  "scratch_res sc blk = block_res blk + mset (map Some (sc_slab_blocks sc))"

lemma free_scratch_ok: "holds h (R + scratch_res sc blk) \<Longrightarrow> gives (\<lambda>h'. holds h' R) (free_scan sc blk h)"
  by (rule free_scan_ok) (simp add: scratch_res_def block_res_def ac_simps)

lemma finish_ok:
  assumes S: "schema_ok S" and desc: "desc < length S"
    and x: "member_parsed (S ! desc) (message_ok S d) (add_mset (Some rv) (R + scratch_res sc blk)) desc [] x"
  shows "gives (unpacked (message_ok S (Suc d)) R desc) (case x of (ok, m, h) \<Rightarrow>
       if ok then bindR (free_scan sc blk h) (\<lambda>h. Ok (Some (rv, m), h))
       else bindR (protobuf_c_message_free_unpacked S (Suc d) (rv, m) h) (\<lambda>h. bindR (free_scan sc blk h) (\<lambda>h. Ok (None, h))))"
proof -
  obtain ok m h where r: "x = (ok, m, h)" by (cases x)
  have h: "holds h (add_mset (Some rv) ((R + scratch_res sc blk) + message_res m))" "holds h (add_mset (Some rv) (R + message_res m) + scratch_res sc blk)"
    using x by (simp_all add: r member_parsed_def ac_simps)
  show ?thesis
  proof (cases ok)
    case True
    then have m: "message_ok S (Suc d) desc m" using x desc parsing_complete by (auto simp: r member_parsed_def)
    then show ?thesis using True free_scratch_ok [OF h(2)] by (auto simp: r unpacked_def intro: gives_bind)
  next
    case False
    have m: "freeable (S ! desc) (message_ok S d) m" "get_desc S (descriptor m) = Ok (S ! desc)"
      using x desc by (simp_all add: r member_parsed_def get_desc_def)
    note free = gives_free_freeable [OF schema_okD [OF S desc] m(2,1) frees_message_ok [OF S] h(1)]
    have "gives (unpacked (message_ok S (Suc d)) R desc) (bindR (protobuf_c_message_free_unpacked S (Suc d) (rv, m) h)
        (\<lambda>h. bindR (free_scan sc blk h) (\<lambda>h. Ok (None, h))))"
      by (rule gives_bind [OF free], rule gives_bind [OF free_scratch_ok]) (simp_all add: unpacked_def)
    then show ?thesis using False by (simp add: r)
  qed
qed

lemma parse_scanned_ok:
  assumes ops: "nested_ops S (message_ok S d) (unpack_ops S d) d" and S: "schema_ok S" and desc: "desc < length S"
    and len: "len < Suc d" "len < 2 ^ 32"
    and sc: "scanning (S ! desc) (message_ok S d) (add_mset (Some rv) (R + block_res blk) + replicate_mset len None) desc len sc"
  shows "gives (unpacked (message_ok S (Suc d)) R desc)
    (parse_scanned (protobuf_c_message_free_unpacked S (Suc d)) (unpack_ops S d) (S ! desc) rv sc blk)"
proof -
  let ?D = "S ! desc" and ?sub = "message_ok S d" and ?sms = "sc_members sc" and ?T = "replicate_mset len (None :: nat option)"
  define R0 where "R0 = add_mset (Some rv) (R + scratch_res sc blk)"
  have D: "desc_ok S ?D" using schema_okD [OF S desc] .
  have sms: "\<forall>sm\<in>set ?sms. member_ok ?D sm" "(\<Sum>sm\<leftarrow>?sms. sm_len sm + 1) \<le> len" using sc by (simp_all add: scanning_def)
  have c: "remaining ?sms f < 2 ^ 32" if "fd_label f = LABEL_REPEATED" for f
    using remaining_le [OF sms(1) that] sms(2) len(2) by linarith
  have bm: "length (md_fields ?D) \<le> 8 * length (sc_bitmap sc)" using sc by (simp add: scanning_def scan_env_def)
  obtain m0 where m0: "m0 = sc_message sc" by simp
  have blank: "blank ?D ?sub (remaining ?sms) desc m0" using sc by (simp add: scanning_def m0)
  have start: "prepared ?D ?sub (R0 + ?T) (allocating (remaining ?sms) (md_fields ?D)) m0 m0 (sc_heap sc)"
  proof -
    obtain g where g: "members_map m0 g" "message_inv ?D ?sub (count_blank (remaining ?sms)) g" using blank by (auto simp: blank_def)
    have "message_inv ?D ?sub (allocating (remaining ?sms) (md_fields ?D)) g"
      by (rule message_inv_counts [OF _ g(2)]) (simp add: allocating_def)
    then show ?thesis using g(1) sc blank by (auto simp: prepared_def scanning_def same_but_members_refl blank_def R0_def scratch_res_def ac_simps)
  qed
  have weaken: "member_parsed ?D ?sub R0 desc [] (False, m, h)" if "member_parsed ?D ?sub (R0 + ?T) desc sms' (ok, m, h)" for sms' ok m h
    using that holds_weaken [of h "R0 + message_res m" len] by (simp add: member_parsed_def ac_simps)
  have parse: "gives (member_parsed ?D ?sub R0 desc []) (if ok then parse_members (unpack_ops S d) ?D ?sms m h else Ok (False, m, h))"
    if p: "member_parsed ?D ?sub (R0 + ?T) desc ?sms (ok, m, h)" for ok m h
  proof (cases ok)
    case True
    have "holds h (R0 + message_res m + ?T)" using p by (simp add: member_parsed_def ac_simps)
    then have "holds h (R0 + message_res m + replicate_mset (\<Sum>sm\<leftarrow>?sms. sm_len sm + 1) None)" using holds_fewer sms(2) by blast
    moreover have "sm_len sm \<le> d" if "sm \<in> set ?sms" for sm
      using member_le_sum_list [of "sm_len sm + 1" "map (\<lambda>sm. sm_len sm + 1) ?sms"] that sms(2) len(1) by auto
    ultimately show ?thesis
      using nested_ops.parse_members_ok [OF ops S D, of ?sms m h R0] p sms(1) True by (auto simp: member_parsed_def)
  qed (use weaken [OF p] in simp)
  have unknown: "gives (member_parsed ?D ?sub (R0 + ?T) desc ?sms)
      (if ok then allocate_unknown (sc_n_unknown sc) m h else Ok (False, m, h))"
    if p: "allocated ?D ?sub (R0 + ?T) (remaining ?sms) m0 (ok, m, h)" for ok m h
  proof (cases ok)
    case True
    then show ?thesis using allocate_unknown_ok [of ?D ?sub "R0 + ?T" ?sms m0 m h desc] p blank sc
      by (simp add: allocated_def blank_def scanning_def)
  next
    case False
    have "freeable ?D ?sub m" "descriptor m = desc" "holds h (R0 + ?T + message_res m)"
      using p False blank by (auto simp: allocated_def prepared_def freeable_def same_but_members_def unknown_ok_def blank_def)
    then show ?thesis using False by (simp add: member_parsed_def)
  qed
  note fields = allocate_fields_ok [OF D c bm desc_distinct [OF D] subset_refl _ start]
  show ?thesis unfolding parse_scanned_def m0 [symmetric]
  proof (rule gives_bind [OF fields])
    fix x assume x: "allocated ?D ?sub (R0 + ?T) (remaining ?sms) m0 x"
    obtain ok m h where r: "x = (ok, m, h)" by (cases x)
    show "gives (unpacked (message_ok S (Suc d)) R desc) (case x of (ok, m, h) \<Rightarrow>
       bindR (if ok then allocate_unknown (sc_n_unknown sc) m h else Ok (False, m, h)) (\<lambda>(ok, m, h).
       bindR (if ok then parse_members (unpack_ops S d) ?D ?sms m h else Ok (False, m, h)) (\<lambda>(ok, m, h).
       if ok then bindR (free_scan sc blk h) (\<lambda>h. Ok (Some (rv, m), h))
       else bindR (protobuf_c_message_free_unpacked S (Suc d) (rv, m) h) (\<lambda>h. bindR (free_scan sc blk h) (\<lambda>h. Ok (None, h))))))"
      unfolding r prod.case
    proof (rule gives_bind [OF unknown [OF x [unfolded r]]])
      fix y assume y: "member_parsed ?D ?sub (R0 + ?T) desc ?sms y"
      obtain ok m h where r: "y = (ok, m, h)" by (cases y)
      show "gives (unpacked (message_ok S (Suc d)) R desc) (case y of (ok, m, h) \<Rightarrow>
       bindR (if ok then parse_members (unpack_ops S d) ?D ?sms m h else Ok (False, m, h)) (\<lambda>(ok, m, h).
       if ok then bindR (free_scan sc blk h) (\<lambda>h. Ok (Some (rv, m), h))
       else bindR (protobuf_c_message_free_unpacked S (Suc d) (rv, m) h) (\<lambda>h. bindR (free_scan sc blk h) (\<lambda>h. Ok (None, h)))))"
        unfolding r prod.case
        by (rule gives_bind [OF parse [OF y [unfolded r]]], rule finish_ok [OF S desc], unfold R0_def)
    qed
  qed (simp_all add: add_0)
qed

text \<open>The first state of the scanner.\<close>

lemma scanning_start:
  assumes "holds h R" and "blank D sub (\<lambda>_. 0) desc m" and "length (md_fields D) \<le> 8 * length bm"
  shows "scanning D sub R desc 0 \<lparr>sc_message = m, sc_heap = h, sc_members = [], sc_slab_blocks = [],
     sc_which_slab = 0, sc_in_slab_index = 0, sc_n_unknown = 0,
     sc_last_field = (case md_fields D of [] \<Rightarrow> None | f # _ \<Rightarrow> Some f), sc_last_field_index = 0, sc_bitmap = bm\<rparr>"
proof -
  have "remaining [] = (\<lambda>_. 0)" by (simp add: fun_eq_iff)
  then show ?thesis using assms by (cases "md_fields D") (auto simp: scanning_def scan_env_def unknowns_def)
qed

lemma unpack_unfold:
  assumes "desc < length S" and "md_magic (S ! desc) = MESSAGE_DESCRIPTOR_MAGIC"
  shows "protobuf_c_message_unpack S (Suc d) desc data h = (case do_alloc (sizeof_message (S ! desc)) h of
       (None, h) \<Rightarrow> Ok (None, h)
     | (Some rv, h) \<Rightarrow> (case alloc_bitmap (length (md_fields (S ! desc))) h of
         (None, h) \<Rightarrow> bindR (do_free (Some rv) h) (\<lambda>h. Ok (None, h))
       | (Some (bitmap, bitmap_block), h) \<Rightarrow>
           bindR (if message_init (S ! desc) \<noteq> None then protobuf_c_message_init desc (S ! desc)
             else message_init_generic desc (S ! desc)) (\<lambda>m.
           bindR (scan_members (S ! desc) data \<lparr>sc_message = m, sc_heap = h, sc_members = [], sc_slab_blocks = [],
               sc_which_slab = 0, sc_in_slab_index = 0, sc_n_unknown = 0,
               sc_last_field = (case md_fields (S ! desc) of [] \<Rightarrow> None | f # _ \<Rightarrow> Some f), sc_last_field_index = 0,
               sc_bitmap = bitmap\<rparr>) (\<lambda>(ok, sc).
           if ok then parse_scanned (protobuf_c_message_free_unpacked S (Suc d)) (unpack_ops S d) (S ! desc) rv sc bitmap_block
           else bindR (do_free (Some rv) (sc_heap sc)) (\<lambda>h.
             bindR (free_scan sc bitmap_block h) (\<lambda>h. Ok (None, h)))))))"
  using assms by (simp only: protobuf_c_message_unpack.simps unpack_ops_def get_desc_def if_True bindR.simps guardR_def refl)

lemma unpack_step:
  assumes ops: "nested_ops S (message_ok S d) (unpack_ops S d) d" and S: "schema_ok S" and desc: "desc < length S"
    and len: "length data < Suc d" and h: "holds h (R + replicate_mset (length data) None)"
  shows "gives (unpacked (message_ok S (Suc d)) R desc) (protobuf_c_message_unpack S (Suc d) desc data h)"
proof -
  let ?D = "S ! desc" and ?sub = "message_ok S d" and ?T = "replicate_mset (length data) (None :: nat option)"
  let ?U = "unpacked (message_ok S (Suc d)) R desc"
  have D: "desc_ok S ?D" using schema_okD [OF S desc] .
  have mg: "md_magic ?D = MESSAGE_DESCRIPTOR_MAGIC" using D by (simp add: desc_ok_def)
  have len32: "length data < 2 ^ 32" using h by (simp add: holds_def)
  have none: "?U (None, h')" if "holds h' (R + ?T)" for h' using holds_weaken [OF that] by (simp add: unpacked_def)
  show ?thesis
  proof (cases "do_alloc (sizeof_message ?D) h")
    case a: (Pair p h1)
    show ?thesis
    proof (cases p)
      case None
      then show ?thesis unfolding unpack_unfold [OF desc mg] a using none [OF holds_alloc_fails [OF h a [unfolded None]]] by simp
    next
      case (Some rv)
      have h1: "holds h1 (add_mset (Some rv) (R + ?T))" using holds_alloc [OF h a [unfolded Some]] .
      show ?thesis
      proof (cases "alloc_bitmap (length (md_fields ?D)) h1")
        case b: (Pair q h2)
        show ?thesis
        proof (cases q)
          case None
          have "holds h2 (add_mset (Some rv) (R + ?T))" using alloc_bitmap_ok [OF h1 b] None by simp
          then have "gives ?U (bindR (do_free (Some rv) h2) (\<lambda>h. Ok (None, h)))" by (auto intro!: gives_bind [OF gives_free] none)
          then show ?thesis unfolding unpack_unfold [OF desc mg] a Some b None prod.case option.case .
        next
          case (Some r)
          obtain bm blk where r: "r = (bm, blk)" by (cases r)
          define R' where "R' = add_mset (Some rv) (R + block_res blk) + ?T"
          have h2: "holds h2 R'" and bm: "length (md_fields ?D) \<le> 8 * length bm"
            using alloc_bitmap_ok [OF h1 b] by (auto simp: Some r R'_def block_res_def ac_simps)
          show ?thesis unfolding unpack_unfold [OF desc mg] a \<open>p = Some rv\<close> b Some r prod.case option.case
          proof (rule gives_bind [OF init_ok [OF D]])
            fix m assume m: "blank ?D ?sub (\<lambda>_. 0) desc m"
            note start = scanning_start [OF h2 m bm]
            show "gives ?U (bindR (scan_members ?D data \<lparr>sc_message = m, sc_heap = h2, sc_members = [], sc_slab_blocks = [],
               sc_which_slab = 0, sc_in_slab_index = 0, sc_n_unknown = 0,
               sc_last_field = (case md_fields ?D of [] \<Rightarrow> None | f # _ \<Rightarrow> Some f), sc_last_field_index = 0, sc_bitmap = bm\<rparr>)
             (\<lambda>(ok, sc). if ok then parse_scanned (protobuf_c_message_free_unpacked S (Suc d)) (unpack_ops S d) ?D rv sc blk
               else bindR (do_free (Some rv) (sc_heap sc)) (\<lambda>h. bindR (free_scan sc blk h) (\<lambda>h. Ok (None, h)))))"
            proof (rule gives_bind [OF scan_members_ok [OF D len32 start, of "length data"]])
              fix x assume x: "scanned ?D ?sub R' desc (length data) x"
              obtain ok sc where y: "x = (ok, sc)" by (cases x)
              have "gives ?U (bindR (do_free (Some rv) (sc_heap sc)) (\<lambda>h. bindR (free_scan sc blk h) (\<lambda>h. Ok (None, h))))"
              proof (rule gives_bind [OF gives_free])
                show "holds (sc_heap sc) (add_mset (Some rv) (R + ?T + block_res blk + mset (map Some (sc_slab_blocks sc))))"
                  using x by (simp add: y scanned_def R'_def ac_simps)
              next
                fix h' assume "holds h' (R + ?T + block_res blk + mset (map Some (sc_slab_blocks sc)))"
                then show "gives ?U (bindR (free_scan sc blk h') (\<lambda>h. Ok (None, h)))"
                  by (intro gives_bind [OF free_scan_ok [of h' "R + ?T"]]) (simp_all add: block_res_def none)
              qed
              moreover have "gives ?U (parse_scanned (protobuf_c_message_free_unpacked S (Suc d)) (unpack_ops S d) ?D rv sc blk)" if ok
                using parse_scanned_ok [OF ops S desc len len32] x that by (simp add: y scanned_def R'_def)
              ultimately show "gives ?U (case x of (ok, sc) \<Rightarrow>
                  if ok then parse_scanned (protobuf_c_message_free_unpacked S (Suc d)) (unpack_ops S d) ?D rv sc blk
                  else bindR (do_free (Some rv) (sc_heap sc)) (\<lambda>h. bindR (free_scan sc blk h) (\<lambda>h. Ok (None, h))))"
                by (simp add: y)
            qed simp
          qed
        qed
      qed
    qed
  qed
qed

lemma unpack_ops_ok: "nested_ops S (message_ok S d) (unpack_ops S d) d"
proof (induction d)
  case 0
  show ?case
    by (rule nested_ops.intro) (simp_all add: unpack_ops_def merges_def frees_def)
next
  case (Suc d)
  show ?case
  proof (rule nested_ops.intro)
    show "gives (unpacked (message_ok S (Suc d)) R desc) (nested_unpack (unpack_ops S (Suc d)) desc body h)"
      if "schema_ok S" "desc < length S" "length body < Suc d" "holds h (R + replicate_mset (length body) None)" for desc body h R
      using unpack_step [OF Suc that] by (simp add: unpack_ops_def)
  qed (simp_all only: unpack_ops_def nested.simps merges_message_ok frees_message_ok)
qed

interpretation nested: nested_ops S "message_ok S d" "unpack_ops S d" d for S d
  by (rule unpack_ops_ok)

end
