(* ===== verification/Pb_Sample.thy ===== *)
theory Pb_Sample imports Pb_Unpack_Props "HOL-Library.Code_Target_Numeral" begin

text \<open>
  An example schema, in the shape the code generator gives it: a message with a nested message, a
  repeated number and a string, the nested message being a oneof of a number and a string. The
  properties of unpacking and merging are applied to it.
\<close>

definition demo_field :: "u32 \<Rightarrow> ProtobufCLabel \<Rightarrow> ProtobufCType \<Rightarrow> nat \<Rightarrow> nat \<Rightarrow> default_value option \<Rightarrow> u32 \<Rightarrow> field_desc" where
  "demo_field tag label t q off df flags = \<lparr>fd_name = [97], fd_id = tag, fd_label = label, fd_type = t,
     fd_quantifier_offset = q, fd_offset = off, fd_descriptor = 1, fd_default = df, fd_flags = flags\<rparr>"

definition outer_desc :: message_desc where
  "outer_desc = \<lparr>md_magic = MESSAGE_DESCRIPTOR_MAGIC, md_addr = 4096, sizeof_message = 56,
     md_fields = [demo_field 1 LABEL_NONE TYPE_MESSAGE 0 24 None 0,
       demo_field 2 LABEL_REPEATED TYPE_INT32 32 40 None 0,
       demo_field 3 LABEL_NONE TYPE_STRING 0 48 (Some (DefStr [])) 0],
     fields_sorted_by_name = None, n_field_ranges = 1,
     field_ranges = [\<lparr>start_value = 1, orig_index = 0\<rparr>, \<lparr>start_value = 0, orig_index = 3\<rparr>],
     message_init = Some [(24, Zero), (32, Zero), (40, Zero), (48, VStr Dflt)]\<rparr>"

definition choice_number :: field_desc where
  "choice_number = demo_field 1 LABEL_NONE TYPE_INT32 24 32 None FLAG_ONEOF"

definition choice_string :: field_desc where
  "choice_string = demo_field 2 LABEL_NONE TYPE_STRING 24 32 None FLAG_ONEOF"

definition inner_desc :: message_desc where
  "inner_desc = \<lparr>md_magic = MESSAGE_DESCRIPTOR_MAGIC, md_addr = 8192, sizeof_message = 40,
     md_fields = [choice_number, choice_string],
     fields_sorted_by_name = None, n_field_ranges = 1,
     field_ranges = [\<lparr>start_value = 1, orig_index = 0\<rparr>, \<lparr>start_value = 0, orig_index = 2\<rparr>],
     message_init = None\<rparr>"

definition demo_schema :: schema where
  "demo_schema = [outer_desc, inner_desc]"

lemma demo_schema_ok: "schema_ok demo_schema"
  by code_simp

lemma demo_desc: "demo_schema ! 0 = outer_desc" "demo_schema ! 1 = inner_desc" "length demo_schema = 2"
  by (simp_all add: demo_schema_def)

text \<open>A heap that grants the first \<open>n\<close> requests.\<close>

definition small_heap :: "nat \<Rightarrow> pb_heap" where
  "small_heap n = \<lparr>alloc_fails = (\<lambda>i _. n \<le> i), requests = 0, live = {}\<rparr>"

lemma small_heap_ok: "heap_ok (small_heap n)" "live (small_heap n) = {}"
  by (simp_all add: small_heap_def heap_ok_def)

text \<open>What a run returns, and the requests it made.\<close>

definition demo_run :: "nat \<Rightarrow> nat \<Rightarrow> bytes \<Rightarrow> ((nat \<times> message) option \<times> nat) res" where
  "demo_run n d data = bindR (protobuf_c_message_unpack demo_schema d 0 data (small_heap n)) (\<lambda>(r, h). Ok (r, requests h))"

lemma demo_runD: "demo_run n d data = Ok (r, k) \<Longrightarrow> \<exists>h. protobuf_c_message_unpack demo_schema d 0 data (small_heap n) = Ok (r, h)"
  by (auto simp: demo_run_def bindR_Ok_iff)

text \<open>A nested message given twice, a packed repeated field and a string.\<close>

definition demo_data :: bytes where
  "demo_data = [10, 2, 8, 5, 18, 2, 1, 2, 26, 1, 65, 10, 3, 18, 1, 66]"

definition demo_inner :: message where
  "demo_inner = Message 1 [(32, VStr (Heap 5 [66, 0])), (24, V32 2)] None []"

definition demo_message :: message where
  "demo_message = Message 0 [(24, VMsg (Some (4, demo_inner))), (32, V64 2), (40, VArr (Some (1, 2, [V32 1, V32 2]))),
     (48, VStr (Heap 3 [65, 0]))] None []"

lemma demo_unpacks: "demo_run 100 20 demo_data = Ok (Some (0, demo_message), 6)"
  by code_simp

text \<open>With too little memory, and with the nested message cut short.\<close>

lemma demo_no_memory: "demo_run 4 20 demo_data = Ok (None, 5)"
  by code_simp

lemma demo_cut: "demo_run 100 20 (take 13 demo_data) = Ok (None, 1)"
  by code_simp

text \<open>The nested message without a choice, once and twice.\<close>

definition unset_inner :: message where
  "unset_inner = Message 1 [(32, Zero), (24, Zero)] None []"

lemma demo_unset: "demo_run 100 20 [10, 0] = Ok (Some (0, Message 0 [(24, VMsg (Some (1, unset_inner))), (32, Zero), (40, Zero),
    (48, VStr Dflt)] None []), 2)"
  "demo_run 100 20 [10, 0, 10, 0] = Ok (None, 3)"
  by code_simp+

lemma inner_complete: "complete inner_desc sub demo_inner" "complete inner_desc sub unset_inner"
  unfolding complete_def
  by (intro conjI exI [of _ "map_of (members demo_inner)"] exI [of _ "map_of (members unset_inner)"],
      auto simp: demo_inner_def unset_inner_def inner_desc_def choice_number_def choice_string_def demo_field_def
      members_map_def message_inv_def field_inv_def oneof_inv_def val_ok_def unknown_ok_def same_oneof_def
      has_flag_def FLAG_ONEOF_def split: if_splits)

lemma inner_messages_ok: "message_ok demo_schema (Suc d) 1 demo_inner" "message_ok demo_schema (Suc d) 1 unset_inner"
  using inner_complete demo_desc by (simp_all add: demo_inner_def unset_inner_def)

lemma outer_complete:
  assumes "sub 1 demo_inner"
  shows "complete outer_desc sub demo_message"
  unfolding complete_def
  using assms by (intro conjI exI [of _ "map_of (members demo_message)"],
      auto simp: demo_message_def outer_desc_def demo_field_def
      members_map_def message_inv_def field_inv_def repeated_inv_def singular_inv_def val_ok_def elem_ok_def unknown_ok_def
      has_flag_def sizeof_elt_in_repeated_array_def split: if_splits)

lemma demo_message_ok: "message_ok demo_schema (Suc (Suc d)) 0 demo_message"
  using outer_complete [of "message_ok demo_schema (Suc d)"] inner_messages_ok(1) demo_desc by (simp add: demo_message_def)

end
