(* ===== verification/Pb_Ownership.thy ===== *)
theory Pb_Ownership imports Pb_Sample begin

text \<open>
  What the unpacking component promises to its callers: \<^verbatim>\<open>protobuf_c_message_unpack\<close>,
  \<^verbatim>\<open>protobuf_c_message_free_unpacked\<close> and \<^verbatim>\<open>merge_messages\<close> of \<^verbatim>\<open>protobuf-c/protobuf-c.c\<close>, stated over
  the live blocks of the heap.
\<close>

section \<open>Live blocks\<close>

text \<open>The blocks among resources, and those of a message.\<close>

definition live_blocks :: "resources \<Rightarrow> nat multiset" where
  "live_blocks R = image_mset the (filter_mset (\<lambda>x. x \<noteq> None) R)"

definition blocks :: "message \<Rightarrow> nat multiset" where
  "blocks m = live_blocks (message_res m)"

lemma live_blocks_simps [simp]:
  "live_blocks (R + R') = live_blocks R + live_blocks R'" "live_blocks (add_mset (Some b) R) = add_mset b (live_blocks R)"
  "live_blocks (add_mset None R) = live_blocks R"
  "live_blocks (replicate_mset n None) = {#}" "live_blocks (image_mset Some B) = B" "live_blocks {#} = {#}"
  by (simp_all add: live_blocks_def filter_mset_image_mset comp_def image_mset.compositionality)

lemma holds_blocks: "holds h R \<longleftrightarrow> heap_ok h \<and> mset_set (live h) = live_blocks R \<and> count R None < 2 ^ 32"
proof -
  have a: "mset_set (Some ` A) = image_mset Some (mset_set A)" for A :: "nat set"
    by (simp add: image_mset_mset_set)
  have b: "image_mset Some (live_blocks R) = filter_mset (\<lambda>x. x \<noteq> None) R"
    unfolding live_blocks_def image_mset.compositionality comp_def
    by (rule trans [OF image_mset_cong [where g = id]]) auto
  have "mset_set (Some ` live h) = filter_mset (\<lambda>x. x \<noteq> None) R \<longleftrightarrow> mset_set (live h) = live_blocks R"
  proof
    assume "mset_set (Some ` live h) = filter_mset (\<lambda>x. x \<noteq> None) R"
    then have "image_mset the (image_mset Some (mset_set (live h))) = image_mset the (image_mset Some (live_blocks R))"
      by (simp only: a b)
    then show "mset_set (live h) = live_blocks R" by (simp add: image_mset.compositionality comp_def)
  qed (simp add: a b)
  then show ?thesis by (simp add: holds_def)
qed

lemma same_live: "heap_ok h \<Longrightarrow> heap_ok h' \<Longrightarrow> mset_set (live h') = mset_set (live h) \<Longrightarrow> live h' = live h"
  using holds_finite by (metis finite_set_mset_mset_set)

text \<open>A heap as it is found, with room for the bytes of an input.\<close>

lemma holds_start: "heap_ok h \<Longrightarrow> n < 2 ^ 32 \<Longrightarrow> holds h (image_mset Some (mset_set (live h)) + replicate_mset n None)"
proof -
  have "count (image_mset Some M) None = 0" for M :: "nat multiset" by (simp add: count_eq_zero_iff)
  then show "heap_ok h \<Longrightarrow> n < 2 ^ 32 \<Longrightarrow> ?thesis" by (simp add: holds_blocks)
qed

lemma demo_blocks: "blocks demo_message = {#1, 3, 4, 5#}" "blocks demo_inner = {#5#}" "blocks unset_inner = {#}"
  by (simp_all add: blocks_def demo_message_def demo_inner_def unset_inner_def message_res_split unknown_res_def)

section \<open>Unpacking\<close>

lemma unpacked_blocks:
  assumes "schema_ok S" and "desc < length S" and "heap_ok h" and "length data < 2 ^ 32" and "length data < d"
  shows "gives (unpacked (message_ok S d) (image_mset Some (mset_set (live h))) desc) (protobuf_c_message_unpack S d desc data h)"
  using nested.unpack_ok [OF assms(1,2,5) holds_start [OF assms(3,4)]] by (simp add: unpack_ops_def)

lemma free_blocks:
  assumes "schema_ok S" and "message_ok S d i m" and "holds h (add_mset (Some b) (R + message_res m))"
  shows "gives (\<lambda>h'. heap_ok h' \<and> mset_set (live h') = live_blocks R) (protobuf_c_message_free_unpacked S d (b, m) h)"
  using freesD [OF frees_message_ok [OF assms(1)] assms(2,3)] by (auto simp: holds_blocks elim: gives_mono)

text \<open>C3: \<open>protobuf_c_message_unpack\<close> is safe on every input of less than four gigabytes, whatever the
  bytes are and whichever allocations fail: it returns, without reading outside the input, writing
  outside a block or a bad free. It returns NULL and leaves no block behind; or it returns a
  well-formed message of the descriptor, and the heap has grown by exactly the blocks the message
  owns, each once. Freeing the message then restores the heap as it was.\<close>

theorem unpack_safe:
  assumes "schema_ok S" and "desc < length S" and "heap_ok h" and "length data < 2 ^ 32" and "length data < d"
  shows "\<exists>r h'. protobuf_c_message_unpack S d desc data h = Ok (r, h') \<and> heap_ok h'
    \<and> (case r of None \<Rightarrow> live h' = live h
       | Some (b, m) \<Rightarrow> message_ok S d desc m \<and> mset_set (live h') = mset_set (live h) + add_mset b (blocks m)
          \<and> (\<exists>h''. protobuf_c_message_free_unpacked S d (b, m) h' = Ok h'' \<and> live h'' = live h))"
proof -
  let ?R = "image_mset Some (mset_set (live h))"
  obtain r h' where r: "protobuf_c_message_unpack S d desc data h = Ok (r, h')" "unpacked (message_ok S d) ?R desc (r, h')"
    using unpacked_blocks [OF assms] by (auto simp: gives_def)
  show ?thesis
  proof (cases r)
    case None
    then show ?thesis using r same_live [OF assms(3)] by (auto simp: unpacked_def holds_blocks)
  next
    case (Some x)
    obtain b m where x: "r = Some (b, m)" using Some by (cases x) auto
    have m: "message_ok S d desc m" "holds h' (add_mset (Some b) (?R + message_res m))" using r(2) by (simp_all add: x unpacked_def)
    obtain h'' where f: "protobuf_c_message_free_unpacked S d (b, m) h' = Ok h''" "heap_ok h''" "mset_set (live h'') = live_blocks ?R"
      using free_blocks [OF assms(1) m] by (auto simp: gives_def)
    then show ?thesis using r(1) m same_live [OF assms(3) f(2)] by (auto simp: x holds_blocks blocks_def)
  qed
qed

lemma unpack_safe_witness:
  "(\<exists>h'. protobuf_c_message_unpack demo_schema 20 0 demo_data (small_heap 100) = Ok (Some (0, demo_message), h')
      \<and> message_ok demo_schema 20 0 demo_message \<and> mset_set (live h') = {#0, 1, 3, 4, 5#}
      \<and> (\<exists>h''. protobuf_c_message_free_unpacked demo_schema 20 (0, demo_message) h' = Ok h'' \<and> live h'' = {}))
   \<and> (\<exists>h'. protobuf_c_message_unpack demo_schema 20 0 demo_data (small_heap 4) = Ok (None, h') \<and> live h' = {})"
proof -
  have "length demo_data < 20" by (simp add: demo_data_def)
  then show ?thesis
    using unpack_safe [OF demo_schema_ok _ small_heap_ok(1), of 0 demo_data 20 100]
      unpack_safe [OF demo_schema_ok _ small_heap_ok(1), of 0 demo_data 20 4]
      demo_runD [OF demo_unpacks] demo_runD [OF demo_no_memory]
    by (auto simp: demo_desc small_heap_ok(2) demo_blocks)
qed

text \<open>C4: Freeing a well-formed message gives back exactly the blocks it owns and touches no other
  block of the heap: nothing is leaked, nothing is freed twice, and no pointer of a field that is not
  set is followed.\<close>

theorem free_unpacked_exact:
  assumes "schema_ok S" and "message_ok S d i m" and "heap_ok h"
    and "mset_set (live h) = rest + add_mset b (blocks m)" and "count (message_res m) None < 2 ^ 32"
  shows "\<exists>h'. protobuf_c_message_free_unpacked S d (b, m) h = Ok h' \<and> heap_ok h' \<and> mset_set (live h') = rest"
proof -
  have "count (image_mset Some rest) None = 0" by (simp add: count_eq_zero_iff)
  then have "holds h (add_mset (Some b) (image_mset Some rest + message_res m))"
    using assms(3-5) by (simp add: holds_blocks blocks_def)
  from free_blocks [OF assms(1,2) this] show ?thesis by (auto simp: gives_def)
qed

lemma free_unpacked_exact_witness:
  "\<exists>h'. protobuf_c_message_free_unpacked demo_schema 2 (0, demo_message) (small_heap 0\<lparr>requests := 9, live := {0, 1, 3, 4, 5, 8}\<rparr>) = Ok h'
     \<and> mset_set (live h') = {#8#}"
proof -
  have ok: "message_ok demo_schema 2 0 demo_message" using demo_message_ok [of 0] by (simp add: numeral_2_eq_2)
  have "count (message_res demo_message) None < 2 ^ 32" by (simp add: demo_message_def demo_inner_def message_res_split unknown_res_def)
  then show ?thesis
    using free_unpacked_exact [OF demo_schema_ok ok, of "small_heap 0\<lparr>requests := 9, live := {0, 1, 3, 4, 5, 8}\<rparr>" "{#8#}" 0]
    by (auto simp: demo_blocks heap_ok_def add_mset_commute simp del: protobuf_c_message_free_unpacked.simps)
qed

text \<open>C5: Merging two messages of one descriptor moves blocks between them and loses none: whether it
  succeeds or runs out of memory, both messages stay well formed, and the heap holds exactly the
  blocks that the two own.\<close>

theorem merge_keeps_ownership:
  assumes "schema_ok S" and "message_ok S d i e" and "message_ok S d i l" and "heap_ok h"
    and "mset_set (live h) = rest + blocks e + blocks l" and "count (message_res e + message_res l) None < 2 ^ 32"
  shows "\<exists>ok e' l' h'. merge_messages S d e l h = Ok (ok, e', l', h') \<and> message_ok S d i e' \<and> message_ok S d i l'
    \<and> heap_ok h' \<and> mset_set (live h') = rest + blocks e' + blocks l'"
proof -
  have "count (image_mset Some rest) None = 0" by (simp add: count_eq_zero_iff)
  then have "holds h (image_mset Some rest + message_res e + message_res l)"
    using assms(4-6) by (simp add: holds_blocks blocks_def)
  from mergesD [OF merges_message_ok [OF assms(1)] assms(2,3) this]
  show ?thesis by (auto simp: gives_def holds_blocks blocks_def)
qed

lemma merge_keeps_ownership_witness:
  "\<exists>ok e' l' h'. merge_messages demo_schema (Suc 0) demo_inner unset_inner (small_heap 0\<lparr>requests := 9, live := {5, 8}\<rparr>) = Ok (ok, e', l', h')
     \<and> mset_set (live h') = {#8#} + blocks e' + blocks l'"
proof -
  have "count (message_res demo_inner + message_res unset_inner) None < 2 ^ 32"
    by (simp add: demo_inner_def unset_inner_def message_res_split unknown_res_def)
  then show ?thesis
    using merge_keeps_ownership [OF demo_schema_ok inner_messages_ok(1) inner_messages_ok(2) [of 0],
        of "small_heap 0\<lparr>requests := 9, live := {5, 8}\<rparr>" "{#8#}"]
    by (auto simp: demo_blocks heap_ok_def add_mset_commute simp del: merge_messages.simps message_ok.simps)
qed

end
