(* ===== verification/Pb_Merge_Props.thy ===== *)
theory Pb_Merge_Props imports Pb_Sample begin

text \<open>
  Two properties of \<^verbatim>\<open>merge_messages\<close> (\<^verbatim>\<open>protobuf-c/protobuf-c.c\<close>) that its callers can observe: what it does
  with a oneof that is not set, and with numbers.
\<close>

section \<open>Merging a oneof that is not set\<close>

lemma set_other: "set_member m off v = Ok m' \<Longrightarrow> q \<noteq> off \<Longrightarrow> STRUCT_MEMBER m' q = STRUCT_MEMBER m q"
proof -
  have "map_of (map (\<lambda>(o', w). (o', if o' = off then v else w)) ms) q = map_of ms q" if "q \<noteq> off" for ms
    using that by (induction ms) auto
  then show "set_member m off v = Ok m' \<Longrightarrow> q \<noteq> off \<Longrightarrow> ?thesis"
    by (auto simp: set_member_def STRUCT_MEMBER_def split: if_splits)
qed

text \<open>A step that does not touch the member at \<open>q\<close>.\<close>

definition keeps :: "nat \<Rightarrow> message \<Rightarrow> message \<Rightarrow> bool" where
  "keeps q m m' \<longleftrightarrow> STRUCT_MEMBER m' q = STRUCT_MEMBER m q"

lemma same_member_refl [simp]: "keeps q m m"
  by (simp add: keeps_def)

lemma same_member_trans: "keeps q m m' \<Longrightarrow> keeps q m' m'' \<Longrightarrow> keeps q m m''"
  by (simp add: keeps_def)

lemma keeps_set: "set_member m off v = Ok m' \<Longrightarrow> q \<noteq> off \<Longrightarrow> keeps q m m'"
  by (simp add: keeps_def set_other)

definition both_keep :: "nat \<Rightarrow> message \<Rightarrow> message \<Rightarrow> 'a \<times> message \<times> message \<times> pb_heap \<Rightarrow> bool" where
  "both_keep q em lm = (\<lambda>(go, em', lm', h'). keeps q em em' \<and> keeps q lm lm')"

lemma both_keep_pair [simp]: "both_keep q em lm (go, em', lm', h) \<longleftrightarrow> keeps q em em' \<and> keeps q lm lm'"
  by (simp add: both_keep_def)

lemma post_step:
  assumes "post (both_keep q em lm) a" and "\<And>go em' lm' h'. keeps q em em' \<Longrightarrow> keeps q lm lm' \<Longrightarrow> post (both_keep q em' lm') (f go em' lm' h')"
  shows "post (both_keep q em lm) (bindR a (\<lambda>(go, em, lm, h). f go em lm h))"
proof (rule post_bind)
  fix x assume a: "a = Ok x"
  obtain go em' lm' h' where x: "x = (go, em', lm', h')" by (cases x)
  have k: "keeps q em em'" "keeps q lm lm'" using assms(1) a x by (simp_all add: post_def)
  have "both_keep q em' lm' y \<Longrightarrow> both_keep q em lm y" for y :: "'b \<times> message \<times> message \<times> pb_heap"
    using k by (cases y) (auto intro: same_member_trans)
  then show "post (both_keep q em lm) (case x of (go, em, lm, h) \<Rightarrow> f go em lm h)"
    using assms(2) [OF k, of go h'] unfolding post_def x prod.case by blast
qed

lemma merge_repeated_keeps:
  assumes "q \<noteq> fd_offset f" "q \<noteq> fd_quantifier_offset f"
  shows "post (both_keep q em lm) (merge_repeated f em lm h)"
  unfolding merge_repeated_def
  by (intro post_intros) (auto dest!: keeps_set [OF _ assms(1)] keeps_set [OF _ assms(2)] intro: same_member_trans)

lemma need_to_merge_keeps:
  assumes "q \<noteq> fd_offset f"
  shows "post (both_keep q em lm) (need_to_merge merge f ec lc em lm h)"
  unfolding need_to_merge_def
  by (intro post_intros) (auto dest!: keeps_set [OF _ assms(1)] intro: same_member_trans)

lemma move_keeps:
  assumes "q \<noteq> fd_offset f" "q \<noteq> qo"
  shows "post (both_keep q em lm)
    (bindR (STRUCT_MEMBER em (fd_offset f)) (\<lambda>v.
               bindR (set_member lm (fd_offset f) v) (\<lambda>lm.
               bindR (set_member em (fd_offset f) Zero) (\<lambda>em.
               if fd_quantifier_offset f \<noteq> 0 then
                 bindR (quantifier32 ED em qo) (\<lambda>c.
                 bindR (set_quantifier32 lm qo c) (\<lambda>lm.
                 bindR (set_quantifier32 em qo 0) (\<lambda>em. Ok (True, em, lm, h))))
               else Ok (True, em, lm, h)))))"
  by (intro post_intros) (auto simp: set_quantifier32_def dest!: keeps_set [OF _ assms(1)] keeps_set [OF _ assms(2)] intro: same_member_trans
      split: if_splits)

lemma merge_singular_keeps:
  assumes fi: "fi \<in> set (md_fields LD)" and o': "\<And>f. f \<in> set (md_fields LD) \<Longrightarrow> q \<noteq> fd_offset f" "q \<noteq> fd_quantifier_offset fi"
  shows "post (both_keep q em lm) (merge_singular merge ED LD fi em lm h)"
proof -
  have found: "f \<in> set (md_fields LD)" if "(if has_flag fi FLAG_ONEOF then
         bindR (quantifier32 LD lm (fd_quantifier_offset fi)) (\<lambda>latter_case.
         if latter_case = 0 then
           bindR (quantifier32 ED em (fd_quantifier_offset fi)) (\<lambda>earlier_case.
           bindR (int_range_lookup (n_field_ranges LD) (field_ranges LD) earlier_case) (\<lambda>field_index.
           if field_index < 0 then Ok (Inl False)
           else bindR (entry_at (md_fields LD) (nat field_index)) (\<lambda>f. Ok (Inr f))))
         else Ok (Inl True))
       else Ok (Inr fi)) = Ok (Inr f :: bool + field_desc)" for f
    using that fi by (auto simp: bindR_Ok_iff entry_at_def split: if_splits)
  show ?thesis unfolding merge_singular_def Let_def
    apply (rule post_bind)
    subgoal for r
      apply (cases r)
       apply simp
      apply (simp only: sum.case)
      apply (rule post_step [OF need_to_merge_keeps], use found o' in blast)
      apply (rule post_option, simp)
      subgoal for f go em' lm' h' y
        using move_keeps [OF o'(1) [OF found] o'(2)] by (cases y) auto
      done
    done
qed

text \<open>A oneof whose case is zero in both messages.\<close>

definition unset_in :: "field_desc \<Rightarrow> message \<Rightarrow> bool" where
  "unset_in f m \<longleftrightarrow> bindR (STRUCT_MEMBER m (fd_quantifier_offset f)) as32 = Ok 0"

lemma keeps_unset: "keeps (fd_quantifier_offset f) m m' \<Longrightarrow> unset_in f m \<Longrightarrow> unset_in f m'"
  by (simp add: keeps_def unset_in_def)

lemma merge_singular_unset:
  assumes D: "desc_ok S D" and f: "f \<in> set (md_fields D)" "has_flag f FLAG_ONEOF" and u: "unset_in f em" "unset_in f lm"
    and f': "fd_quantifier_offset f' = fd_quantifier_offset f" "has_flag f' FLAG_ONEOF"
  shows "merge_singular merge D D f' em lm h = Ok (False, em, lm, h)"
proof -
  have q: "fd_quantifier_offset f \<noteq> 0" using desc_field_ok [OF D f(1)] f(2) by (simp add: field_ok_def)
  obtain r where r: "int_range_lookup (n_field_ranges D) (field_ranges D) 0 = Ok r"
    "r < 0 \<or> (\<exists>i < length (md_fields D). r = int i \<and> fd_id (md_fields D ! i) = 0)" using field_lookup [OF D] by blast
  have "fd_id (md_fields D ! i) \<noteq> 0" if "i < length (md_fields D)" for i
    using desc_field_ok [OF D nth_mem [OF that]] by (simp add: field_ok_def)
  then have "r < 0" using r(2) by blast
  moreover have "quantifier32 D em (fd_quantifier_offset f') = Ok 0" "quantifier32 D lm (fd_quantifier_offset f') = Ok 0"
    using u q f'(1) by (simp_all add: quantifier32_def unset_in_def)
  ultimately show ?thesis using f'(2) r(1) by (simp add: merge_singular_def)
qed

lemma merge_fields_unset:
  assumes D: "desc_ok S D" and f: "f \<in> set (md_fields D)" "has_flag f FLAG_ONEOF"
  shows "f \<in> set fs \<Longrightarrow> set fs \<subseteq> set (md_fields D) \<Longrightarrow> unset_in f em \<Longrightarrow> unset_in f lm
    \<Longrightarrow> post (\<lambda>(ok, _). \<not> ok) (merge_fields merge D D fs em lm h)"
proof (induction fs arbitrary: em lm h)
  case (Cons f' fs)
  let ?q = "fd_quantifier_offset f"
  have fo: "fd_label f = LABEL_OPTIONAL \<or> fd_label f = LABEL_NONE" "?q \<noteq> 0" using desc_field_ok [OF D f(1)] f(2) by (auto simp: field_ok_def)
  have f': "f' \<in> set (md_fields D)" using Cons.prems(2) by simp
  show ?case
  proof (cases "same_oneof f f'")
    case True
    then have "merge_singular merge D D f' em lm h = Ok (False, em, lm, h)"
      using merge_singular_unset [OF D f Cons.prems(3,4)] by (simp add: same_oneof_def)
    moreover have "fd_label f' = LABEL_OPTIONAL \<or> fd_label f' = LABEL_NONE"
      using desc_field_ok [OF D f'] True by (auto simp: field_ok_def same_oneof_def)
    ultimately show ?thesis by auto
  next
    case False
    then have ne: "f' \<noteq> f" using f(2) by (auto simp: same_oneof_def)
    have o': "?q \<noteq> fd_offset g" if "g \<in> set (md_fields D)" for g
      using desc_apart [OF D f(1) that] desc_field_ok [OF D f(1)] by (cases "g = f") (auto simp: fields_apart_def field_ok_def)
    have q': "?q \<noteq> fd_quantifier_offset f'" using desc_apart [OF D f(1) f'] ne False fo(2) by (auto simp: fields_apart_def)
    have step: "post (both_keep ?q em lm) (if fd_label f' = LABEL_REPEATED then merge_repeated f' em lm h
       else if fd_label f' = LABEL_OPTIONAL \<or> fd_label f' = LABEL_NONE then merge_singular merge D D f' em lm h
       else Ok (True, em, lm, h))"
      by (intro post_if merge_repeated_keeps merge_singular_keeps) (use o' q' f' in auto)
    show ?thesis unfolding merge_fields.simps
    proof (rule post_use [OF step])
      fix x :: "bool \<times> message \<times> message \<times> pb_heap" assume x: "both_keep ?q em lm x"
      obtain go em' lm' h' where y: "x = (go, em', lm', h')" by (cases x)
      have "unset_in f em'" "unset_in f lm'" using x keeps_unset Cons.prems(3,4) by (auto simp: y)
      then show "post (\<lambda>(ok, _). \<not> ok) (case x of (go, em, lm, h) \<Rightarrow> if go then merge_fields merge D D fs em lm h else Ok (False, em, lm, h))"
        using Cons.IH [of em' lm' h'] Cons.prems(1,2) ne by (auto simp: y)
    qed
  qed
qed simp

text \<open>C34: A oneof that is set in neither of two messages makes \<open>merge_messages\<close> fail: it looks the
  case 0 up among the field numbers and takes the miss for an error. So a sub-message that occurs
  twice on the wire with such a oneof in it, which is valid input, is refused.\<close>

theorem merge_unset_oneof_fails:
  assumes "schema_ok S" and "message_ok S d i e" and "message_ok S d i l" and "holds h (R + message_res e + message_res l)"
    and "f \<in> set (md_fields (S ! i))" and "has_flag f FLAG_ONEOF"
    and "quantifier32 (S ! i) e (fd_quantifier_offset f) = Ok 0" and "quantifier32 (S ! i) l (fd_quantifier_offset f) = Ok 0"
  shows "\<exists>e' l' h'. merge_messages S d e l h = Ok (False, e', l', h')"
proof -
  obtain d' where d: "d = Suc d'" using assms(2) by (cases d) auto
  have i: "i < length S" "descriptor e = i" "descriptor l = i" using assms(2,3) by (auto simp: d)
  note D = schema_okD [OF assms(1) i(1)]
  have "fd_quantifier_offset f \<noteq> 0" using desc_field_ok [OF D assms(5)] assms(6) by (simp add: field_ok_def)
  then have u: "unset_in f e" "unset_in f l" using assms(7,8) by (simp_all add: quantifier32_def unset_in_def)
  have "post (\<lambda>(ok, _). \<not> ok) (merge_messages S d e l h)"
    using merge_fields_unset [OF D assms(5,6,5) subset_refl u] i by (simp add: d get_desc_def)
  moreover have "gives (\<lambda>_. True) (merge_messages S d e l h)"
    using mergesD [OF merges_message_ok [OF assms(1)] assms(2-4)] by (rule gives_mono) simp
  ultimately show ?thesis by (auto simp: gives_def post_def)
qed

lemma merge_unset_oneof_fails_witness:
  "(\<exists>e' l' h'. merge_messages demo_schema (Suc 0) unset_inner unset_inner (small_heap 5) = Ok (False, e', l', h'))
   \<and> (\<exists>b m. demo_run 100 20 [10, 0] = Ok (Some (b, m), 2)) \<and> demo_run 100 20 [10, 0, 10, 0] = Ok (None, 3)"
proof -
  have "holds (small_heap 5) ({#} + message_res unset_inner + message_res unset_inner)"
    by (simp add: holds_def heap_ok_def small_heap_def unset_inner_def message_res_split unknown_res_def)
  then show ?thesis
    using merge_unset_oneof_fails [OF demo_schema_ok inner_messages_ok(2) inner_messages_ok(2) [of 0], of "small_heap 5" "{#}" choice_number] demo_unset
    by (simp add: demo_desc [simplified] inner_desc_def choice_number_def demo_field_def has_flag_def FLAG_ONEOF_def
        quantifier32_def STRUCT_MEMBER_def unset_inner_def del: merge_messages.simps message_ok.simps)
qed

lemma set_same:
  assumes "STRUCT_MEMBER m off = Ok w"
  shows "\<exists>m'. set_member m off v = Ok m' \<and> STRUCT_MEMBER m' off = Ok v"
proof -
  have "map_of (map (\<lambda>(o', w). (o', if o' = off then v else w)) ms) off = map_option (\<lambda>_. v) (map_of ms off)" for ms
    by (induction ms) auto
  then show ?thesis using assms by (auto simp: set_member_def STRUCT_MEMBER_def of_opt_Ok_iff dest!: map_of_SomeD intro: rev_image_eqI)
qed

text \<open>C35: How \<open>merge_messages\<close> treats a number outside of any oneof. With a presence flag, the earlier
  value is moved exactly if it is present and the latter is not. Without one, as for every plain
  number of proto3, nothing is ever moved: a value given first is lost although the latter
  message does not set it.\<close>

theorem merge_number:
  assumes "fd_type f \<notin> {TYPE_MESSAGE, TYPE_BYTES, TYPE_STRING}" and "\<not> has_flag f FLAG_ONEOF" and "fd_offset f \<noteq> fd_quantifier_offset f"
    and "STRUCT_MEMBER em (fd_offset f) = Ok ve" and "STRUCT_MEMBER lm (fd_offset f) = Ok vl"
    and "quantifier32 D em (fd_quantifier_offset f) = Ok he" and "quantifier32 D lm (fd_quantifier_offset f) = Ok hl"
  shows "if fd_quantifier_offset f = 0 \<or> he = 0 \<or> hl \<noteq> 0 then merge_singular merge D D f em lm h = Ok (True, em, lm, h)
    else \<exists>em' lm'. merge_singular merge D D f em lm h = Ok (True, em', lm', h)
      \<and> STRUCT_MEMBER lm' (fd_offset f) = Ok ve \<and> quantifier32 D lm' (fd_quantifier_offset f) = Ok he
      \<and> STRUCT_MEMBER em' (fd_offset f) = Ok Zero \<and> quantifier32 D em' (fd_quantifier_offset f) = Ok 0"
proof -
  let ?q = "fd_quantifier_offset f"
  have need: "need_to_merge merge f (quantifier32 D em ?q) (quantifier32 D lm ?q) em lm h = Ok (Some (he \<noteq> 0 \<and> hl = 0), em, lm, h)"
    using assms by (simp add: need_to_merge_def)
  have stay: "merge_singular merge D D f em lm h = Ok (True, em, lm, h)" if "he = 0 \<or> hl \<noteq> 0"
    using that assms(2) need by (auto simp: merge_singular_def)
  have "he = hl" if "?q = 0" using assms(6,7) that by (simp add: quantifier32_def)
  moreover have "\<exists>em' lm'. merge_singular merge D D f em lm h = Ok (True, em', lm', h)
      \<and> STRUCT_MEMBER lm' (fd_offset f) = Ok ve \<and> quantifier32 D lm' ?q = Ok he
      \<and> STRUCT_MEMBER em' (fd_offset f) = Ok Zero \<and> quantifier32 D em' ?q = Ok 0" if m: "he \<noteq> 0" "hl = 0" "?q \<noteq> 0"
  proof -
    obtain lm1 where l1: "set_member lm (fd_offset f) ve = Ok lm1" "STRUCT_MEMBER lm1 (fd_offset f) = Ok ve" using set_same [OF assms(5)] by blast
    obtain em1 where e1: "set_member em (fd_offset f) Zero = Ok em1" "STRUCT_MEMBER em1 (fd_offset f) = Ok Zero" using set_same [OF assms(4)] by blast
    have q: "STRUCT_MEMBER lm1 ?q = STRUCT_MEMBER lm ?q" "STRUCT_MEMBER em1 ?q = STRUCT_MEMBER em ?q"
      using set_other [OF l1(1)] set_other [OF e1(1)] assms(3) by auto
    obtain se sl where s: "STRUCT_MEMBER em ?q = Ok se" "STRUCT_MEMBER lm ?q = Ok sl" using assms(6,7) m(3) by (auto simp: quantifier32_def bindR_Ok_iff)
    obtain lm2 where l2: "set_member lm1 ?q (V32 he) = Ok lm2" "STRUCT_MEMBER lm2 ?q = Ok (V32 he)" using set_same q(1) s(2) by metis
    obtain em2 where e2: "set_member em1 ?q (V32 0) = Ok em2" "STRUCT_MEMBER em2 ?q = Ok (V32 0)" using set_same q(2) s(1) by metis
    have "STRUCT_MEMBER lm2 (fd_offset f) = Ok ve" "STRUCT_MEMBER em2 (fd_offset f) = Ok Zero"
      using set_other [OF l2(1)] set_other [OF e2(1)] assms(3) l1(2) e1(2) by auto
    moreover have "quantifier32 D em1 ?q = Ok he" using assms(6) q(2) m(3) by (simp add: quantifier32_def)
    ultimately show ?thesis using assms(2,4) need m l1 e1 l2 e2
      by (simp add: merge_singular_def set_quantifier32_def quantifier32_def)
  qed
  ultimately show ?thesis using stay by (cases "?q = 0 \<or> he = 0 \<or> hl \<noteq> 0") auto
qed

definition plain_number :: field_desc where
  "plain_number = demo_field 4 LABEL_NONE TYPE_INT32 0 16 None 0"

definition optional_number :: field_desc where
  "optional_number = demo_field 4 LABEL_OPTIONAL TYPE_INT32 12 16 None 0"

lemma merge_number_witness:
  "merge_singular (\<lambda>_ _ _. Fault) outer_desc outer_desc plain_number
      (Message 0 [(16, V32 7)] None []) (Message 0 [(16, Zero)] None []) (small_heap 0)
    = Ok (True, Message 0 [(16, V32 7)] None [], Message 0 [(16, Zero)] None [], small_heap 0)
   \<and> (\<exists>em' lm'. merge_singular (\<lambda>_ _ _. Fault) outer_desc outer_desc optional_number
      (Message 0 [(12, V32 1), (16, V32 7)] None []) (Message 0 [(12, Zero), (16, Zero)] None []) (small_heap 0) = Ok (True, em', lm', small_heap 0)
      \<and> STRUCT_MEMBER lm' 16 = Ok (V32 7))"
  using merge_number [of plain_number "Message 0 [(16, V32 7)] None []" "V32 7" "Message 0 [(16, Zero)] None []" Zero
      outer_desc 4096 4096 "\<lambda>_ _ _. Fault" "small_heap 0"]
    merge_number [of optional_number "Message 0 [(12, V32 1), (16, V32 7)] None []" "V32 7" "Message 0 [(12, Zero), (16, Zero)] None []" Zero
      outer_desc 1 0 "\<lambda>_ _ _. Fault" "small_heap 0"]
  by (auto simp: plain_number_def optional_number_def demo_field_def outer_desc_def has_flag_def STRUCT_MEMBER_def quantifier32_def)

end
