(* ===== verification/Fb_Verifier.thy ===== *)
theory Fb_Verifier
  imports Pb_Parse
begin

text \<open>
  The runtime verifier of FlatBuffers (\<^verbatim>\<open>flatcc/src/runtime/verifier.c\<close>), called by the generated verifiers
  of each schema before a received buffer is read in place. A pointer is an index into the block the
  buffer was received in; a read outside of the block is a fault. \<open>size_t\<close> has 64 bits.
\<close>

section \<open>Results\<close>

datatype verify_error = error_ok
  | error_buffer_header_too_small
  | error_identifier_mismatch
  | error_max_nesting_level_reached
  | error_required_field_missing
  | error_runtime_buffer_header_not_aligned
  | error_runtime_buffer_size_too_large
  | error_string_not_zero_terminated
  | error_string_out_of_range
  | error_struct_out_of_range
  | error_struct_size_overflow
  | error_struct_unaligned
  | error_table_field_not_aligned
  | error_table_field_out_of_range
  | error_table_field_size_overflow
  | error_table_header_out_of_range_or_unaligned
  | error_vector_header_out_of_range_or_unaligned
  | error_string_header_out_of_range_or_unaligned
  | error_offset_out_of_range
  | error_table_offset_out_of_range_or_unaligned
  | error_table_size_out_of_range
  | error_type_field_absent_from_required_union_field
  | error_type_field_absent_from_required_union_vector_field
  | error_union_cannot_have_a_table_without_a_type
  | error_union_type_NONE_cannot_have_a_value
  | error_vector_count_exceeds_representable_vector_size
  | error_vector_out_of_range
  | error_vtable_header_out_of_range
  | error_vtable_header_too_small
  | error_vtable_offset_out_of_range_or_unaligned
  | error_vtable_size_out_of_range_or_unaligned
  | error_vtable_size_overflow
  | error_union_element_absent_without_type_NONE
  | error_union_element_present_with_type_NONE
  | error_union_vector_length_mismatch
  | error_union_vector_verification_not_supported
  | error_not_supported

fun flatcc_verify_error_string :: "verify_error \<Rightarrow> string" where
  "flatcc_verify_error_string error_ok = ''ok''"
| "flatcc_verify_error_string error_buffer_header_too_small = ''buffer header too small''"
| "flatcc_verify_error_string error_identifier_mismatch = ''identifier mismatch''"
| "flatcc_verify_error_string error_max_nesting_level_reached = ''max nesting level reached''"
| "flatcc_verify_error_string error_required_field_missing = ''required field missing''"
| "flatcc_verify_error_string error_runtime_buffer_header_not_aligned = ''runtime: buffer header not aligned''"
| "flatcc_verify_error_string error_runtime_buffer_size_too_large = ''runtime: buffer size too large''"
| "flatcc_verify_error_string error_string_not_zero_terminated = ''string not zero terminated''"
| "flatcc_verify_error_string error_string_out_of_range = ''string out of range''"
| "flatcc_verify_error_string error_struct_out_of_range = ''struct out of range''"
| "flatcc_verify_error_string error_struct_size_overflow = ''struct size overflow''"
| "flatcc_verify_error_string error_struct_unaligned = ''struct unaligned''"
| "flatcc_verify_error_string error_table_field_not_aligned = ''table field not aligned''"
| "flatcc_verify_error_string error_table_field_out_of_range = ''table field out of range''"
| "flatcc_verify_error_string error_table_field_size_overflow = ''table field size overflow''"
| "flatcc_verify_error_string error_table_header_out_of_range_or_unaligned = ''table header out of range or unaligned''"
| "flatcc_verify_error_string error_vector_header_out_of_range_or_unaligned = ''vector header out of range or unaligned''"
| "flatcc_verify_error_string error_string_header_out_of_range_or_unaligned = ''string header out of range or unaligned''"
| "flatcc_verify_error_string error_offset_out_of_range = ''offset out of range''"
| "flatcc_verify_error_string error_table_offset_out_of_range_or_unaligned = ''table offset out of range or unaligned''"
| "flatcc_verify_error_string error_table_size_out_of_range = ''table size out of range''"
| "flatcc_verify_error_string error_type_field_absent_from_required_union_field = ''type field absent from required union field''"
| "flatcc_verify_error_string error_type_field_absent_from_required_union_vector_field = ''type field absent from required union vector field''"
| "flatcc_verify_error_string error_union_cannot_have_a_table_without_a_type = ''union cannot have a table without a type''"
| "flatcc_verify_error_string error_union_type_NONE_cannot_have_a_value = ''union value field present with type NONE''"
| "flatcc_verify_error_string error_vector_count_exceeds_representable_vector_size = ''vector count exceeds representable vector size''"
| "flatcc_verify_error_string error_vector_out_of_range = ''vector out of range''"
| "flatcc_verify_error_string error_vtable_header_out_of_range = ''vtable header out of range''"
| "flatcc_verify_error_string error_vtable_header_too_small = ''vtable header too small''"
| "flatcc_verify_error_string error_vtable_offset_out_of_range_or_unaligned = ''vtable offset out of range or unaligned''"
| "flatcc_verify_error_string error_vtable_size_out_of_range_or_unaligned = ''vtable size out of range or unaligned''"
| "flatcc_verify_error_string error_vtable_size_overflow = ''vtable size overflow''"
| "flatcc_verify_error_string error_union_element_absent_without_type_NONE = ''union element absent without type NONE''"
| "flatcc_verify_error_string error_union_element_present_with_type_NONE = ''union element present with type NONE''"
| "flatcc_verify_error_string error_union_vector_length_mismatch = ''union type and table vectors have different lengths''"
| "flatcc_verify_error_string error_union_vector_verification_not_supported = ''union vector verification not supported''"
| "flatcc_verify_error_string error_not_supported = ''not supported''"

text \<open>\<open>verify(cond, reason)\<close> and \<open>check_result(x)\<close>, with what follows them.\<close>

definition verify :: "bool \<Rightarrow> verify_error \<Rightarrow> verify_error res \<Rightarrow> verify_error res" where
  "verify c reason k = (if c then k else Ok reason)"

definition check_result :: "verify_error res \<Rightarrow> verify_error res \<Rightarrow> verify_error res" where
  "check_result r k = bindR r (\<lambda>e. if e \<noteq> error_ok then Ok e else k)"

section \<open>Reading\<close>

record block =
  blk_bytes :: bytes
  blk_addr :: u64

definition read_le16 :: "block \<Rightarrow> nat \<Rightarrow> u16 res" where
  "read_le16 B p = bindR (read_bytes p 2 (blk_bytes B)) (\<lambda>bs. Ok (le_value bs))"

definition read_le32 :: "block \<Rightarrow> nat \<Rightarrow> u32 res" where
  "read_le32 B p = bindR (read_bytes p 4 (blk_bytes B)) (\<lambda>bs. Ok (le_value bs))"

definition read_uoffset :: "block \<Rightarrow> nat \<Rightarrow> u32 \<Rightarrow> u32 res" where
  "read_uoffset B p base = read_le32 B (p + unat base)"

definition read_thash :: "block \<Rightarrow> nat \<Rightarrow> u32 \<Rightarrow> u32 res" where
  "read_thash B p base = read_le32 B (p + unat base)"

definition read_voffset :: "block \<Rightarrow> nat \<Rightarrow> u32 \<Rightarrow> u16 res" where
  "read_voffset B p base = read_le16 B (p + unat base)"

text \<open>The address of a pointer, and its low half.\<close>

definition address :: "block \<Rightarrow> nat \<Rightarrow> u64" where
  "address B p = blk_addr B + of_nat p"

text \<open>A file identifier: the characters of a C string, with its terminating zero.\<close>

definition flatbuffers_type_hash_from_string :: "bytes \<Rightarrow> u32 res" where
  "flatbuffers_type_hash_from_string p = bindR (get 0 p) (\<lambda>a. if a = 0 then Ok 0 else
     let h = ucast a in
     bindR (get 1 p) (\<lambda>b. if b = 0 then Ok h else
     let h = h + push_bit 8 (ucast b) in
     bindR (get 2 p) (\<lambda>c. if c = 0 then Ok h else
     let h = h + push_bit 16 (ucast c) in
     bindR (get 3 p) (\<lambda>d. Ok (h + push_bit 24 (ucast d))))))"

section \<open>Descriptors\<close>

record table_verifier_descriptor =
  td_buf :: nat
  td_end :: u32
  td_ttl :: int
  td_vtable :: nat
  td_table :: u32
  td_tsize :: u16
  td_vsize :: u16

record union_verifier_descriptor =
  ud_buf :: nat
  ud_end :: u32
  ud_ttl :: int
  ud_type :: u8
  ud_base :: u32
  ud_offset :: u32

type_synonym table_verifier_f = "table_verifier_descriptor \<Rightarrow> verify_error res"
type_synonym union_verifier_f = "union_verifier_descriptor \<Rightarrow> verify_error res"

definition UOFFSET_MAX :: u64 where "UOFFSET_MAX = 0xffffffff"

definition COUNT_MAX :: "u64 \<Rightarrow> u64" where
  "COUNT_MAX elem_size = UOFFSET_MAX div (if elem_size = 0 then 1 else elem_size)"

section \<open>Headers, structs and fields\<close>

text \<open>\<open>k + offset_size\<close> is computed in \<open>size_t\<close>.\<close>

definition check_header :: "u32 \<Rightarrow> u32 \<Rightarrow> u32 \<Rightarrow> bool" where
  "check_header end base offset = (let k = base + offset in
     k > base \<and> (ucast k :: u64) + 4 \<le> ucast end \<and> k AND 3 = 0)"

definition check_aligned_header :: "u32 \<Rightarrow> u32 \<Rightarrow> u32 \<Rightarrow> u16 \<Rightarrow> bool" where
  "check_aligned_header end base offset align = (let k = base + offset;
     align = (if align < 4 then 4 else align) in
     k > base \<and> (ucast k :: u64) + 4 \<le> ucast end
     \<and> ((ucast k :: u64) + 4) AND (3 OR ucast ((ucast align :: u32) - 1)) = 0)"

definition verify_struct :: "u32 \<Rightarrow> u32 \<Rightarrow> u32 \<Rightarrow> u32 \<Rightarrow> u16 \<Rightarrow> verify_error res" where
  "verify_struct end base offset siz align =
     (if offset = 0 \<or> base + offset > end then Ok error_offset_out_of_range
      else let base = base + offset in
        verify (base + siz \<ge> base) error_struct_size_overflow
        (verify (base + siz \<le> end) error_struct_out_of_range
        (verify (base AND (ucast align - 1) = 0) error_struct_unaligned (Ok error_ok))))"

definition read_vt_entry :: "block \<Rightarrow> table_verifier_descriptor \<Rightarrow> u16 \<Rightarrow> u16 res" where
  "read_vt_entry B td i = (let vo = (i + 2) * 2 in
     if vo \<ge> td_vsize td then Ok 0 else read_voffset B (td_vtable td) (ucast vo))"

definition get_field_ptr :: "block \<Rightarrow> table_verifier_descriptor \<Rightarrow> u16 \<Rightarrow> nat option res" where
  "get_field_ptr B td i = bindR (read_vt_entry B td i) (\<lambda>vte.
     Ok (if vte \<noteq> 0 then Some (td_buf td + unat (td_table td) + unat vte) else None))"

definition verify_field :: "block \<Rightarrow> table_verifier_descriptor \<Rightarrow> u16 \<Rightarrow> bool \<Rightarrow> u32 \<Rightarrow> u16 \<Rightarrow> verify_error res" where
  "verify_field B td i required siz align = (let base = ucast (address B (td_buf td)) :: u32 in
     bindR (read_vt_entry B td i) (\<lambda>vte.
     if vte = 0 then verify (\<not> required) error_required_field_missing (Ok error_ok)
     else let k = ucast vte :: u32; k2 = k + siz in
       verify (k2 \<le> ucast (td_tsize td)) error_table_field_out_of_range
       (let k = k + (td_table td + base) in
       verify (k AND (ucast align - 1) = 0) error_table_field_not_aligned (Ok error_ok))))"

text \<open>The result and \<open>*out\<close>.\<close>

definition get_offset_field :: "block \<Rightarrow> table_verifier_descriptor \<Rightarrow> u16 \<Rightarrow> bool \<Rightarrow> (verify_error \<times> u32) res" where
  "get_offset_field B td i required = bindR (read_vt_entry B td i) (\<lambda>vte.
     if vte = 0 then Ok (if required then error_required_field_missing else error_ok, 0)
     else let k = ucast vte :: u32; k2 = k + 4 in
       if \<not> k2 \<le> ucast (td_tsize td) then Ok (error_table_field_out_of_range, 0)
       else let k = k + td_table td in
         if k AND 3 \<noteq> 0 then Ok (error_table_field_not_aligned, 0) else Ok (error_ok, k))"

definition check_field :: "block \<Rightarrow> table_verifier_descriptor \<Rightarrow> u16 \<Rightarrow> bool \<Rightarrow> (u32 \<Rightarrow> verify_error res) \<Rightarrow> verify_error res" where
  "check_field B td i required f = bindR (get_offset_field B td i required) (\<lambda>(ret, base).
     if ret \<noteq> error_ok \<or> base = 0 then Ok ret else f base)"

section \<open>Strings, vectors and tables\<close>

definition verify_string :: "block \<Rightarrow> nat \<Rightarrow> u32 \<Rightarrow> u32 \<Rightarrow> u32 \<Rightarrow> verify_error res" where
  "verify_string B buf end base offset =
     verify (check_header end base offset) error_string_header_out_of_range_or_unaligned
     (let base = base + offset in
     bindR (read_uoffset B buf base) (\<lambda>n.
     let base = base + 4 in
     verify (end - base > n) error_string_out_of_range
     (bindR (get (buf + unat base + unat n) (blk_bytes B)) (\<lambda>c.
     verify (c = 0) error_string_not_zero_terminated (Ok error_ok)))))"

definition verify_vector :: "block \<Rightarrow> nat \<Rightarrow> u32 \<Rightarrow> u32 \<Rightarrow> u32 \<Rightarrow> u32 \<Rightarrow> u16 \<Rightarrow> u32 \<Rightarrow> verify_error res" where
  "verify_vector B buf end base offset elem_size align max_count =
     verify (check_aligned_header end base offset align) error_vector_header_out_of_range_or_unaligned
     (let base = base + offset in
     bindR (read_uoffset B buf base) (\<lambda>n.
     let base = base + 4 in
     verify (n \<le> max_count) error_vector_count_exceeds_representable_vector_size
     (verify (end - base \<ge> n * elem_size) error_vector_out_of_range (Ok error_ok))))"

text \<open>\<open>for (i = 0; i < n; ++i, base += offset_size) check_result(f(base, read_uoffset(buf, base)))\<close>\<close>

fun each_offset :: "(u32 \<Rightarrow> u32 \<Rightarrow> verify_error res) \<Rightarrow> block \<Rightarrow> nat \<Rightarrow> nat \<Rightarrow> u32 \<Rightarrow> verify_error res" where
  "each_offset f B buf 0 base = Ok error_ok"
| "each_offset f B buf (Suc n) base = bindR (read_uoffset B buf base) (\<lambda>offset.
     check_result (f base offset) (each_offset f B buf n (base + 4)))"

definition verify_string_vector :: "block \<Rightarrow> nat \<Rightarrow> u32 \<Rightarrow> u32 \<Rightarrow> u32 \<Rightarrow> verify_error res" where
  "verify_string_vector B buf end base offset =
     check_result (verify_vector B buf end base offset 4 4 (ucast (COUNT_MAX 4)))
     (let base = base + offset in
     bindR (read_uoffset B buf base) (\<lambda>n.
     each_offset (verify_string B buf end) B buf (unat n) (base + 4)))"

definition verify_table :: "block \<Rightarrow> nat \<Rightarrow> u32 \<Rightarrow> u32 \<Rightarrow> u32 \<Rightarrow> int \<Rightarrow> table_verifier_f \<Rightarrow> verify_error res" where
  "verify_table B buf end base offset ttl tvf =
     verify (ttl - 1 \<noteq> 0) error_max_nesting_level_reached
     (verify (check_header end base offset) error_table_header_out_of_range_or_unaligned
     (let table = base + offset in
     bindR (read_uoffset B buf table) (\<lambda>soffset.
     let vbase = table - soffset in
     verify (vbase < 0x80000000 \<and> vbase AND 1 = 0) error_vtable_offset_out_of_range_or_unaligned
     (verify ((ucast vbase :: u64) + 2 \<le> ucast end) error_vtable_header_out_of_range
     (bindR (read_voffset B buf vbase) (\<lambda>vsize.
     let vend = vbase + ucast vsize in
     verify (vend \<le> end \<and> vsize AND 1 = 0) error_vtable_size_out_of_range_or_unaligned
     (verify (vsize \<ge> 4) error_vtable_header_too_small
     (bindR (read_voffset B buf (vbase + 2)) (\<lambda>tsize.
     verify (end - table \<ge> ucast tsize) error_table_size_out_of_range
     (tvf \<lparr>td_buf = buf, td_end = end, td_ttl = ttl - 1, td_vtable = buf + unat vbase, td_table = table,
        td_tsize = tsize, td_vsize = vsize\<rparr>))))))))))"

definition verify_table_vector :: "block \<Rightarrow> nat \<Rightarrow> u32 \<Rightarrow> u32 \<Rightarrow> u32 \<Rightarrow> int \<Rightarrow> table_verifier_f \<Rightarrow> verify_error res" where
  "verify_table_vector B buf end base offset ttl tvf =
     verify (ttl > 0) error_max_nesting_level_reached
     (let ttl = ttl - 1 in
     check_result (verify_vector B buf end base offset 4 4 (ucast (COUNT_MAX 4)))
     (let base = base + offset in
     bindR (read_uoffset B buf base) (\<lambda>n.
     each_offset (\<lambda>base offset. verify_table B buf end base offset ttl tvf) B buf (unat n) (base + 4))))"

text \<open>The loop over a vector of unions: the element at \<open>base\<close> has the type at \<open>types\<close>.\<close>

fun each_union :: "union_verifier_f \<Rightarrow> block \<Rightarrow> nat \<Rightarrow> u32 \<Rightarrow> int \<Rightarrow> nat \<Rightarrow> nat \<Rightarrow> u32 \<Rightarrow> verify_error res" where
  "each_union uvf B buf end ttl 0 types base = Ok error_ok"
| "each_union uvf B buf end ttl (Suc n) types base = bindR (read_uoffset B buf base) (\<lambda>elem.
     bindR (get types (blk_bytes B)) (\<lambda>t.
     let rest = each_union uvf B buf end ttl n (types + 1) (base + 4) in
     if elem = 0 then verify (t = 0) error_union_element_absent_without_type_NONE rest
     else verify (t \<noteq> 0) error_union_element_present_with_type_NONE
       (check_result (uvf \<lparr>ud_buf = buf, ud_end = end, ud_ttl = ttl, ud_type = t, ud_base = base, ud_offset = elem\<rparr>) rest)))"

definition verify_union_vector :: "block \<Rightarrow> nat \<Rightarrow> u32 \<Rightarrow> u32 \<Rightarrow> u32 \<Rightarrow> u32 \<Rightarrow> nat \<Rightarrow> int \<Rightarrow> union_verifier_f \<Rightarrow> verify_error res" where
  "verify_union_vector B buf end base offset count types ttl uvf =
     verify (ttl > 0) error_max_nesting_level_reached
     (let ttl = ttl - 1 in
     check_result (verify_vector B buf end base offset 4 4 (ucast (COUNT_MAX 4)))
     (let base = base + offset in
     bindR (read_uoffset B buf base) (\<lambda>n.
     verify (n = count) error_union_vector_length_mismatch
     (each_union uvf B buf end ttl (unat n) types (base + 4)))))"

section \<open>Fields of a table\<close>

definition flatcc_verify_field :: "block \<Rightarrow> table_verifier_descriptor \<Rightarrow> u16 \<Rightarrow> u64 \<Rightarrow> u16 \<Rightarrow> verify_error res" where
  "flatcc_verify_field B td i siz align = check_result (verify_field B td i False (ucast siz) align) (Ok error_ok)"

definition flatcc_verify_string_field :: "block \<Rightarrow> table_verifier_descriptor \<Rightarrow> u16 \<Rightarrow> bool \<Rightarrow> verify_error res" where
  "flatcc_verify_string_field B td i required = check_field B td i required (\<lambda>base.
     bindR (read_uoffset B (td_buf td) base) (\<lambda>offset.
     verify_string B (td_buf td) (td_end td) base offset))"

definition flatcc_verify_vector_field ::
  "block \<Rightarrow> table_verifier_descriptor \<Rightarrow> u16 \<Rightarrow> bool \<Rightarrow> u64 \<Rightarrow> u16 \<Rightarrow> u64 \<Rightarrow> verify_error res" where
  "flatcc_verify_vector_field B td i required elem_size align max_count = check_field B td i required (\<lambda>base.
     bindR (read_uoffset B (td_buf td) base) (\<lambda>offset.
     verify_vector B (td_buf td) (td_end td) base offset (ucast elem_size) align (ucast max_count)))"

definition flatcc_verify_string_vector_field :: "block \<Rightarrow> table_verifier_descriptor \<Rightarrow> u16 \<Rightarrow> bool \<Rightarrow> verify_error res" where
  "flatcc_verify_string_vector_field B td i required = check_field B td i required (\<lambda>base.
     bindR (read_uoffset B (td_buf td) base) (\<lambda>offset.
     verify_string_vector B (td_buf td) (td_end td) base offset))"

definition flatcc_verify_table_field ::
  "block \<Rightarrow> table_verifier_descriptor \<Rightarrow> u16 \<Rightarrow> bool \<Rightarrow> table_verifier_f \<Rightarrow> verify_error res" where
  "flatcc_verify_table_field B td i required tvf = check_field B td i required (\<lambda>base.
     bindR (read_uoffset B (td_buf td) base) (\<lambda>offset.
     verify_table B (td_buf td) (td_end td) base offset (td_ttl td) tvf))"

definition flatcc_verify_table_vector_field ::
  "block \<Rightarrow> table_verifier_descriptor \<Rightarrow> u16 \<Rightarrow> bool \<Rightarrow> table_verifier_f \<Rightarrow> verify_error res" where
  "flatcc_verify_table_vector_field B td i required tvf = check_field B td i required (\<lambda>base.
     bindR (read_uoffset B (td_buf td) base) (\<lambda>offset.
     verify_table_vector B (td_buf td) (td_end td) base offset (td_ttl td) tvf))"

definition flatcc_verify_union_table :: "block \<Rightarrow> union_verifier_descriptor \<Rightarrow> table_verifier_f \<Rightarrow> verify_error res" where
  "flatcc_verify_union_table B ud tvf = verify_table B (ud_buf ud) (ud_end ud) (ud_base ud) (ud_offset ud) (ud_ttl ud) tvf"

definition flatcc_verify_union_struct :: "union_verifier_descriptor \<Rightarrow> u64 \<Rightarrow> u16 \<Rightarrow> verify_error res" where
  "flatcc_verify_union_struct ud siz align = verify_struct (ud_end ud) (ud_base ud) (ud_offset ud) (ucast siz) align"

definition flatcc_verify_union_string :: "block \<Rightarrow> union_verifier_descriptor \<Rightarrow> verify_error res" where
  "flatcc_verify_union_string B ud = verify_string B (ud_buf ud) (ud_end ud) (ud_base ud) (ud_offset ud)"

section \<open>Roots\<close>

definition flatcc_verify_buffer_header :: "block \<Rightarrow> nat \<Rightarrow> u64 \<Rightarrow> bytes option \<Rightarrow> verify_error res" where
  "flatcc_verify_buffer_header B buf bufsiz fid =
     verify (address B buf AND 3 = 0) error_runtime_buffer_header_not_aligned
     (verify (bufsiz \<le> UOFFSET_MAX - 8) error_runtime_buffer_size_too_large
     (verify (bufsiz \<ge> 8) error_buffer_header_too_small
     (case fid of None \<Rightarrow> Ok error_ok
      | Some s \<Rightarrow> bindR (flatbuffers_type_hash_from_string s) (\<lambda>id2.
          bindR (read_thash B buf 4) (\<lambda>i.
          verify (id2 = 0 \<or> i = id2) error_identifier_mismatch (Ok error_ok))))))"

definition flatcc_verify_typed_buffer_header :: "block \<Rightarrow> nat \<Rightarrow> u64 \<Rightarrow> u32 \<Rightarrow> verify_error res" where
  "flatcc_verify_typed_buffer_header B buf bufsiz thash =
     verify (address B buf AND 3 = 0) error_runtime_buffer_header_not_aligned
     (verify (bufsiz \<le> UOFFSET_MAX - 8) error_runtime_buffer_size_too_large
     (verify (bufsiz \<ge> 8) error_buffer_header_too_small
     (if thash \<noteq> 0 then
        bindR (read_thash B buf 4) (\<lambda>i.
        verify (thash = 0 \<or> i = thash) error_identifier_mismatch (Ok error_ok))
      else Ok error_ok)))"

definition flatcc_verify_struct_as_root :: "block \<Rightarrow> nat \<Rightarrow> u64 \<Rightarrow> bytes option \<Rightarrow> u64 \<Rightarrow> u16 \<Rightarrow> verify_error res" where
  "flatcc_verify_struct_as_root B buf bufsiz fid siz align =
     check_result (flatcc_verify_buffer_header B buf bufsiz fid)
     (bindR (read_uoffset B buf 0) (\<lambda>offset. verify_struct (ucast bufsiz) 0 offset (ucast siz) align))"

definition flatcc_verify_struct_as_typed_root :: "block \<Rightarrow> nat \<Rightarrow> u64 \<Rightarrow> u32 \<Rightarrow> u64 \<Rightarrow> u16 \<Rightarrow> verify_error res" where
  "flatcc_verify_struct_as_typed_root B buf bufsiz thash siz align =
     check_result (flatcc_verify_typed_buffer_header B buf bufsiz thash)
     (bindR (read_uoffset B buf 0) (\<lambda>offset. verify_struct (ucast bufsiz) 0 offset (ucast siz) align))"

definition VERIFIER_MAX_LEVELS :: int where "VERIFIER_MAX_LEVELS = 100"

text \<open>The size is cut to 32 bits before it is checked.\<close>

definition flatcc_verify_table_as_root :: "block \<Rightarrow> nat \<Rightarrow> u64 \<Rightarrow> bytes option \<Rightarrow> table_verifier_f \<Rightarrow> verify_error res" where
  "flatcc_verify_table_as_root B buf bufsiz fid tvf = (let bufsiz = ucast bufsiz :: u32 in
     check_result (flatcc_verify_buffer_header B buf (ucast bufsiz) fid)
     (bindR (read_uoffset B buf 0) (\<lambda>offset. verify_table B buf bufsiz 0 offset VERIFIER_MAX_LEVELS tvf)))"

definition flatcc_verify_table_as_typed_root :: "block \<Rightarrow> nat \<Rightarrow> u64 \<Rightarrow> u32 \<Rightarrow> table_verifier_f \<Rightarrow> verify_error res" where
  "flatcc_verify_table_as_typed_root B buf bufsiz thash tvf = (let bufsiz = ucast bufsiz :: u32 in
     check_result (flatcc_verify_typed_buffer_header B buf (ucast bufsiz) thash)
     (bindR (read_uoffset B buf 0) (\<lambda>offset. verify_table B buf bufsiz 0 offset VERIFIER_MAX_LEVELS tvf)))"

text \<open>The nested buffer in a vector: its start and its size. \<open>flatcc_verify_vector_field\<close> gets \<open>align\<close> as
  the element size and 1 as the alignment.\<close>

definition nested_buffer :: "block \<Rightarrow> table_verifier_descriptor \<Rightarrow> u16 \<Rightarrow> bool \<Rightarrow> u16 \<Rightarrow> (nat \<Rightarrow> u32 \<Rightarrow> verify_error res) \<Rightarrow> verify_error res" where
  "nested_buffer B td i required align f =
     check_result (flatcc_verify_vector_field B td i required (ucast align) 1 (COUNT_MAX 1))
     (bindR (get_field_ptr B td i) (\<lambda>p. case p of None \<Rightarrow> Ok error_ok
      | Some p \<Rightarrow> bindR (read_uoffset B p 0) (\<lambda>offset.
          let p = p + unat offset in
          bindR (read_uoffset B p 0) (\<lambda>bufsiz. f (p + 4) bufsiz))))"

definition flatcc_verify_struct_as_nested_root ::
  "block \<Rightarrow> table_verifier_descriptor \<Rightarrow> u16 \<Rightarrow> bool \<Rightarrow> bytes option \<Rightarrow> u64 \<Rightarrow> u16 \<Rightarrow> verify_error res" where
  "flatcc_verify_struct_as_nested_root B td i required fid siz align = nested_buffer B td i required align (\<lambda>buf bufsiz.
     flatcc_verify_struct_as_root B buf (ucast bufsiz) fid siz align)"

definition flatcc_verify_table_as_nested_root ::
  "block \<Rightarrow> table_verifier_descriptor \<Rightarrow> u16 \<Rightarrow> bool \<Rightarrow> bytes option \<Rightarrow> u16 \<Rightarrow> table_verifier_f \<Rightarrow> verify_error res" where
  "flatcc_verify_table_as_nested_root B td i required fid align tvf = nested_buffer B td i required align (\<lambda>buf bufsiz.
     check_result (flatcc_verify_buffer_header B buf (ucast bufsiz) fid)
     (bindR (read_uoffset B buf 0) (\<lambda>offset. verify_table B buf bufsiz 0 offset (td_ttl td) tvf)))"

section \<open>Unions\<close>

definition flatcc_verify_union_field ::
  "block \<Rightarrow> table_verifier_descriptor \<Rightarrow> u16 \<Rightarrow> bool \<Rightarrow> union_verifier_f \<Rightarrow> verify_error res" where
  "flatcc_verify_union_field B td i required uvf = bindR (read_vt_entry B td (i - 1)) (\<lambda>vte_type.
     if vte_type = 0 then
       bindR (read_vt_entry B td i) (\<lambda>vte_table.
       verify (vte_table = 0) error_union_cannot_have_a_table_without_a_type
       (verify (\<not> required) error_type_field_absent_from_required_union_field (Ok error_ok)))
     else
       check_result (verify_field B td (i - 1) False 1 1)
       (bindR (read_vt_entry B td i) (\<lambda>vte_table.
       bindR (get (td_buf td + unat (td_table td) + unat vte_type) (blk_bytes B)) (\<lambda>t.
       verify (t \<noteq> 0 \<or> vte_table = 0) error_union_type_NONE_cannot_have_a_value
       (if t = 0 then Ok error_ok
        else check_field B td i required (\<lambda>base.
          bindR (read_uoffset B (td_buf td) base) (\<lambda>offset.
          uvf \<lparr>ud_buf = td_buf td, ud_end = td_end td, ud_ttl = td_ttl td, ud_type = t, ud_base = base,
            ud_offset = offset\<rparr>)))))))"

definition flatcc_verify_union_vector_field ::
  "block \<Rightarrow> table_verifier_descriptor \<Rightarrow> u16 \<Rightarrow> bool \<Rightarrow> union_verifier_f \<Rightarrow> verify_error res" where
  "flatcc_verify_union_vector_field B td i required uvf = bindR (read_vt_entry B td (i - 1)) (\<lambda>vte_type.
     bindR (if vte_type = 0 then read_vt_entry B td i else Ok 1) (\<lambda>vte_table.
     verify (\<not> (vte_type = 0 \<and> vte_table = 0 \<and> required)) error_type_field_absent_from_required_union_vector_field
     (check_result (flatcc_verify_vector_field B td (i - 1) required 1 1 (COUNT_MAX 1))
     (bindR (get_field_ptr B td (i - 1)) (\<lambda>p. case p of None \<Rightarrow> Ok error_ok
      | Some p \<Rightarrow> bindR (read_uoffset B p 0) (\<lambda>offset.
          let p = p + unat offset in
          bindR (read_uoffset B p 0) (\<lambda>count.
          check_field B td i required (\<lambda>base.
          bindR (read_uoffset B (td_buf td) base) (\<lambda>offset.
          verify_union_vector B (td_buf td) (td_end td) base offset count (p + 4) (td_ttl td) uvf)))))))))"

end
