(* ===== verification/Fb_Schema.thy ===== *)
theory Fb_Schema
  imports Fb_Verifier
begin

text \<open>
  The generated verifiers of a schema: each is a list of calls into the runtime verifier, made in order
  until one of them fails. Tables and unions are numbered; the schema of schemas is an example
  (\<^verbatim>\<open>flatcc/include/flatcc/reflection/reflection_verifier.h\<close>).
\<close>

section \<open>Generated verifiers\<close>

datatype field_check =
    Field u16 u64 u16
  | Vector_field u16 bool u64 u16
  | String_field u16 bool
  | String_vector_field u16 bool
  | Table_field u16 bool nat
  | Table_vector_field u16 bool nat
  | Struct_nested_root u16 bool u64 u16
  | Table_nested_root u16 bool u16 nat
  | Union_field u16 bool nat
  | Union_vector_field u16 bool nat

datatype union_case = Union_table nat | Union_struct u64 u16 | Union_string

record fb_schema =
  fb_tables :: "field_check list list"
  fb_unions :: "(u8 \<times> union_case) list list"

text \<open>A call of a generated verifier. The code generator passes \<open>COUNT_MAX(elem_size)\<close> for vectors and no
  identifier for nested buffers.\<close>

definition verify_check :: "(nat \<Rightarrow> table_verifier_f) \<Rightarrow> (nat \<Rightarrow> union_verifier_f) \<Rightarrow> block
    \<Rightarrow> table_verifier_descriptor \<Rightarrow> field_check \<Rightarrow> verify_error res" where
  "verify_check tvf uvf B td c = (case c of
     Field i siz align \<Rightarrow> flatcc_verify_field B td i siz align
   | Vector_field i required elem_size align \<Rightarrow>
       flatcc_verify_vector_field B td i required elem_size align (COUNT_MAX elem_size)
   | String_field i required \<Rightarrow> flatcc_verify_string_field B td i required
   | String_vector_field i required \<Rightarrow> flatcc_verify_string_vector_field B td i required
   | Table_field i required t \<Rightarrow> flatcc_verify_table_field B td i required (tvf t)
   | Table_vector_field i required t \<Rightarrow> flatcc_verify_table_vector_field B td i required (tvf t)
   | Struct_nested_root i required siz align \<Rightarrow> flatcc_verify_struct_as_nested_root B td i required None siz align
   | Table_nested_root i required align t \<Rightarrow> flatcc_verify_table_as_nested_root B td i required None align (tvf t)
   | Union_field i required u \<Rightarrow> flatcc_verify_union_field B td i required (uvf u)
   | Union_vector_field i required u \<Rightarrow> flatcc_verify_union_vector_field B td i required (uvf u))"

fun verify_checks :: "(field_check \<Rightarrow> verify_error res) \<Rightarrow> field_check list \<Rightarrow> verify_error res" where
  "verify_checks f [] = Ok error_ok"
| "verify_checks f (c # cs) = check_result (f c) (verify_checks f cs)"

text \<open>A union verifier: a type it does not know is accepted.\<close>

definition union_verifier :: "(nat \<Rightarrow> table_verifier_f) \<Rightarrow> block \<Rightarrow> (u8 \<times> union_case) list \<Rightarrow> union_verifier_f" where
  "union_verifier tvf B cases ud = (case map_of cases (ud_type ud) of
     None \<Rightarrow> Ok error_ok
   | Some (Union_table t) \<Rightarrow> flatcc_verify_union_table B ud (tvf t)
   | Some (Union_struct siz align) \<Rightarrow> flatcc_verify_union_struct ud siz align
   | Some Union_string \<Rightarrow> flatcc_verify_union_string B ud)"

text \<open>The table verifiers call each other; \<open>d\<close> is the number of calls the stack has room for.\<close>

fun table_verifier :: "fb_schema \<Rightarrow> block \<Rightarrow> nat \<Rightarrow> nat \<Rightarrow> table_verifier_f" where
  "table_verifier S B 0 t td = Fault"
| "table_verifier S B (Suc d) t td = (if t < length (fb_tables S) then
     verify_checks (verify_check (table_verifier S B d)
       (\<lambda>u. union_verifier (table_verifier S B d) B (if u < length (fb_unions S) then fb_unions S ! u else [])) B td)
       (fb_tables S ! t)
   else Fault)"

section \<open>The schema of schemas\<close>

definition reflection_Type_verify_table :: "field_check list" where
  "reflection_Type_verify_table = [Field 0 1 1, Field 1 1 1, Field 2 4 4, Field 3 2 2]"

definition reflection_KeyValue_verify_table :: "field_check list" where
  "reflection_KeyValue_verify_table = [String_field 0 True, String_field 1 False]"

definition reflection_EnumVal_verify_table :: "field_check list" where
  "reflection_EnumVal_verify_table = [String_field 0 True, Field 1 8 8, Table_field 2 False 5, Table_field 3 False 0, String_vector_field 4 False]"

definition reflection_Enum_verify_table :: "field_check list" where
  "reflection_Enum_verify_table = [String_field 0 True, Table_vector_field 1 True 2, Field 2 1 1, Table_field 3 True 0, Table_vector_field 4 False 1, String_vector_field 5 False]"

definition reflection_Field_verify_table :: "field_check list" where
  "reflection_Field_verify_table = [String_field 0 True, Table_field 1 True 0, Field 2 2 2, Field 3 2 2, Field 4 8 8, Field 5 8 8, Field 6 1 1, Field 7 1 1, Field 8 1 1, Table_vector_field 9 False 1, String_vector_field 10 False, Field 11 1 1]"

definition reflection_Object_verify_table :: "field_check list" where
  "reflection_Object_verify_table = [String_field 0 True, Table_vector_field 1 True 4, Field 2 1 1, Field 3 4 4, Field 4 4 4, Table_vector_field 5 False 1, String_vector_field 6 False]"

definition reflection_RPCCall_verify_table :: "field_check list" where
  "reflection_RPCCall_verify_table = [String_field 0 True, Table_field 1 True 5, Table_field 2 True 5, Table_vector_field 3 False 1, String_vector_field 4 False]"

definition reflection_Service_verify_table :: "field_check list" where
  "reflection_Service_verify_table = [String_field 0 True, Table_vector_field 1 False 6, Table_vector_field 2 False 1, String_vector_field 3 False]"

definition reflection_Schema_verify_table :: "field_check list" where
  "reflection_Schema_verify_table = [Table_vector_field 0 True 5, Table_vector_field 1 True 3, String_field 2 False, String_field 3 False, Table_field 4 False 5, Table_vector_field 5 False 7]"

definition reflection_schema :: fb_schema where
  "reflection_schema = \<lparr>fb_tables = [reflection_Type_verify_table, reflection_KeyValue_verify_table, reflection_EnumVal_verify_table, reflection_Enum_verify_table, reflection_Field_verify_table, reflection_Object_verify_table, reflection_RPCCall_verify_table, reflection_Service_verify_table, reflection_Schema_verify_table],
     fb_unions = []\<rparr>"

end
