(* ===== verification/Fb_Reader.thy ===== *)
theory Fb_Reader
  imports Fb_Schema
begin

text \<open>
  Reading a buffer in place with the generated accessors
  (\<^verbatim>\<open>flatcc/include/flatcc/reflection/flatbuffers_common_reader.h\<close>). They check nothing: a table is a pointer, and
  every offset found is followed. \<open>visit\<close> reads all that the accessors of a schema can reach.
\<close>

section \<open>Accessors\<close>

definition read_vt :: "block \<Rightarrow> u16 \<Rightarrow> nat \<Rightarrow> u16 res" where
  "read_vt B i t = bindR (read_le32 B t) (\<lambda>soffset.
     let vt = int t - sint soffset in
     if vt < 0 then Fault
     else bindR (read_le16 B (nat vt)) (\<lambda>vsize.
       if unat vsize \<ge> 2 * (unat i + 3) then read_le16 B (nat vt + 2 * (unat i + 2)) else Ok 0))"

definition field_present :: "block \<Rightarrow> u16 \<Rightarrow> nat \<Rightarrow> bool res" where
  "field_present B i t = bindR (read_vt B i t) (\<lambda>offset. Ok (offset \<noteq> 0))"

text \<open>A scalar of \<open>siz\<close> bytes, or \<open>None\<close> for its default.\<close>

definition scalar_field :: "block \<Rightarrow> u16 \<Rightarrow> nat \<Rightarrow> nat \<Rightarrow> bytes option res" where
  "scalar_field B i siz t = bindR (read_vt B i t) (\<lambda>offset.
     if offset \<noteq> 0 then bindR (read_bytes (t + unat offset) siz (blk_bytes B)) (\<lambda>bs. Ok (Some bs)) else Ok None)"

definition struct_field :: "block \<Rightarrow> u16 \<Rightarrow> bool \<Rightarrow> nat \<Rightarrow> nat option res" where
  "struct_field B i required t = bindR (read_vt B i t) (\<lambda>offset.
     if offset \<noteq> 0 then Ok (Some (t + unat offset)) else if required then Fault else Ok None)"

definition offset_field :: "block \<Rightarrow> u16 \<Rightarrow> bool \<Rightarrow> nat \<Rightarrow> nat \<Rightarrow> nat option res" where
  "offset_field B i required adjust t = bindR (read_vt B i t) (\<lambda>offset.
     if offset \<noteq> 0 then
       let elem = t + unat offset in
       bindR (read_le32 B elem) (\<lambda>u. Ok (Some (elem + adjust + unat u)))
     else if required then Fault else Ok None)"

definition vector_field :: "block \<Rightarrow> u16 \<Rightarrow> bool \<Rightarrow> nat \<Rightarrow> nat option res" where
  "vector_field B i required t = offset_field B i required 4 t"

definition table_field :: "block \<Rightarrow> u16 \<Rightarrow> bool \<Rightarrow> nat \<Rightarrow> nat option res" where
  "table_field B i required t = offset_field B i required 0 t"

text \<open>A vector points behind its header, which holds the length.\<close>

definition vec_len :: "block \<Rightarrow> nat option \<Rightarrow> nat res" where
  "vec_len B vec = (case vec of None \<Rightarrow> Ok 0
   | Some p \<Rightarrow> if p < 4 then Fault else bindR (read_le32 B (p - 4)) (\<lambda>n. Ok (unat n)))"

definition scalar_vec_at :: "block \<Rightarrow> nat \<Rightarrow> nat \<Rightarrow> nat \<Rightarrow> bytes res" where
  "scalar_vec_at B siz vec i = bindR (vec_len B (Some vec)) (\<lambda>n.
     bindR (guardR (i < n)) (\<lambda>_. read_bytes (vec + siz * i) siz (blk_bytes B)))"

definition offset_vec_at :: "block \<Rightarrow> nat \<Rightarrow> nat \<Rightarrow> nat \<Rightarrow> nat res" where
  "offset_vec_at B adjust vec i = (let elem = vec + 4 * i in
     bindR (vec_len B (Some vec)) (\<lambda>n.
     bindR (guardR (i < n)) (\<lambda>_.
     bindR (read_le32 B elem) (\<lambda>u. Ok (elem + unat u + adjust)))))"

definition union_type_field :: "block \<Rightarrow> u16 \<Rightarrow> nat \<Rightarrow> u8 res" where
  "union_type_field B i t = bindR (read_vt B i t) (\<lambda>offset.
     if offset \<noteq> 0 then get (t + unat offset) (blk_bytes B) else Ok 0)"

text \<open>A union of a vector of unions: its type and its value. A vector that is absent is null.\<close>

definition union_vec_at :: "block \<Rightarrow> nat option \<Rightarrow> nat option \<Rightarrow> nat \<Rightarrow> (u8 \<times> nat option) res" where
  "union_vec_at B types vals i = bindR (vec_len B types) (\<lambda>n.
     bindR (guardR (i < n)) (\<lambda>_.
     case types of None \<Rightarrow> Fault | Some ts \<Rightarrow>
     bindR (get (ts + i) (blk_bytes B)) (\<lambda>ty.
     if ty = 0 then Ok (0, None)
     else case vals of None \<Rightarrow> Fault
       | Some vs \<Rightarrow> bindR (offset_vec_at B 0 vs i) (\<lambda>p. Ok (ty, Some p)))))"

section \<open>Reading everything\<close>

text \<open>\<open>for (i = 0; i < n; i++) f(i)\<close>\<close>

fun each_index :: "(nat \<Rightarrow> unit res) \<Rightarrow> nat \<Rightarrow> nat \<Rightarrow> unit res" where
  "each_index f i 0 = Ok ()"
| "each_index f i (Suc n) = bindR (f i) (\<lambda>_. each_index f (i + 1) n)"

definition ignore :: "'a res \<Rightarrow> unit res" where
  "ignore r = bindR r (\<lambda>_. Ok ())"

text \<open>A string up to its terminating zero, which must be there.\<close>

definition visit_string :: "block \<Rightarrow> nat \<Rightarrow> unit res" where
  "visit_string B p = bindR (vec_len B (Some p)) (\<lambda>n.
     bindR (read_bytes p n (blk_bytes B)) (\<lambda>_.
     bindR (get (p + n) (blk_bytes B)) (\<lambda>c. guardR (c = 0))))"

definition when_some :: "('a \<Rightarrow> unit res) \<Rightarrow> 'a option \<Rightarrow> unit res" where
  "when_some f x = (case x of None \<Rightarrow> Ok () | Some y \<Rightarrow> f y)"

definition visit_vector :: "(nat \<Rightarrow> nat \<Rightarrow> unit res) \<Rightarrow> block \<Rightarrow> nat \<Rightarrow> unit res" where
  "visit_vector f B p = bindR (vec_len B (Some p)) (\<lambda>n. each_index (f p) 0 n)"

text \<open>The root of a buffer.\<close>

definition visit_root :: "(nat \<Rightarrow> unit res) \<Rightarrow> block \<Rightarrow> nat \<Rightarrow> unit res" where
  "visit_root f B buf = bindR (read_le32 B buf) (\<lambda>u. f (buf + unat u))"

definition visit_union :: "(nat \<Rightarrow> nat \<Rightarrow> unit res) \<Rightarrow> block \<Rightarrow> (u8 \<times> union_case) list \<Rightarrow> u8 \<Rightarrow> nat \<Rightarrow> unit res" where
  "visit_union visit B cases t p = (case map_of cases t of
     None \<Rightarrow> Ok ()
   | Some (Union_table i) \<Rightarrow> visit i p
   | Some (Union_struct siz _) \<Rightarrow> ignore (read_bytes p (unat siz) (blk_bytes B))
   | Some Union_string \<Rightarrow> visit_string B (p + 4))"

definition visit_check :: "(nat \<Rightarrow> nat \<Rightarrow> unit res) \<Rightarrow> (nat \<Rightarrow> (u8 \<times> union_case) list) \<Rightarrow> block \<Rightarrow> nat \<Rightarrow> field_check \<Rightarrow> unit res" where
  "visit_check visit cases B t c = (case c of
     Field i siz _ \<Rightarrow> ignore (scalar_field B i (unat siz) t)
   | Vector_field i required elem_size _ \<Rightarrow>
       bindR (vector_field B i required t) (when_some (visit_vector (\<lambda>p k. ignore (scalar_vec_at B (unat elem_size) p k)) B))
   | String_field i required \<Rightarrow> bindR (vector_field B i required t) (when_some (visit_string B))
   | String_vector_field i required \<Rightarrow>
       bindR (vector_field B i required t) (when_some (visit_vector (\<lambda>p k. bindR (offset_vec_at B 4 p k) (visit_string B)) B))
   | Table_field i required j \<Rightarrow> bindR (table_field B i required t) (when_some (visit j))
   | Table_vector_field i required j \<Rightarrow>
       bindR (vector_field B i required t) (when_some (visit_vector (\<lambda>p k. bindR (offset_vec_at B 0 p k) (visit j)) B))
   | Struct_nested_root i required siz _ \<Rightarrow>
       bindR (vector_field B i required t) (when_some (visit_root (\<lambda>p. ignore (read_bytes p (unat siz) (blk_bytes B))) B))
   | Table_nested_root i required _ j \<Rightarrow>
       bindR (vector_field B i required t) (when_some (visit_root (visit j) B))
   | Union_field i required u \<Rightarrow> bindR (union_type_field B (i - 1) t) (\<lambda>k.
       if k = 0 then Ok ()
       else bindR (table_field B i required t) (when_some (visit_union visit B (cases u) k)))
   | Union_vector_field i required u \<Rightarrow>
       bindR (vector_field B (i - 1) required t) (\<lambda>types.
       bindR (vector_field B i required t) (\<lambda>vals.
       bindR (vec_len B types) (each_index (\<lambda>k.
         bindR (union_vec_at B types vals k) (\<lambda>(ty, p). when_some (visit_union visit B (cases u) ty) p)) 0))))"

fun visit_checks :: "(field_check \<Rightarrow> unit res) \<Rightarrow> field_check list \<Rightarrow> unit res" where
  "visit_checks f [] = Ok ()"
| "visit_checks f (c # cs) = bindR (f c) (\<lambda>_. visit_checks f cs)"

text \<open>All of a table, as deep as \<open>d\<close> levels.\<close>

fun visit_table :: "fb_schema \<Rightarrow> block \<Rightarrow> nat \<Rightarrow> nat \<Rightarrow> nat \<Rightarrow> unit res" where
  "visit_table S B 0 j t = Fault"
| "visit_table S B (Suc d) j t = (if j < length (fb_tables S) then
     visit_checks (visit_check (visit_table S B d) (\<lambda>u. if u < length (fb_unions S) then fb_unions S ! u else []) B t)
       (fb_tables S ! j)
   else Fault)"

end
