(* ===== verification/Fb_Sound.thy ===== *)
theory Fb_Sound imports Fb_Reader begin

text \<open>
  The verifier is safe and sound: on any bytes it stays within the buffer and returns, and whatever the
  accessors reach in a buffer it accepts lies within the buffer.
\<close>

section \<open>Reading within a buffer\<close>

definition in_buf :: "block \<Rightarrow> nat \<Rightarrow> u32 \<Rightarrow> bool" where
  "in_buf B buf end \<longleftrightarrow> buf + unat end \<le> length (blk_bytes B)"

lemma read_le32_Ok: "p + 4 \<le> length (blk_bytes B) \<Longrightarrow> \<exists>w. read_le32 B p = Ok w"
  by (simp add: read_le32_def read_bytes_def)

lemma read_le16_Ok: "p + 2 \<le> length (blk_bytes B) \<Longrightarrow> \<exists>w. read_le16 B p = Ok w"
  by (simp add: read_le16_def read_bytes_def)

lemma read_uoffset_Ok: "in_buf B buf end \<Longrightarrow> unat base + 4 \<le> unat end \<Longrightarrow> \<exists>w. read_uoffset B buf base = Ok w"
  unfolding read_uoffset_def by (rule read_le32_Ok) (simp add: in_buf_def)

lemma get_Ok: "i < length bs \<Longrightarrow> \<exists>b. get i bs = Ok b"
  by (simp add: get_def)

text \<open>Arithmetic that does not wrap.\<close>

lemma add_no_wrap: "(a :: u32) < a + b \<Longrightarrow> unat (a + b) = unat a + unat b"
  using unat_plus_simple [of a b] by (simp add: order_less_imp_le)

lemma u32_bound: "unat (w :: u32) < 4294967296"
  by (rule order_less_le_trans [OF unsigned_less]) simp

lemma add_small: "unat (a :: u32) + unat b < 2 ^ 32 \<Longrightarrow> unat (a + b) = unat a + unat b"
  by (simp add: unat_word_ariths)

lemma four_le: "(ucast (k :: u32) :: u64) + 4 \<le> ucast (e :: u32) \<longleftrightarrow> unat k + 4 \<le> unat e"
proof -
  have kb: "unat k < 2 ^ 32" "unat e < 2 ^ 32" using u32_bound [of k] u32_bound [of e] by simp_all
  then have "unat ((ucast k :: u64) + 4) = unat k + 4"
    by (simp add: unat_word_ariths unsigned_ucast_eq take_bit_nat_eq_self)
  then show ?thesis using kb by (simp add: word_le_nat_alt unsigned_ucast_eq take_bit_nat_eq_self)
qed

lemma two_le: "(ucast (k :: u32) :: u64) + 2 \<le> ucast (e :: u32) \<longleftrightarrow> unat k + 2 \<le> unat e"
proof -
  have kb: "unat k < 2 ^ 32" "unat e < 2 ^ 32" using u32_bound [of k] u32_bound [of e] by simp_all
  then have "unat ((ucast k :: u64) + 2) = unat k + 2"
    by (simp add: unat_word_ariths unsigned_ucast_eq take_bit_nat_eq_self)
  then show ?thesis using kb by (simp add: word_le_nat_alt unsigned_ucast_eq take_bit_nat_eq_self)
qed

lemma check_headerD:
  assumes "check_header end base offset"
  shows "unat (base + offset) = unat base + unat offset" "unat base + unat offset + 4 \<le> unat end" "unat base < unat (base + offset)"
  using assms add_no_wrap [of base offset] by (auto simp: check_header_def Let_def four_le word_less_nat_alt)

lemma check_aligned_headerD:
  assumes "check_aligned_header end base offset align"
  shows "unat (base + offset) = unat base + unat offset" "unat base + unat offset + 4 \<le> unat end" "unat base < unat (base + offset)"
  using assms add_no_wrap [of base offset] by (auto simp: check_aligned_header_def Let_def four_le word_less_nat_alt)

section \<open>Strings and vectors\<close>

lemma gives_verify: "(c \<Longrightarrow> gives P k) \<Longrightarrow> (\<not> c \<Longrightarrow> P reason) \<Longrightarrow> gives P (verify c reason k)"
  by (simp add: verify_def)

lemma gives_check:
  assumes "gives (\<lambda>e. e = error_ok \<longrightarrow> Q) r" and "Q \<Longrightarrow> gives (\<lambda>e. e = error_ok \<longrightarrow> P) k"
  shows "gives (\<lambda>e. e = error_ok \<longrightarrow> P) (check_result r k)"
  unfolding check_result_def by (rule gives_bind [OF assms(1)]) (use assms(2) in auto)

lemma verify_string_ok:
  assumes B: "in_buf B buf end"
  shows "gives (\<lambda>e. e = error_ok \<longrightarrow> visit_string B (buf + unat base + unat offset + 4) = Ok ()) (verify_string B buf end base offset)"
  unfolding verify_string_def
proof (rule gives_verify)
  assume "check_header end base offset"
  note h = check_headerD [OF this]
  obtain n where n: "read_uoffset B buf (base + offset) = Ok n" using read_uoffset_Ok [OF B] h by fastforce
  have b: "unat (base + offset + 4) = unat base + unat offset + 4"
    using h(1,2) add_small [of "base + offset" 4] u32_bound [of "end"] by simp
  show "gives (\<lambda>e. e = error_ok \<longrightarrow> visit_string B (buf + unat base + unat offset + 4) = Ok ())
    (let base = base + offset in bindR (read_uoffset B buf base) (\<lambda>n. let base = base + 4 in
       verify (end - base > n) error_string_out_of_range
        (bindR (get (buf + unat base + unat n) (blk_bytes B)) (\<lambda>c. verify (c = 0) error_string_not_zero_terminated (Ok error_ok)))))"
    unfolding Let_def n bindR.simps
  proof (rule gives_verify)
    assume "n < end - (base + offset + 4)"
    moreover have "base + offset + 4 \<le> end" using b h(2) by (simp add: word_le_nat_alt)
    ultimately have e: "unat base + unat offset + 4 + unat n < unat end"
      using b by (simp add: word_less_nat_alt unat_sub word_le_nat_alt)
    let ?p = "buf + unat base + unat offset + 4"
    obtain c where c: "get (?p + unat n) (blk_bytes B) = Ok c" using get_Ok [of "?p + unat n"] e B by (fastforce simp: in_buf_def)
    have l: "vec_len B (Some ?p) = Ok (unat n)" using n h(1) by (simp add: vec_len_def read_uoffset_def ac_simps)
    have "?p + unat n \<le> length (blk_bytes B)" using e B by (simp add: in_buf_def)
    then have "visit_string B ?p = Ok ()" if "c = 0"
      using c that unfolding visit_string_def l by (simp add: read_bytes_def)
    moreover have "buf + unat (base + offset + 4) + unat n = ?p + unat n" using b by simp
    then have "get (buf + unat (base + offset + 4) + unat n) (blk_bytes B) = Ok c" using c by (simp only:)
    ultimately show "gives (\<lambda>e. e = error_ok \<longrightarrow> visit_string B ?p = Ok ())
      (bindR (get (buf + unat (base + offset + 4) + unat n) (blk_bytes B)) (\<lambda>c. verify (c = 0) error_string_not_zero_terminated (Ok error_ok)))"
      by (simp add: verify_def)
  qed simp
qed simp

lemma verify_vector_ok:
  assumes B: "in_buf B buf end"
  shows "gives (\<lambda>e. e = error_ok \<longrightarrow> (\<exists>n. read_uoffset B buf (base + offset) = Ok n \<and> n \<le> max_count
      \<and> unat (base + offset) = unat base + unat offset \<and> unat base < unat base + unat offset
      \<and> unat base + unat offset + 4 + unat (n * elem_size) \<le> unat end)) (verify_vector B buf end base offset elem_size align max_count)"
  unfolding verify_vector_def
proof (rule gives_verify)
  assume "check_aligned_header end base offset align"
  note h = check_aligned_headerD [OF this]
  obtain n where n: "read_uoffset B buf (base + offset) = Ok n" using read_uoffset_Ok [OF B] h by fastforce
  have b: "unat (base + offset + 4) = unat base + unat offset + 4"
    using h(1,2) add_small [of "base + offset" 4] u32_bound [of "end"] by simp
  have "base + offset + 4 \<le> end" using b h(2) by (simp add: word_le_nat_alt)
  then have "unat base + unat offset + 4 + unat (n * elem_size) \<le> unat end" if "n * elem_size \<le> end - (base + offset + 4)"
    using that b by (simp add: word_le_nat_alt unat_sub)
  then show "gives (\<lambda>e. e = error_ok \<longrightarrow> (\<exists>n. read_uoffset B buf (base + offset) = Ok n \<and> n \<le> max_count
      \<and> unat (base + offset) = unat base + unat offset \<and> unat base < unat base + unat offset
      \<and> unat base + unat offset + 4 + unat (n * elem_size) \<le> unat end))
    (let base = base + offset in bindR (read_uoffset B buf base) (\<lambda>n. let base = base + 4 in
       verify (n \<le> max_count) error_vector_count_exceeds_representable_vector_size
       (verify (end - base \<ge> n * elem_size) error_vector_out_of_range (Ok error_ok))))"
    using n h by (auto simp: Let_def verify_def)
qed simp

text \<open>The product does not wrap below the largest count.\<close>

lemma count_max:
  assumes "unat (elem :: u64) < 2 ^ 32" and "n \<le> ucast (COUNT_MAX elem)"
  shows "unat ((n :: u32) * ucast elem) = unat n * unat elem"
proof -
  let ?m = "if elem = 0 then 1 else elem"
  have e: "unat (ucast elem :: u32) = unat elem" using assms(1) by (simp add: unsigned_ucast_eq take_bit_nat_eq_self)
  have c: "unat (COUNT_MAX elem) = (2 ^ 32 - 1) div unat ?m" by (simp add: COUNT_MAX_def UOFFSET_MAX_def unat_div)
  have "unat n \<le> unat (ucast (COUNT_MAX elem) :: u32)" using assms(2) by (simp add: word_le_nat_alt)
  also have "\<dots> \<le> unat (COUNT_MAX elem)" by (simp add: unsigned_ucast_eq)
  finally have "unat n * unat elem \<le> (2 ^ 32 - 1) div unat ?m * unat ?m" using c by (cases "elem = 0") (auto intro: mult_le_mono1)
  also have "\<dots> \<le> 2 ^ 32 - 1" by (rule div_times_less_eq_dividend)
  finally show ?thesis using e by (simp add: unat_word_ariths)
qed

section \<open>Tables\<close>

definition td_pos :: "table_verifier_descriptor \<Rightarrow> nat" where
  "td_pos td = td_buf td + unat (td_table td)"

text \<open>A descriptor as \<open>verify_table\<close> passes it on. An accessor finds the same vtable from the table
  when the buffer has no more than two gigabytes, as far as a signed offset reaches.\<close>

definition small_buf :: "u32 \<Rightarrow> bool" where
  "small_buf end \<longleftrightarrow> unat end \<le> 2 ^ 31"

definition td_ok :: "block \<Rightarrow> table_verifier_descriptor \<Rightarrow> bool" where
  "td_ok B td \<longleftrightarrow> in_buf B (td_buf td) (td_end td) \<and> unat (td_table td) + unat (td_tsize td) \<le> unat (td_end td)
     \<and> even (unat (td_vsize td)) \<and> td_vtable td + unat (td_vsize td) \<le> td_buf td + unat (td_end td)
     \<and> read_le16 B (td_vtable td) = Ok (td_vsize td)
     \<and> (small_buf (td_end td) \<longrightarrow> (\<exists>s. read_le32 B (td_pos td) = Ok s \<and> int (td_vtable td) = int (td_pos td) - sint s))"

definition id_ok :: "u16 \<Rightarrow> bool" where
  "id_ok i \<longleftrightarrow> unat i \<le> 32764"

lemma u16_bound: "unat (w :: u16) < 65536"
  by (rule order_less_le_trans [OF unsigned_less]) simp

lemma read_vt_entry_ok:
  assumes td: "td_ok B td" and i: "id_ok i"
  shows "\<exists>v. read_vt_entry B td i = Ok v \<and> (small_buf (td_end td) \<longrightarrow> read_vt B i (td_pos td) = Ok v)"
proof -
  let ?vo = "(i + 2) * 2" and ?n = "2 * (unat i + 2)"
  have vo: "unat ?vo = ?n" using i by (simp add: id_ok_def unat_word_ariths)
  have vo32: "unat (ucast ?vo :: u32) = ?n" using vo u16_bound [of ?vo] by (simp add: unsigned_ucast_eq take_bit_nat_eq_self)
  have ev: "even (unat (td_vsize td))" using td by (simp add: td_ok_def)
  have le: "?vo \<ge> td_vsize td \<longleftrightarrow> \<not> 2 * (unat i + 3) \<le> unat (td_vsize td)"
    using ev vo by (auto simp: word_le_nat_alt) presburger
  have reader: "read_vt B i (td_pos td) = (if unat (td_vsize td) \<ge> 2 * (unat i + 3) then read_le16 B (td_vtable td + ?n) else Ok 0)"
    if sb: "small_buf (td_end td)"
  proof -
    obtain s where s: "read_le32 B (td_pos td) = Ok s" "int (td_pos td) - sint s = int (td_vtable td)" using td sb by (auto simp: td_ok_def)
    have "read_le16 B (td_vtable td) = Ok (td_vsize td)" using td by (simp add: td_ok_def)
    then show ?thesis unfolding read_vt_def s bindR.simps Let_def by simp
  qed
  show ?thesis
  proof (cases "?vo \<ge> td_vsize td")
    case True
    then show ?thesis using reader le by (simp add: read_vt_entry_def Let_def)
  next
    case False
    then have "td_vtable td + ?n + 2 \<le> length (blk_bytes B)" using td le by (auto simp: td_ok_def in_buf_def)
    then obtain v where v: "read_le16 B (td_vtable td + ?n) = Ok v" using read_le16_Ok by blast
    then have "read_vt_entry B td i = Ok v" using False vo32 by (simp add: read_vt_entry_def Let_def read_voffset_def)
    moreover have "read_vt B i (td_pos td) = Ok v" if "small_buf (td_end td)" using reader [OF that] False le v by simp
    ultimately show ?thesis by blast
  qed
qed

text \<open>An offset field that is absent or leads to a place with \<open>Q\<close>.\<close>

definition leads :: "block \<Rightarrow> table_verifier_descriptor \<Rightarrow> u16 \<Rightarrow> bool \<Rightarrow> (nat \<Rightarrow> bool) \<Rightarrow> bool" where
  "leads B td i required Q \<longleftrightarrow> (\<exists>v. read_vt_entry B td i = Ok v \<and> (v = 0 \<longrightarrow> \<not> required)
     \<and> (v \<noteq> 0 \<longrightarrow> (\<exists>u. read_le32 B (td_pos td + unat v) = Ok u \<and> td_pos td + unat v + 4 \<le> td_buf td + unat (td_end td)
          \<and> Q (td_pos td + unat v + unat u))))"

lemma check_field_ok:
  assumes td: "td_ok B td" and i: "id_ok i"
    and f: "\<And>base offset. unat (td_table td) < unat base \<Longrightarrow> unat base + 4 \<le> unat (td_end td)
      \<Longrightarrow> gives (\<lambda>e. e = error_ok \<longrightarrow> Q (td_buf td + unat base + unat offset)) (f base offset)"
  shows "gives (\<lambda>e. e = error_ok \<longrightarrow> leads B td i required Q)
    (check_field B td i required (\<lambda>base. bindR (read_uoffset B (td_buf td) base) (f base)))"
proof -
  obtain v where v: "read_vt_entry B td i = Ok v" using read_vt_entry_ok [OF td i] by blast
  let ?k = "ucast v :: u32"
  have k: "unat ?k = unat v" "unat v < 65536" using u16_bound [of v] by (simp_all add: unsigned_ucast_eq take_bit_nat_eq_self)
  have t: "unat (ucast (td_tsize td) :: u32) = unat (td_tsize td)" using u16_bound [of "td_tsize td"] by (simp add: unsigned_ucast_eq take_bit_nat_eq_self)
  have k4: "unat (?k + 4) = unat v + 4" using k add_small [of ?k 4] by simp
  have sz: "unat (td_table td) + unat (td_tsize td) \<le> unat (td_end td)" using td by (simp add: td_ok_def)
  show ?thesis
  proof (cases "v \<noteq> 0 \<and> ?k + 4 \<le> ucast (td_tsize td)")
    case True
    then have le: "unat v + 4 \<le> unat (td_tsize td)" using k4 t by (simp add: word_le_nat_alt)
    have base: "unat (?k + td_table td) = unat (td_table td) + unat v"
      using le sz u32_bound [of "td_end td"] add_small [of ?k "td_table td"] k by simp
    have v0: "0 < unat v" using True by (simp add: unat_gt_0)
    have ne: "?k + td_table td \<noteq> 0" using base v0 by (metis add_gr_0 less_numeral_extra(3) unat_0)
    have in4: "unat (td_table td) + unat v + 4 \<le> unat (td_end td)" using le sz by simp
    obtain u where u: "read_le32 B (td_pos td + unat v) = Ok u"
      using read_le32_Ok [of "td_pos td + unat v" B] in4 td by (fastforce simp: td_pos_def td_ok_def in_buf_def)
    have ru: "read_uoffset B (td_buf td) (?k + td_table td) = Ok u" using u base by (simp add: read_uoffset_def td_pos_def ac_simps)
    have "gives (\<lambda>e. e = error_ok \<longrightarrow> Q (td_buf td + unat (?k + td_table td) + unat u)) (f (?k + td_table td) u)"
      by (rule f) (use base v0 in4 in simp_all)
    then have "gives (\<lambda>e. e = error_ok \<longrightarrow> leads B td i required Q) (f (?k + td_table td) u)"
      by (rule gives_mono) (use base in4 v u True in \<open>auto simp: leads_def td_pos_def ac_simps\<close>)
    then show ?thesis using True v ru ne by (simp add: check_field_def get_offset_field_def Let_def)
  next
    case False
    then show ?thesis using v by (auto simp: check_field_def get_offset_field_def Let_def leads_def)
  qed
qed

text \<open>What the accessors find.\<close>

lemma leads_offset_field:
  assumes "td_ok B td" and "id_ok i" and "small_buf (td_end td)" and "leads B td i required Q"
  shows "\<exists>r. offset_field B i required adjust (td_pos td) = Ok r \<and> (\<forall>p. r = Some p \<longrightarrow> (\<exists>q. p = q + adjust \<and> Q q))
    \<and> (r = None \<longrightarrow> \<not> required)"
proof -
  obtain v where v: "read_vt B i (td_pos td) = Ok v" "v = 0 \<longrightarrow> \<not> required"
    "v \<noteq> 0 \<Longrightarrow> \<exists>u. read_le32 B (td_pos td + unat v) = Ok u \<and> Q (td_pos td + unat v + unat u)"
    using assms read_vt_entry_ok [OF assms(1,2)] by (auto simp: leads_def)
  show ?thesis
  proof (cases "v = 0")
    case False
    then obtain u where "read_le32 B (td_pos td + unat v) = Ok u" "Q (td_pos td + unat v + unat u)" using v(3) by blast
    then have "offset_field B i required adjust (td_pos td) = Ok (Some (td_pos td + unat v + unat u + adjust))"
      using v(1) False by (simp add: offset_field_def Let_def)
    then show ?thesis using \<open>Q (td_pos td + unat v + unat u)\<close> by simp
  qed (use v in \<open>simp add: offset_field_def\<close>)
qed

lemma leads_mono: "leads B td i required Q \<Longrightarrow> (\<And>p. Q p \<Longrightarrow> Q' p) \<Longrightarrow> leads B td i required Q'"
  by (fastforce simp: leads_def)

end
