(* ===== verification/Fb_Tables.thy ===== *)
theory Fb_Tables imports Fb_Sound begin

text \<open>
  The parts of the verifier that follow offsets, each with what the accessors then find: a table, a
  vector of offsets, a vector of unions.
\<close>

section \<open>Tables\<close>

text \<open>A table verifier, for tables behind \<open>m\<close>: \<open>vis\<close> reads the tables it accepts, in a buffer
  with \<open>H\<close>.\<close>

definition tv_ok :: "block \<Rightarrow> (u32 \<Rightarrow> bool) \<Rightarrow> nat \<Rightarrow> (nat \<Rightarrow> unit res) \<Rightarrow> table_verifier_f \<Rightarrow> bool" where
  "tv_ok B H m vis tvf \<longleftrightarrow> (\<forall>td. td_ok B td \<longrightarrow> m < td_pos td \<longrightarrow> td_pos td + 4 \<le> length (blk_bytes B)
     \<longrightarrow> gives (\<lambda>e. e = error_ok \<longrightarrow> H (td_end td) \<longrightarrow> vis (td_pos td) = Ok ()) (tvf td))"

lemma tv_okD:
  "tv_ok B H m vis tvf \<Longrightarrow> td_ok B td \<Longrightarrow> m < td_pos td \<Longrightarrow> td_pos td + 4 \<le> length (blk_bytes B)
    \<Longrightarrow> gives (\<lambda>e. e = error_ok \<longrightarrow> H (td_end td) \<longrightarrow> vis (td_pos td) = Ok ()) (tvf td)"
  by (simp add: tv_ok_def)

lemma tv_ok_mono: "tv_ok B H m vis tvf \<Longrightarrow> m \<le> m' \<Longrightarrow> tv_ok B H m' vis tvf"
  by (simp add: tv_ok_def)

lemma uint_small: "unat (a :: u32) < 2 ^ 31 \<Longrightarrow> 0 \<le> uint a \<and> uint a < 2 ^ 31"
proof -
  assume "unat a < 2 ^ 31"
  then have "a < 0x80000000" by (simp add: word_less_nat_alt)
  then show ?thesis by (simp add: word_less_def)
qed

lemma sint_small: "unat (a :: u32) < 2 ^ 31 \<Longrightarrow> sint a = uint a"
  using uint_small [of a] unfolding sint_uint
  by (intro signed_take_bit_int_eq_self) (simp_all add: order_trans [of "- 2147483648" 0])

lemma signed_offset:
  assumes t: "unat (t :: u32) < 2 ^ 31" and ts: "unat (t - s) < 2 ^ 31"
  shows "int (unat (t - s)) = int (unat t) - sint s"
proof -
  have "sint (t - v) = signed_take_bit 31 (sint t - sint v)" for v by (simp add: sint_word_ariths)
  from this [of "t - s"] have "sint s = signed_take_bit 31 (sint t - sint (t - s))"
    by (simp only: diff_diff_eq2 add_diff_cancel_left')
  also have "\<dots> = uint t - uint (t - s)"
    unfolding sint_small [OF t] sint_small [OF ts]
    using uint_small [OF t] uint_small [OF ts] by (intro signed_take_bit_int_eq_self) linarith+
  finally show ?thesis by simp
qed

lemma even_unat: "(w :: u16) AND 1 = 0 \<longleftrightarrow> even (unat w)"
  by (simp add: and_one_eq even_iff_mod_2_eq_zero word_unat_eq_iff unat_mod)

lemma verify_table_ok:
  assumes B: "in_buf B buf end" and tvf: "tv_ok B H (buf + unat base) vis tvf"
  shows "gives (\<lambda>e. e = error_ok \<longrightarrow> H end \<longrightarrow> vis (buf + unat base + unat offset) = Ok ())
    (verify_table B buf end base offset ttl tvf)" (is "gives ?P _")
  unfolding verify_table_def
proof (intro gives_verify)
  assume "check_header end base offset"
  note h = check_headerD [OF this]
  let ?t = "base + offset"
  obtain s where s: "read_uoffset B buf ?t = Ok s" using read_uoffset_Ok [OF B] h by fastforce
  let ?v = "?t - s"
  show "gives ?P (let table = ?t in
     bindR (read_uoffset B buf table) (\<lambda>soffset.
     let vbase = table - soffset in
     verify (vbase < 0x80000000 \<and> vbase AND 1 = 0) error_vtable_offset_out_of_range_or_unaligned
     (verify ((ucast vbase :: u64) + 2 \<le> ucast end) error_vtable_header_out_of_range
     (bindR (read_voffset B buf vbase) (\<lambda>vsize.
     let vend = vbase + ucast vsize in
     verify (vend \<le> end \<and> vsize AND 1 = 0) error_vtable_size_out_of_range_or_unaligned
     (verify (vsize \<ge> 4) error_vtable_header_too_small
     (bindR (read_voffset B buf (vbase + 2)) (\<lambda>tsize.
     verify (end - table \<ge> ucast tsize) error_table_size_out_of_range
     (tvf \<lparr>td_buf = buf, td_end = end, td_ttl = ttl - 1, td_vtable = buf + unat vbase, td_table = table,
        td_tsize = tsize, td_vsize = vsize\<rparr>)))))))))"
    unfolding s Let_def bindR.simps
  proof (intro gives_verify)
    assume v: "?v < 0x80000000 \<and> ?v AND 1 = 0" and v2: "(ucast ?v :: u64) + 2 \<le> ucast end"
    have vn: "unat ?v < 2 ^ 31" using v by (simp add: word_less_nat_alt)
    have ve: "unat ?v + 2 \<le> unat end" using v2 two_le by blast
    then obtain z where z: "read_le16 B (buf + unat ?v) = Ok z" using read_le16_Ok B by (fastforce simp: in_buf_def)
    then have zv: "read_voffset B buf ?v = Ok z" by (simp add: read_voffset_def)
    have zu: "unat (ucast z :: u32) = unat z" using u16_bound [of z] by (simp add: unsigned_ucast_eq take_bit_nat_eq_self)
    have vz: "unat (?v + ucast z) = unat ?v + unat z" using vn zu u16_bound [of z] add_small [of ?v "ucast z"] by simp
    have v2: "unat (?v + 2) = unat ?v + 2" using vn add_small [of ?v 2] by simp
    show "gives ?P (bindR (read_voffset B buf ?v) (\<lambda>vsize.
       verify (?v + ucast vsize \<le> end \<and> vsize AND 1 = 0) error_vtable_size_out_of_range_or_unaligned
       (verify (vsize \<ge> 4) error_vtable_header_too_small
       (bindR (read_voffset B buf (?v + 2)) (\<lambda>tsize.
       verify (end - ?t \<ge> ucast tsize) error_table_size_out_of_range
       (tvf \<lparr>td_buf = buf, td_end = end, td_ttl = ttl - 1, td_vtable = buf + unat ?v, td_table = ?t,
          td_tsize = tsize, td_vsize = vsize\<rparr>))))))"
      unfolding zv bindR.simps
    proof (intro gives_verify)
      assume ze: "?v + ucast z \<le> end \<and> z AND 1 = 0" and z4: "4 \<le> z"
      have ze': "unat ?v + unat z \<le> unat end" "4 \<le> unat z" using ze z4 vz by (simp_all add: word_le_nat_alt)
      have ev: "even (unat z)" using ze even_unat [of z] by simp
      obtain y where y: "read_voffset B buf (?v + 2) = Ok y"
        using read_le16_Ok [of "buf + unat (?v + 2)" B] v2 ze' B unfolding read_voffset_def by (fastforce simp: in_buf_def)
      have yu: "unat (ucast y :: u32) = unat y" using u16_bound [of y] by (simp add: unsigned_ucast_eq take_bit_nat_eq_self)
      show "gives ?P (bindR (read_voffset B buf (?v + 2)) (\<lambda>tsize.
         verify (end - ?t \<ge> ucast tsize) error_table_size_out_of_range
         (tvf \<lparr>td_buf = buf, td_end = end, td_ttl = ttl - 1, td_vtable = buf + unat ?v, td_table = ?t,
            td_tsize = tsize, td_vsize = z\<rparr>)))"
        unfolding y bindR.simps
      proof (rule gives_verify)
        assume "end - ?t \<ge> ucast y"
        moreover have "?t \<le> end" using h by (simp add: word_le_nat_alt)
        ultimately have ye: "unat ?t + unat y \<le> unat end" using yu by (simp add: word_le_nat_alt unat_sub)
        let ?td = "\<lparr>td_buf = buf, td_end = end, td_ttl = ttl - 1, td_vtable = buf + unat ?v, td_table = ?t,
            td_tsize = y, td_vsize = z\<rparr>"
        have pos: "td_pos ?td = buf + unat base + unat offset" using h by (simp add: td_pos_def)
        have "\<exists>s. read_le32 B (td_pos ?td) = Ok s \<and> int (td_vtable ?td) = int (td_pos ?td) - sint s" if "small_buf end"
        proof (intro exI conjI)
          show "read_le32 B (td_pos ?td) = Ok s" using s by (simp add: read_uoffset_def td_pos_def)
          have "unat ?t < 2 ^ 31" using h that by (simp add: small_buf_def)
          from signed_offset [OF this vn] show "int (td_vtable ?td) = int (td_pos ?td) - sint s" by (simp add: td_pos_def)
        qed
        then have "td_ok B ?td" using B ye ev ze' z by (simp add: td_ok_def)
        from tv_okD [OF tvf this] show "gives ?P (tvf ?td)" using pos h B by (simp add: in_buf_def)
      qed simp
    qed simp_all
  qed simp_all
qed simp_all

section \<open>Vectors of offsets\<close>

definition each_leads :: "block \<Rightarrow> nat \<Rightarrow> nat \<Rightarrow> (nat \<Rightarrow> bool) \<Rightarrow> bool" where
  "each_leads B p n Q \<longleftrightarrow> (\<forall>k < n. \<exists>u. read_le32 B (p + 4 * k) = Ok u \<and> Q (p + 4 * k + unat u))"

definition offset_vector :: "block \<Rightarrow> (nat \<Rightarrow> bool) \<Rightarrow> nat \<Rightarrow> bool" where
  "offset_vector B Q q \<longleftrightarrow> (\<exists>n. read_le32 B q = Ok n \<and> each_leads B (q + 4) (unat n) Q)"

lemma each_leads_0 [simp]: "each_leads B p 0 Q"
  by (simp add: each_leads_def)

lemma each_leads_Suc:
  "read_le32 B p = Ok u \<Longrightarrow> Q (p + unat u) \<Longrightarrow> each_leads B (p + 4) n Q \<Longrightarrow> each_leads B p (Suc n) Q"
  unfolding each_leads_def All_less_Suc2 by (simp add: add.assoc)

lemma each_offset_ok:
  assumes B: "in_buf B buf end"
    and f: "\<And>b offset. unat base \<le> unat b \<Longrightarrow> unat b + 4 \<le> unat end
      \<Longrightarrow> gives (\<lambda>e. e = error_ok \<longrightarrow> Q (buf + unat b + unat offset)) (f b offset)"
    and n: "unat base + 4 * n \<le> unat end"
  shows "gives (\<lambda>e. e = error_ok \<longrightarrow> each_leads B (buf + unat base) n Q) (each_offset f B buf n base)"
  using n f
proof (induction n arbitrary: base)
  case (Suc n)
  have b4: "unat base + 4 \<le> unat end" using Suc.prems(1) by simp
  have e: "unat (base + 4) = unat base + 4" using add_small [of base 4] b4 u32_bound [of "end"] by simp
  obtain u where u: "read_uoffset B buf base = Ok u" using read_uoffset_Ok [OF B b4] by blast
  have rest: "gives (\<lambda>e. e = error_ok \<longrightarrow> each_leads B (buf + unat base + 4) n Q) (each_offset f B buf n (base + 4))"
    using Suc.IH [of "base + 4"] Suc.prems e by (simp add: add.assoc)
  show ?case
    unfolding each_offset.simps u bindR.simps
  proof (rule gives_check [OF Suc.prems(2) [OF order_refl b4]])
    assume "Q (buf + unat base + unat u)"
    with rest show "gives (\<lambda>e. e = error_ok \<longrightarrow> each_leads B (buf + unat base) (Suc n) Q) (each_offset f B buf n (base + 4))"
      using u by (elim gives_mono) (auto simp: read_uoffset_def intro: each_leads_Suc)
  qed
qed simp

text \<open>A vector of offsets of four bytes, whose elements lead to places with \<open>Q\<close>.\<close>

lemma offset_vector_ok:
  assumes B: "in_buf B buf end"
    and f: "\<And>b off. unat base \<le> unat b \<Longrightarrow> unat b + 4 \<le> unat end
      \<Longrightarrow> gives (\<lambda>e. e = error_ok \<longrightarrow> Q (buf + unat b + unat off)) (f b off)"
  shows "gives (\<lambda>e. e = error_ok \<longrightarrow> offset_vector B Q (buf + unat base + unat offset))
    (check_result (verify_vector B buf end base offset 4 4 (ucast (COUNT_MAX 4)))
     (let base = base + offset in bindR (read_uoffset B buf base) (\<lambda>n. each_offset f B buf (unat n) (base + 4))))"
    (is "gives ?P _")
proof (rule gives_check [OF verify_vector_ok [OF B]])
  let ?b = "base + offset"
  assume "\<exists>n. read_uoffset B buf ?b = Ok n \<and> n \<le> ucast (COUNT_MAX 4) \<and> unat ?b = unat base + unat offset
    \<and> unat base < unat base + unat offset \<and> unat base + unat offset + 4 + unat (n * 4) \<le> unat end"
  then obtain n where n: "read_uoffset B buf ?b = Ok n" "n \<le> ucast (COUNT_MAX 4)" "unat ?b = unat base + unat offset"
    "unat base + unat offset + 4 + unat (n * 4) \<le> unat end" by blast
  have "unat (n * 4) = unat n * 4" using count_max [of 4 n] n(2) by simp
  then have le: "unat base + unat offset + 4 + 4 * unat n \<le> unat end" using n(4) by simp
  have b4: "unat (?b + 4) = unat base + unat offset + 4" using add_small [of ?b 4] n(3) le u32_bound [of "end"] by simp
  have "gives (\<lambda>e. e = error_ok \<longrightarrow> each_leads B (buf + unat (?b + 4)) (unat n) Q) (each_offset f B buf (unat n) (?b + 4))"
    by (rule each_offset_ok [OF B]) (use f b4 le in auto)
  then have "gives ?P (each_offset f B buf (unat n) (?b + 4))"
    by (rule gives_mono) (use n b4 in \<open>auto simp: offset_vector_def read_uoffset_def add.assoc\<close>)
  then show "gives ?P (let base = ?b in bindR (read_uoffset B buf base) (\<lambda>n. each_offset f B buf (unat n) (base + 4)))"
    using n(1) by (simp add: Let_def)
qed

lemma verify_string_vector_ok:
  "in_buf B buf end \<Longrightarrow> gives (\<lambda>e. e = error_ok \<longrightarrow>
     offset_vector B (\<lambda>q. visit_string B (q + 4) = Ok ()) (buf + unat base + unat offset)) (verify_string_vector B buf end base offset)"
  unfolding verify_string_vector_def by (rule offset_vector_ok) (auto intro: verify_string_ok)

lemma verify_table_vector_ok:
  assumes "in_buf B buf end" and "tv_ok B H (buf + unat base) vis tvf"
  shows "gives (\<lambda>e. e = error_ok \<longrightarrow>
     offset_vector B (\<lambda>q. H end \<longrightarrow> vis q = Ok ()) (buf + unat base + unat offset)) (verify_table_vector B buf end base offset ttl tvf)"
  unfolding verify_table_vector_def Let_def [of "ttl - 1"]
  by (rule gives_verify, rule offset_vector_ok [OF assms(1)], rule verify_table_ok [OF assms(1)])
    (use tv_ok_mono [OF assms(2)] in auto)

text \<open>Reading a vector by index.\<close>

lemma vec_len_Ok: "read_le32 B q = Ok n \<Longrightarrow> vec_len B (Some (q + 4)) = Ok (unat n)"
  by (simp add: vec_len_def)

lemma each_index_ok: "(\<And>k. i \<le> k \<Longrightarrow> k < i + n \<Longrightarrow> f k = Ok ()) \<Longrightarrow> each_index f i n = Ok ()"
  by (induction n arbitrary: i) simp_all

lemma visit_vector_ok:
  "read_le32 B q = Ok n \<Longrightarrow> (\<And>k. k < unat n \<Longrightarrow> f (q + 4) k = Ok ()) \<Longrightarrow> visit_vector f B (q + 4) = Ok ()"
  by (simp add: visit_vector_def vec_len_Ok each_index_ok)

lemma offset_vec_at_ok:
  "read_le32 B q = Ok n \<Longrightarrow> k < unat n \<Longrightarrow> read_le32 B (q + 4 + 4 * k) = Ok u
    \<Longrightarrow> offset_vec_at B adjust (q + 4) k = Ok (q + 4 + 4 * k + unat u + adjust)"
  by (simp add: offset_vec_at_def vec_len_Ok Let_def guardR_def)

lemma visit_offset_vector:
  assumes "offset_vector B Q q" and "\<And>p. Q p \<Longrightarrow> g (p + adjust) = Ok ()"
  shows "visit_vector (\<lambda>p k. bindR (offset_vec_at B adjust p k) g) B (q + 4) = Ok ()"
proof -
  obtain n where n: "read_le32 B q = Ok n" "each_leads B (q + 4) (unat n) Q" using assms(1) by (auto simp: offset_vector_def)
  show ?thesis
  proof (rule visit_vector_ok [OF n(1)])
    fix k assume k: "k < unat n"
    then obtain u where "read_le32 B (q + 4 + 4 * k) = Ok u" "Q (q + 4 + 4 * k + unat u)" using n(2) by (auto simp: each_leads_def)
    then show "bindR (offset_vec_at B adjust (q + 4) k) g = Ok ()" using assms(2) offset_vec_at_ok [OF n(1) k] by simp
  qed
qed

text \<open>A vector of scalars or structs.\<close>

definition bytes_vector :: "block \<Rightarrow> nat \<Rightarrow> nat \<Rightarrow> nat \<Rightarrow> bool" where
  "bytes_vector B siz lim q \<longleftrightarrow> (\<exists>n. read_le32 B q = Ok n \<and> q + 4 + unat n * siz \<le> lim)"

lemma visit_bytes_vector:
  assumes "bytes_vector B siz lim q" and "lim \<le> length (blk_bytes B)"
  shows "visit_vector (\<lambda>p k. ignore (scalar_vec_at B siz p k)) B (q + 4) = Ok ()"
proof -
  obtain n where n: "read_le32 B q = Ok n" "q + 4 + unat n * siz \<le> length (blk_bytes B)" using assms by (force simp: bytes_vector_def)
  show ?thesis
  proof (rule visit_vector_ok [OF n(1)])
    fix k assume k: "k < unat n"
    then have "siz * k + siz \<le> unat n * siz" by (metis Suc_leI mult.commute mult_Suc mult_le_mono1 add.commute)
    then show "ignore (scalar_vec_at B siz (q + 4) k) = Ok ()"
      using n k by (simp add: ignore_def scalar_vec_at_def vec_len_Ok guardR_def read_bytes_def)
  qed
qed

lemma verify_bytes_vector_ok:
  assumes B: "in_buf B buf end" and siz: "unat (elem_size :: u64) < 2 ^ 32"
  shows "gives (\<lambda>e. e = error_ok \<longrightarrow> bytes_vector B (unat elem_size) (buf + unat end) (buf + unat base + unat offset))
    (verify_vector B buf end base offset (ucast elem_size) align (ucast (COUNT_MAX elem_size)))"
proof (rule gives_mono [OF verify_vector_ok [OF B, where elem_size = "ucast elem_size" and max_count = "ucast (COUNT_MAX elem_size)"]], rule impI)
  fix e assume *: "e = error_ok \<longrightarrow> (\<exists>n. read_uoffset B buf (base + offset) = Ok n \<and> n \<le> ucast (COUNT_MAX elem_size)
    \<and> unat (base + offset) = unat base + unat offset \<and> unat base < unat base + unat offset
    \<and> unat base + unat offset + 4 + unat (n * ucast elem_size) \<le> unat end)" "e = error_ok"
  then obtain n where n: "read_uoffset B buf (base + offset) = Ok n" "n \<le> ucast (COUNT_MAX elem_size)"
    "unat (base + offset) = unat base + unat offset" "unat base + unat offset + 4 + unat (n * ucast elem_size) \<le> unat end" by blast
  then show "bytes_vector B (unat elem_size) (buf + unat end) (buf + unat base + unat offset)"
    using B count_max [OF siz n(2)] by (auto simp: bytes_vector_def read_uoffset_def in_buf_def add.assoc)
qed

section \<open>Unions\<close>

text \<open>A union verifier, for members behind \<open>m\<close>.\<close>

definition uv_ok :: "block \<Rightarrow> (u32 \<Rightarrow> bool) \<Rightarrow> nat \<Rightarrow> (u8 \<Rightarrow> nat \<Rightarrow> unit res) \<Rightarrow> union_verifier_f \<Rightarrow> bool" where
  "uv_ok B H m vis uvf \<longleftrightarrow> (\<forall>ud. in_buf B (ud_buf ud) (ud_end ud) \<longrightarrow> m \<le> ud_buf ud + unat (ud_base ud)
     \<longrightarrow> gives (\<lambda>e. e = error_ok \<longrightarrow> H (ud_end ud)
           \<longrightarrow> vis (ud_type ud) (ud_buf ud + unat (ud_base ud) + unat (ud_offset ud)) = Ok ()) (uvf ud))"

lemma uv_okD:
  "uv_ok B H m vis uvf \<Longrightarrow> in_buf B (ud_buf ud) (ud_end ud) \<Longrightarrow> m \<le> ud_buf ud + unat (ud_base ud)
    \<Longrightarrow> gives (\<lambda>e. e = error_ok \<longrightarrow> H (ud_end ud)
           \<longrightarrow> vis (ud_type ud) (ud_buf ud + unat (ud_base ud) + unat (ud_offset ud)) = Ok ()) (uvf ud)"
  by (simp add: uv_ok_def)

lemma uv_ok_mono: "uv_ok B H m vis uvf \<Longrightarrow> m \<le> m' \<Longrightarrow> uv_ok B H m' vis uvf"
  by (simp add: uv_ok_def)

lemma union_verifier_ok:
  assumes tvf: "\<And>t. Union_table t \<in> snd ` set cases \<Longrightarrow> tv_ok B H m (vis t) (tvf t)"
    and cases: "\<And>e siz align. H e \<Longrightarrow> Union_struct siz align \<notin> snd ` set cases"
  shows "uv_ok B H m (visit_union vis B cases) (union_verifier tvf B cases)"
  unfolding uv_ok_def
proof (intro allI impI)
  fix ud :: union_verifier_descriptor
  assume B: "in_buf B (ud_buf ud) (ud_end ud)" and m: "m \<le> ud_buf ud + unat (ud_base ud)"
  show "gives (\<lambda>e. e = error_ok \<longrightarrow> H (ud_end ud) \<longrightarrow> visit_union vis B cases (ud_type ud) (ud_buf ud + unat (ud_base ud) + unat (ud_offset ud)) = Ok ()) (union_verifier tvf B cases ud)"
  proof (cases "map_of cases (ud_type ud)")
    case (Some c)
    then have c: "c \<in> snd ` set cases" by (force dest: map_of_SomeD)
    show ?thesis
    proof (cases c)
      case (Union_table t)
      with c tvf m have "tv_ok B H (ud_buf ud + unat (ud_base ud)) (vis t) (tvf t)" by (auto intro: tv_ok_mono)
      from verify_table_ok [OF B this] show ?thesis
        using Some Union_table by (simp add: union_verifier_def visit_union_def flatcc_verify_union_table_def)
    next
      case Union_string
      have "gives (\<lambda>e. e = error_ok \<longrightarrow> visit_string B (ud_buf ud + unat (ud_base ud) + unat (ud_offset ud) + 4) = Ok ())
        (flatcc_verify_union_string B ud)"
        unfolding flatcc_verify_union_string_def by (rule verify_string_ok [OF B])
      then show ?thesis
        using Some Union_string by (auto simp: union_verifier_def visit_union_def elim: gives_mono)
    next
      case (Union_struct siz align)
      have "gives (\<lambda>e. True) (flatcc_verify_union_struct ud siz align)"
        by (simp add: flatcc_verify_union_struct_def verify_struct_def verify_def Let_def)
      moreover have "\<not> H (ud_end ud)" using c cases [of "ud_end ud" siz align] Union_struct by auto
      ultimately show ?thesis using Some Union_struct by (simp add: union_verifier_def)
    qed
  qed (simp add: union_verifier_def visit_union_def)
qed

text \<open>The members of a vector of unions: its elements at \<open>p\<close>, their types at \<open>types\<close>.\<close>

definition each_member :: "block \<Rightarrow> nat \<Rightarrow> nat \<Rightarrow> nat \<Rightarrow> (u8 \<Rightarrow> nat \<Rightarrow> bool) \<Rightarrow> bool" where
  "each_member B types p n Q \<longleftrightarrow> (\<forall>k < n. \<exists>ty u. get (types + k) (blk_bytes B) = Ok ty \<and> read_le32 B (p + 4 * k) = Ok u
     \<and> (ty \<noteq> 0 \<longrightarrow> Q ty (p + 4 * k + unat u)))"

lemma each_member_Suc:
  "get types (blk_bytes B) = Ok ty \<Longrightarrow> read_le32 B p = Ok u \<Longrightarrow> (ty \<noteq> 0 \<longrightarrow> Q ty (p + unat u)) \<Longrightarrow> each_member B (types + 1) (p + 4) n Q
    \<Longrightarrow> each_member B types p (Suc n) Q"
  unfolding each_member_def All_less_Suc2 by (simp add: add.assoc)

lemma each_union_ok:
  assumes B: "in_buf B buf end" and uvf: "uv_ok B H (buf + unat base) vis uvf"
    and n: "unat base + 4 * n \<le> unat end" and types: "types + n \<le> length (blk_bytes B)"
  shows "gives (\<lambda>e. e = error_ok \<longrightarrow> each_member B types (buf + unat base) n (\<lambda>ty q. H end \<longrightarrow> vis ty q = Ok ()))
    (each_union uvf B buf end ttl n types base)" (is "gives (?P types base n) _")
  using n types uvf
proof (induction n arbitrary: types base)
  case (Suc n)
  let ?Q = "\<lambda>ty q. H end \<longrightarrow> vis ty q = Ok ()"
  have b4: "unat base + 4 \<le> unat end" using Suc.prems(1) by simp
  have e: "unat (base + 4) = unat base + 4" using add_small [of base 4] b4 u32_bound [of "end"] by simp
  obtain u where u: "read_uoffset B buf base = Ok u" using read_uoffset_Ok [OF B b4] by blast
  obtain ty where ty: "get types (blk_bytes B) = Ok ty" using get_Ok [of types "blk_bytes B"] Suc.prems(2) by auto
  let ?rest = "each_union uvf B buf end ttl n (types + 1) (base + 4)"
  have rest: "gives (\<lambda>e. e = error_ok \<longrightarrow> each_member B (types + 1) (buf + unat base + 4) n ?Q) ?rest"
    using Suc.IH [of "base + 4" "types + 1"] Suc.prems e uv_ok_mono [OF Suc.prems(3)] by (simp add: add.assoc)
  have step: "gives (\<lambda>e. e = error_ok \<longrightarrow> each_member B types (buf + unat base) (Suc n) ?Q) ?rest"
    if "ty \<noteq> 0 \<longrightarrow> ?Q ty (buf + unat base + unat u)"
    using rest that ty u by (elim gives_mono) (auto simp: read_uoffset_def intro: each_member_Suc)
  let ?ud = "\<lparr>ud_buf = buf, ud_end = end, ud_ttl = ttl, ud_type = ty, ud_base = base, ud_offset = u\<rparr>"
  have uv: "gives (\<lambda>e. e = error_ok \<longrightarrow> H end \<longrightarrow> vis ty (buf + unat base + unat u) = Ok ()) (uvf ?ud)"
    using uv_okD [OF Suc.prems(3), of ?ud] B by simp
  show ?case
  proof (cases "u = 0")
    case True
    have "gives (?P types base (Suc n)) (verify (ty = 0) error_union_element_absent_without_type_NONE ?rest)"
      by (rule gives_verify) (use step in simp_all)
    then show ?thesis using True u ty by simp
  next
    case False
    have "gives (?P types base (Suc n)) (verify (ty \<noteq> 0) error_union_element_present_with_type_NONE (check_result (uvf ?ud) ?rest))"
      by (rule gives_verify, rule gives_check [OF uv]) (use step in simp_all)
    then show ?thesis using False u ty by simp
  qed
qed (simp add: each_member_def)

definition union_vector :: "block \<Rightarrow> nat \<Rightarrow> u32 \<Rightarrow> (u8 \<Rightarrow> nat \<Rightarrow> bool) \<Rightarrow> nat \<Rightarrow> bool" where
  "union_vector B types n Q q \<longleftrightarrow> read_le32 B q = Ok n \<and> each_member B types (q + 4) (unat n) Q"

lemma verify_union_vector_ok:
  assumes B: "in_buf B buf end" and uvf: "uv_ok B H (buf + unat base) vis uvf"
    and types: "types + unat cnt \<le> length (blk_bytes B)"
  shows "gives (\<lambda>e. e = error_ok \<longrightarrow> union_vector B types cnt (\<lambda>ty q. H end \<longrightarrow> vis ty q = Ok ()) (buf + unat base + unat offset))
    (verify_union_vector B buf end base offset cnt types ttl uvf)" (is "gives ?P _")
  unfolding verify_union_vector_def Let_def [of "ttl - 1"]
proof (rule gives_verify, rule gives_check [OF verify_vector_ok [OF B]])
  let ?b = "base + offset"
  assume "\<exists>n. read_uoffset B buf ?b = Ok n \<and> n \<le> ucast (COUNT_MAX 4) \<and> unat ?b = unat base + unat offset
    \<and> unat base < unat base + unat offset \<and> unat base + unat offset + 4 + unat (n * 4) \<le> unat end"
  then obtain n where n: "read_uoffset B buf ?b = Ok n" "n \<le> ucast (COUNT_MAX 4)" "unat ?b = unat base + unat offset"
    "unat base + unat offset + 4 + unat (n * 4) \<le> unat end" by blast
  have "unat (n * 4) = unat n * 4" using count_max [of 4 n] n(2) by simp
  then have le: "unat base + unat offset + 4 + 4 * unat n \<le> unat end" using n(4) by simp
  have b4: "unat (?b + 4) = unat base + unat offset + 4" using add_small [of ?b 4] n(3) le u32_bound [of "end"] by simp
  show "gives ?P (let base = ?b in bindR (read_uoffset B buf base) (\<lambda>n.
     verify (n = cnt) error_union_vector_length_mismatch (each_union uvf B buf end (ttl - 1) (unat n) types (base + 4))))"
    unfolding Let_def n(1) bindR.simps
  proof (rule gives_verify)
    assume c: "n = cnt"
    have "gives (\<lambda>e. e = error_ok \<longrightarrow> each_member B types (buf + unat (?b + 4)) (unat n) (\<lambda>ty q. H end \<longrightarrow> vis ty q = Ok ()))
      (each_union uvf B buf end (ttl - 1) (unat n) types (?b + 4))"
      by (rule each_union_ok [OF B]) (use uv_ok_mono [OF uvf] b4 le types c in auto)
    then show "gives ?P (each_union uvf B buf end (ttl - 1) (unat n) types (?b + 4))"
      by (rule gives_mono) (use n b4 c in \<open>auto simp: union_vector_def read_uoffset_def add.assoc\<close>)
  qed simp
qed simp

lemma union_vec_at_ok:
  assumes v: "union_vector B (qt + 4) n Q q" and t: "read_le32 B qt = Ok n" and k: "k < unat n"
  shows "\<exists>ty p. union_vec_at B (Some (qt + 4)) (Some (q + 4)) k = Ok (ty, p) \<and> (\<forall>r. p = Some r \<longrightarrow> Q ty r)"
proof -
  obtain ty u where ty: "get (qt + 4 + k) (blk_bytes B) = Ok ty" and u: "read_le32 B (q + 4 + 4 * k) = Ok u"
    "ty \<noteq> 0 \<longrightarrow> Q ty (q + 4 + 4 * k + unat u)" using v k unfolding union_vector_def each_member_def by blast
  have n: "read_le32 B q = Ok n" using v by (simp add: union_vector_def)
  have types: "union_vec_at B (Some (qt + 4)) vals k = (if ty = 0 then Ok (0, None)
     else case vals of None \<Rightarrow> Fault | Some vs \<Rightarrow> bindR (offset_vec_at B 0 vs k) (\<lambda>p. Ok (ty, Some p)))" for vals
    using ty t k by (simp add: union_vec_at_def vec_len_Ok guardR_def)
  show ?thesis unfolding types using offset_vec_at_ok [OF n k u(1), of 0] u(2) by simp
qed

lemma visit_union_vector:
  assumes v: "union_vector B (qt + 4) n Q q" and t: "read_le32 B qt = Ok n" and Q: "\<And>ty p. Q ty p \<Longrightarrow> vis ty p = Ok ()"
  shows "bindR (vec_len B (Some (qt + 4))) (each_index (\<lambda>k. bindR (union_vec_at B (Some (qt + 4)) (Some (q + 4)) k)
     (\<lambda>(ty, p). when_some (vis ty) p)) 0) = Ok ()"
proof -
  have "bindR (union_vec_at B (Some (qt + 4)) (Some (q + 4)) k) (\<lambda>(ty, p). when_some (vis ty) p) = Ok ()" if k: "k < unat n" for k
    using union_vec_at_ok [OF v t k] Q by (auto simp: when_some_def split: option.splits)
  then show ?thesis using t by (simp add: vec_len_Ok each_index_ok)
qed

end
