(* ===== verification/Fb_Checks.thy ===== *)
theory Fb_Checks imports Fb_Tables begin

text \<open>
  The calls a generated verifier makes, one by one: what each accepts, the accessors can read.
\<close>

section \<open>The schemas covered\<close>

text \<open>What the code generator sees to: field numbers fit the vtable, sizes fit the buffer, the alignment of a
  nested buffer is that of its bytes.\<close>

definition check_fine :: "nat \<Rightarrow> field_check \<Rightarrow> bool" where
  "check_fine n c = (case c of
     Field i siz _ \<Rightarrow> id_ok i \<and> unat siz < 2 ^ 31
   | Vector_field i _ elem_size _ \<Rightarrow> id_ok i \<and> unat elem_size < 2 ^ 32
   | String_field i _ \<Rightarrow> id_ok i
   | String_vector_field i _ \<Rightarrow> id_ok i
   | Table_field i _ t \<Rightarrow> id_ok i \<and> t < n
   | Table_vector_field i _ t \<Rightarrow> id_ok i \<and> t < n
   | Struct_nested_root i _ siz align \<Rightarrow> id_ok i \<and> unat siz < 2 ^ 32 \<and> align = 1
   | Table_nested_root i _ align t \<Rightarrow> id_ok i \<and> align = 1 \<and> t < n
   | Union_field i _ _ \<Rightarrow> id_ok i \<and> i \<noteq> 0
   | Union_vector_field i _ _ \<Rightarrow> id_ok i \<and> i \<noteq> 0)"

lemma id_ok_pred: "id_ok i \<Longrightarrow> i \<noteq> 0 \<Longrightarrow> id_ok (i - 1)"
  by (simp add: id_ok_def unat_minus_one)

section \<open>Scalars and offsets\<close>

lemma td_inD:
  assumes "td_ok B td" and "n \<le> unat (td_tsize td)"
  shows "td_pos td + n \<le> td_buf td + unat (td_end td)" "td_buf td + unat (td_end td) \<le> length (blk_bytes B)"
  using assms by (auto simp: td_ok_def td_pos_def in_buf_def)

text \<open>A field within its table.\<close>

definition field_in :: "block \<Rightarrow> table_verifier_descriptor \<Rightarrow> u16 \<Rightarrow> nat \<Rightarrow> bool" where
  "field_in B td i siz \<longleftrightarrow> (\<exists>v. read_vt_entry B td i = Ok v \<and> (v \<noteq> 0 \<longrightarrow> td_pos td + unat v + siz \<le> length (blk_bytes B)))"

lemma verify_field_ok:
  assumes td: "td_ok B td" and i: "id_ok i" and siz: "unat (siz :: u32) < 2 ^ 31"
  shows "gives (\<lambda>e. e = error_ok \<longrightarrow> field_in B td i (unat siz)) (verify_field B td i required siz align)"
proof -
  obtain v where v: "read_vt_entry B td i = Ok v" using read_vt_entry_ok [OF td i] by blast
  have "unat (ucast v :: u32) = unat v" using u16_bound [of v] by (simp add: unsigned_ucast_eq take_bit_nat_eq_self)
  then have k2: "unat (ucast v + siz) = unat v + unat siz"
    using u16_bound [of v] siz add_small [of "ucast v" siz] by simp
  have t: "unat (ucast (td_tsize td) :: u32) = unat (td_tsize td)"
    using u16_bound [of "td_tsize td"] by (simp add: unsigned_ucast_eq take_bit_nat_eq_self)
  have "td_pos td + unat v + unat siz \<le> length (blk_bytes B)" if "ucast v + siz \<le> ucast (td_tsize td)"
    using td_inD [OF td, of "unat v + unat siz"] that k2 t by (simp add: word_le_nat_alt)
  then show ?thesis using v by (auto simp: verify_field_def verify_def field_in_def Let_def)
qed

lemma field_in_scalar:
  assumes "td_ok B td" and "id_ok i" and "small_buf (td_end td)" and "field_in B td i siz"
  shows "ignore (scalar_field B i siz (td_pos td)) = Ok ()"
  using assms read_vt_entry_ok [OF assms(1,2)] by (auto simp: field_in_def scalar_field_def ignore_def read_bytes_def)

text \<open>An offset field: what \<open>f\<close> accepts at its target, \<open>g\<close> reads there.\<close>

lemma offset_option_ok:
  assumes td: "td_ok B td" and i: "id_ok i"
    and f: "\<And>base offset. unat (td_table td) < unat base \<Longrightarrow> unat base + 4 \<le> unat (td_end td)
      \<Longrightarrow> gives (\<lambda>e. e = error_ok \<longrightarrow> Q (td_buf td + unat base + unat offset)) (f base offset)"
    and g: "\<And>q. td_buf td \<le> q \<Longrightarrow> Q q \<Longrightarrow> small_buf (td_end td) \<Longrightarrow> H \<Longrightarrow> g (Some (q + adjust)) = Ok ()"
    and none: "\<not> required \<Longrightarrow> H \<Longrightarrow> g None = Ok ()"
  shows "gives (\<lambda>e. e = error_ok \<longrightarrow> small_buf (td_end td) \<longrightarrow> H
      \<longrightarrow> bindR (offset_field B i required adjust (td_pos td)) g = Ok ())
    (check_field B td i required (\<lambda>base. bindR (read_uoffset B (td_buf td) base) (f base)))"
proof -
  have lead: "gives (\<lambda>e. e = error_ok \<longrightarrow> leads B td i required (\<lambda>q. td_buf td \<le> q \<and> Q q))
    (check_field B td i required (\<lambda>base. bindR (read_uoffset B (td_buf td) base) (f base)))"
  proof (rule check_field_ok [OF td i])
    fix base offset :: u32 assume "unat (td_table td) < unat base" "unat base + 4 \<le> unat (td_end td)"
    from f [OF this] show "gives (\<lambda>e. e = error_ok \<longrightarrow> td_buf td \<le> td_buf td + unat base + unat offset \<and> Q (td_buf td + unat base + unat offset)) (f base offset)"
      by simp
  qed
  have "bindR (offset_field B i required adjust (td_pos td)) g = Ok ()"
    if l: "leads B td i required (\<lambda>q. td_buf td \<le> q \<and> Q q)" and s: "small_buf (td_end td)" and "H"
  proof -
    obtain r where r: "offset_field B i required adjust (td_pos td) = Ok r" "r = None \<longrightarrow> \<not> required"
      "\<forall>p. r = Some p \<longrightarrow> (\<exists>q. p = q + adjust \<and> td_buf td \<le> q \<and> Q q)"
      using leads_offset_field [OF td i s l] by blast
    show ?thesis
    proof (cases r)
      case None
      then show ?thesis using r none \<open>H\<close> by simp
    next
      case (Some p)
      then obtain q where "p = q + adjust" "td_buf td \<le> q" "Q q" using r(3) by blast
      then show ?thesis using g s \<open>H\<close> r(1) Some by simp
    qed
  qed
  then show ?thesis by (blast intro: gives_mono [OF lead])
qed

lemma offset_field_ok:
  assumes td: "td_ok B td" and i: "id_ok i"
    and f: "\<And>base offset. unat (td_table td) < unat base \<Longrightarrow> unat base + 4 \<le> unat (td_end td)
      \<Longrightarrow> gives (\<lambda>e. e = error_ok \<longrightarrow> Q (td_buf td + unat base + unat offset)) (f base offset)"
    and g: "\<And>q. td_buf td \<le> q \<Longrightarrow> Q q \<Longrightarrow> small_buf (td_end td) \<Longrightarrow> H \<Longrightarrow> g (q + adjust) = Ok ()"
  shows "gives (\<lambda>e. e = error_ok \<longrightarrow> small_buf (td_end td) \<longrightarrow> H
      \<longrightarrow> bindR (offset_field B i required adjust (td_pos td)) (when_some g) = Ok ())
    (check_field B td i required (\<lambda>base. bindR (read_uoffset B (td_buf td) base) (f base)))"
  by (rule offset_option_ok [OF td i, where Q = Q]) (simp_all add: f g when_some_def)

section \<open>Nested buffers\<close>

lemma vector_leads:
  assumes td: "td_ok B td" and i: "id_ok i" and siz: "unat elem_size < 2 ^ 32"
  shows "gives (\<lambda>e. e = error_ok \<longrightarrow> leads B td i required (bytes_vector B (unat elem_size) (td_buf td + unat (td_end td))))
    (flatcc_verify_vector_field B td i required elem_size align (COUNT_MAX elem_size))"
  unfolding flatcc_verify_vector_field_def
  by (rule check_field_ok [OF td i]) (use td verify_bytes_vector_ok [OF _ siz] in \<open>auto simp: td_ok_def\<close>)

text \<open>The field is absent, or its vector is at \<open>q\<close>.\<close>

lemma field_ptr_ok:
  assumes "leads B td i required Q" and "td_ok B td"
  shows "gives (\<lambda>p. case p of None \<Rightarrow> read_vt_entry B td i = Ok 0 \<and> \<not> required
      | Some p \<Rightarrow> \<exists>v u. read_vt_entry B td i = Ok v \<and> v \<noteq> 0 \<and> p = td_pos td + unat v \<and> read_le32 B p = Ok u \<and> Q (p + unat u))
    (get_field_ptr B td i)"
  using assms by (auto simp: leads_def get_field_ptr_def td_pos_def)

lemma nested_buffer_ok:
  assumes td: "td_ok B td" and i: "id_ok i"
    and f: "\<And>q n. td_pos td < q \<Longrightarrow> in_buf B (q + 4) n \<Longrightarrow> n \<le> td_end td
      \<Longrightarrow> gives (\<lambda>e. e = error_ok \<longrightarrow> small_buf (td_end td) \<longrightarrow> H \<longrightarrow> g (q + 4) = Ok ()) (f (q + 4) n)"
  shows "gives (\<lambda>e. e = error_ok \<longrightarrow> small_buf (td_end td) \<longrightarrow> H
      \<longrightarrow> bindR (vector_field B i required (td_pos td)) (when_some g) = Ok ())
    (nested_buffer B td i required 1 f)" (is "gives ?P _")
  unfolding nested_buffer_def
proof (rule gives_check)
  let ?lim = "td_buf td + unat (td_end td)"
  let ?l = "leads B td i required (bytes_vector B 1 ?lim)"
  show "gives (\<lambda>e. e = error_ok \<longrightarrow> ?l) (flatcc_verify_vector_field B td i required (ucast (1 :: u16)) 1 (COUNT_MAX 1))"
    using vector_leads [OF td i, of 1] by simp
  have lim: "?lim \<le> length (blk_bytes B)" using td_inD [OF td] by blast
  assume l: ?l
  show "gives ?P (bindR (get_field_ptr B td i) (\<lambda>p. case p of None \<Rightarrow> Ok error_ok
      | Some p \<Rightarrow> bindR (read_uoffset B p 0) (\<lambda>offset.
          let p = p + unat offset in bindR (read_uoffset B p 0) (\<lambda>bufsiz. f (p + 4) bufsiz))))"
  proof (rule gives_bind [OF field_ptr_ok [OF l td]])
    fix x assume x: "case x of None \<Rightarrow> read_vt_entry B td i = Ok 0 \<and> \<not> required
      | Some p \<Rightarrow> \<exists>v u. read_vt_entry B td i = Ok v \<and> v \<noteq> 0 \<and> p = td_pos td + unat v \<and> read_le32 B p = Ok u
          \<and> bytes_vector B 1 ?lim (p + unat u)"
    show "gives ?P (case x of None \<Rightarrow> Ok error_ok
      | Some p \<Rightarrow> bindR (read_uoffset B p 0) (\<lambda>offset.
          let p = p + unat offset in bindR (read_uoffset B p 0) (\<lambda>bufsiz. f (p + 4) bufsiz)))"
    proof (cases x)
      case None
      have "small_buf (td_end td) \<Longrightarrow> read_vt B i (td_pos td) = Ok 0" using x None read_vt_entry_ok [OF td i] by auto
      then show ?thesis using None x by (simp add: vector_field_def offset_field_def when_some_def)
    next
      case (Some p)
      then obtain v u n where v: "read_vt_entry B td i = Ok v" "v \<noteq> 0" "p = td_pos td + unat v" "read_le32 B p = Ok u"
        and n: "read_le32 B (p + unat u) = Ok n" "p + unat u + 4 + unat n \<le> ?lim"
        using x by (auto simp: bytes_vector_def)
      have "0 < unat v" using v(2) by (simp add: unat_gt_0)
      then have pos: "td_pos td < p + unat u" using v(3) by simp
      have "in_buf B (p + unat u + 4) n" using n(2) lim by (simp add: in_buf_def)
      moreover have "n \<le> td_end td" using n(2) pos by (simp add: td_pos_def word_le_nat_alt)
      ultimately have "gives (\<lambda>e. e = error_ok \<longrightarrow> small_buf (td_end td) \<longrightarrow> H \<longrightarrow> g (p + unat u + 4) = Ok ()) (f (p + unat u + 4) n)"
        by (rule f [OF pos])
      moreover have "vector_field B i required (td_pos td) = Ok (Some (p + unat u + 4))" if "small_buf (td_end td)"
        using read_vt_entry_ok [OF td i] that v by (auto simp: vector_field_def offset_field_def Let_def)
      ultimately show ?thesis using Some v n by (auto simp: read_uoffset_def when_some_def Let_def elim!: gives_mono)
    qed
  qed
qed

section \<open>Headers of buffers\<close>

text \<open>The identifier asked for is a string of four characters, or shorter and terminated.\<close>

definition fid_ok :: "bytes option \<Rightarrow> bool" where
  "fid_ok fid \<longleftrightarrow> (case fid of None \<Rightarrow> True | Some s \<Rightarrow> \<exists>h. flatbuffers_type_hash_from_string s = Ok h)"

lemma read_thash_Ok: "buf + 8 \<le> length (blk_bytes B) \<Longrightarrow> \<exists>w. read_thash B buf 4 = Ok w"
  unfolding read_thash_def by (rule read_le32_Ok) simp

lemma buffer_header_ok:
  assumes "buf + unat bufsiz \<le> length (blk_bytes B)" and "fid_ok fid"
  shows "gives (\<lambda>e. e = error_ok \<longrightarrow> 8 \<le> unat bufsiz) (flatcc_verify_buffer_header B buf bufsiz fid)"
  unfolding flatcc_verify_buffer_header_def
proof (intro gives_verify)
  assume "8 \<le> bufsiz"
  then have 8: "8 \<le> unat bufsiz" by (simp add: word_le_nat_alt)
  then obtain w where "read_thash B buf 4 = Ok w" using read_thash_Ok [of buf B] assms(1) by fastforce
  then show "gives (\<lambda>e. e = error_ok \<longrightarrow> 8 \<le> unat bufsiz) (case fid of None \<Rightarrow> Ok error_ok
      | Some s \<Rightarrow> bindR (flatbuffers_type_hash_from_string s) (\<lambda>id2. bindR (read_thash B buf 4) (\<lambda>i.
          verify (id2 = 0 \<or> i = id2) error_identifier_mismatch (Ok error_ok))))"
    using 8 assms(2) by (auto simp: fid_ok_def verify_def split: option.splits)
qed simp_all

lemma typed_buffer_header_ok:
  assumes "buf + unat bufsiz \<le> length (blk_bytes B)"
  shows "gives (\<lambda>e. e = error_ok \<longrightarrow> 8 \<le> unat bufsiz) (flatcc_verify_typed_buffer_header B buf bufsiz thash)"
  unfolding flatcc_verify_typed_buffer_header_def
proof (intro gives_verify)
  assume "8 \<le> bufsiz"
  then have 8: "8 \<le> unat bufsiz" by (simp add: word_le_nat_alt)
  then obtain w where "read_thash B buf 4 = Ok w" using read_thash_Ok [of buf B] assms by fastforce
  then show "gives (\<lambda>e. e = error_ok \<longrightarrow> 8 \<le> unat bufsiz) (if thash \<noteq> 0 then
        bindR (read_thash B buf 4) (\<lambda>i. verify (thash = 0 \<or> i = thash) error_identifier_mismatch (Ok error_ok))
      else Ok error_ok)"
    using 8 by (auto simp: verify_def)
qed simp_all

lemma ucast_u64: "unat (ucast (n :: u32) :: u64) = unat n"
  using u32_bound [of n] by (simp add: unsigned_ucast_eq take_bit_nat_eq_self)

text \<open>What follows the header: a table or a struct.\<close>

lemma root_table_ok:
  assumes B: "in_buf B buf n" and h: "gives (\<lambda>e. e = error_ok \<longrightarrow> 8 \<le> unat n) header" and tvf: "tv_ok B H buf vis tvf"
  shows "gives (\<lambda>e. e = error_ok \<longrightarrow> H n \<longrightarrow> visit_root vis B buf = Ok ())
    (check_result header (bindR (read_uoffset B buf 0) (\<lambda>offset. verify_table B buf n 0 offset ttl tvf)))"
proof (rule gives_check [OF h])
  assume "8 \<le> unat n"
  then obtain u where u: "read_uoffset B buf 0 = Ok u" using read_uoffset_Ok [OF B, of 0] by auto
  have "gives (\<lambda>e. e = error_ok \<longrightarrow> H n \<longrightarrow> vis (buf + unat (0 :: u32) + unat u) = Ok ()) (verify_table B buf n 0 u ttl tvf)"
    by (rule verify_table_ok [OF B]) (use tvf in simp)
  then show "gives (\<lambda>e. e = error_ok \<longrightarrow> H n \<longrightarrow> visit_root vis B buf = Ok ())
    (bindR (read_uoffset B buf 0) (\<lambda>offset. verify_table B buf n 0 offset ttl tvf))"
    using u by (auto simp: visit_root_def read_uoffset_def)
qed

lemma verify_struct_ok:
  "gives (\<lambda>e. e = error_ok \<longrightarrow> unat offset + unat siz \<le> unat end) (verify_struct end 0 offset siz align)"
proof -
  have "unat offset + unat siz \<le> unat end" if "offset \<le> offset + siz" and "offset + siz \<le> end"
    using that unat_plus_simple [of offset siz] by (simp add: word_le_nat_alt)
  then show ?thesis by (simp add: verify_struct_def verify_def Let_def)
qed

lemma root_struct_ok:
  assumes B: "in_buf B buf n" and h: "gives (\<lambda>e. e = error_ok \<longrightarrow> 8 \<le> unat n) header" and siz: "unat (siz :: u64) < 2 ^ 32"
  shows "gives (\<lambda>e. e = error_ok \<longrightarrow> visit_root (\<lambda>p. ignore (read_bytes p (unat siz) (blk_bytes B))) B buf = Ok ())
    (check_result header (bindR (read_uoffset B buf 0) (\<lambda>offset. verify_struct n 0 offset (ucast siz) align)))"
    (is "gives ?P _")
proof (rule gives_check [OF h])
  assume "8 \<le> unat n"
  then obtain u where u: "read_uoffset B buf 0 = Ok u" using read_uoffset_Ok [OF B, of 0] by auto
  have s: "unat (ucast siz :: u32) = unat siz" using siz by (simp add: unsigned_ucast_eq take_bit_nat_eq_self)
  have "gives ?P (verify_struct n 0 u (ucast siz) align)"
    by (rule gives_mono [OF verify_struct_ok])
      (use u s B in \<open>auto simp: visit_root_def read_uoffset_def ignore_def read_bytes_def in_buf_def\<close>)
  then show "gives ?P (bindR (read_uoffset B buf 0) (\<lambda>offset. verify_struct n 0 offset (ucast siz) align))" using u by simp
qed

section \<open>A call of a generated verifier\<close>

lemma union_field_ok:
  assumes td: "td_ok B td" and i: "id_ok i" "i \<noteq> 0"
    and uvf: "uv_ok B (\<lambda>e. small_buf e \<and> G) (td_pos td) (visit_union vis B us) uvf"
    and us: "us = cases u"
  shows "gives (\<lambda>e. e = error_ok \<longrightarrow> small_buf (td_end td) \<longrightarrow> G
      \<longrightarrow> visit_check vis cases B (td_pos td) (Union_field i required u) = Ok ())
    (flatcc_verify_union_field B td i required uvf)" (is "gives ?P _")
proof -
  note ip = id_ok_pred [OF i]
  obtain v where v: "read_vt_entry B td (i - 1) = Ok v" "small_buf (td_end td) \<Longrightarrow> read_vt B (i - 1) (td_pos td) = Ok v"
    using read_vt_entry_ok [OF td ip] by blast
  obtain vt where vt: "read_vt_entry B td i = Ok vt" using read_vt_entry_ok [OF td i(1)] by blast
  show ?thesis
  proof (cases "v = 0")
    case True
    then have "visit_check vis cases B (td_pos td) (Union_field i required u) = Ok ()" if "small_buf (td_end td)"
      using v(2) [OF that] by (simp add: visit_check_def union_type_field_def)
    then show ?thesis using True v(1) vt by (simp add: flatcc_verify_union_field_def verify_def)
  next
    case False
    let ?p = "td_buf td + unat (td_table td) + unat v"
    let ?g = "\<lambda>ty base. bindR (read_uoffset B (td_buf td) base) (\<lambda>offset. uvf \<lparr>ud_buf = td_buf td, ud_end = td_end td,
        ud_ttl = td_ttl td, ud_type = ty, ud_base = base, ud_offset = offset\<rparr>)"
    have "gives ?P (check_result (verify_field B td (i - 1) False 1 1)
       (bindR (read_vt_entry B td i) (\<lambda>vte_table. bindR (get ?p (blk_bytes B)) (\<lambda>t.
       verify (t \<noteq> 0 \<or> vte_table = 0) error_union_type_NONE_cannot_have_a_value
       (if t = 0 then Ok error_ok else check_field B td i required (?g t))))))"
    proof (rule gives_check [OF verify_field_ok [OF td ip]])
      assume "field_in B td (i - 1) (unat (1 :: u32))"
      then obtain ty where ty: "get ?p (blk_bytes B) = Ok ty"
        using v False get_Ok [of ?p "blk_bytes B"] by (auto simp: field_in_def td_pos_def)
      have kind: "union_type_field B (i - 1) (td_pos td) = Ok ty" if "small_buf (td_end td)"
        using v(2) [OF that] False ty by (simp add: union_type_field_def td_pos_def)
      have "gives (\<lambda>e. e = error_ok \<longrightarrow> small_buf (td_end td) \<longrightarrow> G
          \<longrightarrow> bindR (offset_field B i required 0 (td_pos td)) (when_some (visit_union vis B us ty)) = Ok ())
        (check_field B td i required (?g ty))"
      proof (rule offset_field_ok [OF td i(1)])
        fix base offset :: u32 assume "unat (td_table td) < unat base"
        let ?ud = "\<lparr>ud_buf = td_buf td, ud_end = td_end td, ud_ttl = td_ttl td, ud_type = ty, ud_base = base, ud_offset = offset\<rparr>"
        show "gives (\<lambda>e. e = error_ok \<longrightarrow> small_buf (td_end td) \<and> G \<longrightarrow> visit_union vis B us ty (td_buf td + unat base + unat offset) = Ok ()) (uvf ?ud)"
          using uv_okD [OF uvf, of ?ud] td \<open>unat (td_table td) < unat base\<close> by (simp add: td_ok_def td_pos_def)
      qed simp
      then have "gives ?P (check_field B td i required (?g ty))" if "ty \<noteq> 0"
        using kind that us by (elim gives_mono) (simp add: visit_check_def table_field_def)
      moreover have "small_buf (td_end td) \<Longrightarrow> visit_check vis cases B (td_pos td) (Union_field i required u) = Ok ()" if "ty = 0"
        using kind that by (simp add: visit_check_def)
      ultimately show "gives ?P (bindR (read_vt_entry B td i) (\<lambda>vte_table. bindR (get ?p (blk_bytes B)) (\<lambda>t.
         verify (t \<noteq> 0 \<or> vte_table = 0) error_union_type_NONE_cannot_have_a_value
         (if t = 0 then Ok error_ok else check_field B td i required (?g t)))))"
        unfolding vt ty bindR.simps by (auto simp: verify_def)
    qed simp
    then show ?thesis using False v by (simp add: flatcc_verify_union_field_def)
  qed
qed

lemma union_vector_field_ok:
  assumes td: "td_ok B td" and i: "id_ok i" "i \<noteq> 0"
    and uvf: "uv_ok B (\<lambda>e. small_buf e \<and> G) (td_pos td) (visit_union vis B us) uvf" and us: "us = cases u"
    and req: "G \<Longrightarrow> required"
  shows "gives (\<lambda>e. e = error_ok \<longrightarrow> small_buf (td_end td) \<longrightarrow> G
      \<longrightarrow> visit_check vis cases B (td_pos td) (Union_vector_field i required u) = Ok ())
    (flatcc_verify_union_vector_field B td i required uvf)" (is "gives ?P _")
proof -
  let ?lim = "td_buf td + unat (td_end td)"
  let ?bv = "bytes_vector B 1 ?lim"
  let ?vis = "\<lambda>types vals. bindR (vec_len B types) (each_index (\<lambda>k. bindR (union_vec_at B types vals k)
     (\<lambda>(ty, p). when_some (visit_union vis B us ty) p)) 0)"
  let ?f = "\<lambda>types cnt base. bindR (read_uoffset B (td_buf td) base) (\<lambda>offset.
          verify_union_vector B (td_buf td) (td_end td) base offset cnt types (td_ttl td) uvf)"
  let ?tail = "check_result (flatcc_verify_vector_field B td (i - 1) required 1 1 (COUNT_MAX 1))
     (bindR (get_field_ptr B td (i - 1)) (\<lambda>p. case p of None \<Rightarrow> Ok error_ok
      | Some p \<Rightarrow> bindR (read_uoffset B p 0) (\<lambda>offset.
          let p = p + unat offset in
          bindR (read_uoffset B p 0) (\<lambda>count. check_field B td i required (?f (p + 4) count)))))"
  note ip = id_ok_pred [OF i]
  have lim: "?lim \<le> length (blk_bytes B)" using td_inD [OF td] by blast
  have "gives ?P ?tail"
  proof (rule gives_check)
    show "gives (\<lambda>e. e = error_ok \<longrightarrow> leads B td (i - 1) required ?bv)
      (flatcc_verify_vector_field B td (i - 1) required 1 1 (COUNT_MAX 1))"
      using vector_leads [OF td ip, of 1] by simp
    assume l: "leads B td (i - 1) required ?bv"
    show "gives ?P (bindR (get_field_ptr B td (i - 1)) (\<lambda>p. case p of None \<Rightarrow> Ok error_ok
      | Some p \<Rightarrow> bindR (read_uoffset B p 0) (\<lambda>offset.
          let p = p + unat offset in
          bindR (read_uoffset B p 0) (\<lambda>count. check_field B td i required (?f (p + 4) count)))))"
    proof (rule gives_bind [OF field_ptr_ok [OF l td]])
      fix x assume x: "case x of None \<Rightarrow> read_vt_entry B td (i - 1) = Ok 0 \<and> \<not> required
        | Some p \<Rightarrow> \<exists>v u. read_vt_entry B td (i - 1) = Ok v \<and> v \<noteq> 0 \<and> p = td_pos td + unat v \<and> read_le32 B p = Ok u \<and> ?bv (p + unat u)"
      show "gives ?P (case x of None \<Rightarrow> Ok error_ok
        | Some p \<Rightarrow> bindR (read_uoffset B p 0) (\<lambda>offset.
            let p = p + unat offset in
            bindR (read_uoffset B p 0) (\<lambda>count. check_field B td i required (?f (p + 4) count))))"
      proof (cases x)
        case None
        then have "\<not> G" using x req by auto
        then show ?thesis using None by simp
      next
        case (Some p)
        then obtain v k n where v: "read_vt_entry B td (i - 1) = Ok v" "v \<noteq> 0" "p = td_pos td + unat v" "read_le32 B p = Ok k"
          and n: "read_le32 B (p + unat k) = Ok n" "p + unat k + 4 + unat n \<le> ?lim" using x by (auto simp: bytes_vector_def)
        let ?q = "p + unat k"
        have types: "vector_field B (i - 1) required (td_pos td) = Ok (Some (?q + 4))" if "small_buf (td_end td)"
          using read_vt_entry_ok [OF td ip] that v by (auto simp: vector_field_def offset_field_def Let_def)
        have "gives (\<lambda>e. e = error_ok \<longrightarrow> small_buf (td_end td) \<longrightarrow> G
            \<longrightarrow> bindR (offset_field B i required 4 (td_pos td)) (\<lambda>vals. ?vis (Some (?q + 4)) vals) = Ok ())
          (check_field B td i required (?f (?q + 4) n))"
        proof (rule offset_option_ok [OF td i(1), where Q = "union_vector B (?q + 4) n
            (\<lambda>ty p. small_buf (td_end td) \<and> G \<longrightarrow> visit_union vis B us ty p = Ok ())"])
          fix base offset :: u32 assume "unat (td_table td) < unat base"
          then have "uv_ok B (\<lambda>e. small_buf e \<and> G) (td_buf td + unat base) (visit_union vis B us) uvf"
            using uvf by (elim uv_ok_mono) (simp add: td_pos_def)
          moreover have "in_buf B (td_buf td) (td_end td)" using td by (simp add: td_ok_def)
          ultimately show "gives (\<lambda>e. e = error_ok \<longrightarrow> union_vector B (?q + 4) n
              (\<lambda>ty p. small_buf (td_end td) \<and> G \<longrightarrow> visit_union vis B us ty p = Ok ()) (td_buf td + unat base + unat offset))
            (verify_union_vector B (td_buf td) (td_end td) base offset n (?q + 4) (td_ttl td) uvf)"
            by (intro verify_union_vector_ok) (use n lim in auto)
        next
          fix q assume u: "union_vector B (?q + 4) n (\<lambda>ty p. small_buf (td_end td) \<and> G \<longrightarrow> visit_union vis B us ty p = Ok ()) q"
            and "small_buf (td_end td)" "G"
          then show "?vis (Some (?q + 4)) (Some (q + 4)) = Ok ()" by (intro visit_union_vector [OF u n(1)]) simp
        next
          assume "\<not> required" and "G"
          then show "?vis (Some (?q + 4)) None = Ok ()" using req by simp
        qed
        then have "gives ?P (check_field B td i required (?f (?q + 4) n))"
          using types us by (elim gives_mono) (simp add: visit_check_def vector_field_def)
        then show ?thesis using Some v n by (simp add: read_uoffset_def Let_def)
      qed
    qed
  qed
  moreover obtain v where "read_vt_entry B td (i - 1) = Ok v" using read_vt_entry_ok [OF td ip] by blast
  moreover obtain vt where "read_vt_entry B td i = Ok vt" using read_vt_entry_ok [OF td i(1)] by blast
  ultimately show ?thesis unfolding flatcc_verify_union_vector_field_def by (simp add: verify_def)
qed

lemma ucast_64_32: "ucast (ucast (m :: u32) :: u64) = m"
proof -
  have "unat (ucast (ucast m :: u64) :: u32) = take_bit 32 (unat (ucast m :: u64))" by (subst unsigned_ucast_eq) simp
  then show ?thesis using u32_bound [of m] by (simp add: word_unat_eq_iff ucast_u64 take_bit_nat_eq_self)
qed

lemma nested_header_ok:
  "in_buf B buf m \<Longrightarrow> gives (\<lambda>e. e = error_ok \<longrightarrow> 8 \<le> unat m) (flatcc_verify_buffer_header B buf (ucast m) None)"
  using buffer_header_ok [of buf "ucast m" B None] by (simp add: ucast_u64 in_buf_def fid_ok_def)

lemma struct_nested_root_ok:
  assumes td: "td_ok B td" and i: "id_ok i" and siz: "unat siz < 2 ^ 32"
  shows "gives (\<lambda>e. e = error_ok \<longrightarrow> small_buf (td_end td) \<longrightarrow> G
      \<longrightarrow> visit_check vis cases B (td_pos td) (Struct_nested_root i required siz 1) = Ok ())
    (flatcc_verify_struct_as_nested_root B td i required None siz 1)"
  unfolding visit_check_def field_check.case flatcc_verify_struct_as_nested_root_def flatcc_verify_struct_as_root_def
proof (rule nested_buffer_ok [OF td i])
  fix q m assume q: "in_buf B (q + 4) m"
  from root_struct_ok [OF q nested_header_ok [OF q] siz, of 1]
  show "gives (\<lambda>e. e = error_ok \<longrightarrow> small_buf (td_end td) \<longrightarrow> G
      \<longrightarrow> visit_root (\<lambda>p. ignore (read_bytes p (unat siz) (blk_bytes B))) B (q + 4) = Ok ())
    (check_result (flatcc_verify_buffer_header B (q + 4) (ucast m) None)
      (bindR (read_uoffset B (q + 4) 0) (\<lambda>offset. verify_struct (ucast (ucast m :: u64)) 0 offset (ucast siz) 1)))"
    unfolding ucast_64_32 by (elim gives_mono) simp
qed

lemma table_nested_root_ok:
  assumes td: "td_ok B td" and i: "id_ok i" and tvf: "tv_ok B (\<lambda>e. small_buf e \<and> G) (td_pos td) (vis t) tvf"
  shows "gives (\<lambda>e. e = error_ok \<longrightarrow> small_buf (td_end td) \<longrightarrow> G
      \<longrightarrow> visit_check vis cases B (td_pos td) (Table_nested_root i required 1 t) = Ok ())
    (flatcc_verify_table_as_nested_root B td i required None 1 tvf)"
  unfolding visit_check_def field_check.case flatcc_verify_table_as_nested_root_def
proof (rule nested_buffer_ok [OF td i])
  fix q m assume pq: "td_pos td < q" and q: "in_buf B (q + 4) m" and m: "m \<le> td_end td"
  have "tv_ok B (\<lambda>e. small_buf e \<and> G) (q + 4) (vis t) tvf" by (rule tv_ok_mono [OF tvf]) (use pq in simp)
  moreover have "small_buf (td_end td) \<Longrightarrow> small_buf m" using m by (simp add: small_buf_def word_le_nat_alt)
  ultimately show "gives (\<lambda>e. e = error_ok \<longrightarrow> small_buf (td_end td) \<longrightarrow> G \<longrightarrow> visit_root (vis t) B (q + 4) = Ok ())
    (check_result (flatcc_verify_buffer_header B (q + 4) (ucast m) None)
      (bindR (read_uoffset B (q + 4) 0) (\<lambda>offset. verify_table B (q + 4) m 0 offset (td_ttl td) tvf)))"
    using root_table_ok [OF q nested_header_ok [OF q]] by (blast intro: gives_mono)
qed

lemma verify_check_ok:
  assumes td: "td_ok B td" and c: "check_fine n c"
    and tvf: "\<And>t. t < n \<Longrightarrow> tv_ok B (\<lambda>e. small_buf e \<and> G) (td_pos td) (vis t) (tvf t)"
    and uvf: "\<And>u. uv_ok B (\<lambda>e. small_buf e \<and> G) (td_pos td) (visit_union vis B (cases u)) (uvf u)"
    and req: "\<And>i required u. c = Union_vector_field i required u \<Longrightarrow> G \<Longrightarrow> required"
  shows "gives (\<lambda>e. e = error_ok \<longrightarrow> small_buf (td_end td) \<longrightarrow> G \<longrightarrow> visit_check vis cases B (td_pos td) c = Ok ())
    (verify_check tvf uvf B td c)" (is "gives ?P _")
proof -
  have B: "in_buf B (td_buf td) (td_end td)" using td by (simp add: td_ok_def)
  have lim: "td_buf td + unat (td_end td) \<le> length (blk_bytes B)" using td_inD [OF td] by blast
  have pos: "td_pos td \<le> td_buf td + unat base" if "unat (td_table td) < unat (base :: u32)" for base
    using that by (simp add: td_pos_def)
  show ?thesis
  proof (cases c)
    case (Field i siz align)
    then have i: "id_ok i" and "unat siz < 2 ^ 31" using c by (simp_all add: check_fine_def)
    then have "unat (ucast siz :: u32) = unat siz" by (simp add: unsigned_ucast_eq take_bit_nat_eq_self)
    then have "gives (\<lambda>e. e = error_ok \<longrightarrow> field_in B td i (unat siz)) (verify_field B td i False (ucast siz) align)"
      using verify_field_ok [OF td i, of "ucast siz"] \<open>unat siz < 2 ^ 31\<close> by simp
    then have "gives ?P (check_result (verify_field B td i False (ucast siz) align) (Ok error_ok))"
      by (rule gives_check) (use Field field_in_scalar [OF td i] in \<open>simp add: visit_check_def\<close>)
    then show ?thesis using Field by (simp add: verify_check_def flatcc_verify_field_def)
  next
    case (Vector_field i required elem_size align)
    then have i: "id_ok i" and siz: "unat elem_size < 2 ^ 32" using c by (simp_all add: check_fine_def)
    show ?thesis
      unfolding Vector_field verify_check_def visit_check_def field_check.case flatcc_verify_vector_field_def vector_field_def
      by (rule offset_field_ok [OF td i], rule verify_bytes_vector_ok [OF B siz]) (use lim in \<open>blast intro: visit_bytes_vector\<close>)
  next
    case (String_field i required)
    then have i: "id_ok i" using c by (simp add: check_fine_def)
    show ?thesis
      unfolding String_field verify_check_def visit_check_def field_check.case flatcc_verify_string_field_def vector_field_def
      by (rule offset_field_ok [OF td i], rule verify_string_ok [OF B])
  next
    case (String_vector_field i required)
    then have i: "id_ok i" using c by (simp add: check_fine_def)
    show ?thesis
      unfolding String_vector_field verify_check_def visit_check_def field_check.case flatcc_verify_string_vector_field_def vector_field_def
      by (rule offset_field_ok [OF td i], rule verify_string_vector_ok [OF B], rule visit_offset_vector)
  next
    case (Table_field i required t)
    then have i: "id_ok i" and t: "t < n" using c by (simp_all add: check_fine_def)
    show ?thesis
      unfolding Table_field verify_check_def visit_check_def field_check.case flatcc_verify_table_field_def table_field_def
      by (rule offset_field_ok [OF td i], rule verify_table_ok [OF B tv_ok_mono [OF tvf [OF t]]]) (use pos in auto)
  next
    case (Table_vector_field i required t)
    then have i: "id_ok i" and t: "t < n" using c by (simp_all add: check_fine_def)
    show ?thesis
      unfolding Table_vector_field verify_check_def visit_check_def field_check.case flatcc_verify_table_vector_field_def vector_field_def
      by (rule offset_field_ok [OF td i], rule verify_table_vector_ok [OF B tv_ok_mono [OF tvf [OF t]]])
        (use pos in \<open>auto intro: visit_offset_vector\<close>)
  next
    case (Struct_nested_root i required siz align)
    then show ?thesis using c struct_nested_root_ok [OF td] by (simp add: verify_check_def check_fine_def)
  next
    case (Table_nested_root i required align t)
    then have i: "id_ok i" and t: "t < n" and a: "align = 1" using c by (simp_all add: check_fine_def)
    show ?thesis unfolding Table_nested_root a verify_check_def field_check.case by (rule table_nested_root_ok [OF td i]) (rule tvf [OF t])
  next
    case (Union_field i required u)
    then show ?thesis using c union_field_ok [OF td _ _ uvf] by (simp add: verify_check_def check_fine_def)
  next
    case (Union_vector_field i required u)
    then show ?thesis using c req union_vector_field_ok [OF td _ _ uvf] by (simp add: verify_check_def check_fine_def)
  qed
qed

end
