(* ===== verification/Fb_Sound_Schema.thy ===== *)
theory Fb_Sound_Schema imports Fb_Checks begin

text \<open>
  The verifier of a schema: its tables call each other's verifiers. On any bytes it stays within the
  block and returns; what it accepts, the accessors read without leaving the block.
\<close>

section \<open>The tables of a schema\<close>

definition no_struct_members :: "fb_schema \<Rightarrow> bool" where
  "no_struct_members S \<longleftrightarrow> (\<forall>us \<in> set (fb_unions S). \<forall>c \<in> snd ` set us. case c of Union_struct _ _ \<Rightarrow> False | _ \<Rightarrow> True)"

text \<open>The unions whose values the verifier checks as the accessors read them: tables and strings, and in
  vectors only when the field is required.\<close>

definition readable_unions :: "fb_schema \<Rightarrow> bool" where
  "readable_unions S \<longleftrightarrow> no_struct_members S
     \<and> (\<forall>cs \<in> set (fb_tables S). \<forall>c \<in> set cs. case c of Union_vector_field _ required _ \<Rightarrow> required | _ \<Rightarrow> True)"

definition schema_fine :: "fb_schema \<Rightarrow> bool" where
  "schema_fine S \<longleftrightarrow> (\<forall>cs \<in> set (fb_tables S). \<forall>c \<in> set cs. check_fine (length (fb_tables S)) c)
     \<and> (\<forall>us \<in> set (fb_unions S). \<forall>c \<in> snd ` set us. case c of Union_table t \<Rightarrow> t < length (fb_tables S) | _ \<Rightarrow> True)"

definition union_cases :: "fb_schema \<Rightarrow> nat \<Rightarrow> (u8 \<times> union_case) list" where
  "union_cases S u = (if u < length (fb_unions S) then fb_unions S ! u else [])"

lemma union_cases_in: "c \<in> snd ` set (union_cases S u) \<Longrightarrow> \<exists>us \<in> set (fb_unions S). c \<in> snd ` set us"
  by (auto simp: union_cases_def split: if_splits)

lemma union_table_in: "schema_fine S \<Longrightarrow> Union_table t \<in> snd ` set (union_cases S u) \<Longrightarrow> t < length (fb_tables S)"
  using union_cases_in [of "Union_table t" S u] by (fastforce simp: schema_fine_def)

lemma union_struct_in: "readable_unions S \<Longrightarrow> Union_struct siz align \<notin> snd ` set (union_cases S u)"
  using union_cases_in [of "Union_struct siz align" S u] by (fastforce simp: readable_unions_def no_struct_members_def)

lemma verify_checks_ok:
  "(\<And>c. c \<in> set cs \<Longrightarrow> gives (\<lambda>e. e = error_ok \<longrightarrow> P \<longrightarrow> Q \<longrightarrow> g c = Ok ()) (f c))
    \<Longrightarrow> gives (\<lambda>e. e = error_ok \<longrightarrow> P \<longrightarrow> Q \<longrightarrow> visit_checks g cs = Ok ()) (verify_checks f cs)"
proof (induction cs)
  case (Cons c cs)
  have rest: "gives (\<lambda>e. e = error_ok \<longrightarrow> P \<longrightarrow> Q \<longrightarrow> visit_checks g cs = Ok ()) (verify_checks f cs)" using Cons by simp
  show ?case
    unfolding verify_checks.simps
    by (rule gives_check [OF Cons.prems [of c]]) (use rest in \<open>auto elim: gives_mono\<close>)
qed simp

text \<open>Verifiers of the tables behind \<open>m\<close>, each with what reads such a table.\<close>

locale table_verifiers =
  fixes S :: fb_schema and B :: block and vis :: "nat \<Rightarrow> nat \<Rightarrow> unit res" and tvf :: "nat \<Rightarrow> table_verifier_f" and m :: nat
  assumes tables: "schema_fine S \<Longrightarrow> t < length (fb_tables S)
    \<Longrightarrow> tv_ok B (\<lambda>e. small_buf e \<and> readable_unions S) m (vis t) (tvf t)"
begin

lemma unions:
  assumes "schema_fine S"
  shows "uv_ok B (\<lambda>e. small_buf e \<and> readable_unions S) m (visit_union vis B (union_cases S u)) (union_verifier tvf B (union_cases S u))"
  by (rule union_verifier_ok) (use assms tables union_table_in union_struct_in in blast)+

lemma table_checks:
  assumes S: "schema_fine S" and t: "t < length (fb_tables S)" and td: "td_ok B td" "m \<le> td_pos td"
  shows "gives (\<lambda>e. e = error_ok \<longrightarrow> small_buf (td_end td) \<longrightarrow> readable_unions S
      \<longrightarrow> visit_checks (visit_check vis (union_cases S) B (td_pos td)) (fb_tables S ! t) = Ok ())
    (verify_checks (verify_check tvf (\<lambda>u. union_verifier tvf B (union_cases S u)) B td) (fb_tables S ! t))"
proof (rule verify_checks_ok)
  fix c assume "c \<in> set (fb_tables S ! t)"
  then have c: "check_fine (length (fb_tables S)) c" using S nth_mem [OF t] by (auto simp: schema_fine_def)
  show "gives (\<lambda>e. e = error_ok \<longrightarrow> small_buf (td_end td) \<longrightarrow> readable_unions S \<longrightarrow> visit_check vis (union_cases S) B (td_pos td) c = Ok ())
    (verify_check tvf (\<lambda>u. union_verifier tvf B (union_cases S u)) B td c)"
  proof (rule verify_check_ok [OF td(1) c])
    show "tv_ok B (\<lambda>e. small_buf e \<and> readable_unions S) (td_pos td) (vis t) (tvf t)" if "t < length (fb_tables S)" for t
      using tv_ok_mono [OF tables [OF S that] td(2)] .
    show "uv_ok B (\<lambda>e. small_buf e \<and> readable_unions S) (td_pos td) (visit_union vis B (union_cases S u)) (union_verifier tvf B (union_cases S u))" for u
      using uv_ok_mono [OF unions [OF S] td(2)] .
    show "required" if "c = Union_vector_field i required u" "readable_unions S" for i required u
      using that \<open>c \<in> set (fb_tables S ! t)\<close> nth_mem [OF t] by (fastforce simp: readable_unions_def)
  qed
qed

text \<open>A buffer at or behind \<open>m\<close>.\<close>

lemma root:
  assumes S: "schema_fine S" and t: "t < length (fb_tables S)" and B: "in_buf B buf n" and m: "m \<le> buf"
    and h: "gives (\<lambda>e. e = error_ok \<longrightarrow> 8 \<le> unat n) header"
  shows "gives (\<lambda>e. e = error_ok \<longrightarrow> small_buf n \<and> readable_unions S \<longrightarrow> visit_root (vis t) B buf = Ok ())
    (check_result header (bindR (read_uoffset B buf 0) (\<lambda>offset. verify_table B buf n 0 offset ttl (tvf t))))"
  by (rule root_table_ok [OF B h]) (rule tv_ok_mono [OF tables [OF S t] m])

end

text \<open>Each table lies behind the one that leads to it, so the calls nest no deeper than the block is long.\<close>

lemma table_verifier_ok:
  assumes "schema_fine S" and "t < length (fb_tables S)"
  shows "tv_ok B (\<lambda>e. small_buf e \<and> readable_unions S) (length (blk_bytes B) - d) (visit_table S B d t) (table_verifier S B d t)"
  using assms
proof (induction d arbitrary: t)
  case (Suc d)
  have tv: "table_verifiers S B (visit_table S B d) (table_verifier S B d) (length (blk_bytes B) - d)"
    by unfold_locales (rule Suc.IH)
  show ?case
    unfolding tv_ok_def
  proof (intro allI impI)
    fix td assume td: "td_ok B td" "length (blk_bytes B) - Suc d < td_pos td" "td_pos td + 4 \<le> length (blk_bytes B)"
    show "gives (\<lambda>e. e = error_ok \<longrightarrow> small_buf (td_end td) \<and> readable_unions S \<longrightarrow> visit_table S B (Suc d) t (td_pos td) = Ok ())
      (table_verifier S B (Suc d) t td)"
    proof -
      have "length (blk_bytes B) - d \<le> td_pos td" using td(2) by simp
      from table_verifiers.table_checks [OF tv Suc.prems td(1) this] show ?thesis
        using Suc.prems(2) by (simp add: union_cases_def [abs_def] imp_conjL)
    qed
  qed
qed (simp add: tv_ok_def)

end
