(* ===== verification/Fb_Props.thy ===== *)
theory Fb_Props imports Fb_Sound_Schema "HOL-Library.Code_Target_Numeral" begin

text \<open>The runtime verifier as a whole, on the verifiers generated from any schema.\<close>

section \<open>The laws of a schema's verifiers\<close>

interpretation tabs: table_verifiers S B "visit_table S B d" "table_verifier S B d" "length (blk_bytes B) - d"
  by unfold_locales (rule table_verifier_ok)

lemma small_size: "unat (bufsiz :: u64) \<le> n \<Longrightarrow> unat (ucast bufsiz :: u32) \<le> n"
  by (rule order_trans [of _ "unat bufsiz"]) (simp_all add: unsigned_ucast_eq)

lemma table_as_root:
  assumes S: "schema_fine S" and t: "t < length (fb_tables S)" and fid: "fid_ok fid"
    and siz: "unat bufsiz \<le> length (blk_bytes B)" and d: "length (blk_bytes B) \<le> d"
  shows "gives (\<lambda>e. e = error_ok \<longrightarrow> small_buf (ucast bufsiz) \<and> readable_unions S \<longrightarrow> visit_root (visit_table S B d t) B 0 = Ok ())
    (flatcc_verify_table_as_root B 0 bufsiz fid (table_verifier S B d t))"
  unfolding flatcc_verify_table_as_root_def Let_def
proof (rule tabs.root [OF S t])
  show "in_buf B 0 (ucast bufsiz)" using small_size [OF siz] by (simp add: in_buf_def)
  then show "gives (\<lambda>e. e = error_ok \<longrightarrow> 8 \<le> unat (ucast bufsiz :: u32)) (flatcc_verify_buffer_header B 0 (ucast (ucast bufsiz :: u32)) fid)"
    using buffer_header_ok [of 0 "ucast (ucast bufsiz :: u32)" B fid] fid by (simp add: in_buf_def ucast_u64)
  show "length (blk_bytes B) - d \<le> 0" using d by simp
qed

section \<open>Sample buffers\<close>

definition bytes_of :: "nat list \<Rightarrow> bytes" where
  "bytes_of = map of_nat"

text \<open>A \<open>KeyValue\<close> of the reflection schema, whose key is \<open>hi\<close>.\<close>

definition sample_block :: block where
  "sample_block = \<lparr>blk_bytes = bytes_of [16, 0, 0, 0,  0, 0, 0, 0,  6, 0, 8, 0, 4, 0, 0, 0,
     8, 0, 0, 0,  4, 0, 0, 0,  2, 0, 0, 0,  104, 105, 0, 0], blk_addr = 4096\<rparr>"


lemma reflection_schema_fine: "schema_fine reflection_schema" "readable_unions reflection_schema"
  by code_simp+










section \<open>Properties\<close>

text \<open>C7: The runtime verifier is safe on any bytes: for the verifiers generated from any schema, whatever the block
  holds and whatever it is asked to identify, it returns a result and reads nothing outside of the block, and its calls nest
  no deeper than the block has bytes. \<open>d\<close> is the room on the stack, \<open>bufsiz\<close> the size it is told.\<close>

theorem verifier_total:
  assumes "schema_fine S" and "t < length (fb_tables S)" and "fid_ok fid"
    and "unat bufsiz \<le> length (blk_bytes B)" and "length (blk_bytes B) \<le> d"
  shows "\<exists>e. flatcc_verify_table_as_root B 0 bufsiz fid (table_verifier S B d t) = Ok e"
  using table_as_root [OF assms] by (auto simp: gives_def)

theorem verifier_total_witness:
  "\<exists>e. flatcc_verify_table_as_root sample_block 0 32 (Some [0]) (table_verifier reflection_schema sample_block 32 1) = Ok e"
proof (rule verifier_total)
  show "fid_ok (Some [0])" "1 < length (fb_tables reflection_schema)" "unat (32 :: u64) \<le> length (blk_bytes sample_block)"
    "length (blk_bytes sample_block) \<le> 32"
    by (simp_all add: fid_ok_def flatbuffers_type_hash_from_string_def get_def reflection_schema_def sample_block_def bytes_of_def)
qed (rule reflection_schema_fine)



end
