(* ===== verification/Fb_Limits.thy ===== *)
theory Fb_Limits imports Fb_Props begin

text \<open>
  What the verifier does not catch: a limit on nesting that is stepped over, the offset of a struct in a union
  that wraps, a vector of unions without its values.
\<close>

section \<open>The limit on nesting\<close>

text \<open>The limit is tested by \<open>verify_table\<close> for being hit exactly, and by the vectors of tables and of unions for being
  positive. So below zero only the latter stop.\<close>

definition unstopped :: "verify_error res \<Rightarrow> bool" where
  "unstopped r \<longleftrightarrow> r \<noteq> Ok error_max_nesting_level_reached"

lemma unstopped_Ok [simp]: "unstopped (Ok e) \<longleftrightarrow> e \<noteq> error_max_nesting_level_reached"
  by (simp add: unstopped_def)

lemma unstopped_Fault [simp]: "unstopped Fault" "unstopped Hang"
  by (simp_all add: unstopped_def)

lemma unstopped_bind [intro!]: "(\<And>x. unstopped (f x)) \<Longrightarrow> unstopped (bindR r f)"
  by (cases r) simp_all

lemma unstopped_verify [intro!]: "reason \<noteq> error_max_nesting_level_reached \<Longrightarrow> unstopped k \<Longrightarrow> unstopped (verify c reason k)"
  by (simp add: verify_def)

lemma unstopped_check [intro!]: "unstopped r \<Longrightarrow> unstopped k \<Longrightarrow> unstopped (check_result r k)"
  by (cases r) (simp_all add: check_result_def)

lemma unstopped_check_field [intro!]:
  assumes "\<And>base. unstopped (f base)"
  shows "unstopped (check_field B td i required f)"
proof -
  have "unstopped (if ret \<noteq> error_ok \<or> base = 0 then Ok ret else f base)" if "get_offset_field B td i required = Ok (ret, base)" for ret base
  proof -
    have "ret \<noteq> error_max_nesting_level_reached"
      using that by (cases "read_vt_entry B td i") (auto simp: get_offset_field_def Let_def split: if_splits)
    then show ?thesis using assms by simp
  qed
  then show ?thesis unfolding check_field_def by (cases "get_offset_field B td i required") auto
qed

lemma unstopped_field: "unstopped (verify_field B td i required siz align)"
  by (auto simp: verify_field_def Let_def)

lemma unstopped_struct: "unstopped (verify_struct end base offset siz align)"
  by (auto simp: verify_struct_def Let_def)

lemma unstopped_string: "unstopped (verify_string B buf end base offset)"
  by (auto simp: verify_string_def Let_def)

lemma unstopped_vector: "unstopped (verify_vector B buf end base offset elem_size align max_count)"
  by (auto simp: verify_vector_def Let_def)

lemma unstopped_each_offset: "(\<And>b off. unstopped (f b off)) \<Longrightarrow> unstopped (each_offset f B buf n base)"
  by (induction n arbitrary: base) auto

lemma unstopped_string_vector: "unstopped (verify_string_vector B buf end base offset)"
  unfolding verify_string_vector_def Let_def
  by (intro unstopped_check unstopped_bind unstopped_vector unstopped_each_offset unstopped_string)

lemma unstopped_header: "unstopped (flatcc_verify_buffer_header B buf bufsiz fid)"
  by (auto simp: flatcc_verify_buffer_header_def split: option.splits)

lemma unstopped_nested_buffer: "(\<And>p n. unstopped (f p n)) \<Longrightarrow> unstopped (nested_buffer B td i required align f)"
  by (auto simp: nested_buffer_def flatcc_verify_vector_field_def Let_def unstopped_vector split: option.splits)

lemmas unstopped_parts = unstopped_field unstopped_struct unstopped_string unstopped_vector unstopped_string_vector unstopped_header

text \<open>A verifier that is not stopped below zero.\<close>

definition passes :: "table_verifier_f \<Rightarrow> bool" where
  "passes tvf \<longleftrightarrow> (\<forall>td. td_ttl td < 0 \<longrightarrow> unstopped (tvf td))"

lemma unstopped_table: "passes tvf \<Longrightarrow> ttl \<le> 0 \<Longrightarrow> unstopped (verify_table B buf end base offset ttl tvf)"
  unfolding verify_table_def Let_def
  by (subst verify_def) (simp add: passes_def unstopped_verify unstopped_bind)

text \<open>Tables that lead to none but each other, and to none through a vector.\<close>

definition vector_free :: "fb_schema \<Rightarrow> nat set \<Rightarrow> bool" where
  "vector_free S R \<longleftrightarrow> (\<forall>t \<in> R. \<forall>c \<in> set (if t < length (fb_tables S) then fb_tables S ! t else []). case c of
     Table_field _ _ j \<Rightarrow> j \<in> R
   | Table_nested_root _ _ _ j \<Rightarrow> j \<in> R
   | Union_field _ _ u \<Rightarrow> (\<forall>m \<in> snd ` set (union_cases S u). case m of Union_table j \<Rightarrow> j \<in> R | _ \<Rightarrow> True)
   | Table_vector_field _ _ _ \<Rightarrow> False
   | Union_vector_field _ _ _ \<Rightarrow> False
   | _ \<Rightarrow> True)"

lemma vector_freeD:
  "vector_free S R \<Longrightarrow> t \<in> R \<Longrightarrow> t < length (fb_tables S) \<Longrightarrow> c \<in> set (fb_tables S ! t) \<Longrightarrow> (case c of
     Table_field _ _ j \<Rightarrow> j \<in> R
   | Table_nested_root _ _ _ j \<Rightarrow> j \<in> R
   | Union_field _ _ u \<Rightarrow> (\<forall>m \<in> snd ` set (union_cases S u). case m of Union_table j \<Rightarrow> j \<in> R | _ \<Rightarrow> True)
   | Table_vector_field _ _ _ \<Rightarrow> False
   | Union_vector_field _ _ _ \<Rightarrow> False
   | _ \<Rightarrow> True)"
  by (fastforce simp: vector_free_def)

lemma unstopped_union:
  assumes "\<And>j. Union_table j \<in> snd ` set cases \<Longrightarrow> passes (tvf j)" and "ud_ttl ud \<le> 0"
  shows "unstopped (union_verifier tvf B cases ud)"
proof (cases "map_of cases (ud_type ud)")
  case (Some c)
  then have "c \<in> snd ` set cases" by (force dest: map_of_SomeD)
  then show ?thesis
    using Some assms by (cases c) (simp_all add: union_verifier_def flatcc_verify_union_table_def
      flatcc_verify_union_struct_def flatcc_verify_union_string_def unstopped_table unstopped_parts)
qed (simp add: union_verifier_def)

lemma unstopped_union_field:
  assumes "\<And>ud. ud_ttl ud = td_ttl td \<Longrightarrow> unstopped (uvf ud)"
  shows "unstopped (flatcc_verify_union_field B td i required uvf)"
  unfolding flatcc_verify_union_field_def
  by (intro unstopped_bind) (auto simp: unstopped_parts assms)

lemma unstopped_check_call:
  assumes ttl: "td_ttl td \<le> 0" and R: "\<And>j. j \<in> R \<Longrightarrow> passes (tvf j)"
    and c: "case c of
     Table_field _ _ j \<Rightarrow> j \<in> R
   | Table_nested_root _ _ _ j \<Rightarrow> j \<in> R
   | Union_field _ _ u \<Rightarrow> (\<forall>m \<in> snd ` set (cases u). case m of Union_table j \<Rightarrow> j \<in> R | _ \<Rightarrow> True)
   | Table_vector_field _ _ _ \<Rightarrow> False
   | Union_vector_field _ _ _ \<Rightarrow> False
   | _ \<Rightarrow> True"
  shows "unstopped (verify_check tvf (\<lambda>u. union_verifier tvf B (cases u)) B td c)"
proof (cases c)
  case (Table_nested_root i required align t)
  then show ?thesis using c R ttl
    by (auto simp: verify_check_def flatcc_verify_table_as_nested_root_def unstopped_parts unstopped_table intro!: unstopped_nested_buffer)
next
  case (Struct_nested_root i required siz align)
  then show ?thesis
    by (auto simp: verify_check_def flatcc_verify_struct_as_nested_root_def flatcc_verify_struct_as_root_def unstopped_parts
      intro!: unstopped_nested_buffer)
next
  case (Union_field i required u)
  then show ?thesis using c R ttl by (force simp: verify_check_def intro!: unstopped_union_field unstopped_union)
qed (use c R ttl in \<open>auto simp: verify_check_def flatcc_verify_field_def flatcc_verify_vector_field_def flatcc_verify_string_field_def
  flatcc_verify_string_vector_field_def flatcc_verify_table_field_def unstopped_parts unstopped_table\<close>)

lemma unstopped_checks: "(\<And>c. c \<in> set cs \<Longrightarrow> unstopped (f c)) \<Longrightarrow> unstopped (verify_checks f cs)"
  by (induction cs) auto

lemma table_verifier_passes: "vector_free S R \<Longrightarrow> t \<in> R \<Longrightarrow> passes (table_verifier S B d t)"
proof (induction d arbitrary: t)
  case (Suc d)
  have "unstopped (verify_checks (verify_check (table_verifier S B d) (\<lambda>u. union_verifier (table_verifier S B d) B (union_cases S u)) B td)
       (fb_tables S ! t))" if "t < length (fb_tables S)" "td_ttl td < 0" for td
    using Suc that vector_freeD [OF Suc.prems that(1)]
    by (intro unstopped_checks unstopped_check_call [where R = R]) simp_all
  then show ?case by (simp add: passes_def union_cases_def [abs_def])
qed (simp add: passes_def)

lemma unstopped_table_vector: "passes tvf \<Longrightarrow> unstopped (verify_table_vector B buf end base offset 1 tvf)"
  unfolding verify_table_vector_def Let_def
  by (subst verify_def) (simp add: unstopped_check unstopped_bind unstopped_vector unstopped_each_offset unstopped_table)

section \<open>Buffers that are accepted\<close>

text \<open>A table whose vector, in field 1, holds a table of the second kind; and that one leads to two more by its field 0.\<close>

definition chain_block :: block where
  "chain_block = \<lparr>blk_bytes = bytes_of [28, 0, 0, 0, 0, 0, 0, 0,
     8, 0, 8, 0, 4, 0, 0, 0,  8, 0, 8, 0, 0, 0, 4, 0,  4, 0, 4, 0,
     12, 0, 0, 0,  4, 0, 0, 0,  1, 0, 0, 0,  4, 0, 0, 0,
     36, 0, 0, 0,  4, 0, 0, 0,
     44, 0, 0, 0,  4, 0, 0, 0,
     36, 0, 0, 0], blk_addr = 4096\<rparr>"

definition chain_schema :: fb_schema where
  "chain_schema = \<lparr>fb_tables = [[Table_vector_field 1 False 1], [Table_field 0 False 1]], fb_unions = []\<rparr>"

definition chain_td :: "int \<Rightarrow> nat \<Rightarrow> u32 \<Rightarrow> u16 \<Rightarrow> u16 \<Rightarrow> table_verifier_descriptor" where
  "chain_td ttl vt table ts vs = \<lparr>td_buf = 0, td_end = 64, td_ttl = ttl, td_vtable = vt, td_table = table, td_tsize = ts, td_vsize = vs\<rparr>"

lemma chain_start: "verify_table chain_block 0 64 0 28 2 f = f (chain_td 1 16 28 8 8)"
  by (code_simp, simp)

lemma chain_step1: "flatcc_verify_table_vector_field chain_block (chain_td 1 16 28 8 8) 1 False f
    = check_result (f (chain_td (- 1) 8 44 8 8)) (Ok error_ok)"
  by (code_simp, simp)

lemma chain_step2: "flatcc_verify_table_field chain_block (chain_td (- 1) 8 44 8 8) 0 False f = f (chain_td (- 2) 8 52 8 8)"
  by (code_simp, simp)

lemma chain_step3: "flatcc_verify_table_field chain_block (chain_td (- 2) 8 52 8 8) 0 False f = f (chain_td (- 3) 24 60 4 4)"
  by (code_simp, simp)

lemma chain_step4: "flatcc_verify_table_field chain_block (chain_td (- 3) 24 60 4 4) 0 False f = Ok error_ok"
  by code_simp

lemmas chain_steps = chain_step1 chain_step2 chain_step3 chain_step4

lemma chain_table0: "table_verifier chain_schema B (Suc d) 0 td =
    check_result (flatcc_verify_table_vector_field B td 1 False (table_verifier chain_schema B d 1)) (Ok error_ok)"
  by (simp add: chain_schema_def verify_check_def)

lemma chain_table1: "table_verifier chain_schema B (Suc d) 1 td =
    check_result (flatcc_verify_table_field B td 0 False (table_verifier chain_schema B d 1)) (Ok error_ok)"
  by (simp add: chain_schema_def verify_check_def)

lemma check_result_ok [simp]: "check_result (Ok error_ok) k = k"
  by (simp add: check_result_def)

lemma chain_accepted: "verify_table chain_block 0 64 0 28 2 (table_verifier chain_schema chain_block 4 0) = Ok error_ok"
proof -
  have four: "(4 :: nat) = Suc (Suc (Suc (Suc 0)))" by simp
  show ?thesis unfolding four by (simp only: chain_start chain_table0 chain_table1 chain_steps check_result_ok)
qed

lemma chain_vector_free: "vector_free chain_schema {1}"
  by (simp add: vector_free_def chain_schema_def)

text \<open>C38: The limit on nesting is missed below a vector (\<open>verify_table\<close> tests the count for zero, and the count steps over
  zero between a vector and its tables): a vector of tables verified with one level left hands its tables on, and in tables
  that lead to others only as fields, union members and nested roots, never through a vector, the limit then stops
  none, however deep they are (\<open>d\<close>). Neither does it stop such a table verified with no level left. Vectors below
  are stopped: they test the count for being positive.\<close>

theorem nesting_limit_missed:
  assumes "vector_free S R" and "t \<in> R" and "ttl \<le> 0"
  shows "verify_table_vector B buf end base offset 1 (table_verifier S B d t) \<noteq> Ok error_max_nesting_level_reached
    \<and> verify_table B buf end base offset ttl (table_verifier S B d t) \<noteq> Ok error_max_nesting_level_reached
    \<and> verify_table_vector B buf end base offset ttl tvf = Ok error_max_nesting_level_reached
    \<and> verify_union_vector B buf end base offset n types ttl uvf = Ok error_max_nesting_level_reached"
  using unstopped_table_vector unstopped_table table_verifier_passes [OF assms(1,2)] assms(3)
  by (auto simp: unstopped_def verify_table_vector_def verify_union_vector_def verify_def)

text \<open>Four tables, one below the other, pass a limit of two.\<close>

theorem nesting_limit_missed_witness:
  "verify_table chain_block 0 64 0 28 2 (table_verifier chain_schema chain_block 4 0) = Ok error_ok
    \<and> verify_table_vector chain_block 0 64 32 4 1 (table_verifier chain_schema chain_block 3 1) \<noteq> Ok error_max_nesting_level_reached
    \<and> verify_table chain_block 0 64 40 4 0 (table_verifier chain_schema chain_block 3 1) \<noteq> Ok error_max_nesting_level_reached"
  using chain_accepted nesting_limit_missed [OF chain_vector_free singletonI order_refl] by blast

section \<open>Unions\<close>

lemma offset_wraps: "(b :: u32) + p < b \<Longrightarrow> unat b + unat p = unat (b + p) + 2 ^ 32"
proof -
  assume "b + p < b"
  then have "\<not> unat b + unat p < 2 ^ 32" using add_small [of b p] by (auto simp: word_less_nat_alt)
  moreover have "unat b < 2 ^ 32" "unat p < 2 ^ 32" using u32_bound [of b] u32_bound [of p] by simp_all
  ultimately show ?thesis by (simp add: unat_word_ariths mod_if) linarith
qed

lemma verify_struct_wrapped:
  assumes "b + p < b" and "unat (b + p) + unat siz \<le> unat end" and "(b + p) AND (ucast align - 1) = 0"
  shows "verify_struct end b p siz align = Ok error_ok"
proof -
  have "unat (b + p + siz) = unat (b + p) + unat siz" using assms(2) u32_bound [of "end"] add_small [of "b + p" siz] by simp
  moreover have "p \<noteq> 0" using assms(1) by auto
  ultimately show ?thesis using assms by (simp add: verify_struct_def verify_def Let_def word_le_nat_alt word_less_nat_alt)
qed

text \<open>C39: The range of a struct in a union is tested in 32 bits (\<open>verify_struct\<close>), where the offset of the struct can wrap. When the
  sum comes out at an aligned place within the buffer, the union is accepted; but the accessors add
  the offset to a pointer, so that they look for the struct four gigabytes behind that place, outside of a block that is not as
  long.\<close>

theorem union_struct_wraps:
  assumes "map_of cases (ud_type ud) = Some (Union_struct siz align)" and "0 < unat siz" and "unat siz < 2 ^ 32"
    and "ud_base ud + ud_offset ud < ud_base ud"
    and "unat (ud_base ud + ud_offset ud) + unat siz \<le> unat (ud_end ud)"
    and "(ud_base ud + ud_offset ud) AND (ucast align - 1) = 0"
    and "length (blk_bytes B) \<le> ud_buf ud + 2 ^ 32"
  shows "union_verifier tvf B cases ud = Ok error_ok
    \<and> ud_buf ud + unat (ud_base ud) + unat (ud_offset ud) = ud_buf ud + unat (ud_base ud + ud_offset ud) + 2 ^ 32
    \<and> visit_union vis B cases (ud_type ud) (ud_buf ud + unat (ud_base ud) + unat (ud_offset ud)) = Fault"
proof (intro conjI)
  have "unat (ucast siz :: u32) = unat siz" using assms(3) by (simp add: unsigned_ucast_eq take_bit_nat_eq_self)
  then show "union_verifier tvf B cases ud = Ok error_ok"
    using verify_struct_wrapped [OF assms(4), of "ucast siz"] assms by (simp add: union_verifier_def flatcc_verify_union_struct_def)
  show w: "ud_buf ud + unat (ud_base ud) + unat (ud_offset ud) = ud_buf ud + unat (ud_base ud + ud_offset ud) + 2 ^ 32"
    using offset_wraps [OF assms(4)] by simp
  show "visit_union vis B cases (ud_type ud) (ud_buf ud + unat (ud_base ud) + unat (ud_offset ud)) = Fault"
    unfolding w using assms(1,2,7) by (simp add: visit_union_def ignore_def read_bytes_def)
qed

definition struct_union_schema :: fb_schema where
  "struct_union_schema = \<lparr>fb_tables = [[Union_field 1 False 0]], fb_unions = [[(1, Union_struct 4 4)]]\<rparr>"

definition struct_union_block :: block where
  "struct_union_block = \<lparr>blk_bytes = bytes_of [16, 0, 0, 0,  0, 0, 0, 0,  8, 0, 12, 0, 4, 0, 8, 0,
     8, 0, 0, 0,  1, 0, 0, 0,  240, 255, 255, 255], blk_addr = 4096\<rparr>"

text \<open>The same in a whole buffer.\<close>

lemma struct_union_block_accepted:
  "flatcc_verify_table_as_root struct_union_block 0 28 None (table_verifier struct_union_schema struct_union_block 28 0) = Ok error_ok
    \<and> visit_root (visit_table struct_union_schema struct_union_block 28 0) struct_union_block 0 = Fault"
  by (rule conjI) code_simp+

theorem union_struct_wraps_witness:
  "let ud = \<lparr>ud_buf = 0, ud_end = 28, ud_ttl = 99, ud_type = 1, ud_base = 24, ud_offset = 0xfffffff0\<rparr> in
     union_verifier (table_verifier struct_union_schema struct_union_block 27) struct_union_block (fb_unions struct_union_schema ! 0) ud = Ok error_ok
     \<and> visit_union (visit_table struct_union_schema struct_union_block 27) struct_union_block (fb_unions struct_union_schema ! 0) 1
         (0 + 24 + 4294967280) = Fault"
  using union_struct_wraps [of "fb_unions struct_union_schema ! 0"
    "\<lparr>ud_buf = 0, ud_end = 28, ud_ttl = 99, ud_type = 1, ud_base = 24, ud_offset = 0xfffffff0\<rparr>" 4 4 struct_union_block
    "table_verifier struct_union_schema struct_union_block 27" "visit_table struct_union_schema struct_union_block 27"]
  by (simp add: struct_union_schema_def struct_union_block_def bytes_of_def Let_def)

text \<open>C40: A vector of unions without its values is accepted (\<open>flatcc_verify_union_vector_field\<close>): in a table whose field of types
  holds a good vector, the field of the values may be absent. The accessors then find a vector of unions as long as its
  types, whose values are null; that of an element with a type is read through the null pointer.\<close>

theorem union_values_missing:
  assumes "td_ok B td" and "small_buf (td_end td)" and "id_ok i" and "i \<noteq> 0"
    and "read_vt_entry B td i = Ok 0" and "read_vt_entry B td (i - 1) = Ok v" and "v \<noteq> 0"
    and "flatcc_verify_vector_field B td (i - 1) False 1 1 (COUNT_MAX 1) = Ok error_ok"
  shows "flatcc_verify_union_vector_field B td i False uvf = Ok error_ok
    \<and> vector_field B i False (td_pos td) = Ok None
    \<and> (\<exists>types n. vector_field B (i - 1) False (td_pos td) = Ok (Some types) \<and> vec_len B (Some types) = Ok n
        \<and> (\<forall>k < n. \<exists>ty. get (types + k) (blk_bytes B) = Ok ty
             \<and> union_vec_at B (Some types) None k = (if ty = 0 then Ok (0, None) else Fault)))"
proof -
  note ip = id_ok_pred [OF assms(3,4)]
  let ?lim = "td_buf td + unat (td_end td)"
  have "leads B td (i - 1) False (bytes_vector B 1 ?lim)"
    using vector_leads [OF assms(1) ip, of 1 False 1] assms(8) by (simp add: gives_def)
  then obtain u n where u: "read_le32 B (td_pos td + unat v) = Ok u" and n: "read_le32 B (td_pos td + unat v + unat u) = Ok n"
    "td_pos td + unat v + unat u + 4 + unat n \<le> ?lim" using assms(6,7) by (auto simp: leads_def bytes_vector_def)
  let ?types = "td_pos td + unat v + unat u + 4"
  have "read_vt B (i - 1) (td_pos td) = Ok v" "read_vt B i (td_pos td) = Ok 0"
    using read_vt_entry_ok [OF assms(1) ip] read_vt_entry_ok [OF assms(1,3)] assms(2,5,6) by auto
  then have t: "vector_field B (i - 1) False (td_pos td) = Ok (Some ?types)" "vector_field B i False (td_pos td) = Ok None"
    using u assms(7) by (simp_all add: vector_field_def offset_field_def Let_def ac_simps)
  have elem: "\<exists>ty. get (?types + k) (blk_bytes B) = Ok ty \<and> union_vec_at B (Some ?types) None k = (if ty = 0 then Ok (0, None) else Fault)"
    if k: "k < unat n" for k
  proof -
    have "?types + k < length (blk_bytes B)" using n(2) k td_inD [OF assms(1), of 0] by simp
    then obtain ty where "get (?types + k) (blk_bytes B) = Ok ty" using get_Ok by blast
    then show ?thesis using k vec_len_Ok [OF n(1)] by (simp add: union_vec_at_def guardR_def)
  qed
  have "flatcc_verify_union_vector_field B td i False uvf = Ok error_ok"
    unfolding flatcc_verify_union_vector_field_def assms(6,8)
    using assms(5,6,7) u n(1) by (simp add: verify_def get_field_ptr_def read_uoffset_def check_field_def get_offset_field_def td_pos_def ac_simps Let_def)
  then show ?thesis using t vec_len_Ok [OF n(1)] elem by blast
qed

text \<open>A table with a vector of one type, and no vector of values.\<close>

definition types_only_block :: block where
  "types_only_block = \<lparr>blk_bytes = bytes_of [16, 0, 0, 0,  0, 0, 0, 0,  6, 0, 8, 0, 4, 0, 0, 0,
     8, 0, 0, 0,  4, 0, 0, 0,  1, 0, 0, 0,  1, 0, 0, 0], blk_addr = 4096\<rparr>"

definition types_only_td :: table_verifier_descriptor where
  "types_only_td = \<lparr>td_buf = 0, td_end = 32, td_ttl = 99, td_vtable = 8, td_table = 16, td_tsize = 8, td_vsize = 6\<rparr>"

lemma types_only_reads:
  "read_le16 types_only_block 8 = Ok 6" "read_le32 types_only_block 16 = Ok 8" "read_vt_entry types_only_block types_only_td 1 = Ok 0"
  "read_vt_entry types_only_block types_only_td 0 = Ok 4"
  "flatcc_verify_vector_field types_only_block types_only_td 0 False 1 1 (COUNT_MAX 1) = Ok error_ok"
  by code_simp+

lemma types_only_td_ok: "td_ok types_only_block types_only_td"
  using types_only_reads(1,2) by (simp add: td_ok_def in_buf_def td_pos_def types_only_td_def types_only_block_def bytes_of_def)

definition union_vector_schema :: fb_schema where
  "union_vector_schema = \<lparr>fb_tables = [[Union_vector_field 1 False 0]], fb_unions = [[(1, Union_string)]]\<rparr>"

text \<open>The whole buffer is accepted, and reading its one element fails.\<close>

lemma types_only_block_accepted:
  "flatcc_verify_table_as_root types_only_block 0 32 None (table_verifier union_vector_schema types_only_block 32 0) = Ok error_ok"
  by code_simp

lemma types_only_block_visit: "visit_check vis cases types_only_block 16 (Union_vector_field 1 False 0) = Fault"
proof -
  have "vector_field types_only_block 0 False 16 = Ok (Some 28)" "vector_field types_only_block 1 False 16 = Ok None"
    "vec_len types_only_block (Some 28) = Ok 1" "union_vec_at types_only_block (Some 28) None 0 = Fault" by code_simp+
  then show ?thesis by (simp add: visit_check_def)
qed

lemma types_only_vector:
  "vector_field types_only_block 0 False 16 = Ok (Some 28)" "vec_len types_only_block (Some 28) = Ok 1"
  "get 28 (blk_bytes types_only_block) = Ok 1"
  by code_simp+

theorem union_values_missing_witness:
  "flatcc_verify_union_vector_field types_only_block types_only_td 1 False (\<lambda>ud. Ok error_not_supported) = Ok error_ok
    \<and> vector_field types_only_block 1 False 16 = Ok None \<and> vector_field types_only_block 0 False 16 = Ok (Some 28)
    \<and> union_vec_at types_only_block (Some 28) None 0 = Fault"
proof -
  have "small_buf (td_end types_only_td)" "id_ok 1" "(1 :: u16) - 1 = 0" and pos: "td_pos types_only_td = 16"
    by (simp_all add: small_buf_def id_ok_def types_only_td_def td_pos_def)
  then show ?thesis
    using union_values_missing [OF types_only_td_ok, of 1 4 "\<lambda>ud. Ok error_not_supported"] types_only_reads types_only_vector
    by (fastforce simp: pos)
qed

end
