(* ===== verification/Fb_Refmap.thy ===== *)
theory Fb_Refmap
  imports Pb_Heap
begin

text \<open>
  The reference map of FlatBuffers (\<^verbatim>\<open>flatcc/src/runtime/refmap.c\<close>), an open addressing hash table from
  source addresses to references of the builder. A small table is part of the map, a larger one is a heap block.
  Assertions are off, as in the driver's build.
\<close>

section \<open>The map\<close>

record refmap_item =
  it_src :: u64
  it_ref :: u32

text \<open>\<open>table\<close>: null, \<open>min_table\<close>, or a heap block, whose contents are in \<open>rm_heap_table\<close>.\<close>

datatype table_ptr = Null_table | Min_table | Heap_table nat

record refmap =
  rm_count :: u64
  rm_buckets :: u64
  rm_table :: table_ptr
  rm_min_table :: "refmap_item list"
  rm_heap_table :: "refmap_item list"

definition flatcc_refmap_not_found :: u32 where "flatcc_refmap_not_found = 0"

definition MIN_BUCKETS :: u64 where "MIN_BUCKETS = 8"

definition zero_items :: "u64 \<Rightarrow> refmap_item list" where
  "zero_items n = replicate (unat n) \<lparr>it_src = 0, it_ref = 0\<rparr>"

definition table_items :: "refmap \<Rightarrow> refmap_item list" where
  "table_items r = (case rm_table r of Null_table \<Rightarrow> [] | Min_table \<Rightarrow> rm_min_table r | Heap_table _ \<Rightarrow> rm_heap_table r)"

definition set_items :: "refmap_item list \<Rightarrow> refmap \<Rightarrow> refmap" where
  "set_items T r = (case rm_table r of Null_table \<Rightarrow> r | Min_table \<Rightarrow> r\<lparr>rm_min_table := T\<rparr>
     | Heap_table _ \<Rightarrow> r\<lparr>rm_heap_table := T\<rparr>)"

text \<open>\<open>(size_t)(0.7f * 256.0f)\<close> is 179.\<close>

definition above_load_factor :: "u64 \<Rightarrow> u64 \<Rightarrow> bool" where
  "above_load_factor cnt buckets \<longleftrightarrow> cnt \<ge> buckets * 179 div 256"

definition probe :: "u64 \<Rightarrow> u64 \<Rightarrow> u64 \<Rightarrow> u64" where
  "probe k i N = (k + i) AND N"

definition refmap_hash :: "u64 \<Rightarrow> u64" where
  "refmap_hash src = (let x = src XOR 0x2f693b52;
     x = x XOR drop_bit 33 x; x = x * 0xff51afd7ed558ccd;
     x = x XOR drop_bit 33 x; x = x * 0xc4ceb9fe1a85ec53 in
     x XOR drop_bit 33 x)"

section \<open>Operations\<close>

definition flatcc_refmap_init :: "refmap \<Rightarrow> refmap" where
  "flatcc_refmap_init r = r\<lparr>rm_count := 0, rm_buckets := 0, rm_table := Null_table\<rparr>"

definition free_table :: "table_ptr \<Rightarrow> pb_heap \<Rightarrow> pb_heap res" where
  "free_table p h = (case p of Heap_table n \<Rightarrow> do_free (Some n) h | _ \<Rightarrow> Ok h)"

definition flatcc_refmap_clear :: "refmap \<times> pb_heap \<Rightarrow> (refmap \<times> pb_heap) res" where
  "flatcc_refmap_clear s = (let (r, h) = s in
     bindR (free_table (rm_table r) h) (\<lambda>h. Ok (flatcc_refmap_init r, h)))"

definition flatcc_refmap_reset :: "refmap \<Rightarrow> refmap res" where
  "flatcc_refmap_reset r = (let T = table_items r; n = unat (rm_buckets r) in
     bindR (if rm_count r \<noteq> 0
       then bindR (guardR (n \<le> length T)) (\<lambda>_. Ok (set_items (zero_items (rm_buckets r) @ drop n T) r)) else Ok r) (\<lambda>r.
     Ok (r\<lparr>rm_count := 0\<rparr>)))"

text \<open>\<open>while (T[j].src) ...\<close>: to the slot of \<open>src\<close> or an empty one.\<close>

partial_function (option) probe_loop :: "refmap_item list \<Rightarrow> u64 \<Rightarrow> u64 \<Rightarrow> u64 \<Rightarrow> u64 \<Rightarrow> nat res option" where
  "probe_loop T N k src i = (let j = unat (probe k i N) in
     if \<not> j < length T then Some Fault
     else if it_src (T ! j) = 0 \<or> it_src (T ! j) = src then Some (Ok j)
     else probe_loop T N k src (i + 1))"

declare probe_loop.simps [code]

definition loops :: "'a res option \<Rightarrow> 'a res" where
  "loops x = (case x of None \<Rightarrow> Hang | Some r \<Rightarrow> r)"

definition flatcc_refmap_find :: "refmap \<Rightarrow> u64 \<Rightarrow> u32 res" where
  "flatcc_refmap_find r src =
     (if rm_count r = 0 then Ok flatcc_refmap_not_found
      else let T = table_items r in
        bindR (loops (probe_loop T (rm_buckets r - 1) (refmap_hash src) src 0)) (\<lambda>j.
        Ok (if it_src (T ! j) = 0 then flatcc_refmap_not_found else it_ref (T ! j))))"

text \<open>\<open>while (above_load_factor(count, buckets)) buckets *= 2;\<close>\<close>

partial_function (option) grow_buckets :: "u64 \<Rightarrow> u64 \<Rightarrow> u64 option" where
  "grow_buckets cnt buckets = (if above_load_factor cnt buckets then grow_buckets cnt (buckets * 2) else Some buckets)"

declare grow_buckets.simps [code]

text \<open>\<open>calloc(buckets, sizeof(item))\<close>\<close>

definition calloc_items :: "u64 \<Rightarrow> pb_heap \<Rightarrow> nat option \<times> pb_heap" where
  "calloc_items n h = (if unat n * 16 < 2 ^ 64 then do_alloc (n * 16) h else (None, h))"

fun insert_all :: "(u64 \<Rightarrow> u32 \<Rightarrow> refmap \<times> pb_heap \<Rightarrow> (u32 \<times> refmap \<times> pb_heap) res) \<Rightarrow> refmap_item list
    \<Rightarrow> refmap \<times> pb_heap \<Rightarrow> (refmap \<times> pb_heap) res" where
  "insert_all ins [] s = Ok s"
| "insert_all ins (it # its) s =
     bindR (if it_src it \<noteq> 0 then bindR (ins (it_src it) (it_ref it) s) (\<lambda>(_, s). Ok s) else Ok s) (insert_all ins its)"

text \<open>\<open>ins\<close> is \<open>flatcc_refmap_insert\<close>. The result is false for -1.\<close>

definition resize_with :: "(u64 \<Rightarrow> u32 \<Rightarrow> refmap \<times> pb_heap \<Rightarrow> (u32 \<times> refmap \<times> pb_heap) res) \<Rightarrow> u64
    \<Rightarrow> refmap \<times> pb_heap \<Rightarrow> (bool \<times> refmap \<times> pb_heap) res" where
  "resize_with ins cnt s = (let (r0, h) = s; cnt = (if cnt < rm_count r0 then rm_count r0 else cnt) in
     bindR (loops (map_option Ok (grow_buckets cnt MIN_BUCKETS))) (\<lambda>buckets.
     if rm_buckets r0 = buckets then Ok (True, r0, h)
     else let T_old = table_items r0; p_old = rm_table r0 in
       bindR (if buckets = MIN_BUCKETS
         then Ok (Some (r0\<lparr>rm_min_table := zero_items MIN_BUCKETS, rm_table := Min_table\<rparr>), h)
         else case calloc_items buckets h of
           (None, h) \<Rightarrow> Ok (None, h)
         | (Some n, h) \<Rightarrow> Ok (Some (r0\<lparr>rm_table := Heap_table n, rm_heap_table := zero_items buckets\<rparr>), h)) (\<lambda>(new, h).
       case new of None \<Rightarrow> Ok (False, r0, h)
       | Some r \<Rightarrow>
         bindR (guardR (unat (rm_buckets r0) \<le> length T_old)) (\<lambda>_.
         bindR (insert_all ins (take (unat (rm_buckets r0)) T_old) (r\<lparr>rm_buckets := buckets, rm_count := 0\<rparr>, h)) (\<lambda>(r, h).
         bindR (free_table p_old h) (\<lambda>h. Ok (True, r, h)))))))"

text \<open>\<open>insert\<close> and \<open>resize\<close> call each other; \<open>d\<close> is the number of calls the stack has room for.\<close>

fun flatcc_refmap_insert :: "nat \<Rightarrow> u64 \<Rightarrow> u32 \<Rightarrow> refmap \<times> pb_heap \<Rightarrow> (u32 \<times> refmap \<times> pb_heap) res" where
  "flatcc_refmap_insert 0 src ref s = Fault"
| "flatcc_refmap_insert (Suc d) src ref s = (let (r, h) = s in
     if src = 0 then Ok (ref, s)
     else bindR (if above_load_factor (rm_count r) (rm_buckets r)
         then resize_with (flatcc_refmap_insert d) (rm_count r * 2) s else Ok (True, s)) (\<lambda>(ok, r, h).
       if \<not> ok then Ok (flatcc_refmap_not_found, r, h)
       else let T = table_items r in
         bindR (loops (probe_loop T (rm_buckets r - 1) (refmap_hash src) src 0)) (\<lambda>j.
         let r = (if it_src (T ! j) = 0 then r\<lparr>rm_count := rm_count r + 1\<rparr> else r) in
         Ok (ref, set_items (T[j := \<lparr>it_src = src, it_ref = ref\<rparr>]) r, h))))"

definition flatcc_refmap_resize :: "nat \<Rightarrow> u64 \<Rightarrow> refmap \<times> pb_heap \<Rightarrow> (bool \<times> refmap \<times> pb_heap) res" where
  "flatcc_refmap_resize d cnt s = resize_with (flatcc_refmap_insert d) cnt s"

section \<open>The map of a builder\<close>

text \<open>A builder may have no map.\<close>

definition flatcc_builder_refmap_find :: "refmap option \<times> pb_heap \<Rightarrow> u64 \<Rightarrow> u32 res" where
  "flatcc_builder_refmap_find s src = (case fst s of None \<Rightarrow> Ok flatcc_refmap_not_found | Some r \<Rightarrow> flatcc_refmap_find r src)"

definition flatcc_builder_refmap_insert :: "nat \<Rightarrow> u64 \<Rightarrow> u32 \<Rightarrow> refmap option \<times> pb_heap
    \<Rightarrow> (u32 \<times> refmap option \<times> pb_heap) res" where
  "flatcc_builder_refmap_insert d src ref s = (case s of (None, h) \<Rightarrow> Ok (ref, None, h)
     | (Some r, h) \<Rightarrow> bindR (flatcc_refmap_insert d src ref (r, h)) (\<lambda>(v, r, h). Ok (v, Some r, h)))"

text \<open>\<open>__flatbuffers_memoize(B, src, op)\<close>: clone \<open>src\<close> by \<open>op\<close> unless it has been cloned before.\<close>

definition memoize_with :: "('m \<Rightarrow> u64 \<Rightarrow> u32 res) \<Rightarrow> (u64 \<Rightarrow> u32 \<Rightarrow> 'm \<Rightarrow> (u32 \<times> 'm) res) \<Rightarrow> u64
    \<Rightarrow> ('m \<times> 'b \<Rightarrow> (u32 \<times> 'm \<times> 'b) res) \<Rightarrow> 'm \<times> 'b \<Rightarrow> (u32 \<times> 'm \<times> 'b) res" where
  "memoize_with fnd ins src op s = bindR (fnd (fst s) src) (\<lambda>ref.
     if ref \<noteq> 0 then Ok (ref, s)
     else bindR (op s) (\<lambda>(ref, m, b). bindR (ins src ref m) (\<lambda>(ref, m). Ok (ref, m, b))))"

definition memoize :: "nat \<Rightarrow> u64 \<Rightarrow> ((refmap option \<times> pb_heap) \<times> 'b \<Rightarrow> (u32 \<times> (refmap option \<times> pb_heap) \<times> 'b) res)
    \<Rightarrow> (refmap option \<times> pb_heap) \<times> 'b \<Rightarrow> (u32 \<times> (refmap option \<times> pb_heap) \<times> 'b) res" where
  "memoize d = memoize_with flatcc_builder_refmap_find (flatcc_builder_refmap_insert d)"

end
