(* ===== verification/Fb_Refmap_Table.thy ===== *)
theory Fb_Refmap_Table imports Fb_Refmap begin

text \<open>
  The hash table of the reference map: probing finds the slot of a key, or an empty slot where it can be put, and a table
  is the partial map of the keys in it.
\<close>

section \<open>Probing\<close>

definition used_item :: "refmap_item \<Rightarrow> bool" where
  "used_item it \<longleftrightarrow> it_src it \<noteq> 0"

text \<open>The \<open>i\<close>-th slot on the path of a key.\<close>

definition pos :: "refmap_item list \<Rightarrow> u64 \<Rightarrow> nat \<Rightarrow> nat" where
  "pos T s i = (unat (refmap_hash s) + i) mod length T"

definition pow2_table :: "refmap_item list \<Rightarrow> bool" where
  "pow2_table T \<longleftrightarrow> (\<exists>b \<le> 60. length T = 2 ^ b)"

lemma pos_less: "pow2_table T \<Longrightarrow> pos T s i < length T"
  by (auto simp: pos_def pow2_table_def)

lemma unat_probe:
  assumes "b \<le> 60"
  shows "unat (probe k i (of_nat (2 ^ b) - 1)) = (unat k + unat i) mod 2 ^ b"
proof -
  have "(of_nat (2 ^ b) :: u64) - 1 = mask b" by (simp add: mask_eq_exp_minus_1)
  then have "unat (probe k i (of_nat (2 ^ b) - 1)) = take_bit b (unat (k + i))"
    by (simp add: probe_def unsigned_take_bit_eq flip: take_bit_eq_mask)
  also have "\<dots> = (unat k + unat i) mod 2 ^ 64 mod 2 ^ b" by (simp add: take_bit_eq_mod unat_word_ariths)
  also have "\<dots> = (unat k + unat i) mod 2 ^ b" using assms by (intro mod_mod_cancel le_imp_power_dvd) simp
  finally show ?thesis .
qed

lemma probe_pos:
  assumes "pow2_table T" and "i < 2 ^ 64"
  shows "unat (probe (refmap_hash s) (of_nat i) (of_nat (length T) - 1)) = pos T s i"
proof -
  obtain b where b: "b \<le> 60" "length T = 2 ^ b" using assms(1) by (auto simp: pow2_table_def)
  have "unat (of_nat i :: u64) = i" using assms(2) by (simp add: unsigned_of_nat take_bit_nat_eq_self)
  then show ?thesis using unat_probe [OF b(1), of "refmap_hash s" "of_nat i"] b(2) by (simp add: pos_def)
qed

text \<open>Every slot is on every path.\<close>

lemma path_covers:
  assumes "j < length T"
  shows "\<exists>i < length T. pos T s i = j"
proof -
  let ?n = "length T" and ?h = "unat (refmap_hash s)"
  let ?i = "(j + (?n - ?h mod ?n)) mod ?n"
  have "pos T s ?i = (?h mod ?n + (j + (?n - ?h mod ?n))) mod ?n" by (simp add: pos_def mod_add_eq mod_add_right_eq mod_add_left_eq)
  also have "?h mod ?n + (j + (?n - ?h mod ?n)) = j + ?n" using mod_less_divisor [of ?n ?h] assms by linarith
  finally have "pos T s ?i = j" using assms by simp
  moreover have "?i < ?n" by (rule mod_less_divisor) (use assms in linarith)
  ultimately show ?thesis by blast
qed

text \<open>The loop stops at the first slot of the path that is empty or holds the key.\<close>

definition first_stop :: "refmap_item list \<Rightarrow> u64 \<Rightarrow> nat \<Rightarrow> bool" where
  "first_stop T s i \<longleftrightarrow> it_src (T ! pos T s i) \<in> {0, s} \<and> (\<forall>i' < i. it_src (T ! pos T s i') \<notin> {0, s})"

lemma probe_loop_from:
  assumes T: "pow2_table T" and i: "first_stop T s i" "i < 2 ^ 64" and m: "m \<le> i"
  shows "probe_loop T (of_nat (length T) - 1) (refmap_hash s) s (of_nat m) = Some (Ok (pos T s i))"
  using m
proof (induction "i - m" arbitrary: m)
  case 0
  then have "m = i" by simp
  then show ?case using pos_less [OF T, of s i] i probe_pos [OF T i(2)]
    by (subst probe_loop.simps) (auto simp: first_stop_def Let_def)
next
  case (Suc k)
  then have m: "m < i" by simp
  then have "probe_loop T (of_nat (length T) - 1) (refmap_hash s) s (of_nat (Suc m)) = Some (Ok (pos T s i))"
    using Suc by (intro Suc.hyps) simp_all
  moreover have "it_src (T ! pos T s m) \<notin> {0, s}" using i(1) m by (simp add: first_stop_def)
  ultimately show ?case using pos_less [OF T, of s m] probe_pos [OF T, of m s] m i(2)
    by (subst probe_loop.simps) (auto simp: Let_def add.commute)
qed

lemma stop_exists:
  assumes "j < length T" and "it_src (T ! j) \<in> {0, s}"
  obtains i where "first_stop T s i" "i < length T"
proof -
  obtain i where i: "i < length T" "pos T s i = j" using path_covers [OF assms(1)] by blast
  let ?P = "\<lambda>i. it_src (T ! pos T s i) \<in> {0, s}"
  have "?P i" using i assms by simp
  then have "first_stop T s (LEAST i. ?P i)" unfolding first_stop_def using LeastI [of ?P i] not_less_Least [of _ ?P] by blast
  moreover have "(LEAST i. ?P i) \<le> i" using \<open>?P i\<close> by (rule Least_le)
  ultimately show ?thesis using that [of "LEAST i. ?P i"] i by simp
qed

lemma pow2_less:
  assumes "pow2_table T"
  shows "length T < 2 ^ 64"
proof -
  obtain b where b: "b \<le> 60" "length T = 2 ^ b" using assms by (auto simp: pow2_table_def)
  have "(2 :: nat) ^ b \<le> 2 ^ 60" by (rule power_increasing) (use b in simp_all)
  then show ?thesis using b by simp
qed

lemma probe_finds:
  assumes T: "pow2_table T" and e: "\<exists>j < length T. \<not> used_item (T ! j)"
  obtains i where "first_stop T s i" "pos T s i < length T"
    "probe_loop T (of_nat (length T) - 1) (refmap_hash s) s 0 = Some (Ok (pos T s i))"
proof -
  obtain i where "first_stop T s i" "i < length T" using e stop_exists [of _ T s] by (auto simp: used_item_def)
  then show ?thesis using that [of i] probe_loop_from [OF T, of s i 0] pos_less [OF T] pow2_less [OF T] by simp
qed

section \<open>Tables as maps\<close>

definition abs_map :: "refmap_item list \<Rightarrow> u64 \<rightharpoonup> u32" where
  "abs_map T s = (if s = 0 then None else map_option it_ref (find (\<lambda>it. it_src it = s) T))"

text \<open>Every key is found on its path.\<close>

definition table_ok :: "refmap_item list \<Rightarrow> bool" where
  "table_ok T \<longleftrightarrow> (\<forall>j < length T. used_item (T ! j) \<longrightarrow> (\<exists>i. first_stop T (it_src (T ! j)) i \<and> pos T (it_src (T ! j)) i = j))"

lemma table_okD:
  assumes "table_ok T" and "j < length T" and "used_item (T ! j)"
  obtains i where "first_stop T (it_src (T ! j)) i" "pos T (it_src (T ! j)) i = j"
  using assms by (auto simp: table_ok_def)

lemma first_stop_unique: "first_stop T s i \<Longrightarrow> first_stop T s i' \<Longrightarrow> i = i'"
  unfolding first_stop_def by (metis linorder_neqE_nat)

lemma table_keys:
  assumes "table_ok T" and "j < length T" "j' < length T" and "used_item (T ! j)" and "it_src (T ! j) = it_src (T ! j')"
  shows "j = j'"
  using assms first_stop_unique unfolding table_ok_def used_item_def by metis

lemma abs_map_at:
  assumes "table_ok T" and "j < length T" and "it_src (T ! j) = s" and "s \<noteq> 0"
  shows "abs_map T s = Some (it_ref (T ! j))"
proof -
  have "\<forall>k < j. it_src (T ! k) \<noteq> s" using assms table_keys [OF assms(1)] by (metis less_trans nat_neq_iff used_item_def)
  then have "find (\<lambda>it. it_src it = s) T = Some (T ! j)" using assms by (auto simp: find_Some_iff)
  then show ?thesis using assms(4) by (simp add: abs_map_def)
qed

lemma abs_map_none: "abs_map T s = None \<longleftrightarrow> s = 0 \<or> (\<forall>j < length T. it_src (T ! j) \<noteq> s)"
  by (auto simp: abs_map_def find_None_iff in_set_conv_nth)

lemma abs_map_stop:
  assumes T: "table_ok T" and i: "first_stop T s i" "pos T s i < length T" and s: "s \<noteq> 0"
  shows "abs_map T s = (if it_src (T ! pos T s i) = 0 then None else Some (it_ref (T ! pos T s i)))"
proof (cases "it_src (T ! pos T s i) = 0")
  case True
  have "it_src (T ! j) \<noteq> s" if jl: "j < length T" for j
  proof
    assume "it_src (T ! j) = s"
    then obtain i' where "first_stop T s i'" "pos T s i' = j" using table_okD [OF T jl] s by (auto simp: used_item_def)
    then show False using first_stop_unique [OF i(1)] True \<open>it_src (T ! j) = s\<close> s by metis
  qed
  then show ?thesis using True by (simp add: abs_map_none)
next
  case False
  then show ?thesis using abs_map_at [OF T i(2) _ s] i(1) by (auto simp: first_stop_def)
qed

text \<open>Writing a key where its path stops.\<close>

lemma pos_update [simp]: "pos (T[j := x]) s i = pos T s i"
  by (simp add: pos_def)

lemma table_ok_put:
  assumes T: "table_ok T" and i: "first_stop T s i" and j: "j = pos T s i" "j < length T" and s: "s \<noteq> 0"
  shows "table_ok (T[j := \<lparr>it_src = s, it_ref = r\<rparr>])" (is "table_ok ?T")
  unfolding table_ok_def
proof (intro allI impI)
  fix j' assume j': "j' < length ?T" "used_item (?T ! j')"
  show "\<exists>i. first_stop ?T (it_src (?T ! j')) i \<and> pos ?T (it_src (?T ! j')) i = j'"
  proof (cases "j' = j")
    case True
    have "first_stop ?T s i" using i j unfolding first_stop_def by (auto simp: nth_list_update)
    then show ?thesis using True j by auto
  next
    case False
    let ?s = "it_src (T ! j')"
    have eq: "?T ! j' = T ! j'" using False by simp
    then obtain i' where i': "first_stop T ?s i'" "pos T ?s i' = j'" using T j' by (auto simp: table_ok_def)
    have "?s \<noteq> s" using i' i j False first_stop_unique by metis
    then have "first_stop ?T ?s i'" using i' j s False unfolding first_stop_def by (auto simp: nth_list_update)
    then show ?thesis using i' eq by auto
  qed
qed

lemma abs_map_put:
  assumes T: "table_ok T" and i: "first_stop T s i" and j: "j = pos T s i" "j < length T" and s: "s \<noteq> 0"
  shows "abs_map (T[j := \<lparr>it_src = s, it_ref = r\<rparr>]) = (abs_map T)(s \<mapsto> r)" (is "abs_map ?T = _")
proof
  fix k
  note ok = table_ok_put [OF T i j s, of r]
  show "abs_map ?T k = ((abs_map T)(s \<mapsto> r)) k"
  proof (cases "k = s \<or> k = 0")
    case True
    then show ?thesis using abs_map_at [OF ok, of j s] j s by (auto simp: abs_map_def)
  next
    case False
    show ?thesis
    proof (cases "abs_map T k")
      case None
      then have "it_src (?T ! j') \<noteq> k" if "j' < length T" for j' using False that by (cases "j' = j") (auto simp: abs_map_none)
      then have "abs_map ?T k = None" by (simp add: abs_map_none)
      then show ?thesis using False None by simp
    next
      case (Some v)
      then obtain j' where j': "j' < length T" "it_src (T ! j') = k" using abs_map_none [of T k] by auto
      moreover have "j' \<noteq> j" using j' False i j(1) by (auto simp: first_stop_def)
      ultimately show ?thesis using False abs_map_at [OF T j'] abs_map_at [OF ok, of j' k] by auto
    qed
  qed
qed

end
