(* ===== verification/Fb_Refmap_Ops.thy ===== *)
theory Fb_Refmap_Ops imports Fb_Refmap_Table begin

section \<open>Counting\<close>

definition used :: "refmap_item list \<Rightarrow> nat" where
  "used T = length (filter used_item T)"

lemma used_card: "used T = card {j. j < length T \<and> used_item (T ! j)}"
  by (simp add: used_def length_filter_conv_card)

lemma used_put:
  assumes "j < length T" and "used_item x"
  shows "used (T[j := x]) = (if used_item (T ! j) then used T else Suc (used T))"
proof -
  let ?A = "{k. k < length T \<and> used_item (T ! k)}"
  have "{k. k < length (T[j := x]) \<and> used_item (T[j := x] ! k)} = insert j ?A"
    using assms by (auto simp: nth_list_update)
  then show ?thesis using assms by (auto simp: used_card insert_absorb)
qed

lemma free_slot: "used T < length T \<Longrightarrow> \<exists>j < length T. \<not> used_item (T ! j)"
  using length_filter_less [of _ T used_item] unfolding used_def
  by (metis filter_True in_set_conv_nth less_irrefl)

lemma zero_items [simp]: "length (zero_items n) = unat n" "j < unat n \<Longrightarrow> zero_items n ! j = \<lparr>it_src = 0, it_ref = 0\<rparr>"
  by (simp_all add: zero_items_def)

lemma zero_items_ok [simp]: "table_ok (zero_items n)" "used (zero_items n) = 0" "abs_map (zero_items n) = Map.empty"
  by (auto simp: table_ok_def used_def used_item_def zero_items_def abs_map_def filter_empty_conv find_None_iff fun_eq_iff)

section \<open>Inserting a list of items\<close>

lemma abs_map_Nil [simp]: "abs_map [] = Map.empty"
  by (simp add: abs_map_def fun_eq_iff)

lemma abs_map_single: "abs_map [it] = (if it_src it = 0 then Map.empty else [it_src it \<mapsto> it_ref it])"
  by (auto simp: abs_map_def fun_eq_iff)

lemma abs_map_append: "abs_map (A @ B) = abs_map B ++ abs_map A"
proof
  fix s show "abs_map (A @ B) s = (abs_map B ++ abs_map A) s"
    by (induction A) (auto simp: abs_map_def map_add_def split: option.splits)
qed

lemma abs_map_rev:
  assumes "table_ok T"
  shows "abs_map (rev T) = abs_map T"
proof
  fix s
  show "abs_map (rev T) s = abs_map T s"
  proof (cases "abs_map T s")
    case None
    then have "s = 0 \<or> (\<forall>it \<in> set T. it_src it \<noteq> s)" by (auto simp: abs_map_none in_set_conv_nth)
    then show ?thesis using None by (auto simp: abs_map_def find_None_iff)
  next
    case (Some v)
    then have s: "s \<noteq> 0" by (auto simp: abs_map_def)
    obtain it where it: "it \<in> set T" "it_src it = s" using Some abs_map_none [of T s] by (auto simp: in_set_conv_nth)
    have ref: "it_ref x = v" if x: "x \<in> set T" "it_src x = s" for x
    proof -
      obtain j where "j < length T" "T ! j = x" using x by (auto simp: in_set_conv_nth)
      then show ?thesis using abs_map_at [OF assms, of j s] x s Some by simp
    qed
    obtain x where x: "find (\<lambda>it. it_src it = s) (rev T) = Some x"
      using it by (cases "find (\<lambda>it. it_src it = s) (rev T)") (auto simp: find_None_iff)
    then have "x \<in> set (rev T) \<and> it_src x = s" by (metis (mono_tags, lifting) find_Some_iff nth_mem)
    then have "x \<in> set T" "it_src x = s" by simp_all
    then have "abs_map (rev T) s = Some v" using ref [of x] x s by (simp add: abs_map_def)
    then show ?thesis using Some by simp
  qed
qed

section \<open>The invariant of the map\<close>

definition load_limit :: "u64 \<Rightarrow> nat" where
  "load_limit buckets = unat buckets * 179 div 256"

definition refmap_ok :: "refmap \<Rightarrow> pb_heap \<Rightarrow> bool" where
  "refmap_ok r h \<longleftrightarrow> heap_ok h \<and> length (rm_min_table r) = 8
     \<and> (if rm_table r = Null_table then rm_buckets r = 0 \<and> rm_count r = 0
        else (\<exists>b. 3 \<le> b \<and> b \<le> 52 \<and> unat (rm_buckets r) = 2 ^ b) \<and> length (table_items r) = unat (rm_buckets r)
          \<and> (rm_table r = Min_table \<longleftrightarrow> rm_buckets r = 8) \<and> (\<forall>n. rm_table r = Heap_table n \<longrightarrow> n \<in> live h)
          \<and> table_ok (table_items r) \<and> unat (rm_count r) = used (table_items r) \<and> unat (rm_count r) \<le> load_limit (rm_buckets r))"

definition owned :: "refmap \<Rightarrow> nat set" where
  "owned r = (case rm_table r of Heap_table n \<Rightarrow> {n} | _ \<Rightarrow> {})"

definition contents :: "refmap \<Rightarrow> u64 \<rightharpoonup> u32" where
  "contents r = abs_map (table_items r)"

lemma above_load_factor_iff:
  assumes "unat buckets \<le> 2 ^ 56"
  shows "above_load_factor cnt buckets \<longleftrightarrow> load_limit buckets \<le> unat cnt"
proof -
  have "unat (buckets * 179) = unat buckets * 179" using assms by (simp add: unat_word_ariths)
  then show ?thesis by (simp add: above_load_factor_def word_le_nat_alt unat_div load_limit_def)
qed

lemma set_items_simps [simp]:
  "rm_table r \<noteq> Null_table \<Longrightarrow> table_items (set_items T r) = T"
  "rm_table (set_items T r) = rm_table r" "rm_buckets (set_items T r) = rm_buckets r" "rm_count (set_items T r) = rm_count r"
  "table_items (r\<lparr>rm_count := c\<rparr>) = table_items r" "table_items (r\<lparr>rm_buckets := b\<rparr>) = table_items r"
  by (auto simp: table_items_def set_items_def split: table_ptr.splits)

lemma set_items_min: "length (rm_min_table (set_items T r)) = (if rm_table r = Min_table then length T else length (rm_min_table r))"
  by (simp add: set_items_def split: table_ptr.splits)

lemma refmap_okD:
  assumes "refmap_ok r h" and "rm_table r \<noteq> Null_table"
  obtains b where "3 \<le> b" "b \<le> 52" "unat (rm_buckets r) = 2 ^ b" "length (table_items r) = 2 ^ b" "pow2_table (table_items r)"
    "rm_buckets r = of_nat (length (table_items r))" "used (table_items r) < length (table_items r)"
proof -
  obtain b where b: "3 \<le> b" "b \<le> 52" "unat (rm_buckets r) = 2 ^ b" and l: "length (table_items r) = unat (rm_buckets r)"
    and u: "used (table_items r) \<le> load_limit (rm_buckets r)" using assms by (auto simp: refmap_ok_def)
  have "load_limit (rm_buckets r) < unat (rm_buckets r)" using b(3) by (simp add: load_limit_def div_less_iff_less_mult)
  then have u': "used (table_items r) < length (table_items r)" using l u by simp
  have lb: "length (table_items r) = 2 ^ b" using b l by simp
  have "pow2_table (table_items r)" unfolding pow2_table_def using lb b(2) by (intro exI [of _ b]) simp
  moreover have "rm_buckets r = of_nat (length (table_items r))" unfolding l by simp
  ultimately show ?thesis using that b lb u' by blast
qed

lemma null_contents: "refmap_ok r h \<Longrightarrow> rm_count r = 0 \<Longrightarrow> contents r = Map.empty"
proof (cases "rm_table r = Null_table")
  case False
  assume "refmap_ok r h" "rm_count r = 0"
  then have "filter used_item (table_items r) = []" using False by (auto simp: refmap_ok_def used_def)
  then have "\<forall>it \<in> set (table_items r). it_src it = 0" by (simp add: filter_empty_conv used_item_def)
  then show ?thesis by (auto simp: contents_def abs_map_def find_None_iff fun_eq_iff)
qed (simp add: contents_def table_items_def)

lemma find_ok:
  assumes r: "refmap_ok r h"
  shows "flatcc_refmap_find r s = Ok (case contents r s of None \<Rightarrow> flatcc_refmap_not_found | Some v \<Rightarrow> v)"
proof (cases "rm_count r = 0")
  case True
  then show ?thesis using null_contents [OF r True] by (simp add: flatcc_refmap_find_def)
next
  case False
  let ?T = "table_items r"
  have nn: "rm_table r \<noteq> Null_table" using False r by (auto simp: refmap_ok_def)
  obtain p2: "pow2_table ?T" and b: "rm_buckets r = of_nat (length ?T)" and u: "used ?T < length ?T" using refmap_okD [OF r nn] by blast
  have ok: "table_ok ?T" using r nn by (simp add: refmap_ok_def)
  obtain i where i: "first_stop ?T s i" "pos ?T s i < length ?T"
    "probe_loop ?T (of_nat (length ?T) - 1) (refmap_hash s) s 0 = Some (Ok (pos ?T s i))"
    using probe_finds [OF p2 free_slot [OF u]] by blast
  have "contents r s = (if it_src (?T ! pos ?T s i) = 0 then None else Some (it_ref (?T ! pos ?T s i)))"
  proof (cases "s = 0")
    case True
    then show ?thesis using i(1) by (simp add: contents_def abs_map_def first_stop_def)
  qed (use abs_map_stop [OF ok i(1,2)] in \<open>simp add: contents_def\<close>)
  then show ?thesis using i(3) b False by (simp add: flatcc_refmap_find_def loops_def Let_def)
qed

text \<open>Inserting when there is room.\<close>

lemma insert_room:
  assumes r: "refmap_ok r h" and s: "s \<noteq> 0" and room: "unat (rm_count r) < load_limit (rm_buckets r)"
  obtains r' where "flatcc_refmap_insert (Suc d) s v (r, h) = Ok (v, r', h)" "refmap_ok r' h"
    "contents r' = (contents r)(s \<mapsto> v)" "rm_table r' = rm_table r" "rm_buckets r' = rm_buckets r"
    "unat (rm_count r') \<le> unat (rm_count r) + 1"
proof -
  let ?T = "table_items r"
  have nn: "rm_table r \<noteq> Null_table" using room r by (auto simp: refmap_ok_def load_limit_def)
  obtain b where b: "b \<le> 52" "unat (rm_buckets r) = 2 ^ b" and p2: "pow2_table ?T" and bk: "rm_buckets r = of_nat (length ?T)"
    and u: "used ?T < length ?T" using refmap_okD [OF r nn] by blast
  have b56: "unat (rm_buckets r) \<le> 2 ^ 56" using b power_increasing [of b 52 "2 :: nat"] by simp
  have na: "\<not> above_load_factor (rm_count r) (rm_buckets r)" using room above_load_factor_iff [OF b56] by simp
  have ok: "table_ok ?T" and cnt: "unat (rm_count r) = used ?T" using r nn by (simp_all add: refmap_ok_def)
  obtain i where i: "first_stop ?T s i" "pos ?T s i < length ?T"
    "probe_loop ?T (of_nat (length ?T) - 1) (refmap_hash s) s 0 = Some (Ok (pos ?T s i))"
    using probe_finds [OF p2 free_slot [OF u]] by blast
  let ?j = "pos ?T s i"
  let ?T' = "?T[?j := \<lparr>it_src = s, it_ref = v\<rparr>]"
  let ?c = "if it_src (?T ! ?j) = 0 then rm_count r + 1 else rm_count r"
  let ?r = "set_items ?T' (r\<lparr>rm_count := ?c\<rparr>)"
  have "unat (rm_count r) < 2 ^ 63" using room b56 by (simp add: load_limit_def)
  then have c: "unat ?c = (if it_src (?T ! ?j) = 0 then unat (rm_count r) + 1 else unat (rm_count r))" by (simp add: unat_word_ariths)
  have "used ?T' = unat ?c" using used_put [of ?j ?T "\<lparr>it_src = s, it_ref = v\<rparr>"] i(2) s cnt c by (auto simp: used_item_def)
  moreover have "unat ?c \<le> load_limit (rm_buckets r)" using c room by simp
  moreover have "length (rm_min_table ?r) = 8" using r nn by (auto simp: refmap_ok_def set_items_min)
  moreover have "table_ok ?T'" by (rule table_ok_put [OF ok i(1) refl i(2) s])
  moreover have "rm_table ?r = rm_table r" "rm_buckets ?r = rm_buckets r" "rm_count ?r = ?c" "table_items ?r = ?T'" using nn by simp_all
  ultimately have "refmap_ok ?r h" using r nn unfolding refmap_ok_def by simp
  moreover have "contents ?r = (contents r)(s \<mapsto> v)" using abs_map_put [OF ok i(1) refl i(2) s] nn by (simp add: contents_def)
  moreover have "flatcc_refmap_insert (Suc d) s v (r, h) = Ok (v, ?r, h)"
    using s na i(3) bk by (simp add: loops_def Let_def)
  ultimately show ?thesis using that [of ?r] c by (simp split: if_splits)
qed

section \<open>Resizing\<close>

declare flatcc_refmap_insert.simps(2) [simp del]

lemma insert_all_room:
  assumes "refmap_ok r h" and "unat (rm_count r) + used its \<le> load_limit (rm_buckets r)"
  shows "\<exists>r'. insert_all (flatcc_refmap_insert (Suc d)) its (r, h) = Ok (r', h) \<and> refmap_ok r' h
    \<and> contents r' = contents r ++ abs_map (rev its) \<and> rm_table r' = rm_table r \<and> rm_buckets r' = rm_buckets r
    \<and> unat (rm_count r') \<le> unat (rm_count r) + used its"
  using assms
proof (induction its arbitrary: r)
  case (Cons it its)
  show ?case
  proof (cases "it_src it = 0")
    case True
    then have "used (it # its) = used its" by (simp add: used_def used_item_def)
    then show ?thesis using Cons.IH [OF Cons.prems(1)] Cons.prems(2) True by (simp add: abs_map_append abs_map_single)
  next
    case False
    then have u: "used (it # its) = Suc (used its)" by (simp add: used_def used_item_def)
    obtain r1 where r1: "flatcc_refmap_insert (Suc d) (it_src it) (it_ref it) (r, h) = Ok (it_ref it, r1, h)" "refmap_ok r1 h"
      "contents r1 = (contents r)(it_src it \<mapsto> it_ref it)" "rm_table r1 = rm_table r" "rm_buckets r1 = rm_buckets r"
      "unat (rm_count r1) \<le> unat (rm_count r) + 1"
      using insert_room [OF Cons.prems(1) False, of d "it_ref it"] Cons.prems(2) u by auto
    have "\<exists>r'. insert_all (flatcc_refmap_insert (Suc d)) its (r1, h) = Ok (r', h) \<and> refmap_ok r' h
      \<and> contents r' = contents r1 ++ abs_map (rev its) \<and> rm_table r' = rm_table r1 \<and> rm_buckets r' = rm_buckets r1
      \<and> unat (rm_count r') \<le> unat (rm_count r1) + used its"
      by (rule Cons.IH [OF r1(2)]) (use Cons.prems(2) u r1(5,6) in simp)
    moreover have "contents r1 = contents r ++ abs_map [it]" using r1(3) False by (simp add: abs_map_single)
    ultimately show ?thesis using r1 u False by (auto simp: abs_map_append)
  qed
qed (simp add: used_def)

text \<open>The loop of \<open>flatcc_refmap_resize\<close>.\<close>

lemma unat_exp:
  assumes "b < 64"
  shows "unat (2 ^ b :: u64) = 2 ^ b"
proof -
  have "unat (push_bit b (1 :: u64)) = take_bit 64 (push_bit b (1 :: nat))" by (subst unsigned_push_bit_eq) simp
  then show ?thesis using assms by (simp add: take_bit_nat_eq_self)
qed

lemma above_exp:
  assumes "b \<le> 56"
  shows "above_load_factor cnt (2 ^ b) \<longleftrightarrow> 2 ^ b * 179 div 256 \<le> unat cnt"
proof -
  have "(2 :: nat) ^ b \<le> 2 ^ 56" by (rule power_increasing) (use assms in simp_all)
  then show ?thesis using above_load_factor_iff [of "2 ^ b" cnt] unat_exp [of b] assms by (simp add: load_limit_def)
qed

lemma grow_from:
  assumes "b \<le> 56" and c: "unat cnt < 179 * 2 ^ 48"
  shows "\<exists>m. b \<le> m \<and> m \<le> 56 \<and> grow_buckets cnt (2 ^ b) = Some (2 ^ m) \<and> unat cnt < 2 ^ m * 179 div 256
    \<and> (b < m \<longrightarrow> 2 ^ (m - 1) * 179 div 256 \<le> unat cnt)"
  using assms(1)
proof (induction "56 - b" arbitrary: b)
  case 0
  then have b: "b = 56" by simp
  have "\<not> above_load_factor cnt (2 ^ b)" using above_exp [of b cnt] c b by simp
  then show ?case using b c by (subst grow_buckets.simps) (auto intro!: exI [of _ 56])
next
  case (Suc k)
  then have b: "b < 56" by simp
  show ?case
  proof (cases "above_load_factor cnt (2 ^ b)")
    case True
    have "\<exists>m. Suc b \<le> m \<and> m \<le> 56 \<and> grow_buckets cnt (2 ^ Suc b) = Some (2 ^ m) \<and> unat cnt < 2 ^ m * 179 div 256
      \<and> (Suc b < m \<longrightarrow> 2 ^ (m - 1) * 179 div 256 \<le> unat cnt)" by (rule Suc.hyps) (use Suc b in simp_all)
    then obtain m where m: "Suc b \<le> m" "m \<le> 56" "grow_buckets cnt (2 ^ Suc b) = Some (2 ^ m)" "unat cnt < 2 ^ m * 179 div 256"
      "Suc b < m \<longrightarrow> 2 ^ (m - 1) * 179 div 256 \<le> unat cnt" by blast
    have "2 ^ b * 179 div 256 \<le> unat cnt" using True above_exp [of b cnt] b by simp
    then have "2 ^ (m - 1) * 179 div 256 \<le> unat cnt" using m(1,5) by (cases "m = Suc b") auto
    moreover have "grow_buckets cnt (2 ^ b) = Some (2 ^ m)" using True m(3) by (subst grow_buckets.simps) (simp add: mult.commute)
    ultimately show ?thesis using m by (auto intro!: exI [of _ m])
  next
    case False
    then have "grow_buckets cnt (2 ^ b) = Some (2 ^ b)" by (subst grow_buckets.simps) simp
    moreover have "unat cnt < 2 ^ b * 179 div 256" using False above_exp [of b cnt] b by (simp add: not_le)
    ultimately show ?thesis using b by (auto intro!: exI [of _ b])
  qed
qed

lemma above_hangs: "204 * 2 ^ 48 \<le> unat cnt \<Longrightarrow> above_load_factor cnt (2 ^ k)"
proof -
  assume c: "204 * 2 ^ 48 \<le> unat cnt"
  consider "k \<le> 56" | "k \<in> {57, 58, 59, 60, 61, 62, 63}" | "64 \<le> k" by fastforce
  then show ?thesis
  proof cases
    case 1
    then have "(2 :: nat) ^ k \<le> 2 ^ 56" by (intro power_increasing) simp_all
    then have "2 ^ k * 179 div 256 \<le> (204 * 2 ^ 48 :: nat)" by simp
    then show ?thesis using above_exp [OF 1] c by simp
  next
    case 2
    then show ?thesis using c by (auto simp: above_load_factor_def word_le_nat_alt)
  next
    case 3
    then have z: "(2 :: u64) ^ k = 0" by (simp add: exp_eq_zero_iff)
    show ?thesis unfolding z above_load_factor_def by simp
  qed
qed

lemma grow_hangs:
  assumes "204 * 2 ^ 48 \<le> unat cnt"
  shows "grow_buckets cnt (2 ^ k) = None"
proof (cases "grow_buckets cnt (2 ^ k)")
  case (Some r)
  have "(\<exists>k'. (2 :: u64) ^ k = 2 ^ k') \<longrightarrow> 204 * 2 ^ 48 \<le> unat cnt \<longrightarrow> False"
  proof (rule grow_buckets.raw_induct [OF _ Some, of "\<lambda>cnt b _. (\<exists>k. b = 2 ^ k) \<longrightarrow> 204 * 2 ^ 48 \<le> unat cnt \<longrightarrow> False"], intro impI)
    fix grow and cnt b y :: u64
    assume IH: "\<And>cnt b y. grow cnt b = Some y \<Longrightarrow> (\<exists>k. b = 2 ^ k) \<longrightarrow> 204 * 2 ^ 48 \<le> unat cnt \<longrightarrow> False"
      and step: "(if above_load_factor cnt b then grow cnt (b * 2) else Some b) = Some y"
      and b: "\<exists>k. b = 2 ^ k" and c: "204 * 2 ^ 48 \<le> unat cnt"
    obtain k where "b = 2 ^ k" using b by blast
    then have "grow cnt (2 ^ Suc k) = Some y" using step above_hangs [OF c] by (simp add: mult.commute)
    with IH c show False by blast
  qed
  then show ?thesis using assms by blast
qed

end
