(* ===== verification/Fb_Refmap_Props.thy ===== *)
theory Fb_Refmap_Props imports Fb_Refmap_Ops begin

text \<open>
  Resizing moves the items to a new table and gives the old one back. The operations of the reference map are steps of a partial
  map, through which the builder clones shared objects once.
\<close>

section \<open>Resizing\<close>

text \<open>The other blocks of the heap.\<close>

definition other_blocks :: "refmap \<Rightarrow> pb_heap \<Rightarrow> refmap \<Rightarrow> pb_heap \<Rightarrow> bool" where
  "other_blocks r h r' h' \<longleftrightarrow> live h' - owned r' = live h - owned r \<and> alloc_fails h' = alloc_fails h"

lemma other_blocks_refl [simp]: "other_blocks r h r h"
  by (simp add: other_blocks_def)

lemma other_blocks_trans: "other_blocks r h r1 h1 \<Longrightarrow> other_blocks r1 h1 r2 h2 \<Longrightarrow> other_blocks r h r2 h2"
  by (simp add: other_blocks_def)

lemma owned_live: "refmap_ok r h \<Longrightarrow> owned r \<subseteq> live h"
  by (auto simp: refmap_ok_def owned_def split: table_ptr.splits)

lemma refmap_ok_heap: "refmap_ok r h \<Longrightarrow> heap_ok h' \<Longrightarrow> owned r \<subseteq> live h' \<Longrightarrow> refmap_ok r h'"
  by (auto simp: refmap_ok_def owned_def)

text \<open>The address space has less than \<open>2 ^ 56\<close> bytes.\<close>

definition small_space :: "pb_heap \<Rightarrow> bool" where
  "small_space h \<longleftrightarrow> (\<forall>n sz. 2 ^ 56 \<le> unat sz \<longrightarrow> alloc_fails h n sz)"

lemma calloc_small:
  assumes "small_space h" and "m \<le> 56" and "calloc_items (2 ^ m) h = (Some n, h')"
  shows "m \<le> 51"
proof (rule ccontr)
  assume "\<not> m \<le> 51"
  then have "(2 :: nat) ^ 52 \<le> 2 ^ m" by (intro power_increasing) simp_all
  moreover have "(2 :: nat) ^ m \<le> 2 ^ 56" by (rule power_increasing) (use assms(2) in simp_all)
  ultimately have "2 ^ 56 \<le> unat (2 ^ m * 16 :: u64)" using unat_exp [of m] assms(2) by (simp add: unat_word_ariths)
  then show False using assms by (auto simp: small_space_def calloc_items_def do_alloc_def Let_def split: if_splits)
qed

lemma calloc_Some:
  assumes "calloc_items n h = (Some k, h')" and "heap_ok h"
  shows "k \<notin> live h" "live h' = insert k (live h)" "heap_ok h'" "alloc_fails h' = alloc_fails h"
  using assms by (auto simp: calloc_items_def do_alloc_def heap_ok_def Let_def split: if_splits)

lemma calloc_None:
  assumes "calloc_items n h = (None, h')" and "heap_ok h"
  shows "live h' = live h" "heap_ok h'" "alloc_fails h' = alloc_fails h"
  using assms by (auto simp: calloc_items_def do_alloc_def heap_ok_def Let_def split: if_splits)

text \<open>A new table.\<close>

lemma fresh_min:
  assumes "refmap_ok r h"
  shows "refmap_ok (r\<lparr>rm_min_table := zero_items MIN_BUCKETS, rm_table := Min_table, rm_buckets := MIN_BUCKETS, rm_count := 0\<rparr>) h"
  using assms by (auto simp: refmap_ok_def table_items_def MIN_BUCKETS_def intro!: exI [of _ 3])

lemma fresh_heap:
  assumes "refmap_ok r h" and "heap_ok h'" and "n \<in> live h'" and "3 \<le> m" "m \<le> 51" and "(2 :: u64) ^ m \<noteq> 8"
  shows "refmap_ok (r\<lparr>rm_table := Heap_table n, rm_heap_table := zero_items (2 ^ m), rm_buckets := 2 ^ m, rm_count := 0\<rparr>) h'"
  using assms unat_exp [of m] by (auto simp: refmap_ok_def table_items_def intro!: exI [of _ m])

text \<open>Moving the items to a new table and freeing the old one.\<close>

lemma rehash_ok:
  assumes r0: "refmap_ok r0 h" and r1: "refmap_ok r1 h1" "contents r1 = Map.empty" "rm_count r1 = 0"
    and fits: "unat (rm_count r0) \<le> load_limit (rm_buckets r1)"
    and live: "live h1 = live h \<union> owned r1" "owned r1 \<inter> live h = {}" "alloc_fails h1 = alloc_fails h"
  shows "\<exists>r' h'. bindR (guardR (unat (rm_buckets r0) \<le> length (table_items r0))) (\<lambda>_.
      bindR (insert_all (flatcc_refmap_insert (Suc d)) (take (unat (rm_buckets r0)) (table_items r0)) (r1, h1)) (\<lambda>(r, h).
      bindR (free_table (rm_table r0) h) (\<lambda>h. Ok (True, r, h)))) = Ok (True, r', h')
    \<and> refmap_ok r' h' \<and> contents r' = contents r0 \<and> other_blocks r0 h r' h' \<and> rm_buckets r' = rm_buckets r1
    \<and> unat (rm_count r') \<le> unat (rm_count r0)"
proof -
  let ?T = "table_items r0"
  have T: "unat (rm_buckets r0) = length ?T" "table_ok ?T" "used ?T = unat (rm_count r0)"
    using r0 by (auto simp: refmap_ok_def table_items_def table_ok_def used_def split: if_splits)
  obtain r' where r': "insert_all (flatcc_refmap_insert (Suc d)) ?T (r1, h1) = Ok (r', h1)" "refmap_ok r' h1"
    "contents r' = contents r1 ++ abs_map (rev ?T)" "rm_table r' = rm_table r1" "rm_buckets r' = rm_buckets r1"
    "unat (rm_count r') \<le> used ?T"
    using insert_all_room [OF r1(1), of ?T d] fits T(3) r1(3) by auto
  have c: "contents r' = contents r0" using r'(3) r1(2) abs_map_rev [OF T(2)] by (simp add: contents_def)
  have own: "owned r' = owned r1" using r'(4) by (simp add: owned_def)
  have ok0: "owned r0 \<subseteq> live h" by (rule owned_live [OF r0])
  obtain h2 where h2: "free_table (rm_table r0) h1 = Ok h2" "live h2 = live h1 - owned r0" "heap_ok h2" "alloc_fails h2 = alloc_fails h1"
    using ok0 live r1(1) by (cases "rm_table r0") (auto simp: free_table_def do_free_def owned_def refmap_ok_def heap_ok_def)
  have "refmap_ok r' h2" by (rule refmap_ok_heap [OF r'(2) h2(3)]) (use own h2(2) live ok0 in auto)
  moreover have "other_blocks r0 h r' h2" unfolding other_blocks_def using own h2 live ok0 by auto
  ultimately show ?thesis using r' T(1,3) c h2(1) by (auto simp: other_blocks_def)
qed

lemma refmap_bound:
  assumes r: "refmap_ok r h"
  shows "unat (rm_buckets r) \<le> 2 ^ 52 \<and> unat (rm_count r) \<le> load_limit (rm_buckets r) \<and> unat (rm_count r) \<le> 2 ^ 52"
proof (cases "rm_table r = Null_table")
  case False
  then obtain b where "b \<le> 52" "unat (rm_buckets r) = 2 ^ b" using refmap_okD [OF r] by blast
  then have b: "unat (rm_buckets r) \<le> 2 ^ 52" using power_increasing [of b 52 "2 :: nat"] by simp
  have "load_limit (rm_buckets r) \<le> 2 ^ 52 * 179 div 256" unfolding load_limit_def by (intro div_le_mono mult_le_mono1 b)
  then show ?thesis using b r False by (auto simp: refmap_ok_def)
qed (use r in \<open>simp add: refmap_ok_def\<close>)

text \<open>The table for \<open>cnt\<close> references cannot be had.\<close>

definition cannot_grow :: "u64 \<Rightarrow> refmap \<Rightarrow> pb_heap \<Rightarrow> bool" where
  "cannot_grow cnt r h \<longleftrightarrow> (\<exists>b. grow_buckets (if cnt < rm_count r then rm_count r else cnt) MIN_BUCKETS = Some b
     \<and> b \<noteq> rm_buckets r \<and> b \<noteq> MIN_BUCKETS \<and> fst (calloc_items b h) = None)"

lemma resize_ok:
  assumes r: "refmap_ok r h" and sp: "small_space h" and c: "unat cnt < 179 * 2 ^ 48"
  shows "\<exists>ok r' h'. resize_with (flatcc_refmap_insert (Suc d)) cnt (r, h) = Ok (ok, r', h')
    \<and> refmap_ok r' h' \<and> contents r' = contents r \<and> other_blocks r h r' h' \<and> unat (rm_count r') \<le> unat (rm_count r)
    \<and> (if ok then unat cnt < load_limit (rm_buckets r') \<and> unat (rm_count r) < load_limit (rm_buckets r') else r' = r \<and> cannot_grow cnt r h)"
proof -
  have "unat (rm_count r) < 179 * 2 ^ 48" using refmap_bound [OF r] by simp
  let ?c = "if cnt < rm_count r then rm_count r else cnt"
  have cc: "unat ?c < 179 * 2 ^ 48" "unat cnt \<le> unat ?c" "unat (rm_count r) \<le> unat ?c"
    using c \<open>unat (rm_count r) < 179 * 2 ^ 48\<close> by (auto simp: word_less_nat_alt)
  obtain m where m: "3 \<le> m" "m \<le> 56" "grow_buckets ?c (2 ^ 3) = Some (2 ^ m)" "unat ?c < 2 ^ m * 179 div 256"
    using grow_from [of 3 ?c] cc(1) by auto
  have lim: "unat ?c < load_limit (2 ^ m)" using m(2,4) unat_exp [of m] by (simp add: load_limit_def)
  have g: "grow_buckets ?c MIN_BUCKETS = Some (2 ^ m)" using m(3) by (simp add: MIN_BUCKETS_def)
  show ?thesis
  proof (cases "rm_buckets r = 2 ^ m")
    case True
    then show ?thesis using r g lim cc(2,3) by (auto simp: resize_with_def loops_def Let_def)
  next
    case nb: False
    let ?goal = "\<lambda>x. \<exists>ok r' h'. x = Ok (ok, r', h') \<and> refmap_ok r' h' \<and> contents r' = contents r \<and> other_blocks r h r' h'
      \<and> unat (rm_count r') \<le> unat (rm_count r) \<and> (if ok then unat cnt < load_limit (rm_buckets r') \<and> unat (rm_count r) < load_limit (rm_buckets r') else r' = r \<and> cannot_grow cnt r h)"
    let ?tail = "\<lambda>r1 h1. bindR (guardR (unat (rm_buckets r) \<le> length (table_items r))) (\<lambda>_.
      bindR (insert_all (flatcc_refmap_insert (Suc d)) (take (unat (rm_buckets r)) (table_items r)) (r1, h1)) (\<lambda>(r', h).
      bindR (free_table (rm_table r) h) (\<lambda>h. Ok (True, r', h))))"
    have tail: "?goal (?tail r1 h1)" if "refmap_ok r1 h1" "contents r1 = Map.empty" "rm_count r1 = 0" "rm_buckets r1 = 2 ^ m"
      "live h1 = live h \<union> owned r1" "owned r1 \<inter> live h = {}" "alloc_fails h1 = alloc_fails h" for r1 h1
      using rehash_ok [OF r that(1-3) _ that(5-7), of d] that(4) lim cc by auto
    show ?thesis
    proof (cases "(2 :: u64) ^ m = MIN_BUCKETS")
      case True
      let ?r1 = "r\<lparr>rm_min_table := zero_items MIN_BUCKETS, rm_table := Min_table, rm_buckets := MIN_BUCKETS, rm_count := 0\<rparr>"
      have "?goal (?tail ?r1 h)"
        by (rule tail [OF fresh_min [OF r]]) (use True in \<open>simp_all add: contents_def table_items_def owned_def\<close>)
      then show ?thesis using g nb True by (simp add: resize_with_def loops_def Let_def)
    next
      case nm: False
      show ?thesis
      proof (cases "calloc_items (2 ^ m) h")
        case (Pair p h1)
        have hok: "heap_ok h" using r by (simp add: refmap_ok_def)
        show ?thesis
        proof (cases p)
          case None
          then have n: "calloc_items (2 ^ m) h = (None, h1)" using Pair by simp
          have "cannot_grow cnt r h" unfolding cannot_grow_def using g nb nm n by (intro exI [of _ "2 ^ m"]) auto
          moreover have "refmap_ok r h1" "other_blocks r h r h1"
            using refmap_ok_heap [OF r] owned_live [OF r] calloc_None [OF n hok] by (auto simp: other_blocks_def)
          ultimately show ?thesis using g nb nm n by (auto simp: resize_with_def loops_def Let_def intro!: exI [of _ False])
        next
          case (Some k)
          then have n: "calloc_items (2 ^ m) h = (Some k, h1)" using Pair by simp
          let ?r1 = "r\<lparr>rm_table := Heap_table k, rm_heap_table := zero_items (2 ^ m), rm_buckets := 2 ^ m, rm_count := 0\<rparr>"
          have "?goal (?tail ?r1 h1)"
            by (rule tail, rule fresh_heap [OF r, where m = m])
              (use calloc_Some [OF n hok] calloc_small [OF sp m(2) n] m(1) nm in
                \<open>auto simp: contents_def table_items_def owned_def MIN_BUCKETS_def\<close>)
          then show ?thesis using g nb nm n by (simp add: resize_with_def loops_def Let_def)
        qed
      qed
    qed
  qed
qed

section \<open>The operations as steps of a partial map\<close>

lemma insert_ok:
  assumes r: "refmap_ok r h" and sp: "small_space h"
  shows "\<exists>res r' h'. flatcc_refmap_insert (Suc (Suc d)) s v (r, h) = Ok (res, r', h') \<and> refmap_ok r' h' \<and> other_blocks r h r' h'
    \<and> (if s = 0 then res = v \<and> contents r' = contents r
       else res = v \<and> contents r' = (contents r)(s \<mapsto> v) \<or> res = flatcc_refmap_not_found \<and> r' = r
         \<and> above_load_factor (rm_count r) (rm_buckets r) \<and> cannot_grow (rm_count r * 2) r h)"
proof (cases "s = 0")
  case True
  then show ?thesis using r by (simp add: flatcc_refmap_insert.simps)
next
  case s: False
  let ?tail = "\<lambda>r h. let T = table_items r in
         bindR (loops (probe_loop T (rm_buckets r - 1) (refmap_hash s) s 0)) (\<lambda>j.
         let r = (if it_src (T ! j) = 0 then r\<lparr>rm_count := rm_count r + 1\<rparr> else r) in
         Ok (v, set_items (T[j := \<lparr>it_src = s, it_ref = v\<rparr>]) r, h))"
  have step: "flatcc_refmap_insert (Suc e) s v (r, h) = bindR (if above_load_factor (rm_count r) (rm_buckets r)
      then resize_with (flatcc_refmap_insert e) (rm_count r * 2) (r, h) else Ok (True, r, h)) (\<lambda>(ok, r, h).
      if \<not> ok then Ok (flatcc_refmap_not_found, r, h) else ?tail r h)" for e r h
    using s by (simp add: flatcc_refmap_insert.simps(2))
  note bound = refmap_bound [OF r]
  show ?thesis
  proof (cases "above_load_factor (rm_count r) (rm_buckets r)")
    case False
    then have "unat (rm_count r) < load_limit (rm_buckets r)" using above_load_factor_iff [of "rm_buckets r"] bound by simp
    from insert_room [OF r s this, of "Suc d" v] obtain r' where
      "flatcc_refmap_insert (Suc (Suc d)) s v (r, h) = Ok (v, r', h)" "refmap_ok r' h" "contents r' = (contents r)(s \<mapsto> v)" "rm_table r' = rm_table r"
      by blast
    moreover have "other_blocks r h r' h" using \<open>rm_table r' = rm_table r\<close> by (simp add: other_blocks_def owned_def)
    ultimately show ?thesis using s by auto
  next
    case above: True
    have "unat (rm_count r * 2) < 179 * 2 ^ 48" using bound by (simp add: unat_word_ariths)
    from resize_ok [OF r sp this, of d] obtain ok r1 h1 where
      rs: "resize_with (flatcc_refmap_insert (Suc d)) (rm_count r * 2) (r, h) = Ok (ok, r1, h1)" "refmap_ok r1 h1"
        "contents r1 = contents r" "other_blocks r h r1 h1"
        "unat (rm_count r1) \<le> unat (rm_count r)" "if ok then unat (rm_count r) < load_limit (rm_buckets r1) else r1 = r \<and> cannot_grow (rm_count r * 2) r h" by auto
    show ?thesis
    proof (cases ok)
      case False
      then show ?thesis using s rs above step [of "Suc d" r h] by simp
    next
      case True
      have room: "unat (rm_count r1) < load_limit (rm_buckets r1)" using rs(5,6) True by simp
      obtain r2 where r2: "flatcc_refmap_insert (Suc (Suc d)) s v (r1, h1) = Ok (v, r2, h1)" "refmap_ok r2 h1"
        "contents r2 = (contents r1)(s \<mapsto> v)" "rm_table r2 = rm_table r1"
        using insert_room [OF rs(2) s room, of "Suc d" v] by blast
      have "unat (rm_buckets r1) \<le> 2 ^ 56" using refmap_bound [OF rs(2)] by simp
      then have "\<not> above_load_factor (rm_count r1) (rm_buckets r1)" using above_load_factor_iff room by simp
      then have "flatcc_refmap_insert (Suc (Suc d)) s v (r, h) = Ok (v, r2, h1)" using r2(1) step [of "Suc d"] rs(1) above True by simp
      moreover have "other_blocks r h r2 h1" using rs(4) r2(4) by (simp add: other_blocks_def owned_def)
      ultimately show ?thesis using r2 rs(3) s by auto
    qed
  qed
qed

lemma reset_ok:
  assumes "refmap_ok r h"
  shows "\<exists>r'. flatcc_refmap_reset r = Ok r' \<and> refmap_ok r' h \<and> contents r' = Map.empty \<and> owned r' = owned r \<and> rm_buckets r' = rm_buckets r"
proof (cases "rm_count r = 0")
  case True
  then have same: "r\<lparr>rm_count := 0\<rparr> = r" by (cases r) simp
  have "flatcc_refmap_reset r = Ok (r\<lparr>rm_count := 0\<rparr>)" using True by (simp add: flatcc_refmap_reset_def Let_def)
  then show ?thesis unfolding same using assms null_contents [OF assms True] by blast
next
  case False
  then have nn: "rm_table r \<noteq> Null_table" using assms by (auto simp: refmap_ok_def)
  let ?r = "(set_items (zero_items (rm_buckets r)) r)\<lparr>rm_count := 0\<rparr>"
  have l: "length (table_items r) = unat (rm_buckets r)" using assms nn by (simp add: refmap_ok_def)
  have t: "rm_table ?r = rm_table r" "rm_buckets ?r = rm_buckets r" "table_items ?r = zero_items (rm_buckets r)" using nn by simp_all
  have "length (rm_min_table ?r) = 8" using assms by (auto simp: refmap_ok_def set_items_min)
  then have "refmap_ok ?r h" using assms nn t unfolding refmap_ok_def by simp
  moreover have "flatcc_refmap_reset r = Ok ?r" using l False by (simp add: flatcc_refmap_reset_def Let_def)
  moreover have "contents ?r = Map.empty" "owned ?r = owned r" using t by (simp_all add: contents_def owned_def)
  ultimately show ?thesis by auto
qed

lemma clear_ok:
  assumes "refmap_ok r h"
  shows "\<exists>r' h'. flatcc_refmap_clear (r, h) = Ok (r', h') \<and> refmap_ok r' h' \<and> contents r' = Map.empty \<and> owned r' = {}
    \<and> live h' = live h - owned r"
  using assms by (cases "rm_table r") (auto simp: flatcc_refmap_clear_def flatcc_refmap_init_def free_table_def do_free_def refmap_ok_def
    contents_def table_items_def owned_def heap_ok_def)

section \<open>Cloning through a map\<close>

text \<open>What a builder relies on.\<close>

locale reference_map =
  fixes good :: "'m \<Rightarrow> bool" and cont :: "'m \<Rightarrow> u64 \<rightharpoonup> u32" and fnd :: "'m \<Rightarrow> u64 \<Rightarrow> u32 res"
    and ins :: "u64 \<Rightarrow> u32 \<Rightarrow> 'm \<Rightarrow> (u32 \<times> 'm) res"
  assumes find_law: "good m \<Longrightarrow> fnd m s = Ok (case cont m s of None \<Rightarrow> 0 | Some v \<Rightarrow> v)"
    and insert_law: "good m \<Longrightarrow> s \<noteq> 0 \<Longrightarrow> \<exists>w m'. ins s v m = Ok (w, m') \<and> good m'
      \<and> (w = v \<and> cont m' = (cont m)(s \<mapsto> v) \<or> w = 0 \<and> cont m' = cont m)"
begin

lemma memo_hit: "good m \<Longrightarrow> cont m s = Some v \<Longrightarrow> v \<noteq> 0 \<Longrightarrow> memoize_with fnd ins s f (m, b) = Ok (v, m, b)"
  by (simp add: memoize_with_def find_law)

lemma memo_miss:
  assumes m: "good m" "s \<noteq> 0" "cont m s \<in> {None, Some 0}" and f: "f (m, b) = Ok (v, m1, b1)" "good m1"
  shows "\<exists>w m2. memoize_with fnd ins s f (m, b) = Ok (w, m2, b1) \<and> good m2 \<and> w \<in> {v, 0}
    \<and> (w \<noteq> 0 \<longrightarrow> cont m2 = (cont m1)(s \<mapsto> v))"
proof -
  have "fnd m s = Ok 0" using find_law [OF m(1)] m(3) by auto
  moreover obtain w m2 where "ins s v m1 = Ok (w, m2)" "good m2"
    "w = v \<and> cont m2 = (cont m1)(s \<mapsto> v) \<or> w = 0 \<and> cont m2 = cont m1" using insert_law [OF f(2) m(2)] by blast
  ultimately show ?thesis using f(1) by (auto simp: memoize_with_def)
qed

lemma memo_twice:
  assumes m: "good m" "s \<noteq> 0" "cont m s \<in> {None, Some 0}" and f: "f (m, b) = Ok (v, m1, b1)" "good m1"
  shows "\<exists>w m2. memoize_with fnd ins s f (m, b) = Ok (w, m2, b1) \<and> w \<in> {v, 0}
    \<and> (w \<noteq> 0 \<longrightarrow> (\<forall>g (b2 :: 'x). memoize_with fnd ins s g (m2, b2) = Ok (w, m2, b2)))"
proof -
  obtain w m2 where w: "memoize_with fnd ins s f (m, b) = Ok (w, m2, b1)" "good m2" "w \<in> {v, 0}" "w \<noteq> 0 \<longrightarrow> cont m2 = (cont m1)(s \<mapsto> v)"
    using memo_miss [of m s f b v m1 b1, OF m f] by blast
  have "memoize_with fnd ins s g (m2, b2) = Ok (w, m2, b2)" if "w \<noteq> 0" for g and b2 :: 'x
  proof (rule memo_hit [OF w(2) _ that])
    have "w = v" using w(3) that by blast
    then show "cont m2 s = Some w" using w(4) that by simp
  qed
  then show ?thesis using w(1,3) by (intro exI [of _ w] exI [of _ m2]) blast
qed

end

definition builder_ok :: "refmap option \<times> pb_heap \<Rightarrow> bool" where
  "builder_ok s \<longleftrightarrow> (case fst s of None \<Rightarrow> False | Some r \<Rightarrow> refmap_ok r (snd s) \<and> small_space (snd s))"

definition builder_contents :: "refmap option \<times> pb_heap \<Rightarrow> u64 \<rightharpoonup> u32" where
  "builder_contents s = (case fst s of None \<Rightarrow> Map.empty | Some r \<Rightarrow> contents r)"

lemma builder_insert:
  assumes "builder_ok m" and "s \<noteq> 0"
  shows "\<exists>w m'. flatcc_builder_refmap_insert (Suc (Suc d)) s v m = Ok (w, m') \<and> builder_ok m'
    \<and> (w = v \<and> builder_contents m' = (builder_contents m)(s \<mapsto> v) \<or> w = 0 \<and> builder_contents m' = builder_contents m)"
proof -
  obtain r h where m: "m = (Some r, h)" and ok: "refmap_ok r h" "small_space h"
    using assms(1) by (cases m) (auto simp: builder_ok_def split: option.splits)
  obtain w r' h' where "flatcc_refmap_insert (Suc (Suc d)) s v (r, h) = Ok (w, r', h')" "refmap_ok r' h'" "other_blocks r h r' h'"
    "w = v \<and> contents r' = (contents r)(s \<mapsto> v) \<or> w = flatcc_refmap_not_found \<and> r' = r"
    using insert_ok [OF ok, of d s v] assms(2) by auto
  moreover have "small_space h'" using ok(2) \<open>other_blocks r h r' h'\<close> by (simp add: other_blocks_def small_space_def)
  ultimately show ?thesis using m
    by (auto simp: flatcc_builder_refmap_insert_def builder_ok_def builder_contents_def flatcc_refmap_not_found_def)
qed

interpretation builder_map: reference_map builder_ok builder_contents flatcc_builder_refmap_find "flatcc_builder_refmap_insert (Suc (Suc d))"
proof
  show "flatcc_builder_refmap_find m s = Ok (case builder_contents m s of None \<Rightarrow> 0 | Some v \<Rightarrow> v)" if "builder_ok m" for m s
    using that find_ok by (auto simp: flatcc_builder_refmap_find_def builder_ok_def builder_contents_def flatcc_refmap_not_found_def
      split: option.splits)
qed (rule builder_insert)

section \<open>Properties\<close>

text \<open>C36: The reference map refines a partial map from addresses to references: on a well-formed map each operation returns, keeps
  the map well formed and the other blocks of the heap untouched. A find is the lookup, 0 for a miss; an insert is the update, or fails
  with 0 and leaves the map as it is, only when the map is full and the allocation of the larger table fails; resizing changes nothing that can be found; a reset empties the map,
  a clear also gives its block back.\<close>

theorem refmap_refines:
  assumes "refmap_ok r h" and "small_space h" and "unat n < 179 * 2 ^ 48"
  shows "flatcc_refmap_find r s = Ok (case contents r s of None \<Rightarrow> flatcc_refmap_not_found | Some v \<Rightarrow> v)
    \<and> (\<exists>res r' h'. flatcc_refmap_insert (Suc (Suc d)) s v (r, h) = Ok (res, r', h') \<and> refmap_ok r' h' \<and> other_blocks r h r' h'
      \<and> (if s = 0 then res = v \<and> contents r' = contents r
         else res = v \<and> contents r' = (contents r)(s \<mapsto> v) \<or> res = flatcc_refmap_not_found \<and> r' = r
           \<and> above_load_factor (rm_count r) (rm_buckets r) \<and> cannot_grow (rm_count r * 2) r h))
    \<and> (\<exists>res r' h'. flatcc_refmap_resize (Suc d) n (r, h) = Ok (res, r', h') \<and> refmap_ok r' h' \<and> other_blocks r h r' h'
      \<and> contents r' = contents r \<and> (if res then unat n < load_limit (rm_buckets r') else r' = r \<and> cannot_grow n r h))
    \<and> (\<exists>r'. flatcc_refmap_reset r = Ok r' \<and> refmap_ok r' h \<and> contents r' = Map.empty \<and> other_blocks r h r' h)
    \<and> (\<exists>r' h'. flatcc_refmap_clear (r, h) = Ok (r', h') \<and> refmap_ok r' h' \<and> contents r' = Map.empty \<and> live h' = live h - owned r)"
proof (intro conjI)
  show "\<exists>res r' h'. flatcc_refmap_resize (Suc d) n (r, h) = Ok (res, r', h') \<and> refmap_ok r' h' \<and> other_blocks r h r' h'
      \<and> contents r' = contents r \<and> (if res then unat n < load_limit (rm_buckets r') else r' = r \<and> cannot_grow n r h)"
    using resize_ok [OF assms, of d] unfolding flatcc_refmap_resize_def by (auto split: if_splits)
  show "\<exists>r'. flatcc_refmap_reset r = Ok r' \<and> refmap_ok r' h \<and> contents r' = Map.empty \<and> other_blocks r h r' h"
    using reset_ok [OF assms(1)] by (auto simp: other_blocks_def)
  show "\<exists>r' h'. flatcc_refmap_clear (r, h) = Ok (r', h') \<and> refmap_ok r' h' \<and> contents r' = Map.empty \<and> live h' = live h - owned r"
    using clear_ok [OF assms(1)] by blast
qed (use find_ok [OF assms(1)] insert_ok [OF assms(1,2)] in blast)+

text \<open>A new map, and a heap whose requests of half the address space or more fail.\<close>

definition new_map :: refmap where
  "new_map = \<lparr>rm_count = 0, rm_buckets = 0, rm_table = Null_table, rm_min_table = zero_items 8, rm_heap_table = []\<rparr>"

definition sample_heap :: pb_heap where
  "sample_heap = \<lparr>alloc_fails = (\<lambda>n sz. 2 ^ 56 \<le> unat sz), requests = 3, live = {1, 2}\<rparr>"

lemma sample_ok: "refmap_ok new_map sample_heap" "small_space sample_heap"
  by (simp_all add: refmap_ok_def new_map_def heap_ok_def sample_heap_def small_space_def)

lemma refmap_refines_witness:
  "\<exists>res r' h'. flatcc_refmap_insert (Suc (Suc 0)) 4096 7 (new_map, sample_heap) = Ok (res, r', h') \<and> refmap_ok r' h'"
  using refmap_refines [OF sample_ok, of 100 4096 0 7] by auto

text \<open>C37: A source is cloned once: with a map, a clone of an address that is not in the map runs the clone operation and returns its reference, or 0 if
  the map cannot grow; when it returned a reference, cloning the same address again returns the same reference and neither
  runs the clone operation nor changes anything. The clone operation may use the map itself, for what is below the source.\<close>

theorem memoize_once:
  assumes "builder_ok m" and "s \<noteq> 0" and "builder_contents m s = None" and "f (m, b) = Ok (v, m1, b1)" and "builder_ok m1"
  shows "\<exists>w m2. memoize (Suc (Suc d)) s f (m, b) = Ok (w, m2, b1) \<and> w \<in> {v, 0}
    \<and> (w \<noteq> 0 \<longrightarrow> (\<forall>g b2. memoize (Suc (Suc d)) s g (m2, b2) = Ok (w, m2, b2)))"
  unfolding memoize_def by (rule builder_map.memo_twice) (rule assms | simp add: assms)+

lemma memoize_once_witness:
  "\<exists>w m2. memoize (Suc (Suc 0)) 4096 (\<lambda>(m, k). Ok (k, m, k + 1)) ((Some new_map, sample_heap), 5) = Ok (w, m2, 6) \<and> w \<in> {5, 0}"
  using memoize_once [of "(Some new_map, sample_heap)" 4096 "\<lambda>(m, k). Ok (k, m, k + 1)" 5 5 "(Some new_map, sample_heap)" 6 0] sample_ok
  by (auto simp: builder_ok_def builder_contents_def contents_def table_items_def new_map_def)

text \<open>The loop that chooses the number of buckets finds the least power of two that takes the count; for counts near the
  largest size its product wraps, and it never ends.\<close>

theorem grow_buckets_terminates:
  "(unat n < 179 * 2 ^ 48 \<longrightarrow> (\<exists>m \<ge> 3. grow_buckets n MIN_BUCKETS = Some (2 ^ m) \<and> unat n < 2 ^ m * 179 div 256
      \<and> (3 < m \<longrightarrow> 2 ^ (m - 1) * 179 div 256 \<le> unat n)))
    \<and> (204 * 2 ^ 48 \<le> unat n \<longrightarrow> grow_buckets n MIN_BUCKETS = None)"
  using grow_from [of 3 n] grow_hangs [of n 3] by (auto simp: MIN_BUCKETS_def)

end
