(* ===== verification/Spec2Isabelle.thy ===== *)
theory Spec2Isabelle
  imports Byteorder Ksocket_Props Berkeley_Props Addrinfo_Props Pb_Pack_Props Pb_Ownership Pb_Merge_Props Fb_Limits Fb_Refmap_Props
begin

text \<open>
  \<^bold>\<open>The program.\<close> The repository is a socket library for Windows kernel drivers. Its core is
  \<^verbatim>\<open>src/ksocket/\<close>: \<^verbatim>\<open>ksocket.c\<close> wraps the asynchronous Winsock Kernel interface in blocking calls,
  \<^verbatim>\<open>berkeley.c\<close> puts the usual descriptors and \<^verbatim>\<open>getaddrinfo\<close> on top of it. Two serialisation
  runtimes are built into the drivers, \<^verbatim>\<open>src/protobuf-c/protobuf-c.c\<close> and \<^verbatim>\<open>src/flatcc/\<close>; a driver packs
  a message, sends the bytes over a socket and unpacks what it receives, which is input from the
  network parsed in kernel mode.

  \<^bold>\<open>Conventions.\<close> A C function is a HOL function of its name. It takes the state it changes and
  returns it updated. The outcome is the datatype \<open>res\<close> of \<open>Prelude\<close>: \<open>Ok\<close> with the returned value,
  \<open>Fault\<close> for undefined behaviour (a read or write outside a block, a bad or second free, a null
  dereference, a failed assertion) and \<open>Hang\<close> for a call that never returns. Status codes, NULL and
  FALSE are values. Machine integers are words of their width; \<open>nat\<close> is used for pointers into one
  block and for lengths that are bounded by it.

  \<^bold>\<open>The socket library.\<close>
  \<^item> \<open>Byteorder\<close>: \<^verbatim>\<open>utils.c\<close>, the byte swaps.
  \<^item> \<open>Kernel\<close>: the kernel and WSK routines the wrapper calls, with the pool, the IRPs, the MDLs and
    the answers of the network as the state.
  \<^item> \<open>Ksocket\<close>: \<^verbatim>\<open>ksocket.c\<close>, one definition per function; \<open>Ksocket_Laws\<close> has the laws of the
    asynchronous context as a locale and its interpretation, \<open>Ksocket_Props\<close> the invariant of the
    socket heap along every run (\<open>ks_step\<close>) and what each call returns, leaks and frees.
  \<^item> \<open>Berkeley\<close>, \<open>Berkeley_Props\<close>: \<^verbatim>\<open>berkeley.c\<close> without name resolution: the descriptor table, and
    its refinement to a partial map.
  \<^item> \<open>Addrinfo\<close>, \<open>Addrinfo_Props\<close>: the conversions of address lists and \<^verbatim>\<open>getaddrinfo\<close>.

  \<^bold>\<open>Protocol Buffers.\<close>
  \<^item> \<open>Pb_Types\<close>: descriptors and messages of \<^verbatim>\<open>protobuf-c.h\<close>. A message is an association list from
    the offsets of its descriptor to the values there; \<open>Zero\<close> is zeroed memory of any type.
    \<open>Pb_Heap\<close> is the allocator: which requests fail is up to it.
  \<^item> \<open>Pb_Mem\<close>, \<open>Pb_Varint\<close>: the block written to, and the integer packing routines against base-128
    digits. \<open>Pb_Wire\<close> is the reference encoding (\<open>enc_message\<close>), \<open>Pb_Size\<close>, \<open>Pb_Pack\<close>,
    \<open>Pb_Pack_Buffer\<close>, \<open>Pb_Buffer\<close> the three ways the code serialises a message, and
    \<open>Pb_Pack_Props\<close> that all of them produce exactly the reference encoding.
  \<^item> \<open>Pb_Desc\<close>: the lookups in descriptors as maps, and services.
  \<^item> \<open>Pb_Parse\<close>: scanning and parsing of scalars, with the locale \<open>scalar_reader\<close> of round trips.
  \<^item> \<open>Pb_Message\<close>: initialising, checking, merging and freeing messages. \<open>Pb_Unpack\<close>:
    \<^verbatim>\<open>protobuf_c_message_unpack\<close>, from the scanner to the last error path.
  \<^item> \<open>Pb_Resources\<close>, \<open>Pb_Shape\<close>, \<open>Pb_Merge\<close>, \<open>Pb_Member\<close>, \<open>Pb_Scan\<close>, \<open>Pb_Unpack_Props\<close>: the proof
    that unpacking is safe. \<open>holds h R\<close> says that the live blocks of the heap are exactly the resources
    \<open>R\<close>; \<open>message_inv\<close> is the invariant of a message in any stage of its construction; \<open>schema_ok\<close>
    is what the code generator promises of descriptors. The locale \<open>nested_ops\<close> has what
    parsing a member needs of nested messages; it is interpreted on the three routines themselves,
    by induction on the nesting. \<open>Pb_Ownership\<close> and \<open>Pb_Merge_Props\<close> state the results, on the example
    schema of \<open>Pb_Sample\<close>.

  \<^bold>\<open>FlatBuffers.\<close> A received buffer is verified once and then read in place.
  \<^item> \<open>Fb_Verifier\<close>: \<^verbatim>\<open>flatcc/src/runtime/verifier.c\<close>, one definition per function, on the block the buffer
    lies in. \<open>Fb_Schema\<close>: the verifiers the code generator prints for a schema, as lists of calls
    (\<open>field_check\<close>), and those of the schema of schemas. \<open>Fb_Reader\<close>: the accessors, and \<open>visit_table\<close>,
    which reads everything they reach.
  \<^item> \<open>Fb_Sound\<close>, \<open>Fb_Tables\<close>, \<open>Fb_Checks\<close>, \<open>Fb_Sound_Schema\<close>: what each part of the verifier accepts, the
    accessors can read: strings and vectors, what follows offsets, the calls of a generated verifier, and the
    tables of a schema, which is the locale \<open>table_verifiers\<close>, interpreted on the verifiers and visits of any schema.
    \<open>Fb_Props\<close> states the results: the verifier returns on any bytes, and it is sound for schemas whose unions have no structs as
    members and whose vectors of unions are required (\<open>readable_unions\<close>). \<open>Fb_Limits\<close> shows what goes wrong with the others, and what the
    limit on nesting does not stop.
  \<^item> \<open>Fb_Refmap\<close>: \<^verbatim>\<open>flatcc/src/runtime/refmap.c\<close>, the hash table by which a builder clones shared objects once.
    \<open>Fb_Refmap_Table\<close>: probing, and a table as a partial map. \<open>Fb_Refmap_Ops\<close>, \<open>Fb_Refmap_Props\<close>: the invariant of the map
    (\<open>refmap_ok\<close>), the refinement of each operation, and the locale \<open>reference_map\<close> of what cloning relies on, interpreted
    on the builder's map.

  \<^bold>\<open>Bounds.\<close> The C recursion over nested messages is unbounded; the model's recursion has a depth
  \<open>d\<close>, the calls the stack has room for, and running out of it is a fault. A nested message is shorter
  than the message around it, so a depth above the length of the input is always enough, which is the
  hypothesis of the safety theorem. Inputs are shorter than \<open>2 ^ 32\<close> bytes, since member lengths are
  \<open>unsigned\<close>; arrays of \<open>2 ^ 32\<close> elements make the loops over an \<open>unsigned\<close> index hang (\<open>elements\<close>). To
  bound them, resources hold a token per array element next to the blocks. The other recursions on
  heap lists take fuel, with theorems that the list's length is enough. The verifier of FlatBuffers recurses to
  a depth \<open>d\<close> as well; each table lies behind the offset that leads to it, so the length of the block is enough. That the
  verifier agrees with the accessors is proved for buffers of up to \<open>2 ^ 31\<close> bytes, as far as the signed offset of a
  table to its vtable reaches. The reference map is proved for allocators that refuse blocks of \<open>2 ^ 56\<close> bytes or more; inserting and
  resizing call each other at most twice.

  \<^bold>\<open>Not modelled.\<close> The C++ wrapper and the examples; the big-endian branches; the version strings;
  default values of message fields, which no code generator emits. The blocks of strings and bytes that unpacking allocates have no size in the
  model, and arrays are as large as their number of elements: what is proved of them is that each is allocated, owned and freed
  once, and that no element is written past the number asked for. An event is part of the block of its socket in C; here it has an address of its own,
  which stays when the block is freed, and so does the address list of the provider, which \<open>KsFreeAddrInfo\<close> hands back. Releasing and deregistering the
  provider always succeed. Signed overflow in the lookup of ranges wraps. \<open>check_result\<close> evaluates a failing call
  once, where the macro does so twice. Of the vendored FlatCC: the schema
  compiler, a build-time tool that never runs in the driver, apart from what its generated verifiers call;
  the JSON parser and printer; the builder with its emitter, apart from its reference map; accessors that search, sort or scan vectors.
\<close>

end
